(* ===== verification/Prelude.thy ===== *)
theory Prelude
  imports Main "HOL-Library.Word"
begin

unbundle bit_operations_syntax

text \<open>
  Shared vocabulary of the development: reading and writing C memory that is seen through
  a pointer, C strings, machine integers, and the generic lemmas on lists and words that the
  component theories use.

  A pointer into a character array is modelled by the memory from that pointer on, a
  \<^typ>\<open>string\<close>; moving the pointer forward drops bytes, and \<open>p - s\<close> of two pointers into the
  same array is the difference of the lengths. A read past the end of the known memory
  yields the NUL byte; the theories that parse C strings prove that their results do not
  depend on anything behind the first NUL, so this choice is never observed.
\<close>

named_theorems cmem \<open>reading and writing C memory\<close>

type_synonym uint32 = "32 word"
type_synonym size_t = "64 word"

abbreviation NUL :: char where
  "NUL \<equiv> CHR 0x00"

subsection \<open>C strings\<close>

definition at :: "string \<Rightarrow> nat \<Rightarrow> char" where
  "at p i = (if i < length p then p ! i else NUL)"

abbreviation deref :: "string \<Rightarrow> char" where
  "deref p \<equiv> at p 0"

definition cstring :: "string \<Rightarrow> string" where
  "cstring p = takeWhile (\<lambda>c. c \<noteq> NUL) p"

definition strcmp_eq :: "string \<Rightarrow> string \<Rightarrow> bool" where
  "strcmp_eq a b = (cstring a = cstring b)"

definition ptr_diff :: "string \<Rightarrow> string \<Rightarrow> nat" where
  "ptr_diff p s = length s - length p"

lemma at_Nil [simp, cmem]: "at [] i = NUL"
  by (simp add: at_def)

lemma at_Cons_0 [simp, cmem]: "at (c # p) 0 = c"
  by (simp add: at_def)

lemma at_Cons_Suc [simp, cmem]: "at (c # p) (Suc i) = at p i"
  by (simp add: at_def)

lemma at_Cons_numeral [simp, cmem]: "at (c # p) (numeral k) = at p (pred_numeral k)"
  by (simp add: numeral_eq_Suc)

lemma at_Cons_1 [simp, cmem]: "at (c # p) 1 = at p 0"
  by (simp add: at_def)

lemma at_append_length [simp]: "at (xs @ c # ys) (length xs) = c"
  by (simp add: at_def nth_append)

lemma deref_append [simp]: "xs \<noteq> [] \<Longrightarrow> deref (xs @ ys) = deref xs"
  by (cases xs) auto

lemma deref_neq_NUL_Cons: "deref p \<noteq> NUL \<Longrightarrow> \<exists>c q. p = c # q \<and> c \<noteq> NUL"
  by (cases p) auto

lemma cstring_Nil [simp]: "cstring [] = []"
  by (simp add: cstring_def)

lemma cstring_Cons [simp]: "cstring (c # p) = (if c = NUL then [] else c # cstring p)"
  by (simp add: cstring_def)

lemma cstring_id: "NUL \<notin> set p \<Longrightarrow> cstring p = p"
  by (auto simp: cstring_def takeWhile_eq_all_conv)

lemma NUL_notin_cstring [simp]: "NUL \<notin> set (cstring p)"
  by (auto simp: cstring_def dest: set_takeWhileD)

lemma cstring_idem [simp]: "cstring (cstring p) = cstring p"
  by (rule cstring_id) simp

lemma cstring_append_NUL [simp]: "cstring (p @ NUL # q) = cstring p"
  by (induction p) auto

lemma deref_cstring [simp]: "deref (cstring p) = deref p"
  by (cases p) auto

text \<open>\<open>q\<close> is reached from \<open>p\<close> by stepping over characters other than NUL.\<close>

definition takes :: "string \<Rightarrow> string \<Rightarrow> bool" where
  "takes p q \<longleftrightarrow> (\<exists>w. NUL \<notin> set w \<and> p = w @ q)"

lemma takes_refl [simp]: "takes p p"
  by (simp add: takes_def)

lemma takes_trans: "takes p q \<Longrightarrow> takes q r \<Longrightarrow> takes p r"
  unfolding takes_def by (metis Un_iff append.assoc set_append)

lemma takes_Cons: "c \<noteq> NUL \<Longrightarrow> takes p q \<Longrightarrow> takes (c # p) q"
  unfolding takes_def by (metis append_Cons set_ConsD)

lemma takes_tl: "deref p \<noteq> NUL \<Longrightarrow> takes p (tl p)"
  by (cases p) (auto simp: takes_Cons)

lemma takes_append: "NUL \<notin> set w \<Longrightarrow> takes (w @ q) q"
  by (auto simp: takes_def)

lemma takes_drop: "(\<forall>j<k. at p j \<noteq> NUL) \<Longrightarrow> takes p (drop k p)"
proof (induction k arbitrary: p)
  case (Suc k)
  then obtain c q where "p = c # q" "c \<noteq> NUL"
    using deref_neq_NUL_Cons by blast
  with Suc show ?case by (force intro: takes_Cons)
qed simp

lemma takes_suffix: "takes p q \<Longrightarrow> \<exists>w. p = w @ q"
  by (auto simp: takes_def)

lemma cstring_append: "NUL \<notin> set w \<Longrightarrow> cstring (w @ r) = w @ cstring r"
  by (induction w) auto

lemma takes_ptr_diff: "takes p q \<Longrightarrow> ptr_diff (cstring q) (cstring p) = ptr_diff q p"
  by (auto simp: takes_def ptr_diff_def cstring_append)

subsection \<open>Machine integers\<close>

definition schar :: "char \<Rightarrow> uint32" where
  \<comment> \<open>a (signed) \<^verbatim>\<open>char\<close> promoted to \<^verbatim>\<open>int\<close> and converted to \<^verbatim>\<open>unsigned int\<close>\<close>
  "schar c = signed_take_bit 7 (of_char c)"

definition to_char :: "'a::len word \<Rightarrow> char" where
  \<comment> \<open>conversion of an integer to \<^verbatim>\<open>char\<close>: the low eight bits\<close>
  "to_char w = char_of (unat w)"

lemma at_cstring: "(\<forall>j<k. at p j \<noteq> NUL) \<Longrightarrow> at (cstring p) k = at p k"
proof (induction k arbitrary: p)
  case (Suc k)
  then obtain c q where "p = c # q" "c \<noteq> NUL"
    using deref_neq_NUL_Cons by blast
  with Suc show ?case by force
qed simp

lemma drop_cstring: "(\<forall>j<k. at p j \<noteq> NUL) \<Longrightarrow> drop k (cstring p) = cstring (drop k p)"
proof (induction k arbitrary: p)
  case (Suc k)
  then obtain c q where "p = c # q" "c \<noteq> NUL"
    using deref_neq_NUL_Cons by blast
  with Suc show ?case by force
qed simp

subsection \<open>Bits\<close>

lemma nat_or_disjoint: "w < 2 ^ k \<Longrightarrow> (2 ^ k * d) OR w = 2 ^ k * d + (w::nat)"
proof -
  assume "w < 2 ^ k"
  then have "\<not> (bit (2 ^ k * d) i \<and> bit w i)" for i
    by (metis bit_push_bit_iff_nat linorder_not_less mult.commute nat_take_bit_eq push_bit_eq_mult take_bit_nat_eq_self bit_take_bit_iff)
  then have "(2 ^ k * d) AND w = 0"
    by (intro bit_eqI) (auto simp: bit_and_iff)
  then show ?thesis
    by (simp add: disjunctive_add_eq_or)
qed

lemma unat_or_disjoint:
  assumes "unat w < 2 ^ k" "unat v = 2 ^ k * d"
  shows "unat (v OR w) = unat v + unat (w :: 'a::len word)"
  using nat_or_disjoint[OF assms(1), of d] assms(2) by (simp add: unsigned_or_eq)

lemma unat_and_mask: "unat (w AND mask k :: 'a::len word) = unat w mod 2 ^ k"
  by (simp only: unsigned_take_bit_eq flip: take_bit_eq_mask) (simp add: take_bit_eq_mod)

lemma unat_drop_bit: "unat (drop_bit k w :: 'a::len word) = unat w div 2 ^ k"
  by (simp only: unsigned_drop_bit_eq) (simp add: drop_bit_eq_div take_bit_nat_eq_self)

lemma unat_power_2:
  assumes "k < LENGTH('a::len)"
  shows "unat (2 ^ k :: 'a word) = 2 ^ k"
proof -
  have "(2 ^ k :: 'a word) = of_nat (2 ^ k)" by simp
  moreover have "(2::nat) ^ k < 2 ^ LENGTH('a)" using assms by simp
  ultimately show ?thesis by (simp only: unat_of_nat mod_less)
qed

lemma bit_or_drop:
  assumes "\<And>i. bit n i \<longleftrightarrow> (\<exists>j<k. bit m (i + j))" "l = 2 * k"
  shows "bit (n OR drop_bit k n) i \<longleftrightarrow> (\<exists>j<l. bit m (i + j))"
proof -
  have "bit (n OR drop_bit k n) i \<longleftrightarrow> (\<exists>j<k. bit m (i + j)) \<or> (\<exists>j<k. bit m (i + (k + j)))"
    by (simp add: bit_or_iff bit_drop_bit_eq assms(1) ac_simps)
  also have "\<dots> \<longleftrightarrow> (\<exists>j<l. bit m (i + j))"
  proof
    assume "(\<exists>j<k. bit m (i + j)) \<or> (\<exists>j<k. bit m (i + (k + j)))"
    then show "\<exists>j<l. bit m (i + j)"
    proof
      assume "\<exists>j<k. bit m (i + (k + j))"
      then obtain j where "j < k" "bit m (i + (k + j))" by blast
      then show ?thesis using assms(2) by (intro exI[of _ "k + j"]) simp
    qed (use assms(2) in force)
  next
    assume "\<exists>j<l. bit m (i + j)"
    then obtain j where j: "j < l" "bit m (i + j)" by blast
    show "(\<exists>j<k. bit m (i + j)) \<or> (\<exists>j<k. bit m (i + (k + j)))"
    proof (cases "j < k")
      case False
      with j assms(2) have "j - k < k" "bit m (i + (k + (j - k)))" by simp_all
      then show ?thesis by blast
    qed (use j in blast)
  qed
  finally show ?thesis .
qed

lemma bit_top:
  assumes "2 ^ k \<le> x" "x < 2 ^ Suc k"
  shows "bit (x::nat) k" "\<And>i. k < i \<Longrightarrow> \<not> bit x i"
proof -
  have "x div 2 ^ k = 1"
    using assms by (intro div_nat_eqI) auto
  then show "bit x k"
    by (simp add: bit_iff_odd)
  fix i assume "k < i"
  then have "(2::nat) ^ Suc k \<le> 2 ^ i" by (intro power_increasing) auto
  with assms show "\<not> bit x i" by (simp add: bit_iff_odd div_nat_eqI)
qed

subsection \<open>Arrays of pointers\<close>

text \<open>The non-NULL pointers of an array, in order.\<close>

fun somes :: "'a option list \<Rightarrow> 'a list" where
  "somes [] = []"
| "somes (None # xs) = somes xs"
| "somes (Some x # xs) = x # somes xs"

lemma set_somes: "x \<in> set (somes xs) \<longleftrightarrow> Some x \<in> set xs"
  by (induction xs rule: somes.induct) auto

lemma length_somes: "length (somes xs) \<le> length xs"
  by (induction xs rule: somes.induct) auto

lemma somes_replicate_None [simp]: "somes (replicate n None) = []"
  by (induction n) auto

lemma length_somes_full: "length (somes xs) = length xs \<longleftrightarrow> None \<notin> set xs"
proof (induction xs rule: somes.induct)
  case (2 xs)
  then show ?case using length_somes[of xs] by auto
qed auto

lemma somes_update:
  "i < length xs \<Longrightarrow> xs ! i = None \<Longrightarrow>
   \<exists>ys zs. somes xs = ys @ zs \<and> somes (xs[i := Some x]) = ys @ x # zs"
proof (induction xs arbitrary: i rule: somes.induct)
  case (2 xs)
  show ?case
  proof (cases i)
    case 0
    then show ?thesis by force
  next
    case (Suc j)
    then obtain ys zs where "somes xs = ys @ zs" "somes (xs[j := Some x]) = ys @ x # zs"
      using 2(1)[of j] 2(2,3) by auto
    with Suc show ?thesis by auto
  qed
next
  case (3 a xs)
  then obtain j where j: "i = Suc j" by (cases i) auto
  then obtain ys zs where "somes xs = ys @ zs" "somes (xs[j := Some x]) = ys @ x # zs"
    using 3(1)[of j] 3(2,3) by auto
  with j show ?case by (intro exI[of _ "a # ys"] exI[of _ zs]) simp
qed simp

end
