(* ===== verification/Dotjson_Text.thy ===== *)
theory Dotjson_Text
  imports Prelude
begin

unbundle bit_operations_syntax

text \<open>
  The lexical layer of \<^verbatim>\<open>src/c/dotjson/dotjson.c\<close>: skipping white space and (in a build with
  \<^verbatim>\<open>DOTJSON_FEATURE_COMMENT\<close>) comments, the string hash, \<^verbatim>\<open>min_bucket\<close>, the UTF-8 encoder
  and the unescaping of string literals. The build option is the Boolean argument \<open>fc\<close> of
  \<open>IGNORE_CHARS\<close>, so every theorem covers both builds.
\<close>

section \<open>Definitions\<close>

subsection \<open>White space and comments\<close>

definition is_space :: "char \<Rightarrow> bool" where
  "is_space c = (c = CHR '' '' \<or> c = CHR 0x09 \<or> c = CHR 0x0A \<or> c = CHR 0x0D)"

fun IGNORE_SPACE :: "string \<Rightarrow> string" where
  "IGNORE_SPACE [] = []"
| "IGNORE_SPACE (c # p) = (if is_space c then IGNORE_SPACE p else c # p)"

fun skip_line_comment :: "string \<Rightarrow> string" where
  "skip_line_comment [] = []"
| "skip_line_comment (c # p) =
     (if c = NUL then c # p else if c = CHR 0x0A then p else skip_line_comment p)"

fun skip_block_comment :: "string \<Rightarrow> string" where
  "skip_block_comment [] = []"
| "skip_block_comment (c # p) =
     (if c = NUL then c # p
      else if c = CHR ''*'' \<and> deref p = CHR ''/'' then tl p
      else skip_block_comment p)"

lemma length_IGNORE_SPACE [termination_simp]: "length (IGNORE_SPACE p) \<le> length p"
  by (induction p) auto

lemma length_skip_line_comment [termination_simp]: "length (skip_line_comment p) \<le> length p"
  by (induction p) auto

lemma length_skip_block_comment [termination_simp]: "length (skip_block_comment p) \<le> length p"
  by (induction p) auto

lemma skip_line_comment_slash:
  "deref p = CHR ''/'' \<Longrightarrow> length (skip_line_comment p) < length p"
  using length_skip_line_comment[of "tl p"] by (cases p) auto

function ignore_chars :: "string \<Rightarrow> string" where
  "ignore_chars p =
     (let p = IGNORE_SPACE p in
      if deref p = CHR ''/'' then
        if at p 1 = CHR ''/'' then ignore_chars (skip_line_comment p)
        else if at p 1 = CHR ''*'' then ignore_chars (skip_block_comment (drop 2 p))
        else p
      else p)"
  by pat_completeness auto

termination
proof (relation "measure length", goal_cases)
  case (2 p q)
  then show ?case
    using skip_line_comment_slash[of q] length_IGNORE_SPACE[of p] by auto
next
  case (3 p q)
  then have "0 < length q"
    by (cases "IGNORE_SPACE p") auto
  moreover have "length (skip_block_comment (drop 2 q)) \<le> length q - 2"
    using length_skip_block_comment[of "drop 2 q"] by simp
  ultimately have "length (skip_block_comment (drop 2 q)) < length q"
    by linarith
  with 3 show ?case
    using length_IGNORE_SPACE[of p] by simp
qed auto

declare ignore_chars.simps [simp del]

definition IGNORE_CHARS :: "bool \<Rightarrow> string \<Rightarrow> string" where
  "IGNORE_CHARS fc p = (if fc then ignore_chars p else IGNORE_SPACE p)"

subsection \<open>Hash and bucket size\<close>

definition hash_seed :: uint32 where
  "hash_seed = 1313"

fun hash_loop :: "uint32 \<Rightarrow> string \<Rightarrow> uint32" where
  "hash_loop h [] = h"
| "hash_loop h (c # s) = (if c = NUL then h else hash_loop (h * hash_seed + schar c) s)"

definition hash :: "string \<Rightarrow> uint32" where
  "hash s = hash_loop hash_seed s"

definition min_bucket :: "size_t \<Rightarrow> size_t" where
  "min_bucket n =
     (let n = n - 1;
          n = n OR drop_bit 1 n;
          n = n OR drop_bit 2 n;
          n = n OR drop_bit 4 n;
          n = n OR drop_bit 8 n;
          n = n OR drop_bit 16 n
      in n + 1)"

subsection \<open>UTF-8\<close>

text \<open>\<open>u8 = None\<close> is the NULL pointer: only the length is computed.\<close>

fun put_bytes :: "string \<Rightarrow> nat \<Rightarrow> uint32 list \<Rightarrow> string" where
  "put_bytes u8 i [] = u8"
| "put_bytes u8 i (b # bs) = put_bytes (u8[i := to_char b]) (Suc i) bs"

definition uc_2_utf8 :: "uint32 \<Rightarrow> string option \<Rightarrow> nat \<times> string option" where
  "uc_2_utf8 uc u8 =
     (if uc \<le> 0x7f then
        (1, map_option (\<lambda>b. put_bytes b 0 [uc]) u8)
      else if uc \<le> 0x7ff then
        (2, map_option (\<lambda>b. put_bytes b 0
              [0xc0 OR drop_bit 6 uc, 0x80 OR (uc AND 0x3f)]) u8)
      else if uc \<le> 0xffff then
        (3, map_option (\<lambda>b. put_bytes b 0
              [0xe0 OR drop_bit 12 uc, 0x80 OR (drop_bit 6 uc AND 0x3f),
               0x80 OR (uc AND 0x3f)]) u8)
      else if uc \<le> 0x1fffff then
        (4, map_option (\<lambda>b. put_bytes b 0
              [0xf0 OR drop_bit 18 uc, 0x80 OR (drop_bit 12 uc AND 0x3f),
               0x80 OR (drop_bit 6 uc AND 0x3f), 0x80 OR (uc AND 0x3f)]) u8)
      else if uc \<le> 0x3ffffff then
        (5, map_option (\<lambda>b. put_bytes b 0
              [0xf8 OR drop_bit 24 uc, 0x80 OR (drop_bit 18 uc AND 0x3f),
               0x80 OR (drop_bit 12 uc AND 0x3f), 0x80 OR (drop_bit 6 uc AND 0x3f),
               0x80 OR (uc AND 0x3f)]) u8)
      else if uc \<le> 0x7fffffff then
        (6, map_option (\<lambda>b. put_bytes b 0
              [0xfc OR drop_bit 30 uc, 0x80 OR (drop_bit 24 uc AND 0x3f),
               0x80 OR (drop_bit 18 uc AND 0x3f), 0x80 OR (drop_bit 12 uc AND 0x3f),
               0x80 OR (drop_bit 6 uc AND 0x3f), 0x80 OR (uc AND 0x3f)]) u8)
      else (0, u8))"

subsection \<open>String literals\<close>

definition is_digit :: "char \<Rightarrow> bool" where
  "is_digit c = (48 \<le> (of_char c :: nat) \<and> (of_char c :: nat) \<le> 57)"

definition is_hex_alpha :: "char \<Rightarrow> bool" where
  "is_hex_alpha c =
     (65 \<le> (of_char c :: nat) \<and> (of_char c :: nat) \<le> 70 \<or>
      97 \<le> (of_char c :: nat) \<and> (of_char c :: nat) \<le> 102)"

function hex_loop :: "string \<Rightarrow> nat \<Rightarrow> uint32 \<Rightarrow> uint32 option" where
  "hex_loop p i uc =
     (if i \<le> 4 then
        let uc = push_bit 4 uc; c = at p i in
        if is_digit c then hex_loop p (Suc i) (uc OR (schar c AND 0x0f))
        else if is_hex_alpha c then hex_loop p (Suc i) (uc OR ((schar c AND 0x0f) + 9))
        else None
      else Some uc)"
  by pat_completeness auto
termination
  by (relation "measure (\<lambda>(p, i, uc). 5 - i)") auto

declare hex_loop.simps [simp del]

definition escape_char :: "char \<Rightarrow> char option" where
  "escape_char c =
     (if c = CHR 0x22 then Some CHR 0x22
      else if c = CHR 0x5C then Some CHR 0x5C
      else if c = CHR ''/'' then Some CHR ''/''
      else if c = CHR ''b'' then Some CHR 0x08
      else if c = CHR ''f'' then Some CHR 0x0C
      else if c = CHR ''n'' then Some CHR 0x0A
      else if c = CHR ''r'' then Some CHR 0x0D
      else if c = CHR ''t'' then Some CHR 0x09
      else None)"

definition write_at :: "string option \<Rightarrow> nat \<Rightarrow> char \<Rightarrow> string option" where
  "write_at buf n c = map_option (\<lambda>b. b[n := c]) buf"

definition write_utf8 :: "string option \<Rightarrow> nat \<Rightarrow> uint32 \<Rightarrow> string option" where
  \<comment> \<open>\<^verbatim>\<open>uc_2_utf8(uc, buf + n)\<close>\<close>
  "write_utf8 buf n uc =
     map_option (\<lambda>b. take n b @ the (snd (uc_2_utf8 uc (Some (drop n b))))) buf"

text \<open>
  The scan loop returns, beside the destination buffer, \<open>None\<close> for the early \<^verbatim>\<open>return 0\<close>
  and otherwise the pointer to the closing quote and the number of bytes produced. The
  buffer is returned on failure too: it may have been written before the error was seen.
\<close>

function (sequential) unescape_loop ::
  "string \<Rightarrow> string option \<Rightarrow> nat \<Rightarrow> nat \<Rightarrow> (string \<times> nat) option \<times> string option" where
  "unescape_loop [] buf n l = (None, buf)"
| "unescape_loop (c # p) buf n l =
     (if c = CHR 0x22 then (Some (c # p, n), buf)
      else if c = NUL then (None, buf)
      else if c = CHR 0x5C then
        if deref p = CHR ''u'' then
          (case hex_loop p 1 0 of
             None \<Rightarrow> (None, buf)
           | Some uc \<Rightarrow>
               let i = fst (uc_2_utf8 uc None) in
               unescape_loop (drop 5 p)
                 (if n + i \<le> l then write_utf8 buf n uc else buf) (n + i) l)
        else
          (case escape_char (deref p) of
             None \<Rightarrow> (None, buf)
           | Some c \<Rightarrow>
               unescape_loop (drop 1 p) (if n < l then write_at buf n c else buf) (Suc n) l)
      else unescape_loop p (if n < l then write_at buf n c else buf) (Suc n) l)"
  by pat_completeness auto
termination
  by (relation "measure (\<lambda>(p, buf, n, l). length p)") auto

text \<open>
  \<^verbatim>\<open>unescape_str(s, buf, len)\<close>: the result is the return value (0 on a malformed literal),
  the destination buffer and the value behind \<^verbatim>\<open>len\<close> afterwards.
\<close>

definition unescape_str ::
  "string \<Rightarrow> string option \<Rightarrow> nat option \<Rightarrow> nat \<times> string option \<times> nat option" where
  "unescape_str s buf len =
     (if deref s \<noteq> CHR 0x22 then (0, buf, len)
      else
        let l = (case (buf, len) of (Some b, Some n) \<Rightarrow> n | _ \<Rightarrow> 0) in
        case unescape_loop (tl s) buf 0 l of
          (None, buf') \<Rightarrow> (0, buf', len)
        | (Some (p, n), buf') \<Rightarrow>
            (ptr_diff (tl p) s, buf', map_option (\<lambda>_. n) len))"

section \<open>Lemmas\<close>

subsection \<open>Bucket size\<close>

text \<open>The shift-and-or cascade of \<^verbatim>\<open>min_bucket\<close>, without the decrement and increment.\<close>

definition smear :: "size_t \<Rightarrow> size_t" where
  "smear n =
     (let n = n OR drop_bit 1 n; n = n OR drop_bit 2 n; n = n OR drop_bit 4 n;
          n = n OR drop_bit 8 n in n OR drop_bit 16 n)"

lemma bit_smear: "bit (smear n) i \<longleftrightarrow> (\<exists>j<32. bit n (i + j))"
proof -
  define n2 where "n2 = n OR drop_bit 1 n"
  define n4 where "n4 = n2 OR drop_bit 2 n2"
  define n8 where "n8 = n4 OR drop_bit 4 n4"
  define n16 where "n16 = n8 OR drop_bit 8 n8"
  have 2: "bit n2 i \<longleftrightarrow> (\<exists>j<2. bit n (i + j))" for i
    unfolding n2_def by (rule bit_or_drop) simp_all
  have 4: "bit n4 i \<longleftrightarrow> (\<exists>j<4. bit n (i + j))" for i
    unfolding n4_def by (rule bit_or_drop[OF 2]) simp
  have 8: "bit n8 i \<longleftrightarrow> (\<exists>j<8. bit n (i + j))" for i
    unfolding n8_def by (rule bit_or_drop[OF 4]) simp
  have 16: "bit n16 i \<longleftrightarrow> (\<exists>j<16. bit n (i + j))" for i
    unfolding n16_def by (rule bit_or_drop[OF 8]) simp
  have "smear n = n16 OR drop_bit 16 n16"
    unfolding smear_def Let_def n2_def n4_def n8_def n16_def by (rule refl)
  then show ?thesis
    using bit_or_drop[OF 16, of 32 i] by simp
qed

lemma smear_mask:
  assumes "bit n k" "k < 32" "\<And>i. k < i \<Longrightarrow> \<not> bit n i"
  shows "smear n = mask (Suc k)"
proof (rule bit_eqI)
  fix i assume "possible_bit TYPE(size_t) i"
  then have "i < 64" by simp
  show "bit (smear n) i \<longleftrightarrow> bit (mask (Suc k) :: size_t) i"
  proof (cases "i \<le> k")
    case True
    then have "bit n (i + (k - i))" "k - i < 32" using assms by auto
    with True show ?thesis by (auto simp: bit_smear bit_mask_iff less_Suc_eq_le \<open>i < 64\<close>)
  next
    case False
    then show ?thesis using assms(3) by (auto simp: bit_smear bit_mask_iff)
  qed
qed

lemma unat_min_bucket:
  assumes "2 ^ k < n" "n \<le> 2 ^ Suc k" "k < 32"
  shows "unat (min_bucket (of_nat n)) = 2 ^ Suc k"
proof -
  let ?m = "of_nat n - 1 :: size_t"
  have lim: "(2::nat) ^ Suc k \<le> 2 ^ 32" using assms(3) by (intro power_increasing) auto
  have n: "0 < n" using assms(1) by (cases n) auto
  then have m: "?m = of_nat (n - 1)" by (simp add: of_nat_diff)
  have bits: "bit ?m i \<longleftrightarrow> bit (n - 1) i" if "i < 64" for i
    using that unfolding m by (simp add: bit_of_nat_iff)
  have hi: "bit ?m k" "\<And>i. k < i \<Longrightarrow> \<not> bit ?m i"
  proof -
    have *: "2 ^ k \<le> n - 1" "n - 1 < 2 ^ Suc k" using assms(1,2) n by auto
    show "bit ?m k" using bit_top(1)[OF *] bits[of k] assms(3) by simp
    fix i assume "k < i"
    then show "\<not> bit ?m i"
      using bit_top(2)[OF *, of i] bits[of i] bit_imp_le_length[of ?m i] by (cases "i < 64") auto
  qed
  have "min_bucket (of_nat n) = smear ?m + 1"
    by (simp only: min_bucket_def smear_def Let_def)
  also have "\<dots> = mask (Suc k) + 1"
    by (simp only: smear_mask[OF hi(1) assms(3) hi(2)])
  also have "\<dots> = 2 ^ Suc k"
    by (simp add: mask_eq_exp_minus_1)
  finally show ?thesis
    using assms(3) unat_power_2[where 'a = 64, of "Suc k"] by simp
qed

declare put_bytes.simps [simp del]

lemma put_bytes_eq:
  "i + length bs \<le> length u8 \<Longrightarrow>
   put_bytes u8 i bs = take i u8 @ map to_char bs @ drop (i + length bs) u8"
proof (induction bs arbitrary: u8 i)
  case (Cons b bs)
  then have "i < length u8" by simp
  with Cons show ?case
    by (simp add: take_Suc_conv_app_nth drop_update_cancel put_bytes.simps)
qed (simp add: put_bytes.simps)

subsection \<open>UTF-8\<close>

text \<open>
  A reference encoder over natural numbers (a lead byte, then six payload bits per
  continuation byte) and the decoder that inverts it.
\<close>

primrec utf8_tail :: "nat \<Rightarrow> nat \<Rightarrow> nat list" where
  "utf8_tail 0 n = []"
| "utf8_tail (Suc k) n = utf8_tail k (n div 64) @ [128 + n mod 64]"

definition utf8_ref :: "nat \<Rightarrow> nat list" where
  "utf8_ref n =
     (if n < 0x80 then [n]
      else if n < 0x800 then (0xc0 + n div 64) # utf8_tail 1 n
      else if n < 0x10000 then (0xe0 + n div 64 ^ 2) # utf8_tail 2 n
      else if n < 0x200000 then (0xf0 + n div 64 ^ 3) # utf8_tail 3 n
      else if n < 0x4000000 then (0xf8 + n div 64 ^ 4) # utf8_tail 4 n
      else (0xfc + n div 64 ^ 5) # utf8_tail 5 n)"

definition utf8_lead :: "nat \<Rightarrow> nat" where
  "utf8_lead b =
     (if b < 0xc0 then b
      else if b < 0xe0 then b - 0xc0
      else if b < 0xf0 then b - 0xe0
      else if b < 0xf8 then b - 0xf0
      else if b < 0xfc then b - 0xf8
      else b - 0xfc)"

fun utf8_dec :: "nat list \<Rightarrow> nat" where
  "utf8_dec [] = 0"
| "utf8_dec (b # bs) = foldl (\<lambda>a c. a * 64 + (c - 128)) (utf8_lead b) bs"

lemma length_utf8_tail [simp]: "length (utf8_tail k n) = k"
  by (induction k arbitrary: n) auto

lemma foldl_utf8_tail:
  "foldl (\<lambda>a c. a * 64 + (c - 128)) (n div 64 ^ k) (utf8_tail k n) = n"
proof (induction k arbitrary: n)
  case (Suc k)
  have "n div 64 ^ Suc k = n div 64 div 64 ^ k"
    by (simp add: div_mult2_eq)
  then show ?case
    using Suc[of "n div 64"] by simp
qed simp

lemma utf8_tail_1: "utf8_tail 1 n = [128 + n mod 64]"
  by simp

lemma utf8_tail_numeral:
  "utf8_tail (numeral k) n = utf8_tail (pred_numeral k) (n div 64) @ [128 + n mod 64]"
  by (simp only: numeral_eq_Suc[of k] utf8_tail.simps)

lemma utf8_tail_unfold:
  "utf8_tail 2 n = [128 + n div 2 ^ 6 mod 64, 128 + n mod 64]"
  "utf8_tail 3 n = [128 + n div 2 ^ 12 mod 64, 128 + n div 2 ^ 6 mod 64, 128 + n mod 64]"
  "utf8_tail 4 n = [128 + n div 2 ^ 18 mod 64, 128 + n div 2 ^ 12 mod 64,
     128 + n div 2 ^ 6 mod 64, 128 + n mod 64]"
  "utf8_tail 5 n = [128 + n div 2 ^ 24 mod 64, 128 + n div 2 ^ 18 mod 64,
     128 + n div 2 ^ 12 mod 64, 128 + n div 2 ^ 6 mod 64, 128 + n mod 64]"
  by (simp_all add: utf8_tail_numeral flip: div_mult2_eq)

lemma utf8_cases [case_names 1 2 3 4 5 6]:
  fixes n :: nat
  obtains "n < 0x80" | "\<not> n < 0x80" "n < 0x800" | "\<not> n < 0x800" "n < 0x10000"
    | "\<not> n < 0x10000" "n < 0x200000" | "\<not> n < 0x200000" "n < 0x4000000"
    | "\<not> n < 0x4000000"
  by linarith

lemma utf8_lead_base:
  "x < 0x80 \<Longrightarrow> utf8_lead x = x"
  "x < 0x20 \<Longrightarrow> utf8_lead (0xc0 + x) = x"
  "x < 0x10 \<Longrightarrow> utf8_lead (0xe0 + x) = x"
  "x < 8 \<Longrightarrow> utf8_lead (0xf0 + x) = x"
  "x < 4 \<Longrightarrow> utf8_lead (0xf8 + x) = x"
  "utf8_lead (0xfc + x) = x"
  by (simp_all add: utf8_lead_def)

lemma utf8_dec_ref: "utf8_dec (utf8_ref n) = n"
proof (cases n rule: utf8_cases)
  case 1
  then show ?thesis by (simp add: utf8_ref_def utf8_lead_base)
next
  case 2
  then have "n div 64 < 0x20" by (simp add: div_less_iff_less_mult)
  with 2 show ?thesis using foldl_utf8_tail[of n 1] by (simp add: utf8_ref_def utf8_lead_base)
next
  case 3
  then have "n div 64 ^ 2 < 0x10" by (simp add: div_less_iff_less_mult)
  then have "utf8_dec ((0xe0 + n div 64 ^ 2) # utf8_tail 2 n) = n"
    by (simp only: utf8_dec.simps utf8_lead_base foldl_utf8_tail)
  with 3 show ?thesis by (simp only: utf8_ref_def if_False if_True) simp
next
  case 4
  then have "n div 64 ^ 3 < 8" by (simp add: div_less_iff_less_mult)
  then have "utf8_dec ((0xf0 + n div 64 ^ 3) # utf8_tail 3 n) = n"
    by (simp only: utf8_dec.simps utf8_lead_base foldl_utf8_tail)
  with 4 show ?thesis by (simp only: utf8_ref_def if_False if_True) simp
next
  case 5
  then have "n div 64 ^ 4 < 4" by (simp add: div_less_iff_less_mult)
  then have "utf8_dec ((0xf8 + n div 64 ^ 4) # utf8_tail 4 n) = n"
    by (simp only: utf8_dec.simps utf8_lead_base foldl_utf8_tail)
  with 5 show ?thesis by (simp only: utf8_ref_def if_False if_True) simp
next
  case 6
  have "utf8_dec ((0xfc + n div 64 ^ 5) # utf8_tail 5 n) = n"
    by (simp only: utf8_dec.simps utf8_lead_base foldl_utf8_tail)
  with 6 show ?thesis by (simp only: utf8_ref_def if_False if_True) simp
qed

lemma to_char_or:
  assumes "unat w < 2 ^ k" "unat v = 2 ^ k * d"
  shows "to_char (v OR w) = char_of (unat v + unat (w :: 'a::len word))"
  by (simp add: to_char_def unat_or_disjoint[OF assms])

lemma to_char_cont: "to_char (0x80 OR (w AND 0x3f) :: uint32) = char_of (128 + unat w mod 64)"
proof -
  have m: "(0x3f :: uint32) = mask 6" by (simp add: mask_eq_exp_minus_1)
  have "unat (w AND 0x3f) = unat w mod 64" unfolding m unat_and_mask by simp
  moreover have "unat w mod 64 < 2 ^ 6" by simp
  ultimately show ?thesis
    using to_char_or[of "w AND 0x3f" 6 "0x80" 2] by simp
qed

lemma to_char_lead:
  assumes "unat uc div 2 ^ s < 2 ^ k" "unat (v::uint32) = 2 ^ k * d"
  shows "to_char (v OR drop_bit s uc) = char_of (unat v + unat uc div 2 ^ s)"
  using to_char_or[of "drop_bit s uc" k v d] assms by (simp add: unat_drop_bit)

lemma uc_2_utf8_eq:
  assumes "unat uc < 0x80000000" "length (utf8_ref (unat uc)) \<le> length b"
  shows "uc_2_utf8 uc (Some b) = (length (utf8_ref (unat uc)),
     Some (map char_of (utf8_ref (unat uc)) @ drop (length (utf8_ref (unat uc))) b))"
proof -
  let ?n = "unat uc"
  have le: "uc \<le> numeral k \<longleftrightarrow> ?n \<le> unat (numeral k :: uint32)" for k
    by (simp add: word_le_nat_alt)
  note lead = to_char_lead[where uc = uc]
  note defs = uc_2_utf8_def utf8_ref_def le put_bytes_eq to_char_cont unat_drop_bit utf8_tail_1 utf8_tail_unfold
  show ?thesis
  proof (cases ?n rule: utf8_cases)
    case 1
    with assms show ?thesis by (simp add: defs) (simp add: to_char_def)
  next
    case 2
    with assms lead[of 6 5 "0xc0" 6] show ?thesis by (simp add: defs)
  next
    case 3
    with assms lead[of 12 4 "0xe0" 14] show ?thesis by (simp add: defs)
  next
    case 4
    with assms lead[of 18 3 "0xf0" 30] show ?thesis by (simp add: defs)
  next
    case 5
    with assms lead[of 24 2 "0xf8" 62] show ?thesis by (simp add: defs)
  next
    case 6
    with assms lead[of 30 1 "0xfc" 126] show ?thesis by (simp add: defs)
  qed
qed

subsection \<open>Skipping\<close>

locale skipper =
  fixes skip :: "string \<Rightarrow> string"
  assumes skip_takes: "takes p (skip p)"
    and skip_idem: "skip (skip p) = skip p"
    and skip_cstring: "skip (cstring p) = cstring (skip p)"
    and skip_stop: "\<not> is_space c \<Longrightarrow> c \<noteq> CHR ''/'' \<Longrightarrow> skip (c # p) = c # p"
begin

lemma skip_suffix: "\<exists>w. p = w @ skip p"
  using skip_takes by (rule takes_suffix)

lemma skip_length: "length (skip p) \<le> length p"
  using skip_suffix[of p] by (metis length_append le_add2)

lemma skip_drop: "drop (ptr_diff (skip p) p) p = skip p"
  using skip_suffix[of p] by (metis add_diff_cancel_right' append_eq_conv_conj length_append ptr_diff_def)

lemma skip_Nil: "skip [] = []"
  using skip_suffix[of "[]"] by simp

end

lemma IGNORE_SPACE_conv: "IGNORE_SPACE p = dropWhile is_space p"
  by (induction p) auto

lemma IGNORE_SPACE_takes: "takes p (IGNORE_SPACE p)"
  by (induction p) (auto simp: is_space_def intro: takes_Cons)

lemma skip_line_comment_takes: "takes p (skip_line_comment p)"
  by (induction p) (auto intro: takes_Cons)

lemma skip_block_comment_takes: "takes p (skip_block_comment p)"
proof (induction p)
  case (Cons c p)
  then show ?case
    using takes_tl[of p] by (auto intro: takes_Cons)
qed simp

lemma ignore_chars_takes: "takes p (ignore_chars p)"
proof (induction p rule: ignore_chars.induct)
  case (1 p)
  let ?q = "IGNORE_SPACE p"
  have "takes ?q (drop 2 ?q)" if "deref ?q = CHR ''/''" "at ?q 1 = CHR ''*''"
    by (rule takes_drop) (use that in \<open>auto simp: less_2_cases_iff\<close>)
  with 1[OF refl] IGNORE_SPACE_takes[of p] show ?case
    by (auto simp: ignore_chars.simps[of p] Let_def
        intro: takes_trans[OF IGNORE_SPACE_takes[of p]] takes_trans[OF skip_line_comment_takes]
          takes_trans[of ?q "drop 2 ?q"] takes_trans[OF skip_block_comment_takes])
qed

lemma IGNORE_SPACE_idem: "IGNORE_SPACE (IGNORE_SPACE p) = IGNORE_SPACE p"
  by (simp add: IGNORE_SPACE_conv)

lemma ignore_chars_idem: "ignore_chars (ignore_chars p) = ignore_chars p"
proof (induction p rule: ignore_chars.induct)
  case (1 p)
  show ?case
    using 1[OF refl]
    by (auto simp: ignore_chars.simps[of p] ignore_chars.simps[of "IGNORE_SPACE p"] Let_def
        IGNORE_SPACE_idem)
qed

lemma IGNORE_SPACE_cstring: "IGNORE_SPACE (cstring p) = cstring (IGNORE_SPACE p)"
  by (induction p) (auto simp: is_space_def)

lemma skip_line_comment_cstring: "skip_line_comment (cstring p) = cstring (skip_line_comment p)"
  by (induction p) auto

lemma cstring_tl: "deref p \<noteq> NUL \<Longrightarrow> cstring (tl p) = tl (cstring p)"
  by (cases p) auto

lemma skip_block_comment_cstring:
  "skip_block_comment (cstring p) = cstring (skip_block_comment p)"
  by (induction p) (auto simp: cstring_tl)

lemma ignore_chars_cstring: "ignore_chars (cstring p) = cstring (ignore_chars p)"
proof (induction p rule: ignore_chars.induct)
  case (1 p)
  let ?q = "IGNORE_SPACE p"
  have at1: "deref ?q = CHR ''/'' \<Longrightarrow> at (cstring ?q) 1 = at ?q 1"
    by (rule at_cstring) auto
  have "deref ?q = CHR ''/'' \<Longrightarrow> at ?q 1 = CHR ''*'' \<Longrightarrow> drop 2 (cstring ?q) = cstring (drop 2 ?q)"
    by (rule drop_cstring) (auto simp: less_2_cases_iff)
  then show ?case
    using 1[OF refl] at1
    by (auto simp: ignore_chars.simps[of p] ignore_chars.simps[of "cstring p"] Let_def
        IGNORE_SPACE_cstring skip_line_comment_cstring skip_block_comment_cstring)
qed

interpretation ic: skipper "IGNORE_CHARS fc" for fc
proof unfold_locales
  show "takes p (IGNORE_CHARS fc p)" for p
    by (simp add: IGNORE_CHARS_def ignore_chars_takes IGNORE_SPACE_takes)
  show "IGNORE_CHARS fc (IGNORE_CHARS fc p) = IGNORE_CHARS fc p" for p
    by (simp add: IGNORE_CHARS_def ignore_chars_idem IGNORE_SPACE_idem)
  show "IGNORE_CHARS fc (cstring p) = cstring (IGNORE_CHARS fc p)" for p
    by (simp add: IGNORE_CHARS_def ignore_chars_cstring IGNORE_SPACE_cstring)
  show "IGNORE_CHARS fc (c # p) = c # p" if "\<not> is_space c" "c \<noteq> CHR ''/''" for c p
    using that by (simp add: IGNORE_CHARS_def ignore_chars.simps[of "c # p"])
qed

subsection \<open>Hexadecimal escapes\<close>

definition hex_digit :: "char \<Rightarrow> nat option" where
  "hex_digit c =
     (let n = of_char c in
      if 48 \<le> n \<and> n \<le> 57 then Some (n - 48)
      else if 65 \<le> n \<and> n \<le> 70 then Some (n - 55)
      else if 97 \<le> n \<and> n \<le> 102 then Some (n - 87)
      else None)"

lemma unat_of_char: "unat (of_char c :: uint32) = of_char c"
proof -
  have "of_char c < (2::nat) ^ LENGTH(32)"
    by (rule order_less_trans[OF nat_of_char_less_256]) simp
  then have "unat (of_nat (of_char c) :: uint32) = of_char c"
    by (simp only: unat_of_nat mod_less)
  then show ?thesis by (simp only: of_nat_of_char)
qed

lemma unat_schar_and: "unat (schar c AND 0x0f) = of_char c mod 16"
proof -
  have m: "(0x0f :: uint32) = mask 4" by (simp add: mask_eq_exp_minus_1)
  have "take_bit 4 (schar c) = take_bit 4 (of_char c)"
    unfolding schar_def by (rule take_bit_signed_take_bit) simp
  then have "unat (schar c AND 0x0f) = unat (of_char c AND 0x0f :: uint32)"
    unfolding m by (simp only: take_bit_eq_mask)
  then show ?thesis
    unfolding m by (simp only: unat_and_mask unat_of_char) simp
qed

lemma unat_push_bit_or:
  assumes "unat uc < 2 ^ 28" "unat d < 16"
  shows "unat (push_bit 4 uc OR d :: uint32) = 16 * unat uc + unat d"
proof -
  have "unat (push_bit 4 uc) = 2 ^ 4 * unat uc"
    using assms(1) by (simp only: unsigned_push_bit_eq) (simp add: take_bit_nat_eq_self push_bit_eq_mult)
  then show ?thesis
    using unat_or_disjoint[of d 4 "push_bit 4 uc" "unat uc"] assms(2) by simp
qed

lemma mod_16_nibble: "16 * k \<le> n \<Longrightarrow> n < 16 * k + 16 \<Longrightarrow> n mod 16 = n - 16 * (k::nat)"
  by (auto simp: le_iff_add)

lemma hex_loop_digit:
  assumes "i \<le> 4" "unat uc < 2 ^ 28"
  shows "hex_digit (at p i) = None \<Longrightarrow> hex_loop p i uc = None"
    and "hex_digit (at p i) = Some d \<Longrightarrow>
      \<exists>uc'. unat uc' = 16 * unat uc + d \<and> d < 16 \<and> hex_loop p i uc = hex_loop p (Suc i) uc'"
proof -
  let ?n = "of_char (at p i) :: nat" and ?w = "schar (at p i) AND 0x0f"
  show "hex_loop p i uc = None" if "hex_digit (at p i) = None"
    using that assms(1)
    by (auto simp: hex_loop.simps[of p i] hex_digit_def is_digit_def is_hex_alpha_def Let_def
        split: if_splits)
  assume d: "hex_digit (at p i) = Some d"
  have w: "unat ?w = ?n mod 16" by (rule unat_schar_and)
  show "\<exists>uc'. unat uc' = 16 * unat uc + d \<and> d < 16 \<and> hex_loop p i uc = hex_loop p (Suc i) uc'"
  proof (cases "is_digit (at p i)")
    case True
    with d have "d = ?n mod 16" "d < 16"
      using mod_16_nibble[of 3 ?n] by (auto simp: hex_digit_def is_digit_def Let_def)
    then show ?thesis
      using True assms unat_push_bit_or[OF assms(2), of ?w] w
      by (intro exI[of _ "push_bit 4 uc OR ?w"]) (simp add: hex_loop.simps[of p i] Let_def)
  next
    case False
    with d have h: "is_hex_alpha (at p i)" "d = ?n mod 16 + 9" "d < 16"
      using mod_16_nibble[of 4 ?n] mod_16_nibble[of 6 ?n]
      by (auto simp: hex_digit_def is_digit_def is_hex_alpha_def Let_def split: if_splits)
    have "unat (?w + 9) = d"
      using h w by (simp add: unat_plus_if')
    then show ?thesis
      using False h assms unat_push_bit_or[OF assms(2), of "?w + 9"]
      by (intro exI[of _ "push_bit 4 uc OR (?w + 9)"]) (simp add: hex_loop.simps[of p i] Let_def)
  qed
qed

text \<open>The value of four hexadecimal digits, most significant first.\<close>

fun hex_ref :: "string \<Rightarrow> nat \<Rightarrow> nat \<Rightarrow> nat \<Rightarrow> nat option" where
  "hex_ref p i 0 v = Some v"
| "hex_ref p i (Suc k) v =
     (case hex_digit (at p i) of None \<Rightarrow> None | Some d \<Rightarrow> hex_ref p (Suc i) k (16 * v + d))"

lemma hex_loop_ref:
  assumes "i + k = 5" "k \<le> 4" "unat uc < 16 ^ (4 - k)"
  shows "map_option unat (hex_loop p i uc) = hex_ref p i k (unat uc)"
  using assms
proof (induction k arbitrary: i uc)
  case 0
  then show ?case by (subst hex_loop.simps) simp
next
  case (Suc k)
  have "(16::nat) ^ (4 - Suc k) \<le> 16 ^ 4" by (intro power_increasing) auto
  then have i: "i \<le> 4" "unat uc < 2 ^ 28" using Suc.prems by auto
  show ?case
  proof (cases "hex_digit (at p i)")
    case None
    then show ?thesis using hex_loop_digit(1)[OF i] by simp
  next
    case (Some d)
    then obtain uc' where uc': "unat uc' = 16 * unat uc + d" "d < 16"
      "hex_loop p i uc = hex_loop p (Suc i) uc'"
      using hex_loop_digit(2)[OF i] by blast
    have "16 * unat uc + d < 16 * 16 ^ (4 - Suc k)" using Suc.prems uc'(2) by linarith
    also have "\<dots> = 16 ^ (4 - k)"
      using Suc.prems(2) by (simp flip: power_Suc add: Suc_diff_Suc)
    finally show ?thesis
      using Suc.IH[of "Suc i" uc'] Suc.prems uc' Some by simp
  qed
qed

lemma hex_ref_bound: "hex_ref p i k v = Some n \<Longrightarrow> n < 16 ^ k * Suc v"
proof (induction p i k v arbitrary: n rule: hex_ref.induct)
  case (2 p i k v)
  then obtain d where d: "hex_digit (at p i) = Some d" "hex_ref p (Suc i) k (16 * v + d) = Some n"
    by (auto split: option.splits)
  then have "d < 16" by (auto simp: hex_digit_def Let_def split: if_splits)
  then have "(16::nat) ^ k * Suc (16 * v + d) \<le> 16 ^ k * (16 * Suc v)" by (intro mult_le_mono2) simp
  with 2(1)[OF d(1,2)] have "n < 16 ^ k * (16 * Suc v)" by (rule order_less_le_trans)
  then show ?case by (simp only: power_Suc mult.assoc mult.left_commute)
qed simp

lemma hex_loop_Some:
  assumes "hex_loop p 1 0 = Some uc"
  shows "hex_ref p 1 4 0 = Some (unat uc)" and "unat uc < 0x10000"
proof -
  show "hex_ref p 1 4 0 = Some (unat uc)"
    using hex_loop_ref[of 1 4 0 p] assms by simp
  from hex_ref_bound[OF this] show "unat uc < 0x10000" by simp
qed

subsection \<open>String literals\<close>

text \<open>
  What a literal denotes: the bytes between the quotes with every escape replaced, together
  with the text from the closing quote on.
\<close>

definition utf8 :: "nat \<Rightarrow> string" where
  "utf8 n = map char_of (utf8_ref n)"

definition lit_step :: "char \<Rightarrow> string \<Rightarrow> (string \<times> string) option" where
  "lit_step c p =
     (if c = NUL then None
      else if c = CHR 0x5C then
        if deref p = CHR ''u'' then map_option (\<lambda>n. (utf8 n, drop 5 p)) (hex_ref p 1 4 0)
        else map_option (\<lambda>e. ([e], drop 1 p)) (escape_char (deref p))
      else Some ([c], p))"

lemma lit_step_length [termination_simp]: "lit_step c p = Some (e, q) \<Longrightarrow> length q < Suc (length p)"
  by (auto simp: lit_step_def split: if_splits)

fun unescape :: "string \<Rightarrow> (string \<times> string) option" where
  "unescape [] = None"
| "unescape (c # p) =
     (if c = CHR 0x22 then Some ([], c # p)
      else case lit_step c p of
          None \<Rightarrow> None
        | Some (e, q) \<Rightarrow> map_option (\<lambda>(d, r). (e @ d, r)) (unescape q))"

lemma fst_uc_2_utf8: "fst (uc_2_utf8 uc buf) = fst (uc_2_utf8 uc None)"
  by (simp add: uc_2_utf8_def)

lemma uc_2_utf8_None:
  assumes "unat uc < 0x80000000"
  shows "fst (uc_2_utf8 uc None) = length (utf8 (unat uc))"
proof -
  have "fst (uc_2_utf8 uc (Some (replicate (length (utf8_ref (unat uc))) NUL))) = length (utf8_ref (unat uc))"
    using uc_2_utf8_eq[OF assms] by simp
  then show ?thesis by (simp only: fst_uc_2_utf8[of uc "Some _"] utf8_def length_map)
qed

lemma write_utf8_eq:
  assumes "unat uc < 0x80000000" "n + length (utf8 (unat uc)) \<le> length b"
  shows "write_utf8 (Some b) n uc =
    Some (take n b @ utf8 (unat uc) @ drop (n + length (utf8 (unat uc))) b)"
  using uc_2_utf8_eq[OF assms(1), of "drop n b"] assms(2)
  by (simp add: write_utf8_def utf8_def add.commute)

definition filled :: "string \<Rightarrow> nat \<Rightarrow> string \<Rightarrow> string" where
  "filled b n d = take n b @ d @ drop (n + length d) b"

lemma filled_filled:
  "n + length d + length e \<le> length b \<Longrightarrow> filled (filled b n d) (n + length d) e = filled b n (d @ e)"
  by (simp add: filled_def ac_simps)

lemma filled_write: "n < length b \<Longrightarrow> write_at (Some b) n c = Some (filled b n [c])"
  by (simp add: write_at_def filled_def upd_conv_take_nth_drop)

lemma length_filled [simp]: "n + length d \<le> length b \<Longrightarrow> length (filled b n d) = length b"
  by (simp add: filled_def)

definition fill_if :: "string option \<Rightarrow> nat \<Rightarrow> nat \<Rightarrow> string \<Rightarrow> string option" where
  "fill_if buf n l e = (if n + length e \<le> l then map_option (\<lambda>b. filled b n e) buf else buf)"

lemma hex_loop_conv:
  fixes f :: "nat \<Rightarrow> uint32 \<Rightarrow> 'r"
  shows "(case hex_loop p 1 0 of None \<Rightarrow> x
    | Some uc \<Rightarrow> f (fst (uc_2_utf8 uc None)) uc) =
   (case hex_ref p 1 4 0 of None \<Rightarrow> x | Some n \<Rightarrow> f (length (utf8 n)) (of_nat n))"
proof (cases "hex_loop p 1 0")
  case None
  then show ?thesis using hex_loop_ref[of 1 4 0 p] by simp
next
  case (Some uc)
  with hex_loop_Some[OF Some] uc_2_utf8_None[of uc] show ?thesis by simp
qed

lemma write_utf8_fill:
  assumes "hex_ref p 1 4 0 = Some m" "buf \<noteq> None \<longrightarrow> l \<le> length (the buf)"
  shows "(if n + length (utf8 m) \<le> l then write_utf8 buf n (of_nat m) else buf) = fill_if buf n l (utf8 m)"
proof -
  have "m < 16 ^ 4" using hex_ref_bound[OF assms(1)] by simp
  then have "unat (of_nat m :: uint32) = m" by (simp add: unat_of_nat)
  then show ?thesis
    using assms(2) write_utf8_eq[of "of_nat m" n] \<open>m < 16 ^ 4\<close>
    by (cases buf) (auto simp: fill_if_def filled_def write_utf8_def)
qed

lemma write_at_fill:
  assumes "buf \<noteq> None \<longrightarrow> l \<le> length (the buf)"
  shows "(if n < l then write_at buf n c else buf) = fill_if buf n l [c]"
  using assms filled_write[of n] by (cases buf) (auto simp: fill_if_def write_at_def)

lemma unescape_loop_step:
  assumes "c \<noteq> CHR 0x22" "buf \<noteq> None \<longrightarrow> l \<le> length (the buf)"
  shows "unescape_loop (c # p) buf n l =
    (case lit_step c p of None \<Rightarrow> (None, buf)
     | Some (e, q) \<Rightarrow> unescape_loop q (fill_if buf n l e) (n + length e) l)"
proof -
  have "unescape_loop (c # p) buf n l =
    (if c = NUL then (None, buf)
      else if c = CHR 0x5C then
        if deref p = CHR ''u'' then
          (case hex_ref p 1 4 0 of
             None \<Rightarrow> (None, buf)
           | Some m \<Rightarrow> unescape_loop (drop 5 p)
                 (if n + length (utf8 m) \<le> l then write_utf8 buf n (of_nat m) else buf)
                 (n + length (utf8 m)) l)
        else
          (case escape_char (deref p) of
             None \<Rightarrow> (None, buf)
           | Some c \<Rightarrow>
               unescape_loop (drop 1 p) (if n < l then write_at buf n c else buf) (Suc n) l)
      else unescape_loop p (if n < l then write_at buf n c else buf) (Suc n) l)"
    unfolding unescape_loop.simps Let_def
    using assms(1) hex_loop_conv[where p = p and x = "(None, buf)" and f = "\<lambda>i uc. unescape_loop (drop 5 p)
                 (if n + i \<le> l then write_utf8 buf n uc else buf) (n + i) l"]
    by simp
  then show ?thesis
    using assms(2)
    by (auto simp: lit_step_def write_at_fill write_utf8_fill split: option.splits)
qed

lemma fill_if_length: "buf \<noteq> None \<longrightarrow> l \<le> length (the buf) \<Longrightarrow>
  fill_if buf n l e \<noteq> None \<longrightarrow> l \<le> length (the (fill_if buf n l e))"
  by (auto simp: fill_if_def split: if_splits)

lemma unescape_loop_result:
  assumes "buf \<noteq> None \<longrightarrow> l \<le> length (the buf)"
  shows "fst (unescape_loop p buf n l) = map_option (\<lambda>(d, q). (q, n + length d)) (unescape p)"
  using assms
proof (induction p arbitrary: buf n rule: unescape.induct)
  case (2 c p)
  show ?case
  proof (cases "c = CHR 0x22")
    case False
    with 2 show ?thesis
      by (auto simp: unescape_loop_step fill_if_length option.map_comp comp_def case_prod_unfold
          add.assoc simp del: unescape_loop.simps split: option.splits)
  qed simp
qed simp

lemma unescape_loop_buffer:
  assumes "unescape p = Some (d, q)" "n + length d \<le> l" "l \<le> length b"
  shows "snd (unescape_loop p (Some b) n l) = Some (filled b n d)"
  using assms
proof (induction p arbitrary: b n d rule: unescape.induct)
  case (2 c p)
  show ?case
  proof (cases "c = CHR 0x22")
    case True
    with 2 show ?thesis by (auto simp: filled_def)
  next
    case False
    with 2(2) obtain e r d' where e: "lit_step c p = Some (e, r)" "unescape r = Some (d', q)" "d = e @ d'"
      by (auto split: option.splits)
    have "snd (unescape_loop r (Some (filled b n e)) (n + length e) l) = Some (filled (filled b n e) (n + length e) d')"
      using 2(1)[OF False e(1) refl e(2)] 2(3,4) e(3) by simp
    then show ?thesis
      using False e 2(3,4) by (simp add: unescape_loop_step fill_if_def filled_filled del: unescape_loop.simps)
  qed
qed simp

lemma hex_digit_NUL [simp]: "hex_digit NUL = None"
  by (simp add: hex_digit_def)

lemma hex_ref_cstring:
  "(\<forall>j<i. at p j \<noteq> NUL) \<Longrightarrow> hex_ref (cstring p) i k v = hex_ref p i k v"
proof (induction p i k v rule: hex_ref.induct)
  case (2 p i k v)
  show ?case
  proof (cases "hex_digit (at p i)")
    case (Some d)
    then have "\<forall>j<Suc i. at p j \<noteq> NUL" using 2(2) by (auto simp: less_Suc_eq)
    with Some 2 at_cstring[of i p] show ?thesis by simp
  qed (use 2 at_cstring[of i p] in simp)
qed simp

lemma hex_ref_no_NUL: "hex_ref p i k v = Some n \<Longrightarrow> j < k \<Longrightarrow> at p (i + j) \<noteq> NUL"
proof (induction p i k v arbitrary: j rule: hex_ref.induct)
  case (2 p i k v)
  then obtain d where d: "hex_digit (at p i) = Some d" "hex_ref p (Suc i) k (16 * v + d) = Some n"
    by (auto split: option.splits)
  show ?case
  proof (cases j)
    case (Suc j')
    then show ?thesis using 2(1)[OF d, of j'] 2(3) by simp
  qed (use d in auto)
qed simp

lemma lit_step_cstring:
  assumes "c \<noteq> NUL"
  shows "lit_step c (cstring p) = map_option (\<lambda>(e, q). (e, cstring q)) (lit_step c p)"
proof -
  have "drop 5 (cstring p) = cstring (drop 5 p)"
    if "deref p = CHR ''u''" "hex_ref p 1 4 0 = Some n" for n
  proof (rule drop_cstring, intro allI impI)
    fix j :: nat assume "j < 5"
    then show "at p j \<noteq> NUL"
      using that hex_ref_no_NUL[OF that(2), of "j - 1"] by (cases j) auto
  qed
  moreover have "drop 1 (cstring p) = cstring (drop 1 p)" if "escape_char (deref p) = Some e" for e
    by (rule drop_cstring) (use that in \<open>auto simp: escape_char_def\<close>)
  moreover have "hex_ref (cstring p) 1 4 0 = hex_ref p 1 4 0" if "deref p = CHR ''u''"
    by (rule hex_ref_cstring) (use that in auto)
  ultimately show ?thesis
    using assms by (cases "hex_ref p 1 4 0"; cases "escape_char (deref p)") (auto simp: lit_step_def)
qed

lemma unescape_cstring: "unescape (cstring p) = map_option (\<lambda>(d, q). (d, cstring q)) (unescape p)"
proof (induction p rule: unescape.induct)
  case (2 c p)
  show ?case
  proof (cases "c = NUL \<or> c = CHR 0x22")
    case True
    then show ?thesis by (auto simp: lit_step_def)
  next
    case False
    with 2 lit_step_cstring[of c p] show ?thesis
      by (auto simp: option.map_comp comp_def case_prod_unfold split: option.splits)
  qed
qed simp

lemma lit_step_takes: "lit_step c p = Some (e, q) \<Longrightarrow> takes p q"
proof (unfold lit_step_def, goal_cases)
  case 1
  have "takes p (drop 5 p)" if "deref p = CHR ''u''" "hex_ref p 1 4 0 = Some n" for n
  proof (rule takes_drop, intro allI impI)
    fix j :: nat assume "j < 5"
    then show "at p j \<noteq> NUL"
      using that hex_ref_no_NUL[OF that(2), of "j - 1"] by (cases j) auto
  qed
  moreover have "takes p (drop 1 p)" if "escape_char (deref p) = Some e" for e
    by (rule takes_drop) (use that in \<open>auto simp: escape_char_def\<close>)
  ultimately show ?case using 1 by (auto split: if_splits)
qed

lemma unescape_takes: "unescape p = Some (d, q) \<Longrightarrow> takes p q \<and> deref q = CHR 0x22"
proof (induction p arbitrary: d rule: unescape.induct)
  case (2 c p)
  show ?case
  proof (cases "c = CHR 0x22")
    case False
    with 2(2) obtain e s d' where e: "lit_step c p = Some (e, s)" "unescape s = Some (d', q)"
      by (auto split: option.splits)
    have "c \<noteq> NUL" using e(1) by (auto simp: lit_step_def)
    with 2(1)[OF False e(1) refl e(2)] lit_step_takes[OF e(1)] show ?thesis
      by (blast intro: takes_Cons takes_trans)
  qed (use 2 in auto)
qed simp

text \<open>The literal that starts at a pointer: opening quote, content, the rest after the closing one.\<close>

definition literal :: "string \<Rightarrow> (string \<times> string) option" where
  "literal s =
     (if deref s = CHR 0x22 then map_option (\<lambda>(d, q). (d, tl q)) (unescape (tl s)) else None)"

lemma literal_takes:
  assumes "literal s = Some (d, r)"
  shows "\<exists>w. NUL \<notin> set w \<and> s = CHR 0x22 # w @ CHR 0x22 # r"
proof -
  obtain q where q: "unescape (tl s) = Some (d, q)" "r = tl q" "deref s = CHR 0x22"
    using assms by (auto simp: literal_def split: if_splits)
  then obtain t where "s = CHR 0x22 # t" by (cases s) auto
  moreover have "q = CHR 0x22 # r" using q(2) unescape_takes[OF q(1)] by (cases q) auto
  ultimately show ?thesis using q(1) unescape_takes[OF q(1)] by (auto simp: takes_def)
qed

lemma literal_suffix: "literal s = Some (d, r) \<Longrightarrow> \<exists>w. s = CHR 0x22 # w @ CHR 0x22 # r"
  using literal_takes by blast

lemma unescape_str_measure:
  "unescape_str s None (Some m) =
   (case literal s of None \<Rightarrow> (0, None, Some m)
    | Some (d, r) \<Rightarrow> (ptr_diff r s, None, Some (length d)))"
proof -
  obtain x where x: "unescape_loop (tl s) None 0 0 = (x, None)"
  proof -
    have "snd (unescape_loop p None n l) = None" for p n l
      by (induction p "None :: string option" n l rule: unescape_loop.induct)
        (auto simp: write_at_def write_utf8_def Let_def split: option.splits)
    then show ?thesis using that by (metis prod.exhaust snd_conv)
  qed
  then have "x = map_option (\<lambda>(d, q). (q, length d)) (unescape (tl s))"
    using unescape_loop_result[of None 0 "tl s" 0] by simp
  with x show ?thesis
    by (auto simp: unescape_str_def literal_def split: option.splits)
qed

lemma unescape_str_write:
  assumes "literal s = Some (d, r)" "length d \<le> length b"
  shows "unescape_str s (Some b) (Some (length d)) =
    (ptr_diff r s, Some (d @ drop (length d) b), Some (length d))"
proof -
  obtain q where q: "unescape (tl s) = Some (d, q)" "r = tl q" "deref s = CHR 0x22"
    using assms by (auto simp: literal_def split: if_splits)
  have "fst (unescape_loop (tl s) (Some b) 0 (length d)) = Some (q, length d)"
    using unescape_loop_result[of "Some b" "length d" "tl s" 0] assms(2) q(1) by simp
  moreover have "snd (unescape_loop (tl s) (Some b) 0 (length d)) = Some (filled b 0 d)"
    using unescape_loop_buffer[OF q(1), of 0 "length d" b] assms(2) by simp
  ultimately have "unescape_loop (tl s) (Some b) 0 (length d) = (Some (q, length d), Some (filled b 0 d))"
    by (simp add: prod_eq_iff)
  then show ?thesis using q by (simp add: unescape_str_def filled_def)
qed

section \<open>Properties\<close>

text \<open>
  C8. Unescaping a literal in two passes is exact: if the text at \<open>s\<close> is a well-formed literal
  that denotes the bytes \<open>d\<close> and is followed by \<open>r\<close>, the measuring pass (no buffer) returns the
  number of characters of the literal and stores \<open>length d\<close>; the writing pass, given a buffer of at
  least that size, returns the same count and leaves exactly \<open>d\<close> in the first bytes of the
  buffer and every later byte as it was.
\<close>

theorem unescape_str_two_pass:
  assumes "literal s = Some (d, r)" "length d \<le> length b"
  shows "unescape_str s None (Some m) = (length s - length r, None, Some (length d)) \<and>
    unescape_str s (Some b) (Some (length d)) =
      (length s - length r, Some (d @ drop (length d) b), Some (length d))"
  using unescape_str_measure[of s m] unescape_str_write[OF assms] assms(1) by (simp add: ptr_diff_def)

theorem unescape_str_two_pass_witness:
  "literal [CHR 0x22, CHR ''a'', CHR 0x5C, CHR ''n'', CHR 0x22, CHR '':''] =
     Some ([CHR ''a'', CHR 0x0A], [CHR '':'']) \<and>
   unescape_str [CHR 0x22, CHR ''a'', CHR 0x5C, CHR ''n'', CHR 0x22, CHR '':''] None (Some 7) =
     (5, None, Some 2)"
proof -
  let ?s = "[CHR 0x22, CHR ''a'', CHR 0x5C, CHR ''n'', CHR 0x22, CHR '':'']"
  have *: "literal ?s = Some ([CHR ''a'', CHR 0x0A], [CHR '':''])"
    by (simp add: literal_def lit_step_def escape_char_def)
  show ?thesis
    using * unescape_str_two_pass[OF *, of "replicate 4 NUL" 7] by simp
qed

text \<open>
  The bucket count: for every \<open>n\<close> from 2 up to \<open>2\<^sup>3\<^sup>2\<close>, \<^verbatim>\<open>min_bucket(n)\<close> is the least power of
  two that is at least \<open>n\<close>. (Beyond, the cascade lacks the shift by 32.)
\<close>

theorem min_bucket_least_power:
  assumes "2 \<le> n" "n \<le> 2 ^ 32"
  shows "\<exists>k. unat (min_bucket (of_nat n)) = 2 ^ k \<and> n \<le> 2 ^ k \<and> (\<forall>j. n \<le> 2 ^ j \<longrightarrow> k \<le> j)"
proof -
  obtain k where k: "2 ^ k < n" "n \<le> 2 ^ Suc k"
  proof -
    have "\<exists>j. n \<le> 2 ^ j" using assms(2) by blast
    moreover define j where "j = (LEAST j. n \<le> 2 ^ j)"
    ultimately have j: "n \<le> 2 ^ j" "\<And>i. i < j \<Longrightarrow> \<not> n \<le> 2 ^ i"
      by (auto simp: j_def dest: not_less_Least intro: LeastI)
    then obtain i where "j = Suc i" using assms(1) by (cases j) auto
    then show ?thesis using that[of i] j(2)[of i] j(1) by (simp add: not_le)
  qed
  have "(2::nat) ^ k < 2 ^ 32" using k(1) assms(2) by linarith
  then have "k < 32" by (rule power_less_imp_less_exp[rotated]) simp
  have "Suc k \<le> j" if "n \<le> 2 ^ j" for j
  proof -
    have "(2::nat) ^ k < 2 ^ j" using k(1) that by linarith
    then show ?thesis by simp
  qed
  then show ?thesis using unat_min_bucket[OF k \<open>k < 32\<close>] k(2) by blast
qed

theorem min_bucket_least_power_witness:
  "\<exists>k. unat (min_bucket 5) = 2 ^ k \<and> 5 \<le> (2::nat) ^ k"
  using min_bucket_least_power[of 5] by auto

text \<open>
  The UTF-8 encoder: for every code point the function accepts (below \<open>2\<^sup>3\<^sup>1\<close>) it returns the
  number of bytes that the reference encoding has, writes exactly these bytes at the start of
  the buffer and nothing else, and decoding them gives the code point back.
\<close>

theorem uc_2_utf8_roundtrip:
  assumes "unat uc < 2 ^ 31" "6 \<le> length b"
  shows "\<exists>bs. uc_2_utf8 uc (Some b) = (length bs, Some (map char_of bs @ drop (length bs) b)) \<and>
    length bs \<le> 6 \<and> utf8_dec bs = unat uc"
  using uc_2_utf8_eq[of uc b] utf8_dec_ref[of "unat uc"] assms
  by (intro exI[of _ "utf8_ref (unat uc)"]) (simp add: utf8_ref_def)

theorem uc_2_utf8_roundtrip_witness:
  "\<exists>bs. uc_2_utf8 0x20AC (Some (replicate 6 NUL)) =
     (length bs, Some (map char_of bs @ drop (length bs) (replicate 6 NUL))) \<and>
   length bs \<le> 6 \<and> utf8_dec bs = 0x20AC"
  using uc_2_utf8_roundtrip[of "0x20AC" "replicate 6 NUL"] by simp

end
