(* ===== verification/Dotjson_Table.thy ===== *)
theory Dotjson_Table
  imports Dotjson_Text "HOL-Library.Multiset"
begin

unbundle bit_operations_syntax

text \<open>
  The containers of \<^verbatim>\<open>src/c/dotjson/dotjson.c\<close>: the open-addressing hash table behind a JSON
  object (\<^verbatim>\<open>object_find\<close>, \<^verbatim>\<open>object_slot\<close>, \<^verbatim>\<open>object_grow\<close>, \<^verbatim>\<open>dotjson_object_get\<close> and the insertion that
  \<^verbatim>\<open>decode_object\<close> performs) and the growing array (\<^verbatim>\<open>array_grow\<close> and the append of
  \<^verbatim>\<open>decode_array\<close>). The types are polymorphic in the nodes they hold. \<open>None\<close> is the NULL
  pointer of \<^verbatim>\<open>struct dotj_object *\<close> and \<^verbatim>\<open>struct dotj_array *\<close>; the heap only counts the calls of
  \<^verbatim>\<open>malloc\<close> and \<^verbatim>\<open>free\<close>, and \<^verbatim>\<open>malloc\<close> never fails.
\<close>

section \<open>Definitions\<close>

record heap =
  mallocs :: nat
  frees :: nat

definition malloc :: "heap \<Rightarrow> heap" where
  "malloc h = h\<lparr>mallocs := Suc (mallocs h)\<rparr>"

definition free :: "heap \<Rightarrow> heap" where
  "free h = h\<lparr>frees := Suc (frees h)\<rparr>"

text \<open>\<open>key\<close> is the character array with its terminator; \<open>keylen\<close> does not count it.\<close>

datatype 'n dotj_entry = Entry (keyhash: uint32) (keylen: nat) (key: string) (val: 'n)

datatype 'n dotj_object = Object (ocap: nat) (olen: nat) (entries: "'n dotj_entry option list")

text \<open>\<open>items\<close> holds the \<^verbatim>\<open>len\<close> items that have been stored.\<close>

datatype 'n dotj_array = Array (acap: nat) (items: "'n list")

subsection \<open>The hash table\<close>

function find_loop :: "'n dotj_object \<Rightarrow> string \<Rightarrow> uint32 \<Rightarrow> nat \<Rightarrow> nat" where
  "find_loop ob k h i =
     (if i < ocap ob then
        let j = (unat h + i) AND (ocap ob - 1) in
        case entries ob ! j of
          None \<Rightarrow> ocap ob
        | Some e \<Rightarrow>
            if keyhash e = h \<and> strcmp_eq (key e) k then j else find_loop ob k h (Suc i)
      else ocap ob)"
  by pat_completeness auto
termination
  by (relation "measure (\<lambda>(ob, k, h, i). ocap ob - i)") auto

definition object_find :: "'n dotj_object \<Rightarrow> string \<Rightarrow> nat" where
  "object_find ob k = find_loop ob k (hash k) 0"

function slot_loop :: "'n dotj_object \<Rightarrow> uint32 \<Rightarrow> nat \<Rightarrow> nat" where
  "slot_loop ob h i =
     (if i < ocap ob then
        let j = (unat h + i) AND (ocap ob - 1) in
        if entries ob ! j = None then j else slot_loop ob h (Suc i)
      else ocap ob)"
  by pat_completeness auto
termination
  by (relation "measure (\<lambda>(ob, h, i). ocap ob - i)") auto

definition object_slot :: "'n dotj_object \<Rightarrow> string \<Rightarrow> nat" where
  "object_slot ob k = slot_loop ob (hash k) 0"

definition object_store :: "'n dotj_object \<Rightarrow> 'n dotj_entry \<Rightarrow> 'n dotj_object" where
  \<comment> \<open>\<^verbatim>\<open>object->entries[object_slot(object, entry->key)] = entry; object->len++\<close>\<close>
  "object_store ob e =
     Object (ocap ob) (Suc (olen ob)) ((entries ob)[object_slot ob (key e) := Some e])"

fun rehash :: "'n dotj_entry option list \<Rightarrow> 'n dotj_object \<Rightarrow> 'n dotj_object" where
  "rehash [] to = to"
| "rehash (None # es) to = rehash es to"
| "rehash (Some e # es) to = rehash es (object_store to e)"

definition object_grow :: "'n dotj_object option \<Rightarrow> heap \<Rightarrow> 'n dotj_object \<times> heap" where
  "object_grow obj h =
     (case obj of
        None \<Rightarrow> (Object 1 0 [None], malloc h)
      | Some ob \<Rightarrow>
          let cap = unat (min_bucket (of_nat (olen ob + 1))) in
          if ocap ob \<ge> cap then (ob, h)
          else (rehash (take (olen ob) (entries ob)) (Object cap 0 (replicate cap None)),
                free (malloc h)))"

definition object_put :: "'n dotj_object option \<Rightarrow> 'n dotj_entry \<Rightarrow> heap \<Rightarrow> 'n dotj_object \<times> heap" where
  "object_put obj e h =
     (let (ob, h) = (case obj of
          None \<Rightarrow> object_grow obj h
        | Some ob \<Rightarrow> if olen ob = ocap ob then object_grow obj h else (ob, h))
      in (object_store ob e, h))"

definition dotjson_object_get :: "'n dotj_object \<Rightarrow> string \<Rightarrow> 'n option" where
  "dotjson_object_get ob k =
     (let i = object_find ob k in
      if i < ocap ob then map_option val (entries ob ! i) else None)"

subsection \<open>The array\<close>

definition array_grow :: "'n dotj_array option \<Rightarrow> heap \<Rightarrow> 'n dotj_array \<times> heap" where
  "array_grow arr h =
     (case arr of
        None \<Rightarrow> (Array 1 [], malloc h)
      | Some a \<Rightarrow>
          if length (items a) < acap a then (a, h)
          else (Array (if acap a \<ge> 256 then acap a + 256 else acap a * 2) (items a), malloc h))"

definition array_push :: "'n dotj_array option \<Rightarrow> 'n \<Rightarrow> heap \<Rightarrow> 'n dotj_array \<times> heap" where
  "array_push arr x h =
     (let (a, h) = (case arr of
          None \<Rightarrow> array_grow arr h
        | Some a \<Rightarrow> if length (items a) = acap a then array_grow arr h else (a, h))
      in (Array (acap a) (items a @ [x]), h))"

declare find_loop.simps [simp del] slot_loop.simps [simp del]

section \<open>Lemmas\<close>

subsection \<open>Probe sequences\<close>

definition probe :: "nat \<Rightarrow> uint32 \<Rightarrow> nat \<Rightarrow> nat" where
  "probe cap h d = (unat h + d) AND (cap - 1)"

definition pow2 :: "nat \<Rightarrow> bool" where
  "pow2 n \<longleftrightarrow> (\<exists>k. n = 2 ^ k)"

lemma pow2_gt_0: "pow2 n \<Longrightarrow> 0 < n"
  by (auto simp: pow2_def)

lemma probe_mod: "pow2 cap \<Longrightarrow> probe cap h d = (unat h + d) mod cap"
  using take_bit_eq_mask[of _ "unat h + d"]
  by (auto simp: pow2_def probe_def take_bit_eq_mod mask_eq_exp_minus_1)

lemma probe_less: "pow2 cap \<Longrightarrow> probe cap h d < cap"
  by (simp add: probe_mod pow2_gt_0)

lemma probe_surj:
  assumes "pow2 cap" "j < cap"
  shows "\<exists>d<cap. probe cap h d = j"
proof -
  let ?d = "(j + (cap - unat h mod cap)) mod cap"
  have "unat h mod cap < cap" using pow2_gt_0[OF assms(1)] by simp
  have "(unat h + ?d) mod cap = (unat h mod cap + (j + (cap - unat h mod cap))) mod cap"
    by (simp add: mod_simps)
  also have "unat h mod cap + (j + (cap - unat h mod cap)) = j + cap"
    using \<open>unat h mod cap < cap\<close> by simp
  finally show ?thesis
    using assms by (intro exI[of _ ?d]) (simp add: probe_mod)
qed

subsection \<open>The table invariant\<close>

definition contents :: "'n dotj_object \<Rightarrow> 'n dotj_entry multiset" where
  "contents ob = mset (somes (entries ob))"

definition on_path :: "'n dotj_object \<Rightarrow> nat \<Rightarrow> 'n dotj_entry \<Rightarrow> bool" where
  "on_path ob i e \<longleftrightarrow>
     (\<exists>d<ocap ob. probe (ocap ob) (keyhash e) d = i \<and>
        (\<forall>d'<d. entries ob ! probe (ocap ob) (keyhash e) d' \<noteq> None))"

definition table_ok :: "'n dotj_object \<Rightarrow> bool" where
  "table_ok ob \<longleftrightarrow>
     pow2 (ocap ob) \<and> length (entries ob) = ocap ob \<and> olen ob = size (contents ob) \<and>
     (\<forall>i<ocap ob. \<forall>e. entries ob ! i = Some e \<longrightarrow> keyhash e = hash (key e) \<and> on_path ob i e)"

lemma table_okD:
  assumes "table_ok ob"
  shows "pow2 (ocap ob)" "length (entries ob) = ocap ob" "olen ob = size (contents ob)"
    "i < ocap ob \<Longrightarrow> entries ob ! i = Some e \<Longrightarrow> keyhash e = hash (key e)"
    "i < ocap ob \<Longrightarrow> entries ob ! i = Some e \<Longrightarrow> on_path ob i e"
  using assms by (auto simp: table_ok_def)

lemma in_contents: "e \<in># contents ob \<longleftrightarrow> (\<exists>i<length (entries ob). entries ob ! i = Some e)"
  by (simp add: contents_def set_somes) (simp add: in_set_conv_nth)

lemma size_contents: "size (contents ob) \<le> length (entries ob)"
  by (simp add: contents_def length_somes)

lemma full_iff:
  "size (contents ob) = length (entries ob) \<longleftrightarrow> (\<forall>i<length (entries ob). entries ob ! i \<noteq> None)"
  using length_somes_full[of "entries ob"] by (auto simp: contents_def in_set_conv_nth)

lemma mset_somes_update:
  "i < length xs \<Longrightarrow> xs ! i = None \<Longrightarrow> mset (somes (xs[i := Some e])) = add_mset e (mset (somes xs))"
  using somes_update[of i xs e] by force

lemma slot_loop_first:
  assumes "d < ocap ob" "entries ob ! probe (ocap ob) h d = None" "i \<le> d"
  shows "\<exists>d'. i \<le> d' \<and> d' < ocap ob \<and> slot_loop ob h i = probe (ocap ob) h d' \<and>
    entries ob ! probe (ocap ob) h d' = None \<and>
    (\<forall>j. i \<le> j \<and> j < d' \<longrightarrow> entries ob ! probe (ocap ob) h j \<noteq> None)"
  using assms(3)
proof (induction "d - i" arbitrary: i)
  case 0
  then have "i = d" by simp
  with assms show ?case by (intro exI[of _ d]) (auto simp: slot_loop.simps[of ob h d] probe_def Let_def)
next
  case (Suc n)
  show ?case
  proof (cases "entries ob ! probe (ocap ob) h i = None")
    case True
    then show ?thesis using Suc(3) assms(1)
      by (intro exI[of _ i]) (auto simp: slot_loop.simps[of ob h i] probe_def Let_def)
  next
    case False
    have "n = d - Suc i" "Suc i \<le> d" using Suc.hyps(2) by auto
    from Suc.hyps(1)[OF this] obtain d' where d': "Suc i \<le> d'" "d' < ocap ob"
      "slot_loop ob h (Suc i) = probe (ocap ob) h d'" "entries ob ! probe (ocap ob) h d' = None"
      "\<forall>j. Suc i \<le> j \<and> j < d' \<longrightarrow> entries ob ! probe (ocap ob) h j \<noteq> None" by blast
    have "slot_loop ob h i = slot_loop ob h (Suc i)"
      using False d'(1,2) by (auto simp: slot_loop.simps[of ob h i] probe_def Let_def)
    moreover have "\<forall>j. i \<le> j \<and> j < d' \<longrightarrow> entries ob ! probe (ocap ob) h j \<noteq> None"
      using d'(5) False by (metis Suc_leI le_neq_implies_less)
    ultimately show ?thesis using d' by (intro exI[of _ d']) auto
  qed
qed

lemma object_slot_spec:
  assumes "pow2 (ocap ob)" "length (entries ob) = ocap ob" "size (contents ob) < ocap ob"
  shows "\<exists>d<ocap ob. object_slot ob k = probe (ocap ob) (hash k) d \<and>
    entries ob ! object_slot ob k = None \<and>
    (\<forall>j<d. entries ob ! probe (ocap ob) (hash k) j \<noteq> None)"
proof -
  obtain i where i: "i < ocap ob" "entries ob ! i = None"
    using full_iff[of ob] assms(2,3) by auto
  obtain d where "d < ocap ob" "probe (ocap ob) (hash k) d = i"
    using probe_surj[OF assms(1) i(1)] by blast
  with slot_loop_first[of d ob "hash k" 0] i(2) show ?thesis
    unfolding object_slot_def by auto
qed

lemma object_store_ok:
  assumes "table_ok ob" "size (contents ob) < ocap ob" "keyhash e = hash (key e)"
  shows "table_ok (object_store ob e)" "contents (object_store ob e) = add_mset e (contents ob)"
proof -
  note ok = table_okD[OF assms(1)]
  obtain d where d: "d < ocap ob" "object_slot ob (key e) = probe (ocap ob) (hash (key e)) d"
    "entries ob ! object_slot ob (key e) = None"
    "\<And>j. j < d \<Longrightarrow> entries ob ! probe (ocap ob) (hash (key e)) j \<noteq> None"
    using object_slot_spec[OF ok(1,2) assms(2)] by blast
  define s where "s = object_slot ob (key e)"
  have s: "s < length (entries ob)" "entries ob ! s = None"
    using d(2,3) probe_less[OF ok(1)] ok(2) by (simp_all add: s_def)
  have st: "object_store ob e = Object (ocap ob) (Suc (olen ob)) ((entries ob)[s := Some e])"
    by (simp add: object_store_def s_def)
  show c: "contents (object_store ob e) = add_mset e (contents ob)"
    using s by (simp add: st contents_def mset_somes_update)
  have keep: "on_path ob i e' \<Longrightarrow> on_path (object_store ob e) i e'" for i e'
  proof -
    have "entries ob ! j \<noteq> None \<Longrightarrow> (entries ob)[s := Some e] ! j \<noteq> None" for j
      using s(1) by (cases "j = s") auto
    then show "on_path ob i e' \<Longrightarrow> on_path (object_store ob e) i e'"
      unfolding on_path_def st by auto
  qed
  have "on_path (object_store ob e) s e"
    using d assms(3) s ok(2)
    unfolding on_path_def st by (intro exI[of _ d]) (auto simp: nth_list_update s_def)
  then show "table_ok (object_store ob e)"
    using ok keep assms(3) s c by (auto simp: table_ok_def st nth_list_update split: if_splits)
qed

lemma contents_empty [simp]: "contents (Object c l (replicate n None)) = {#}"
  by (simp add: contents_def)

lemma table_ok_empty: "pow2 c \<Longrightarrow> table_ok (Object c 0 (replicate c None))"
  using contents_empty[of c 0 c] by (simp add: table_ok_def)

lemma rehash_ok:
  assumes "table_ok to" "size (contents to) + length (somes es) \<le> ocap to"
    "\<And>e. Some e \<in> set es \<Longrightarrow> keyhash e = hash (key e)"
  shows "table_ok (rehash es to) \<and> ocap (rehash es to) = ocap to \<and>
    contents (rehash es to) = mset (somes es) + contents to"
  using assms
proof (induction es to rule: rehash.induct)
  case (3 e es to)
  have "size (contents to) < ocap to" using 3(3) by simp
  note st = object_store_ok[OF 3(2) this 3(4)[of e]]
  have "table_ok (rehash es (object_store to e)) \<and> ocap (rehash es (object_store to e)) = ocap (object_store to e) \<and>
    contents (rehash es (object_store to e)) = mset (somes es) + contents (object_store to e)"
  proof (rule 3(1))
    show "table_ok (object_store to e)" using st(1) by simp
    show "size (contents (object_store to e)) + length (somes es) \<le> ocap (object_store to e)"
      using 3(3) st(2) by (simp add: object_store_def)
  qed (use 3(4) in auto)
  with st(2) show ?case by (simp add: object_store_def)
qed auto

lemma object_grow_full:
  fixes ob :: "'n dotj_object"
  assumes "table_ok ob" "olen ob = ocap ob" "ocap ob < 2 ^ 32"
  shows "\<exists>to. object_grow (Some ob) h = (to, free (malloc h)) \<and> table_ok to \<and>
    ocap to = 2 * ocap ob \<and> contents to = contents ob"
proof -
  note ok = table_okD[OF assms(1)]
  obtain k where k: "ocap ob = 2 ^ k" using ok(1) by (auto simp: pow2_def)
  have "(2::nat) ^ k < 2 ^ 32" using k assms(3) by simp
  then have "k < 32" by (rule power_less_imp_less_exp[rotated]) simp
  have cap: "unat (min_bucket (of_nat (olen ob + 1))) = 2 * ocap ob"
    using unat_min_bucket[OF _ _ \<open>k < 32\<close>, of "olen ob + 1"] assms(2) k by simp
  have "pow2 (2 * ocap ob)" using k by (auto simp: pow2_def intro: exI[of _ "Suc k"])
  have tk: "take (olen ob) (entries ob) = entries ob" using assms(2) ok(2) by simp
  let ?t = "Object (2 * ocap ob) 0 (replicate (2 * ocap ob) None) :: 'n dotj_object"
  have "table_ok (rehash (entries ob) ?t) \<and> ocap (rehash (entries ob) ?t) = ocap ?t \<and>
    contents (rehash (entries ob) ?t) = mset (somes (entries ob)) + contents ?t"
  proof (rule rehash_ok)
    show "table_ok ?t" using \<open>pow2 (2 * ocap ob)\<close> by (rule table_ok_empty)
    show "size (contents ?t) + length (somes (entries ob)) \<le> ocap ?t"
      using size_contents[of ob] ok(2) by (simp add: contents_def)
    show "keyhash e = hash (key e)" if "Some e \<in> set (entries ob)" for e
      using that ok(2) ok(4)[of _ e] by (metis in_set_conv_nth)
  qed
  then show ?thesis
    using cap k tk by (simp add: object_grow_def Let_def contents_def[of ob])
qed

subsection \<open>Insertion\<close>

definition obj_ok :: "'n dotj_object option \<Rightarrow> bool" where
  "obj_ok obj \<longleftrightarrow> (case obj of None \<Rightarrow> True | Some ob \<Rightarrow> table_ok ob)"

definition obj_contents :: "'n dotj_object option \<Rightarrow> 'n dotj_entry multiset" where
  "obj_contents obj = (case obj of None \<Rightarrow> {#} | Some ob \<Rightarrow> contents ob)"

lemma object_grow_None: "object_grow None h = (Object 1 0 [None], malloc h)"
  by (simp add: object_grow_def)

lemma table_ok_fresh: "table_ok (Object 1 0 [None])" "contents (Object 1 0 [None]) = {#}"
proof -
  have "pow2 1" by (auto simp: pow2_def intro: exI[of _ 0])
  from table_ok_empty[OF this] show "table_ok (Object 1 0 [None])" by simp
  show "contents (Object 1 0 [None]) = {#}" by (simp add: contents_def)
qed

lemma object_put_ok:
  assumes "obj_ok obj" "size (obj_contents obj) < 2 ^ 32" "keyhash e = hash (key e)"
    "object_put obj e h = (ob', h')"
  shows "table_ok ob'" "contents ob' = add_mset e (obj_contents obj)"
proof -
  obtain ob where ob: "table_ok ob" "contents ob = obj_contents obj" "size (contents ob) < ocap ob"
    "ob' = object_store ob e"
  proof (cases obj)
    case None
    with assms(4) show ?thesis
      using that[of "Object 1 0 [None]"] table_ok_fresh
      by (auto simp: object_put_def object_grow_None obj_contents_def)
  next
    case (Some o1)
    with assms have o1: "table_ok o1" "contents o1 = obj_contents obj"
      by (auto simp: obj_ok_def obj_contents_def)
    note ok = table_okD[OF o1(1)]
    show ?thesis
    proof (cases "olen o1 = ocap o1")
      case True
      with ok o1 assms(2) have "ocap o1 < 2 ^ 32" by simp
      from object_grow_full[OF o1(1) True this, of h] obtain to where
        "object_grow (Some o1) h = (to, free (malloc h))" "table_ok to" "ocap to = 2 * ocap o1"
        "contents to = contents o1" by blast
      with True Some assms(4) o1 ok pow2_gt_0[OF ok(1)] show ?thesis
        using that[of to] by (auto simp: object_put_def)
    next
      case False
      moreover have "size (contents o1) \<le> ocap o1" using size_contents[of o1] ok(2) by simp
      ultimately show ?thesis
        using that[of o1] Some assms(4) o1 ok(3) by (auto simp: object_put_def)
    qed
  qed
  show "table_ok ob'" "contents ob' = add_mset e (obj_contents obj)"
    using object_store_ok[OF ob(1,3) assms(3)] ob(2,4) by simp_all
qed

lemma fst_object_put: "fst (object_put obj e h) = fst (object_put obj e h0)"
  by (auto simp: object_put_def object_grow_def Let_def split: option.splits)

subsection \<open>Lookup\<close>

lemma hash_loop_cstring: "hash_loop h (cstring s) = hash_loop h s"
  by (induction s arbitrary: h) auto

lemma hash_cong: "strcmp_eq a b \<Longrightarrow> hash a = hash b"
  unfolding strcmp_eq_def hash_def by (metis hash_loop_cstring)

lemma find_loop_sound:
  assumes "pow2 (ocap ob)"
  shows "find_loop ob k h i = ocap ob \<or>
    (\<exists>e. find_loop ob k h i < ocap ob \<and> entries ob ! find_loop ob k h i = Some e \<and> strcmp_eq (key e) k)"
  using probe_less[OF assms, unfolded probe_def]
proof (induction ob k h i rule: find_loop.induct)
  case (1 ob k h i)
  then show ?case
    by (subst (1 2 3) find_loop.simps) (auto simp: Let_def split: option.splits)
qed

lemma find_loop_complete:
  assumes "d < ocap ob" "entries ob ! probe (ocap ob) h d = Some e" "keyhash e = h" "strcmp_eq (key e) k"
    "\<forall>d'<d. entries ob ! probe (ocap ob) h d' \<noteq> None" "pow2 (ocap ob)" "i \<le> d"
  shows "find_loop ob k h i < ocap ob"
  using assms(7)
proof (induction "d - i" arbitrary: i)
  case 0
  then have "i = d" by simp
  then show ?case
    using assms probe_less[OF assms(6), of h d] unfolding probe_def
    by (subst find_loop.simps) (simp add: Let_def)
next
  case (Suc n)
  then have "Suc i \<le> d" "n = d - Suc i" by auto
  with Suc.hyps(1) have "find_loop ob k h (Suc i) < ocap ob" by blast
  moreover obtain e' where "entries ob ! ((unat h + i) AND (ocap ob - 1)) = Some e'"
    using assms(5) \<open>Suc i \<le> d\<close> unfolding probe_def by (meson Suc_le_lessD option.exhaust_sel)
  ultimately show ?case
    using assms(1) \<open>Suc i \<le> d\<close> probe_less[OF assms(6), of h i] unfolding probe_def
    by (subst find_loop.simps) (simp add: Let_def)
qed

lemma object_find_iff:
  assumes "table_ok ob"
  shows "object_find ob k < ocap ob \<longleftrightarrow> (\<exists>e\<in>#contents ob. strcmp_eq (key e) k)"
proof
  note ok = table_okD[OF assms]
  show "\<exists>e\<in>#contents ob. strcmp_eq (key e) k" if "object_find ob k < ocap ob"
    using that find_loop_sound[OF ok(1), of k "hash k" 0] ok(2)
    by (metis in_contents object_find_def less_irrefl)
  assume "\<exists>e\<in>#contents ob. strcmp_eq (key e) k"
  then obtain i e where e: "i < ocap ob" "entries ob ! i = Some e" "strcmp_eq (key e) k"
    using ok(2) by (auto simp: in_contents)
  then have h: "keyhash e = hash k" using ok(4) hash_cong by metis
  from ok(5)[OF e(1,2)] obtain d where "d < ocap ob" "probe (ocap ob) (hash k) d = i"
    "\<forall>d'<d. entries ob ! probe (ocap ob) (hash k) d' \<noteq> None"
    by (auto simp: on_path_def h)
  with e h ok(1) show "object_find ob k < ocap ob"
    unfolding object_find_def by (intro find_loop_complete) auto
qed

lemma dotjson_object_get_None:
  assumes "table_ok ob"
  shows "dotjson_object_get ob k = None \<longleftrightarrow> (\<forall>e\<in>#contents ob. \<not> strcmp_eq (key e) k)"
  using object_find_iff[OF assms, of k] find_loop_sound[OF table_okD(1)[OF assms], of k "hash k" 0]
  by (auto simp: dotjson_object_get_def object_find_def Let_def)

lemma dotjson_object_get_Some:
  assumes "table_ok ob" "dotjson_object_get ob k = Some v"
  shows "\<exists>e\<in>#contents ob. strcmp_eq (key e) k \<and> val e = v"
  using assms(2) find_loop_sound[OF table_okD(1)[OF assms(1)], of k "hash k" 0]
    table_okD(2)[OF assms(1)] in_contents[of _ ob]
  by (fastforce simp: dotjson_object_get_def object_find_def Let_def split: if_splits)

lemma dotjson_object_get_unique:
  assumes "table_ok ob" "e \<in># contents ob" "strcmp_eq (key e) k"
    "\<And>e'. e' \<in># contents ob \<Longrightarrow> strcmp_eq (key e') k \<Longrightarrow> val e' = val e"
  shows "dotjson_object_get ob k = Some (val e)"
proof (cases "dotjson_object_get ob k")
  case None
  then show ?thesis using dotjson_object_get_None[OF assms(1), of k] assms(2,3) by blast
next
  case (Some v)
  then show ?thesis using dotjson_object_get_Some[OF assms(1) Some] assms(4) by auto
qed

subsection \<open>The table as a dictionary\<close>

locale lookup_table =
  fixes ok :: "'t \<Rightarrow> bool"
    and room :: "'t \<Rightarrow> nat"
    and get :: "'t \<Rightarrow> 'k \<Rightarrow> 'v option"
    and put :: "'t \<Rightarrow> 'k \<Rightarrow> 'v \<Rightarrow> 't"
    and same :: "'k \<Rightarrow> 'k \<Rightarrow> bool"
  assumes put_ok: "ok t \<Longrightarrow> 0 < room t \<Longrightarrow> get t k = None \<Longrightarrow> ok (put t k v)"
    and put_room: "ok t \<Longrightarrow> 0 < room t \<Longrightarrow> get t k = None \<Longrightarrow> Suc (room (put t k v)) = room t"
    and get_put: "ok t \<Longrightarrow> 0 < room t \<Longrightarrow> get t k = None \<Longrightarrow>
      get (put t k v) k' = (if same k k' then Some v else get t k')"
    and same_refl: "same k k"
    and same_trans: "same k k' \<Longrightarrow> same k k'' \<Longrightarrow> same k' k''"
begin

definition put_all :: "'t \<Rightarrow> ('k \<times> 'v) list \<Rightarrow> 't" where
  "put_all t kvs = fold (\<lambda>(k, v) t. put t k v) kvs t"

lemma put_all_simps [simp]:
  "put_all t [] = t" "put_all t ((k, v) # kvs) = put_all (put t k v) kvs"
  by (simp_all add: put_all_def)

lemma same_sym: "same k k' \<Longrightarrow> same k' k"
  using same_refl same_trans by blast

lemma get_put_all:
  assumes "ok t" "length kvs \<le> room t"
    "\<And>k. k \<in> fst ` set kvs \<Longrightarrow> get t k = None"
    "sorted_wrt (\<lambda>a b. \<not> same (fst a) (fst b)) kvs"
  shows "ok (put_all t kvs) \<and> get (put_all t kvs) k =
    (case find (\<lambda>kv. same (fst kv) k) kvs of Some kv \<Rightarrow> Some (snd kv) | None \<Rightarrow> get t k)"
  using assms
proof (induction kvs arbitrary: t)
  case (Cons kv kvs)
  obtain k0 v0 where kv: "kv = (k0, v0)" by (cases kv)
  have room: "0 < room t" "get t k0 = None" using Cons.prems(2,3) kv by auto
  have get: "get (put t k0 v0) k' = (if same k0 k' then Some v0 else get t k')" for k'
    using get_put Cons.prems(1) room by blast
  have "ok (put_all (put t k0 v0) kvs) \<and> get (put_all (put t k0 v0) kvs) k =
    (case find (\<lambda>kv. same (fst kv) k) kvs of Some kv \<Rightarrow> Some (snd kv) | None \<Rightarrow> get (put t k0 v0) k)"
  proof (rule Cons.IH)
    show "ok (put t k0 v0)" "length kvs \<le> room (put t k0 v0)"
      using put_ok[OF Cons.prems(1) room, of v0] put_room[OF Cons.prems(1) room, of v0]
        Cons.prems(2) by auto
    show "get (put t k0 v0) k' = None" if "k' \<in> fst ` set kvs" for k'
      using that Cons.prems(3,4) get kv by auto
  qed (use Cons.prems in auto)
  moreover have "find (\<lambda>kv. same (fst kv) k) kvs = None" if "same k0 k"
  proof -
    have "\<not> same (fst x) k" if "x \<in> set kvs" for x
      using \<open>same k0 k\<close> that Cons.prems(4) kv same_trans[of k k0 "fst x"] same_sym by auto
    then show ?thesis by (fastforce simp: find_None_iff)
  qed
  ultimately show ?case using kv get[of k] by (auto split: option.splits)
qed simp

end

definition mk_entry :: "string \<Rightarrow> 'n \<Rightarrow> 'n dotj_entry" where
  "mk_entry d v = Entry (hash (d @ [NUL])) (length d) (d @ [NUL]) v"

definition obj_put :: "'n dotj_object option \<Rightarrow> string \<Rightarrow> 'n \<Rightarrow> 'n dotj_object option" where
  "obj_put obj k v = Some (fst (object_put obj (mk_entry k v) \<lparr>mallocs = 0, frees = 0\<rparr>))"

definition obj_get :: "'n dotj_object option \<Rightarrow> string \<Rightarrow> 'n option" where
  "obj_get obj k = (case obj of None \<Rightarrow> None | Some ob \<Rightarrow> dotjson_object_get ob k)"

lemma strcmp_eq_NUL [simp]: "strcmp_eq (d @ [NUL]) k \<longleftrightarrow> strcmp_eq d k"
  by (simp add: strcmp_eq_def)

lemma obj_put_ok:
  assumes "obj_ok obj" "size (obj_contents obj) < 2 ^ 32"
  shows "\<exists>ob. obj_put obj k v = Some ob \<and> table_ok ob \<and>
    contents ob = add_mset (mk_entry k v) (obj_contents obj)"
proof -
  let ?h = "\<lparr>mallocs = 0, frees = 0\<rparr> :: heap"
  obtain ob h' where *: "object_put obj (mk_entry k v) ?h = (ob, h')" by fastforce
  have "keyhash (mk_entry k v) = hash (key (mk_entry k v))" by (simp add: mk_entry_def)
  from object_put_ok[OF assms this *] * show ?thesis by (simp add: obj_put_def)
qed

definition keys_distinct :: "'n dotj_entry multiset \<Rightarrow> bool" where
  "keys_distinct es \<longleftrightarrow> (\<forall>k. size {#e \<in># es. strcmp_eq (key e) k#} \<le> 1)"

lemma keys_distinct_unique:
  assumes "keys_distinct es" "e \<in># es" "e' \<in># es" "strcmp_eq (key e) k" "strcmp_eq (key e') k"
  shows "e = e'"
proof -
  let ?F = "{#e \<in># es. strcmp_eq (key e) k#}"
  have "e \<in># ?F" "e' \<in># ?F" using assms by auto
  moreover have "size ?F \<le> 1" using assms(1) by (simp add: keys_distinct_def)
  ultimately show ?thesis
    by (metis One_nat_def le_Suc_eq le_zero_eq multi_member_split size_eq_0_iff_empty size_1_singleton_mset
        add_mset_eq_single add_mset_not_empty)
qed

lemma keys_distinct_add:
  assumes "keys_distinct es" "\<forall>e'\<in>#es. \<not> strcmp_eq (key e') (key e)"
  shows "keys_distinct (add_mset e es)"
proof -
  have "size {#x \<in># add_mset e es. strcmp_eq (key x) k#} \<le> 1" for k
  proof (cases "strcmp_eq (key e) k")
    case True
    then have "{#x \<in># es. strcmp_eq (key x) k#} = {#}"
      using assms(2) by (auto simp: filter_mset_eq_conv strcmp_eq_def)
    with True show ?thesis by simp
  qed (use assms(1) in \<open>simp add: keys_distinct_def\<close>)
  then show ?thesis by (simp add: keys_distinct_def)
qed

lemma obj_get_None:
  "obj_ok obj \<Longrightarrow> obj_get obj k = None \<longleftrightarrow> (\<forall>e\<in>#obj_contents obj. \<not> strcmp_eq (key e) k)"
  by (cases obj) (auto simp: obj_get_def obj_ok_def obj_contents_def dotjson_object_get_None)

lemma obj_get_unique:
  assumes "obj_ok obj" "keys_distinct (obj_contents obj)" "e \<in># obj_contents obj" "strcmp_eq (key e) k"
  shows "obj_get obj k = Some (val e)"
proof (cases obj)
  case (Some ob)
  then have ob: "table_ok ob" "contents ob = obj_contents obj"
    using assms(1) by (auto simp: obj_ok_def obj_contents_def)
  have "dotjson_object_get ob k = Some (val e)"
  proof (rule dotjson_object_get_unique[OF ob(1) _ assms(4)])
    show "e \<in># contents ob" using assms(3) ob(2) by simp
    fix e' assume "e' \<in># contents ob" "strcmp_eq (key e') k"
    with ob(2) have "e = e'" using keys_distinct_unique[OF assms(2,3) _ assms(4)] by simp
    then show "val e' = val e" by simp
  qed
  with Some show ?thesis by (simp add: obj_get_def)
qed (use assms in \<open>simp add: obj_contents_def\<close>)

interpretation ot: lookup_table
  "\<lambda>obj. obj_ok obj \<and> keys_distinct (obj_contents obj)"
  "\<lambda>obj. 2 ^ 32 - size (obj_contents obj)" obj_get obj_put strcmp_eq
proof unfold_locales
  fix obj :: "'a dotj_object option" and k k' and v :: 'a
  assume ok: "obj_ok obj \<and> keys_distinct (obj_contents obj)" and "0 < 2 ^ 32 - size (obj_contents obj)"
    and "obj_get obj k = None"
  then have sz: "size (obj_contents obj) < 2 ^ 32"
    and fresh: "\<forall>e\<in>#obj_contents obj. \<not> strcmp_eq (key e) k"
    using obj_get_None by auto
  let ?e = "mk_entry k v"
  obtain ob where ob: "obj_put obj k v = Some ob" "table_ok ob"
    "contents ob = add_mset ?e (obj_contents obj)"
    using obj_put_ok[OF conjunct1[OF ok] sz] by blast
  then have ob': "obj_contents (obj_put obj k v) = add_mset ?e (obj_contents obj)" "obj_ok (obj_put obj k v)"
    by (auto simp: obj_contents_def obj_ok_def)
  have "keys_distinct (add_mset ?e (obj_contents obj))"
    using keys_distinct_add[of "obj_contents obj" ?e] ok fresh by (simp add: mk_entry_def strcmp_eq_def)
  then show ok': "obj_ok (obj_put obj k v) \<and> keys_distinct (obj_contents (obj_put obj k v))"
    using ob' by simp
  show "Suc (2 ^ 32 - size (obj_contents (obj_put obj k v))) = 2 ^ 32 - size (obj_contents obj)"
    using ob' sz by (simp add: Suc_diff_Suc)
  show "obj_get (obj_put obj k v) k' = (if strcmp_eq k k' then Some v else obj_get obj k')"
  proof (cases "obj_get (obj_put obj k v) k'")
    case None
    with obj_get_None[OF ob'(2), of k'] ob'(1) have "\<not> strcmp_eq k k'" "obj_get obj k' = None"
      using obj_get_None[of obj k'] ok by (auto simp: mk_entry_def)
    with None show ?thesis by simp
  next
    case (Some w)
    then obtain e where e: "e \<in># add_mset ?e (obj_contents obj)" "strcmp_eq (key e) k'"
      using obj_get_None[OF ob'(2), of k'] ob'(1) by auto
    then have w: "w = val e"
      using obj_get_unique[of "obj_put obj k v" e k'] ok' ob'(1) Some by simp
    show ?thesis
    proof (cases "e = ?e")
      case True
      with e w Some show ?thesis by (simp add: mk_entry_def)
    next
      case False
      then have "obj_get obj k' = Some w" "\<not> strcmp_eq k k'"
        using e w obj_get_unique[of obj e k'] ok fresh by (auto simp: strcmp_eq_def)
      with Some show ?thesis by simp
    qed
  qed
qed (auto simp: strcmp_eq_def)


definition puts :: "(string \<times> 'n) list \<Rightarrow> heap \<Rightarrow> 'n dotj_object option \<times> heap" where
  "puts kvs h =
     fold (\<lambda>(k, v) (obj, h). map_prod Some id (object_put obj (mk_entry k v) h)) kvs (None, h)"

lemma puts_put_all:
  "fst (fold (\<lambda>(k, v) (obj, h). map_prod Some id (object_put obj (mk_entry k v) h)) kvs (obj, h)) =
   ot.put_all obj kvs"
proof (induction kvs arbitrary: obj h)
  case (Cons kv kvs)
  obtain k v where kv: "kv = (k, v)" by (cases kv)
  obtain ob' h' where "object_put obj (mk_entry k v) h = (ob', h')" by fastforce
  moreover from this have "obj_put obj k v = Some ob'"
    unfolding obj_put_def using fst_object_put[of obj "mk_entry k v" _ h] by simp
  ultimately show ?case using Cons kv by simp
qed simp

section \<open>Properties\<close>

text \<open>
  C6. Inserting an entry keeps the hash table well formed (a power-of-two number of slots, the
  length equal to the number of entries, every entry reachable from its hash without crossing
  an empty slot) and adds exactly that entry: nothing is lost or overwritten, also when the
  table grows and is rehashed.
\<close>

theorem object_put_invariant:
  assumes "obj_ok obj" "size (obj_contents obj) < 2 ^ 32" "keyhash e = hash (key e)"
    "object_put obj e h = (ob', h')"
  shows "table_ok ob' \<and> contents ob' = add_mset e (obj_contents obj)"
  using object_put_ok[OF assms] by simp

theorem object_put_invariant_witness:
  "\<exists>ob' h'. object_put None (mk_entry ''ab'' (7::nat)) \<lparr>mallocs = 0, frees = 0\<rparr> = (ob', h') \<and>
     table_ok ob' \<and> contents ob' = {#mk_entry ''ab'' 7#}"
proof -
  obtain ob' h' where *: "object_put None (mk_entry ''ab'' (7::nat)) \<lparr>mallocs = 0, frees = 0\<rparr> = (ob', h')"
    by fastforce
  show ?thesis
    using object_put_invariant[OF _ _ _ *] * by (simp add: obj_ok_def obj_contents_def mk_entry_def)
qed

text \<open>
  C5. \<^verbatim>\<open>dotjson_object_get\<close> on a table built from up to \<open>2\<^sup>3\<^sup>2\<close> entries with pairwise different keys
  returns exactly the value that was stored under the key, and NULL for every other key.
\<close>

theorem object_get_after_puts:
  assumes "sorted_wrt (\<lambda>a b. \<not> strcmp_eq (fst a) (fst b)) kvs" "length kvs \<le> 2 ^ 32"
    "puts kvs h = (Some ob, h')"
  shows "dotjson_object_get ob k = map_option snd (find (\<lambda>kv. strcmp_eq (fst kv) k) kvs)"
proof -
  have "ot.put_all None kvs = Some ob"
    using puts_put_all[where obj = None and kvs = kvs and h = h] assms(3) by (simp add: puts_def)
  moreover have "obj_get (ot.put_all None kvs) k =
    (case find (\<lambda>kv. strcmp_eq (fst kv) k) kvs of Some kv \<Rightarrow> Some (snd kv) | None \<Rightarrow> obj_get None k)"
    using ot.get_put_all[of None kvs k] assms(1,2)
    by (simp add: obj_ok_def obj_contents_def obj_get_def keys_distinct_def)
  ultimately show ?thesis by (auto simp: obj_get_def split: option.splits)
qed

theorem object_get_after_puts_witness:
  "\<exists>ob h'. puts [(''a'', 1::nat), (''b'', 2)] \<lparr>mallocs = 0, frees = 0\<rparr> = (Some ob, h') \<and>
     dotjson_object_get ob ''b'' = Some 2 \<and> dotjson_object_get ob ''c'' = None"
proof -
  let ?kvs = "[(''a'', 1::nat), (''b'', 2)]"
  obtain ob h' where *: "puts ?kvs \<lparr>mallocs = 0, frees = 0\<rparr> = (Some ob, h')"
    by (simp add: puts_def map_prod_def case_prod_unfold)
  have "sorted_wrt (\<lambda>a b. \<not> strcmp_eq (fst a) (fst b)) ?kvs" by (simp add: strcmp_eq_def)
  from object_get_after_puts[OF this _ *] * show ?thesis by (simp add: strcmp_eq_def)
qed

text \<open>
  With duplicate keys the table keeps both entries, and which one is found can change when a
  later, unrelated insertion makes the table grow: the rehash runs in slot order.
\<close>

lemma hash_bc: "hash [CHR ''b'', NUL] = 1724067" "hash [CHR ''c'', NUL] = 1724068" "hash ''b'' = 1724067"
  by (simp_all add: hash_def hash_seed_def schar_def)

lemma grow_eval: "min_bucket 2 = 2" "min_bucket 3 = 4"
  "replicate 2 None = [None, None]" "replicate 4 None = [None, None, None, None]"
  by (simp_all add: min_bucket_def numeral_eq_Suc)

lemma slot_eval:
  "object_slot (Object 1 l [None]) [CHR ''b'', NUL] = 0"
  "object_slot (Object 2 l [None, None]) [CHR ''b'', NUL] = 1"
  "object_slot (Object 2 l [None, Some e]) [CHR ''b'', NUL] = 0"
  "object_slot (Object 4 l [None, None, None, None]) [CHR ''b'', NUL] = 3"
  "object_slot (Object 4 l [None, None, None, Some e]) [CHR ''b'', NUL] = 0"
  "object_slot (Object 4 l [Some e', None, None, Some e]) [CHR ''c'', NUL] = 1"
  by (simp_all only: object_slot_def hash_bc) (simp_all add: slot_loop.simps Let_def)

lemma puts_bb:
  "puts [(''b'', x), (''b'', y)] h =
     (Some (Object 2 2 [Some (mk_entry ''b'' y), Some (mk_entry ''b'' x)]), free (malloc (malloc h)))"
  "puts [(''b'', x), (''b'', y), (''c'', z)] h =
     (Some (Object 4 3 [Some (mk_entry ''b'' x), Some (mk_entry ''c'' z), None, Some (mk_entry ''b'' y)]),
      free (malloc (free (malloc (malloc h)))))"
  by (simp_all add: puts_def object_put_def object_grow_def object_store_def mk_entry_def grow_eval
      slot_eval[unfolded One_nat_def])

theorem duplicate_key_flips:
  "\<exists>ob ob' h1 h2. puts [(''b'', 1::nat), (''b'', 2)] h = (Some ob, h1) \<and>
     puts [(''b'', 1::nat), (''b'', 2), (''c'', 3)] h = (Some ob', h2) \<and>
     dotjson_object_get ob ''b'' = Some 1 \<and> dotjson_object_get ob' ''b'' = Some 2"
  unfolding puts_bb dotjson_object_get_def object_find_def hash_bc mk_entry_def
  by (simp add: find_loop.simps Let_def strcmp_eq_def hash_bc)

end
