(* ===== verification/Dotjson_Decode.thy ===== *)
theory Dotjson_Decode
  imports Dotjson_Table
begin

text \<open>
  The decoder of \<^verbatim>\<open>src/c/dotjson/dotjson.c\<close>: \<^verbatim>\<open>decode_string\<close>, \<^verbatim>\<open>decode_number\<close>, \<^verbatim>\<open>decode_array\<close>,
  \<^verbatim>\<open>decode_object\<close>, \<^verbatim>\<open>decode_node\<close>, \<^verbatim>\<open>dotjson_decode\<close> and \<^verbatim>\<open>dotjson_destroy\<close>. A decoder returns the
  number of characters it consumed (0 on failure), the node it stored through \<^verbatim>\<open>pnode\<close> (\<open>None\<close> if
  nothing was stored) and the heap. The nesting depth is bounded by fuel: the outer \<open>None\<close> means
  that the depth was exceeded, and a theorem shows that the length of the text is always enough.
  The loops of \<^verbatim>\<open>decode_array\<close> and \<^verbatim>\<open>decode_object\<close> are functions of their own, with the decoder of
  the nested values as an argument; they terminate for every such decoder.
\<close>

section \<open>Definitions\<close>

datatype dotj_node =
    DOTJ_NULL
  | DOTJ_FALSE
  | DOTJ_TRUE
  | DOTJ_NUMBER (raw: string)
  | DOTJ_STRING (slen: nat) (chars: string)
  | DOTJ_OBJECT (object: "dotj_node dotj_object")
  | DOTJ_ARRAY (array: "dotj_node dotj_array")

type_synonym decoded = "nat \<times> dotj_node option \<times> heap"

subsection \<open>Destroying\<close>

lemma size_object_val [termination_simp]:
  assumes "Some e \<in> set (take n (entries ob))"
  shows "size (val e) < Suc (size_dotj_object size ob)"
proof -
  have "Some e \<in> set (entries ob)" using assms by (meson in_set_takeD)
  from size_list_estimation[OF this, of "size (val e)" "size_option (size_dotj_entry size)"]
  show ?thesis by (cases ob; cases e) auto
qed

lemma size_object_val': "Some e \<in> set (entries ob) \<Longrightarrow> size (val e) < Suc (size_dotj_object size ob)"
  using size_object_val[of e "length (entries ob)" ob] by simp

lemma size_array_item [termination_simp]:
  "x \<in> set (items a) \<Longrightarrow> size x < Suc (size_dotj_array size a)"
  using size_list_estimation'[of x "items a" "size x" size] by (cases a) auto

function (sequential) dotjson_destroy :: "dotj_node \<Rightarrow> heap \<Rightarrow> heap" where
  "dotjson_destroy (DOTJ_OBJECT ob) h =
     free (fold (\<lambda>e h. case e of None \<Rightarrow> h | Some e \<Rightarrow> free (dotjson_destroy (val e) h))
       (take (olen ob) (entries ob)) h)"
| "dotjson_destroy (DOTJ_ARRAY a) h = free (fold dotjson_destroy (items a) h)"
| "dotjson_destroy _ h = free h"
  by pat_completeness auto
termination
  by (relation "measure (size o fst)") (auto simp: termination_simp)

definition destroy_opt :: "dotj_node option \<Rightarrow> heap \<Rightarrow> heap" where
  \<comment> \<open>\<^verbatim>\<open>dotjson_destroy\<close> of a pointer that may be NULL\<close>
  "destroy_opt node h = (case node of None \<Rightarrow> h | Some x \<Rightarrow> dotjson_destroy x h)"

subsection \<open>Strings and numbers\<close>

definition decode_string :: "bool \<Rightarrow> string \<Rightarrow> heap \<Rightarrow> decoded" where
  "decode_string fc s h =
     (let p = IGNORE_CHARS fc s in
      case unescape_str p None (Some 0) of
        (0, _, _) \<Rightarrow> (0, None, h)
      | (Suc _, _, len) \<Rightarrow>
          let n = the len;
              (m, buf, len) = unescape_str p (Some (replicate (Suc n) NUL)) (Some n);
              chars = (the buf)[the len := NUL]
          in (ptr_diff (drop m p) s, Some (DOTJ_STRING (the len) chars), malloc h))"

definition skip_sign :: "string \<Rightarrow> string" where
  "skip_sign p = (if deref p = CHR ''+'' \<or> deref p = CHR ''-'' then tl p else p)"

fun digit_loop :: "string \<Rightarrow> nat \<Rightarrow> string \<times> nat" where
  "digit_loop [] state = ([], state)"
| "digit_loop (c # p) state =
     (if is_digit c then
        digit_loop p (if state = 0 then 1 else if state = 2 then 3 else if state = 4 then 5 else state)
      else (c # p, state))"

lemma digit_loop_length [termination_simp]: "digit_loop p st = (q, st') \<Longrightarrow> length q \<le> length p"
  by (induction p st rule: digit_loop.induct) (auto split: if_splits)

lemma skip_sign_length: "length (skip_sign p) \<le> length p"
  by (simp add: skip_sign_def)

function num_frac :: "string \<Rightarrow> nat \<Rightarrow> string \<times> nat" where
  "num_frac p state =
     (let (p, state) = digit_loop p state in
      if state = 1 \<and> deref p = CHR ''.'' then num_frac (tl p) 2
      else if (state = 1 \<or> state = 3) \<and> (deref p = CHR ''E'' \<or> deref p = CHR ''e'') then
        num_frac (skip_sign (tl p)) 4
      else (p, state))"
  by pat_completeness auto
termination
proof (relation "measure (\<lambda>(p, st). length p)", goal_cases)
  case (2 p st q p' st')
  then show ?case using digit_loop_length[of p st p' st'] by (cases p') auto
next
  case (3 p st q p' st')
  then show ?case
    using digit_loop_length[of p st p' st'] skip_sign_length[of "tl p'"] by (cases p') auto
qed simp

declare num_frac.simps [simp del]

definition decode_number :: "bool \<Rightarrow> string \<Rightarrow> heap \<Rightarrow> decoded" where
  "decode_number fc s h =
     (let b = IGNORE_CHARS fc s;
          (p, state) = num_frac (skip_sign b) 0
      in if even state then (0, None, h)
         else (ptr_diff p s, Some (DOTJ_NUMBER (take (ptr_diff p b) b @ [NUL])), malloc h))"

subsection \<open>Arrays and objects\<close>

type_synonym decoder = "string \<Rightarrow> heap \<Rightarrow> decoded option"

definition stored :: "dotj_node option \<Rightarrow> dotj_node option \<Rightarrow> dotj_node option" where
  \<comment> \<open>the pointer variable \<open>old\<close> after a call that may have stored \<open>new\<close> in it\<close>
  "stored old new = (case new of None \<Rightarrow> old | Some _ \<Rightarrow> new)"

type_synonym array_vars = "string \<times> nat \<times> dotj_node option \<times> dotj_node dotj_array option \<times> heap"

lemma IGNORE_CHARS_progress [termination_simp]:
  assumes "deref p \<noteq> NUL" "0 < n"
  shows "length (drop n (IGNORE_CHARS fc p)) < length p"
proof -
  have "length (IGNORE_CHARS fc p) \<le> length p" by (rule ic.skip_length)
  moreover have "0 < length p" using assms(1) by (cases p) auto
  ultimately show ?thesis using assms(2) unfolding length_drop by linarith
qed

text \<open>
  One iteration of the loop of \<^verbatim>\<open>decode_array\<close>; the result are the variables when the loop ends.
  Storing a NULL \<^verbatim>\<open>node\<close> in the array would be the outer \<open>None\<close> too; it does not happen.
\<close>

function array_loop ::
  "bool \<Rightarrow> decoder \<Rightarrow> string \<Rightarrow> nat \<Rightarrow> dotj_node option \<Rightarrow> dotj_node dotj_array option \<Rightarrow> heap \<Rightarrow>
   array_vars option" where
  "array_loop fc dn p0 state node arr h =
     (if deref p0 \<noteq> NUL \<and> state \<noteq> 3 then
        let p = IGNORE_CHARS fc p0 in
        if state = 0 \<and> deref p = CHR ''['' then array_loop fc dn (drop 1 p) 1 node arr h
        else if state = 1 then
          if deref p = CHR '']'' then
            if arr = None then
              let (a, h) = array_grow None h in array_loop fc dn (drop 1 p) 3 node (Some a) h
            else Some (p, state, node, arr, h)
          else
            case dn p h of
              None \<Rightarrow> None
            | Some (n, nd, h) \<Rightarrow>
                if n = 0 then Some (p, state, stored node nd, arr, h)
                else array_loop fc dn (drop n p) 2 (stored node nd) arr h
        else if state = 2 \<and> (deref p = CHR '','' \<or> deref p = CHR '']'') then
          case node of
            None \<Rightarrow> None
          | Some x \<Rightarrow>
              let (a, h) = array_push arr x h in
              array_loop fc dn (drop 1 p) (if deref p = CHR '','' then 1 else 3) None (Some a) h
        else Some (p, state, node, arr, h)
      else Some (p0, state, node, arr, h))"
  by pat_completeness auto
termination
  by (relation "measure (\<lambda>(fc, dn, p, _). length p)")
    (auto simp del: length_drop simp: IGNORE_CHARS_progress)

definition decode_array :: "bool \<Rightarrow> decoder \<Rightarrow> string \<Rightarrow> heap \<Rightarrow> decoded option" where
  "decode_array fc dn s h =
     (case array_loop fc dn s 0 None None h of
        None \<Rightarrow> None
      | Some (p, state, node, arr, h) \<Rightarrow>
          if state \<noteq> 3 then
            let h = destroy_opt node h;
                h = destroy_opt (map_option DOTJ_ARRAY arr) h
            in Some (0, None, h)
          else Some (ptr_diff p s, map_option DOTJ_ARRAY arr, h))"

text \<open>The entry under construction: its value pointer may still be NULL.\<close>

type_synonym new_entry = "dotj_node option dotj_entry"

type_synonym object_vars = "string \<times> nat \<times> new_entry option \<times> dotj_node dotj_object option \<times> heap"

definition new_key :: "string \<Rightarrow> nat \<Rightarrow> nat \<times> new_entry" where
  \<comment> \<open>the second pass of \<^verbatim>\<open>unescape_str\<close> into a fresh entry for a key of length \<open>len\<close>\<close>
  "new_key p len =
     (let (m, buf, kl) = unescape_str p (Some (replicate (Suc len) NUL)) (Some len);
          k = (the buf)[len := NUL]
      in (m, Entry (hash k) (the kl) k None))"

function object_loop ::
  "bool \<Rightarrow> decoder \<Rightarrow> string \<Rightarrow> nat \<Rightarrow> new_entry option \<Rightarrow> dotj_node dotj_object option \<Rightarrow> heap \<Rightarrow>
   object_vars option" where
  "object_loop fc dn p0 state entry obj h =
     (if deref p0 \<noteq> NUL \<and> state \<noteq> 5 then
        let p = IGNORE_CHARS fc p0 in
        if state = 0 \<and> deref p = CHR ''{'' then object_loop fc dn (drop 1 p) 1 entry obj h
        else if state = 1 \<and> deref p = CHR 0x22 then
          (case unescape_str p None (Some 0) of
             (0, _, _) \<Rightarrow> Some (p, state, entry, obj, h)
           | (Suc _, _, len) \<Rightarrow>
               let (m, e) = new_key p (the len) in
               object_loop fc dn (drop (Suc (m - 1)) p) 2 (Some e) obj (malloc h))
        else if state = 2 \<and> deref p = CHR '':'' then object_loop fc dn (drop 1 p) 3 entry obj h
        else if state = 3 then
          (case entry of
             None \<Rightarrow> None
           | Some e \<Rightarrow>
               case dn p h of
                 None \<Rightarrow> None
               | Some (n, nd, h) \<Rightarrow>
                   let entry = Some (Entry (keyhash e) (keylen e) (key e) (stored (val e) nd)) in
                   if n = 0 then Some (p, state, entry, obj, h)
                   else object_loop fc dn (drop n p) 4 entry obj h)
        else if state = 4 \<and> (deref p = CHR '','' \<or> deref p = CHR ''}'') then
          (case entry of
             Some (Entry kh kl k (Some v)) \<Rightarrow>
               let (ob, h) = object_put obj (Entry kh kl k v) h in
               object_loop fc dn (drop 1 p) (if deref p = CHR '','' then 1 else 5) None (Some ob) h
           | _ \<Rightarrow> None)
        else if state = 1 \<and> deref p = CHR ''}'' then
          if obj = None then
            let (ob, h) = object_grow None h in object_loop fc dn (drop 1 p) 5 entry (Some ob) h
          else Some (p, state, entry, obj, h)
        else Some (p, state, entry, obj, h)
      else Some (p0, state, entry, obj, h))"
  by pat_completeness auto
termination
  by (relation "measure (\<lambda>(fc, dn, p, _). length p)")
    (auto simp del: length_drop simp: IGNORE_CHARS_progress)

declare array_loop.simps [simp del] object_loop.simps [simp del]

definition decode_object :: "bool \<Rightarrow> decoder \<Rightarrow> string \<Rightarrow> heap \<Rightarrow> decoded option" where
  "decode_object fc dn s h =
     (case object_loop fc dn s 0 None None h of
        None \<Rightarrow> None
      | Some (p, state, entry, obj, h) \<Rightarrow>
          if state \<noteq> 5 then
            let h = (case entry of None \<Rightarrow> h | Some e \<Rightarrow> free (destroy_opt (val e) h));
                h = destroy_opt (map_option DOTJ_OBJECT obj) h
            in Some (0, None, h)
          else Some (ptr_diff p s, map_option DOTJ_OBJECT obj, h))"

subsection \<open>Values\<close>

primrec decode_node :: "bool \<Rightarrow> nat \<Rightarrow> decoder" where
  "decode_node fc 0 s h = None"
| "decode_node fc (Suc depth) s h =
     (let p = IGNORE_CHARS fc s;
          adv = (\<lambda>(n, nd, h). (ptr_diff (drop n p) s, nd, h));
          c = deref p
      in if c = CHR ''{'' then map_option adv (decode_object fc (decode_node fc depth) p h)
         else if c = CHR ''['' then map_option adv (decode_array fc (decode_node fc depth) p h)
         else if c = CHR 0x22 then Some (adv (decode_string fc p h))
         else if c = CHR ''n'' then
           Some (if at p 1 = CHR ''u'' \<and> at p 2 = CHR ''l'' \<and> at p 3 = CHR ''l''
                 then adv (4, Some DOTJ_NULL, malloc h) else adv (0, None, h))
         else if c = CHR ''f'' then
           Some (if at p 1 = CHR ''a'' \<and> at p 2 = CHR ''l'' \<and> at p 3 = CHR ''s'' \<and> at p 4 = CHR ''e''
                 then adv (5, Some DOTJ_FALSE, malloc h) else adv (0, None, h))
         else if c = CHR ''t'' then
           Some (if at p 1 = CHR ''r'' \<and> at p 2 = CHR ''u'' \<and> at p 3 = CHR ''e''
                 then adv (4, Some DOTJ_TRUE, malloc h) else adv (0, None, h))
         else if is_digit c \<or> c = CHR ''+'' \<or> c = CHR ''-'' then Some (adv (decode_number fc p h))
         else Some (adv (0, None, h)))"

text \<open>
  \<^verbatim>\<open>dotjson_decode\<close>: \<open>json\<close> is \<open>None\<close> for a NULL text and \<open>pnode\<close> tells whether the result pointer is
  not NULL; the node is \<open>None\<close> when the call returns 0. The depth of nesting is bounded by the
  length of the text.
\<close>

definition dotjson_decode :: "bool \<Rightarrow> string option \<Rightarrow> bool \<Rightarrow> heap \<Rightarrow> decoded option" where
  "dotjson_decode fc json pnode h =
     (case json of
        None \<Rightarrow> Some (0, None, h)
      | Some s \<Rightarrow>
          if \<not> pnode then Some (0, None, h)
          else
            case decode_object fc (decode_node fc (length s)) s h of
              None \<Rightarrow> None
            | Some (n, nd, h) \<Rightarrow>
                if n \<noteq> 0 then
                  (case nd of
                     None \<Rightarrow> None
                   | Some (DOTJ_OBJECT ob) \<Rightarrow> Some (n, nd, h)
                   | Some (DOTJ_ARRAY a) \<Rightarrow> Some (n, nd, h)
                   | Some x \<Rightarrow> Some (0, None, dotjson_destroy x h))
                else Some (0, None, h))"

end
