(* ===== verification/Dotjson_Parse.thy ===== *)
theory Dotjson_Parse
  imports Dotjson_Decode "HOL-Library.Sublist"
begin

text \<open>
  What \<^verbatim>\<open>dotjson_decode\<close> accepts and what it builds: a grammar of the accepted texts over abstract
  JSON values, the node that represents a value, and the proof that the decoder stores exactly
  the node of the value that the text denotes, fails exactly on the other texts, and never
  exceeds the depth bound.
\<close>

section \<open>Specification\<close>

datatype jv =
    JNull
  | JFalse
  | JTrue
  | JNum string
  | JStr string
  | JArr "jv list"
  | JObj "(string \<times> jv) list"

subsection \<open>Numbers\<close>

text \<open>
  \<open>number b\<close> splits a number off the front of \<open>b\<close>: a sign, digits, an optional fraction, an optional
  exponent. As in the code there is no backtracking: a point or an exponent letter must be
  followed by digits.
\<close>

definition digits :: "string \<Rightarrow> string option" where
  "digits r = (if takeWhile is_digit r = [] then None else Some (dropWhile is_digit r))"

definition exp_part :: "string \<Rightarrow> string option" where
  "exp_part r =
     (if deref r = CHR ''E'' \<or> deref r = CHR ''e'' then digits (skip_sign (tl r)) else Some r)"

definition frac_part :: "string \<Rightarrow> string option" where
  "frac_part r = (if deref r = CHR ''.'' then digits (tl r) else Some r)"

definition number_end :: "string \<Rightarrow> string option" where
  "number_end b =
     Option.bind (digits (skip_sign b)) (\<lambda>r. Option.bind (frac_part r) exp_part)"

definition number :: "string \<Rightarrow> (string \<times> string) option" where
  "number b = map_option (\<lambda>r. (take (length b - length r) b, r)) (number_end b)"

subsection \<open>The grammar\<close>

inductive jvalue :: "bool \<Rightarrow> string \<Rightarrow> jv \<Rightarrow> string \<Rightarrow> bool"
  and jelems :: "bool \<Rightarrow> string \<Rightarrow> jv list \<Rightarrow> string \<Rightarrow> bool"
  and jmembers :: "bool \<Rightarrow> string \<Rightarrow> (string \<times> jv) list \<Rightarrow> string \<Rightarrow> bool"
  for fc where
  null: "IGNORE_CHARS fc s = ''null'' @ r \<Longrightarrow> jvalue fc s JNull r"
| false: "IGNORE_CHARS fc s = ''false'' @ r \<Longrightarrow> jvalue fc s JFalse r"
| true: "IGNORE_CHARS fc s = ''true'' @ r \<Longrightarrow> jvalue fc s JTrue r"
| num: "number (IGNORE_CHARS fc s) = Some (n, r) \<Longrightarrow> jvalue fc s (JNum n) r"
| str: "literal (IGNORE_CHARS fc s) = Some (d, r) \<Longrightarrow> jvalue fc s (JStr d) r"
| arr0: "IGNORE_CHARS fc s = CHR ''['' # q \<Longrightarrow> IGNORE_CHARS fc q = CHR '']'' # r \<Longrightarrow>
    jvalue fc s (JArr []) r"
| arr: "IGNORE_CHARS fc s = CHR ''['' # q \<Longrightarrow> jelems fc q vs r \<Longrightarrow> jvalue fc s (JArr vs) r"
| obj0: "IGNORE_CHARS fc s = CHR ''{'' # q \<Longrightarrow> IGNORE_CHARS fc q = CHR ''}'' # r \<Longrightarrow>
    jvalue fc s (JObj []) r"
| obj: "IGNORE_CHARS fc s = CHR ''{'' # q \<Longrightarrow> jmembers fc q kvs r \<Longrightarrow> jvalue fc s (JObj kvs) r"
| last_elem: "jvalue fc s v q \<Longrightarrow> IGNORE_CHARS fc q = CHR '']'' # r \<Longrightarrow> jelems fc s [v] r"
| next_elem: "jvalue fc s v q \<Longrightarrow> IGNORE_CHARS fc q = CHR '','' # q' \<Longrightarrow> jelems fc q' vs r \<Longrightarrow>
    jelems fc s (v # vs) r"
| last_member: "literal (IGNORE_CHARS fc s) = Some (k, q1) \<Longrightarrow> IGNORE_CHARS fc q1 = CHR '':'' # q2 \<Longrightarrow>
    jvalue fc q2 v q3 \<Longrightarrow> IGNORE_CHARS fc q3 = CHR ''}'' # r \<Longrightarrow> jmembers fc s [(k, v)] r"
| next_member: "literal (IGNORE_CHARS fc s) = Some (k, q1) \<Longrightarrow> IGNORE_CHARS fc q1 = CHR '':'' # q2 \<Longrightarrow>
    jvalue fc q2 v q3 \<Longrightarrow> IGNORE_CHARS fc q3 = CHR '','' # q4 \<Longrightarrow> jmembers fc q4 kvs r \<Longrightarrow>
    jmembers fc s ((k, v) # kvs) r"

subsection \<open>The node of a value\<close>

definition arr_push :: "dotj_node dotj_array option \<Rightarrow> dotj_node \<Rightarrow> dotj_node dotj_array option" where
  "arr_push arr x = Some (fst (array_push arr x \<lparr>mallocs = 0, frees = 0\<rparr>))"

definition array_of :: "dotj_node list \<Rightarrow> dotj_node dotj_array" where
  "array_of xs = (if xs = [] then Array 1 [] else the (fold (\<lambda>x arr. arr_push arr x) xs None))"

definition object_of :: "(string \<times> dotj_node) list \<Rightarrow> dotj_node dotj_object" where
  "object_of kvs =
     (if kvs = [] then Object 1 0 [None] else the (fold (\<lambda>(k, v) obj. obj_put obj k v) kvs None))"

fun node_of :: "jv \<Rightarrow> dotj_node" where
  "node_of JNull = DOTJ_NULL"
| "node_of JFalse = DOTJ_FALSE"
| "node_of JTrue = DOTJ_TRUE"
| "node_of (JNum n) = DOTJ_NUMBER (n @ [NUL])"
| "node_of (JStr d) = DOTJ_STRING (length d) (d @ [NUL])"
| "node_of (JArr vs) = DOTJ_ARRAY (array_of (map node_of vs))"
| "node_of (JObj kvs) = DOTJ_OBJECT (object_of (map (\<lambda>(k, v). (k, node_of v)) kvs))"

section \<open>Lemmas\<close>

subsection \<open>Pointers\<close>

lemma drop_ptr_diff: "s = w @ r \<Longrightarrow> drop (ptr_diff r s) s = r"
  by (simp add: ptr_diff_def)

lemma IGNORE_CHARS_NUL: "deref p = NUL \<Longrightarrow> IGNORE_CHARS fc p = p"
  using ic.skip_stop[of NUL fc "tl p"] ic.skip_Nil[of fc] by (cases p) (auto simp: is_space_def)

lemma IGNORE_CHARS_deref: "deref (IGNORE_CHARS fc p) \<noteq> NUL \<Longrightarrow> deref p \<noteq> NUL"
  using IGNORE_CHARS_NUL by metis

lemma deref_ConsD: "deref p = c \<Longrightarrow> c \<noteq> NUL \<Longrightarrow> p = c # drop 1 p"
  by (cases p) auto

subsection \<open>Numbers\<close>

definition digit_state :: "nat \<Rightarrow> nat" where
  "digit_state st = (if st = 0 then 1 else if st = 2 then 3 else if st = 4 then 5 else st)"

lemma digit_state_simps [simp]:
  "digit_state 0 = 1" "digit_state 2 = 3" "digit_state 4 = 5" "digit_state (digit_state st) = digit_state st"
  by (simp_all add: digit_state_def)

lemma digit_loop_eq:
  "digit_loop p st = (dropWhile is_digit p, if takeWhile is_digit p = [] then st else digit_state st)"
proof (induction p st rule: digit_loop.induct)
  case (2 c p st)
  then show ?case by (simp add: digit_state_def)
qed simp

lemma num_frac_4: "num_frac p 4 = (case digits p of None \<Rightarrow> (dropWhile is_digit p, 4) | Some q \<Rightarrow> (q, 5))"
  by (simp add: num_frac.simps[of p] digit_loop_eq digits_def)

lemma num_frac_2:
  "num_frac p 2 =
   (case digits p of None \<Rightarrow> (dropWhile is_digit p, 2)
    | Some q \<Rightarrow> if deref q = CHR ''E'' \<or> deref q = CHR ''e'' then num_frac (skip_sign (tl q)) 4 else (q, 3))"
  by (simp add: num_frac.simps[of p] digit_loop_eq digits_def)

lemma num_frac_0:
  "num_frac p 0 =
   (case digits p of None \<Rightarrow> (dropWhile is_digit p, 0)
    | Some q \<Rightarrow> if deref q = CHR ''.'' then num_frac (tl q) 2
        else if deref q = CHR ''E'' \<or> deref q = CHR ''e'' then num_frac (skip_sign (tl q)) 4 else (q, 1))"
  by (simp add: num_frac.simps[of p] digit_loop_eq digits_def)

lemma num_frac_number:
  "number b = (case num_frac (skip_sign b) 0 of
     (q, st) \<Rightarrow> if even st then None else Some (take (length b - length q) b, q))"
  by (auto simp: number_def number_end_def num_frac_0 num_frac_2 num_frac_4 frac_part_def exp_part_def
      split: option.splits)

lemma decode_number_eq:
  "decode_number fc s h =
   (case number (IGNORE_CHARS fc s) of None \<Rightarrow> (0, None, h)
    | Some (n, r) \<Rightarrow> (ptr_diff r s, Some (DOTJ_NUMBER (n @ [NUL])), malloc h))"
  by (simp add: decode_number_def num_frac_number ptr_diff_def Let_def split: prod.splits)

text \<open>Each part of a number takes characters other than NUL off the front.\<close>

lemma takes_skip_sign: "takes p (skip_sign p)"
  using takes_tl[of p] by (auto simp: skip_sign_def takes_refl)

lemma takes_digits:
  assumes "digits r = Some q"
  shows "takes r q" "length q < length r"
proof -
  have "NUL \<notin> set (takeWhile is_digit r)" by (auto dest!: set_takeWhileD simp: is_digit_def)
  moreover have q: "q = dropWhile is_digit r" "takeWhile is_digit r \<noteq> []"
    using assms by (auto simp: digits_def split: if_splits)
  moreover have "r = takeWhile is_digit r @ q" by (simp add: q(1))
  ultimately show "takes r q" unfolding takes_def by blast
  from \<open>r = takeWhile is_digit r @ q\<close> q(2) show "length q < length r"
    by (metis length_append length_greater_0_conv less_add_same_cancel2)
qed

lemma takes_number_end:
  assumes "number_end b = Some r"
  shows "takes b r" "length r < length b"
proof -
  obtain r1 r2 where r: "digits (skip_sign b) = Some r1" "frac_part r1 = Some r2" "exp_part r2 = Some r"
    using assms by (auto simp: number_end_def bind_eq_Some_conv)
  have 1: "takes b r1" "length r1 < length b"
    using takes_digits[OF r(1)] takes_skip_sign takes_trans skip_sign_length[of b] by (blast, linarith)
  have 2: "takes r1 r2"
    using r(2) takes_digits(1)[of "tl r1" r2] takes_tl[of r1] takes_trans
    by (auto simp: frac_part_def takes_refl split: if_splits)
  have 3: "takes r2 r"
    using r(3) takes_digits(1)[of "skip_sign (tl r2)" r] takes_tl[of r2] takes_skip_sign[of "tl r2"]
    by (auto simp: exp_part_def takes_refl split: if_splits intro: takes_trans)
  show "takes b r" using 1 2 3 takes_trans by blast
  show "length r < length b" using 1(2) 2 3 by (auto simp: takes_def)
qed

lemma number_suffix:
  assumes "number b = Some (n, r)"
  shows "b = n @ r" "n \<noteq> []" "NUL \<notin> set n"
  using assms takes_number_end[of b r] by (auto simp: number_def takes_def)

lemma number_first:
  assumes "number b = Some (n, r)"
  shows "is_digit (deref b) \<or> deref b = CHR ''+'' \<or> deref b = CHR ''-''"
proof -
  have "digits (skip_sign b) \<noteq> None"
    using assms by (auto simp: number_def number_end_def bind_eq_Some_conv)
  then show ?thesis
    by (cases b) (auto simp: digits_def skip_sign_def split: if_splits)
qed

subsection \<open>Strings\<close>

lemma literal_length: "literal s = Some (d, r) \<Longrightarrow> length r + 2 \<le> length s"
  using literal_suffix[of s d r] by auto

lemma literal_first: "literal s = Some (d, r) \<Longrightarrow> deref s = CHR 0x22"
  by (simp add: literal_def split: if_splits)

lemma ptr_diff_literal:
  "literal s = Some (d, r) \<Longrightarrow> \<exists>n. ptr_diff r s = Suc n"
  using literal_length[of s d r] by (intro exI[of _ "length s - length r - 1"]) (simp add: ptr_diff_def)

lemma drop_NULs: "drop n (NUL # replicate n NUL) = [NUL]"
  by (induction n) auto

lemma decode_string_eq:
  "decode_string fc s h =
   (case literal (IGNORE_CHARS fc s) of None \<Rightarrow> (0, None, h)
    | Some (d, r) \<Rightarrow> (ptr_diff r s, Some (DOTJ_STRING (length d) (d @ [NUL])), malloc h))"
proof (cases "literal (IGNORE_CHARS fc s)")
  case None
  then show ?thesis by (simp add: decode_string_def unescape_str_measure Let_def)
next
  case (Some dr)
  then obtain d r where dr: "literal (IGNORE_CHARS fc s) = Some (d, r)" by (cases dr) auto
  let ?p = "IGNORE_CHARS fc s"
  obtain n where n: "ptr_diff r ?p = Suc n" using ptr_diff_literal[OF dr] by blast
  have "drop (ptr_diff r ?p) ?p = r"
    using literal_suffix[OF dr] by (auto simp: ptr_diff_def)
  then show ?thesis
    using dr n unescape_str_write[OF dr, of "replicate (Suc (length d)) NUL"]
    by (simp add: decode_string_def unescape_str_measure drop_NULs Let_def)
qed

lemma new_key_eq:
  "literal p = Some (d, r) \<Longrightarrow>
   new_key p (length d) = (ptr_diff r p, Entry (hash (d @ [NUL])) (length d) (d @ [NUL]) None)"
  using unescape_str_write[of p d r "replicate (Suc (length d)) NUL"]
  by (simp add: new_key_def drop_NULs Let_def)

subsection \<open>Steps of the loops\<close>

lemma array_loop_stop: "array_loop fc dn p 3 node arr h = Some (p, 3, node, arr, h)"
  by (simp add: array_loop.simps)

lemma object_loop_stop: "object_loop fc dn p 5 e obj h = Some (p, 5, e, obj, h)"
  by (simp add: object_loop.simps)

lemma deref_IGNORE_Cons:
  "IGNORE_CHARS fc p = c # q \<Longrightarrow> c \<noteq> NUL \<Longrightarrow> deref p \<noteq> NUL"
  using IGNORE_CHARS_deref[of fc p] by simp

lemma array_loop_open:
  "IGNORE_CHARS fc p = CHR ''['' # q \<Longrightarrow>
   array_loop fc dn p 0 node arr h = array_loop fc dn q 1 node arr h"
  by (simp add: array_loop.simps[of fc dn p] deref_IGNORE_Cons)

lemma array_loop_empty:
  "IGNORE_CHARS fc p = CHR '']'' # q \<Longrightarrow>
   array_loop fc dn p 1 node None h = Some (q, 3, node, Some (Array 1 []), malloc h)"
  by (simp add: array_loop.simps[of fc dn p] deref_IGNORE_Cons array_loop_stop array_grow_def)

lemma array_loop_value:
  assumes "dn (IGNORE_CHARS fc p) h = Some (n, Some x, h')" "0 < n" "deref p \<noteq> NUL"
    "deref (IGNORE_CHARS fc p) \<noteq> CHR '']''"
  shows "array_loop fc dn p 1 node arr h =
    array_loop fc dn (drop n (IGNORE_CHARS fc p)) 2 (Some x) arr h'"
  using assms by (simp add: array_loop.simps[of fc dn p] stored_def)

lemma array_loop_item:
  assumes "IGNORE_CHARS fc p = c # q" "c = CHR '','' \<or> c = CHR '']''"
  shows "\<exists>h'. array_loop fc dn p 2 (Some x) arr h =
    array_loop fc dn q (if c = CHR '','' then 1 else 3) None (arr_push arr x) h'"
proof -
  obtain a h' where a: "array_push arr x h = (a, h')" by fastforce
  then have "arr_push arr x = Some a"
    by (auto simp: arr_push_def array_push_def array_grow_def split: option.splits if_splits)
  with a assms deref_IGNORE_Cons[OF assms(1)] show ?thesis
    by (auto simp: array_loop.simps[of fc dn p])
qed

lemma object_loop_open:
  "IGNORE_CHARS fc p = CHR ''{'' # q \<Longrightarrow>
   object_loop fc dn p 0 e obj h = object_loop fc dn q 1 e obj h"
  by (simp add: object_loop.simps[of fc dn p] deref_IGNORE_Cons)

lemma object_loop_empty:
  "IGNORE_CHARS fc p = CHR ''}'' # q \<Longrightarrow>
   object_loop fc dn p 1 e None h = Some (q, 5, e, Some (Object 1 0 [None]), malloc h)"
  by (simp add: object_loop.simps[of fc dn p] deref_IGNORE_Cons object_loop_stop object_grow_def)

lemma object_loop_key:
  assumes "literal (IGNORE_CHARS fc p) = Some (d, q)"
  shows "object_loop fc dn p 1 e obj h =
    object_loop fc dn q 2 (Some (Entry (hash (d @ [NUL])) (length d) (d @ [NUL]) None)) obj (malloc h)"
proof -
  let ?p = "IGNORE_CHARS fc p"
  obtain n where n: "ptr_diff q ?p = Suc n" using ptr_diff_literal[OF assms] by blast
  have "drop (ptr_diff q ?p) ?p = q"
    using literal_suffix[OF assms] by (auto simp: ptr_diff_def)
  then show ?thesis
    using assms n literal_first[OF assms] IGNORE_CHARS_deref[of fc p]
    by (simp add: object_loop.simps[of fc dn p] unescape_str_measure new_key_eq)
qed

lemma object_loop_colon:
  "IGNORE_CHARS fc p = CHR '':'' # q \<Longrightarrow>
   object_loop fc dn p 2 e obj h = object_loop fc dn q 3 e obj h"
  by (simp add: object_loop.simps[of fc dn p] deref_IGNORE_Cons)

lemma object_loop_value:
  assumes "dn (IGNORE_CHARS fc p) h = Some (n, Some x, h')" "0 < n" "deref p \<noteq> NUL"
  shows "object_loop fc dn p 3 (Some (Entry kh kl k y)) obj h =
    object_loop fc dn (drop n (IGNORE_CHARS fc p)) 4 (Some (Entry kh kl k (Some x))) obj h'"
  using assms by (simp add: object_loop.simps[of fc dn p] stored_def)

lemma object_loop_put:
  assumes "IGNORE_CHARS fc p = c # q" "c = CHR '','' \<or> c = CHR ''}''"
  shows "\<exists>h'. object_loop fc dn p 4 (Some (Entry (hash (d @ [NUL])) (length d) (d @ [NUL]) (Some x))) obj h =
    object_loop fc dn q (if c = CHR '','' then 1 else 5) None (obj_put obj d x) h'"
proof -
  obtain ob h' where ob: "object_put obj (mk_entry d x) h = (ob, h')" by fastforce
  then have "obj_put obj d x = Some ob"
    unfolding obj_put_def using fst_object_put[of obj "mk_entry d x" _ h] by simp
  with ob assms deref_IGNORE_Cons[OF assms(1)] show ?thesis
    by (auto simp: object_loop.simps[of fc dn p] mk_entry_def)
qed


subsection \<open>The decoder accepts the grammar\<close>

lemma suffix_IGNORE: "suffix (IGNORE_CHARS fc p) p"
  using ic.skip_suffix[of p fc] by (auto simp: suffix_def)

lemma strict_suffix_Cons: "strict_suffix q (c # q)"
  by (simp add: strict_suffix_def suffix_Cons)

lemma suffix_token:
  assumes "IGNORE_CHARS fc q = c # r"
  shows "strict_suffix r q"
  using suffix_IGNORE[of fc q] strict_suffix_Cons[of r c] assms suffix_order.less_le_trans by metis

lemma strict_suffix_token:
  "strict_suffix q s \<Longrightarrow> IGNORE_CHARS fc q = c # r \<Longrightarrow> strict_suffix r s"
  using suffix_token suffix_order.less_trans by blast

lemma strict_suffix_literal: "literal s = Some (d, r) \<Longrightarrow> strict_suffix r s"
  using literal_suffix[of s d r] by (auto simp: strict_suffix_def suffix_def)

lemma strict_suffix_number: "number s = Some (n, r) \<Longrightarrow> strict_suffix r s"
  using number_suffix[of s n r] by (auto simp: strict_suffix_def suffix_def)

lemma strict_suffix_IGNORE: "strict_suffix r (IGNORE_CHARS fc q) \<Longrightarrow> strict_suffix r q"
  using suffix_IGNORE suffix_order.less_le_trans by blast

lemma strict_suffix_append: "w \<noteq> [] \<Longrightarrow> strict_suffix r (w @ r)"
  by (simp add: strict_suffix_def suffix_def)

lemma jvalue_suffix:
  "jvalue fc s v r \<Longrightarrow> strict_suffix r (IGNORE_CHARS fc s)"
  "jelems fc s vs r \<Longrightarrow> strict_suffix r (IGNORE_CHARS fc s)"
  "jmembers fc s kvs r \<Longrightarrow> strict_suffix r (IGNORE_CHARS fc s)"
proof (induction rule: jvalue_jelems_jmembers.inducts)
  case (arr s q vs r)
  then show ?case
    using strict_suffix_IGNORE strict_suffix_Cons[of q] suffix_order.less_trans by metis
next
  case (obj s q vs r)
  then show ?case
    using strict_suffix_IGNORE strict_suffix_Cons[of q] suffix_order.less_trans by metis
next
  case (next_elem s v q q' vs r)
  then show ?case
    using strict_suffix_IGNORE strict_suffix_token suffix_order.less_trans by metis
next
  case (last_member s k q1 q2 v q3 r)
  have "strict_suffix q2 (IGNORE_CHARS fc s)"
    using strict_suffix_token[OF strict_suffix_literal] last_member(1,2) by blast
  then show ?case
    using last_member(3-5) strict_suffix_IGNORE strict_suffix_token suffix_order.less_trans by metis
next
  case (next_member s k q1 q2 v q3 q4 kvs r)
  have "strict_suffix q2 (IGNORE_CHARS fc s)"
    using strict_suffix_token[OF strict_suffix_literal] next_member(1,2) by blast
  then show ?case
    using next_member(3-7) strict_suffix_IGNORE strict_suffix_token suffix_order.less_trans by metis
qed (auto simp: strict_suffix_append strict_suffix_literal strict_suffix_number
    intro: strict_suffix_token strict_suffix_Cons
    strict_suffix_append[of "''null''", simplified] strict_suffix_append[of "''false''", simplified]
    strict_suffix_append[of "''true''", simplified])

lemma jvalue_first:
  "jvalue fc s v r \<Longrightarrow> deref (IGNORE_CHARS fc s) \<noteq> NUL \<and> deref (IGNORE_CHARS fc s) \<noteq> CHR '']''"
  by (erule jvalue.cases) (auto dest!: number_first literal_first simp: is_digit_def)

lemma jvalue_advance:
  assumes "jvalue fc s v r"
  shows "drop (ptr_diff r (IGNORE_CHARS fc s)) (IGNORE_CHARS fc s) = r"
    "0 < ptr_diff r (IGNORE_CHARS fc s)" "deref s \<noteq> NUL"
    "length r < length (IGNORE_CHARS fc s)"
proof -
  obtain w where "IGNORE_CHARS fc s = w @ r" "w \<noteq> []"
    using jvalue_suffix(1)[OF assms] by (auto simp: strict_suffix_def suffix_def)
  then show "drop (ptr_diff r (IGNORE_CHARS fc s)) (IGNORE_CHARS fc s) = r"
    "0 < ptr_diff r (IGNORE_CHARS fc s)" "length r < length (IGNORE_CHARS fc s)"
    by (simp_all add: ptr_diff_def)
  show "deref s \<noteq> NUL" using jvalue_first[OF assms] IGNORE_CHARS_deref by blast
qed

lemma fold_arr_push: "xs \<noteq> [] \<Longrightarrow> \<exists>a. fold (\<lambda>x arr. arr_push arr x) xs arr = Some a"
  by (induction xs rule: rev_induct) (auto simp: arr_push_def)

lemma fold_obj_put: "kvs \<noteq> [] \<Longrightarrow> \<exists>ob. fold (\<lambda>(k, v) obj. obj_put obj k v) kvs obj = Some ob"
  by (induction kvs rule: rev_induct) (auto simp: obj_put_def)

lemma jelems_nonempty: "jelems fc s vs r \<Longrightarrow> vs \<noteq> []"
  by (erule jelems.cases) auto

lemma jmembers_nonempty: "jmembers fc s kvs r \<Longrightarrow> kvs \<noteq> []"
  by (erule jmembers.cases) auto

lemma decode_node_array:
  assumes "IGNORE_CHARS fc s = CHR ''['' # q" "suffix r q"
    "array_loop fc (decode_node fc d) q 1 None None h = Some (r, 3, None, Some a, h')"
  shows "decode_node fc (Suc d) (IGNORE_CHARS fc s) h =
    Some (ptr_diff r (IGNORE_CHARS fc s), Some (DOTJ_ARRAY a), h')"
proof -
  let ?p = "CHR ''['' # q"
  have "IGNORE_CHARS fc ?p = ?p" using assms(1) ic.skip_idem by metis
  moreover from array_loop_open[OF this, of "decode_node fc d" None None h] assms(3)
  have "decode_array fc (decode_node fc d) ?p h = Some (ptr_diff r ?p, Some (DOTJ_ARRAY a), h')"
    by (simp add: decode_array_def)
  ultimately show ?thesis
    using assms(1,2) by (auto simp: Let_def suffix_def ptr_diff_def)
qed

lemma decode_object_eq:
  assumes "IGNORE_CHARS fc s = CHR ''{'' # q"
    "object_loop fc dn q 1 None None h = Some (r, 5, None, Some ob, h')"
  shows "decode_object fc dn s h = Some (ptr_diff r s, Some (DOTJ_OBJECT ob), h')"
  using object_loop_open[OF assms(1), of dn None None h] assms(2) by (simp add: decode_object_def)

lemma decode_node_object:
  assumes "IGNORE_CHARS fc s = CHR ''{'' # q" "suffix r q"
    "object_loop fc (decode_node fc d) q 1 None None h = Some (r, 5, None, Some ob, h')"
  shows "decode_node fc (Suc d) (IGNORE_CHARS fc s) h =
    Some (ptr_diff r (IGNORE_CHARS fc s), Some (DOTJ_OBJECT ob), h')"
proof -
  let ?p = "CHR ''{'' # q"
  have p: "IGNORE_CHARS fc ?p = ?p" using assms(1) ic.skip_idem by metis
  with decode_object_eq[OF this assms(3)] show ?thesis
    using assms(1,2) by (auto simp: Let_def suffix_def ptr_diff_def)
qed

lemma suffix_jelems: "jelems fc q vs r \<Longrightarrow> suffix r q"
  using jvalue_suffix(2) strict_suffix_IGNORE suffix_order.less_imp_le by blast

lemma suffix_jmembers: "jmembers fc q kvs r \<Longrightarrow> suffix r q"
  using jvalue_suffix(3) strict_suffix_IGNORE suffix_order.less_imp_le by blast

lemma suffix_of_token: "IGNORE_CHARS fc q = c # r \<Longrightarrow> suffix r q"
  using suffix_token suffix_order.less_imp_le by blast

lemma length_IGNORE_token: "IGNORE_CHARS fc s = c # q \<Longrightarrow> length (IGNORE_CHARS fc q) < length (IGNORE_CHARS fc s)"
  using ic.skip_length[of fc q] by simp

lemma decode_node_word:
  "IGNORE_CHARS fc s = ''null'' @ r \<Longrightarrow> decode_node fc (Suc d) (IGNORE_CHARS fc s) h =
     Some (ptr_diff r (IGNORE_CHARS fc s), Some DOTJ_NULL, malloc h)"
  "IGNORE_CHARS fc s = ''false'' @ r \<Longrightarrow> decode_node fc (Suc d) (IGNORE_CHARS fc s) h =
     Some (ptr_diff r (IGNORE_CHARS fc s), Some DOTJ_FALSE, malloc h)"
  "IGNORE_CHARS fc s = ''true'' @ r \<Longrightarrow> decode_node fc (Suc d) (IGNORE_CHARS fc s) h =
     Some (ptr_diff r (IGNORE_CHARS fc s), Some DOTJ_TRUE, malloc h)"
  using ic.skip_idem[of fc s] by (simp_all add: Let_def ptr_diff_def)

lemma decode_node_number:
  assumes "number (IGNORE_CHARS fc s) = Some (n, r)"
  shows "decode_node fc (Suc d) (IGNORE_CHARS fc s) h =
     Some (ptr_diff r (IGNORE_CHARS fc s), Some (DOTJ_NUMBER (n @ [NUL])), malloc h)"
proof -
  have "drop (ptr_diff r (IGNORE_CHARS fc s)) (IGNORE_CHARS fc s) = r"
    using number_suffix[OF assms] by (simp add: ptr_diff_def)
  moreover have "is_digit c \<or> c = CHR ''+'' \<or> c = CHR ''-'' \<Longrightarrow>
    c \<noteq> CHR ''{'' \<and> c \<noteq> CHR ''['' \<and> c \<noteq> CHR 0x22 \<and> c \<noteq> CHR ''n'' \<and> c \<noteq> CHR ''f'' \<and> c \<noteq> CHR ''t''" for c
    by (auto simp: is_digit_def)
  note this[OF number_first[OF assms]]
  ultimately show ?thesis
    using assms number_first[OF assms] by (simp add: ic.skip_idem decode_number_eq Let_def)
qed

lemma decode_node_string:
  assumes "literal (IGNORE_CHARS fc s) = Some (e, r)"
  shows "decode_node fc (Suc d) (IGNORE_CHARS fc s) h =
     Some (ptr_diff r (IGNORE_CHARS fc s), Some (DOTJ_STRING (length e) (e @ [NUL])), malloc h)"
proof -
  have "drop (ptr_diff r (IGNORE_CHARS fc s)) (IGNORE_CHARS fc s) = r"
    using literal_suffix[OF assms] by (auto simp: ptr_diff_def)
  with literal_first[OF assms] assms show ?thesis
    by (simp add: ic.skip_idem decode_string_eq Let_def)
qed

text \<open>One element, one member, and the composite values, given the decoding of what they contain.\<close>

lemma array_loop_elem:
  assumes "jvalue fc s v q" "dn (IGNORE_CHARS fc s) h = Some (ptr_diff q (IGNORE_CHARS fc s), Some x, h')"
  shows "array_loop fc dn s 1 None arr h = array_loop fc dn q 2 (Some x) arr h'"
  using array_loop_value[of dn fc s h, OF assms(2)] jvalue_advance[OF assms(1)] jvalue_first[OF assms(1)] by simp

lemma object_loop_member:
  assumes "literal (IGNORE_CHARS fc s) = Some (k, q1)" "IGNORE_CHARS fc q1 = CHR '':'' # q2" "jvalue fc q2 v q3"
    "dn (IGNORE_CHARS fc q2) (malloc h) = Some (ptr_diff q3 (IGNORE_CHARS fc q2), Some x, h')"
  shows "object_loop fc dn s 1 None obj h =
    object_loop fc dn q3 4 (Some (Entry (hash (k @ [NUL])) (length k) (k @ [NUL]) (Some x))) obj h'"
  using object_loop_key[OF assms(1)] object_loop_colon[OF assms(2)]
    object_loop_value[of dn fc q2, OF assms(4)] jvalue_advance[OF assms(3)] by simp

lemma length_member:
  assumes "literal (IGNORE_CHARS fc s) = Some (k, q1)" "IGNORE_CHARS fc q1 = CHR '':'' # q2"
  shows "length (IGNORE_CHARS fc q2) < length (IGNORE_CHARS fc s)"
  using literal_length[OF assms(1)] assms(2) ic.skip_length[of fc q1] ic.skip_length[of fc q2] by simp

lemma length_next:
  assumes "jvalue fc s v q" "IGNORE_CHARS fc q = c # q'"
  shows "length (IGNORE_CHARS fc q') < length (IGNORE_CHARS fc s)"
  using jvalue_advance(4)[OF assms(1)] assms(2) ic.skip_length[of fc q] ic.skip_length[of fc q'] by simp

lemma decode_node_JArr:
  assumes "IGNORE_CHARS fc s = CHR ''['' # q" "jelems fc q vs r"
    "array_loop fc (decode_node fc d) q 1 None None h =
       Some (r, 3, None, fold (\<lambda>x arr. arr_push arr x) (map node_of vs) None, h')"
  shows "decode_node fc (Suc d) (IGNORE_CHARS fc s) h =
    Some (ptr_diff r (IGNORE_CHARS fc s), Some (node_of (JArr vs)), h')"
proof -
  obtain a where a: "fold (\<lambda>x arr. arr_push arr x) (map node_of vs) None = Some a"
    using fold_arr_push[of "map node_of vs" None] jelems_nonempty[OF assms(2)] by auto
  with assms(3) decode_node_array[OF assms(1) suffix_jelems[OF assms(2)], of d h a h'] show ?thesis
    using jelems_nonempty[OF assms(2)] by (simp add: array_of_def del: decode_node.simps)
qed

lemma decode_node_JObj:
  assumes "IGNORE_CHARS fc s = CHR ''{'' # q" "jmembers fc q kvs r"
    "object_loop fc (decode_node fc d) q 1 None None h =
       Some (r, 5, None, fold (\<lambda>(k, v) obj. obj_put obj k v)
         (map (\<lambda>(k, v). (k, node_of v)) kvs) None, h')"
  shows "decode_node fc (Suc d) (IGNORE_CHARS fc s) h =
    Some (ptr_diff r (IGNORE_CHARS fc s), Some (node_of (JObj kvs)), h')"
proof -
  obtain ob where ob: "fold (\<lambda>(k, v) obj. obj_put obj k v) (map (\<lambda>(k, v). (k, node_of v)) kvs) None = Some ob"
    using fold_obj_put[of "map (\<lambda>(k, v). (k, node_of v)) kvs" None] jmembers_nonempty[OF assms(2)] by auto
  with assms(3) decode_node_object[OF assms(1) suffix_jmembers[OF assms(2)], of d h ob h'] show ?thesis
    using jmembers_nonempty[OF assms(2)] by (simp add: object_of_def del: decode_node.simps)
qed

lemma decode_node_empty:
  "IGNORE_CHARS fc s = CHR ''['' # q \<Longrightarrow> IGNORE_CHARS fc q = CHR '']'' # r \<Longrightarrow>
   decode_node fc (Suc d) (IGNORE_CHARS fc s) h =
     Some (ptr_diff r (IGNORE_CHARS fc s), Some (node_of (JArr [])), malloc h)"
  "IGNORE_CHARS fc s = CHR ''{'' # q \<Longrightarrow> IGNORE_CHARS fc q = CHR ''}'' # r \<Longrightarrow>
   decode_node fc (Suc d) (IGNORE_CHARS fc s) h =
     Some (ptr_diff r (IGNORE_CHARS fc s), Some (node_of (JObj [])), malloc h)"
  using decode_node_array[of fc s q r d h, OF _ suffix_of_token array_loop_empty]
    decode_node_object[of fc s q r d h, OF _ suffix_of_token object_loop_empty]
  by (simp_all add: array_of_def object_of_def del: decode_node.simps)

lemma decode_complete:
  "jvalue fc s v r \<Longrightarrow> length (IGNORE_CHARS fc s) < d \<Longrightarrow>
     \<exists>h'. decode_node fc d (IGNORE_CHARS fc s) h =
       Some (ptr_diff r (IGNORE_CHARS fc s), Some (node_of v), h')"
  "jelems fc s vs r \<Longrightarrow> length (IGNORE_CHARS fc s) < d \<Longrightarrow>
     \<exists>h'. array_loop fc (decode_node fc d) s 1 None arr h =
       Some (r, 3, None, fold (\<lambda>x arr. arr_push arr x) (map node_of vs) arr, h')"
  "jmembers fc s kvs r \<Longrightarrow> length (IGNORE_CHARS fc s) < d \<Longrightarrow>
     \<exists>h'. object_loop fc (decode_node fc d) s 1 None obj h =
       Some (r, 5, None, fold (\<lambda>(k, v) obj. obj_put obj k v)
         (map (\<lambda>(k, v). (k, node_of v)) kvs) obj, h')"
proof (induction arbitrary: d h and d h arr and d h obj rule: jvalue_jelems_jmembers.inducts)
  case (arr s q vs r)
  then obtain d' where d: "d = Suc d'" by (cases d) auto
  with length_IGNORE_token[OF arr(1)] arr(3)[of d' None h] arr(4) decode_node_JArr[OF arr(1,2)]
  show ?case by (auto simp del: decode_node.simps)
next
  case (obj s q kvs r)
  then obtain d' where d: "d = Suc d'" by (cases d) auto
  with length_IGNORE_token[OF obj(1)] obj(3)[of d' None h] obj(4) decode_node_JObj[OF obj(1,2)]
  show ?case by (auto simp del: decode_node.simps)
next
  case (last_elem s v q r)
  then obtain h1 where "array_loop fc (decode_node fc d) s 1 None arr h =
      array_loop fc (decode_node fc d) q 2 (Some (node_of v)) arr h1"
    using array_loop_elem[OF last_elem(1), of "decode_node fc d" h] by blast
  with array_loop_item[OF last_elem(3), of "decode_node fc d" "node_of v" arr h1] show ?case
    by (auto simp: array_loop_stop)
next
  case (next_elem s v q q' vs r)
  then obtain h1 where "array_loop fc (decode_node fc d) s 1 None arr h =
      array_loop fc (decode_node fc d) q 2 (Some (node_of v)) arr h1"
    using array_loop_elem[OF next_elem(1), of "decode_node fc d" h] by blast
  with array_loop_item[OF next_elem(3), of "decode_node fc d" "node_of v" arr h1]
    length_next[OF next_elem(1,3)] next_elem(5)[of d] next_elem(6) show ?case by fastforce
next
  case (last_member s k q1 q2 v q3 r)
  then obtain h1 where "object_loop fc (decode_node fc d) s 1 None obj h =
      object_loop fc (decode_node fc d) q3 4
        (Some (Entry (hash (k @ [NUL])) (length k) (k @ [NUL]) (Some (node_of v)))) obj h1"
    using object_loop_member[OF last_member(1-3), of "decode_node fc d" h]
      length_member[OF last_member(1,2)] by (meson order_less_trans)
  with object_loop_put[OF last_member(5), of "decode_node fc d" k "node_of v" obj h1] show ?case
    by (auto simp: object_loop_stop)
next
  case (next_member s k q1 q2 v q3 q4 kvs r)
  then obtain h1 where "object_loop fc (decode_node fc d) s 1 None obj h =
      object_loop fc (decode_node fc d) q3 4
        (Some (Entry (hash (k @ [NUL])) (length k) (k @ [NUL]) (Some (node_of v)))) obj h1"
    using object_loop_member[OF next_member(1-3), of "decode_node fc d" h]
      length_member[OF next_member(1,2)] by (meson order_less_trans)
  with object_loop_put[OF next_member(5), of "decode_node fc d" k "node_of v" obj h1]
    length_next[OF next_member(3,5)] length_member[OF next_member(1,2)] next_member(7)[of d] next_member(8)
  show ?case by fastforce
next
  case (null s r)
  with decode_node_word(1)[OF null(1)] show ?case by (cases d) (simp_all del: decode_node.simps)
next
  case (false s r)
  with decode_node_word(2)[OF false(1)] show ?case by (cases d) (simp_all del: decode_node.simps)
next
  case (true s r)
  with decode_node_word(3)[OF true(1)] show ?case by (cases d) (simp_all del: decode_node.simps)
next
  case (num s n r)
  with decode_node_number[OF num(1)] show ?case by (cases d) (simp_all del: decode_node.simps)
next
  case (str s e r)
  with decode_node_string[OF str(1)] show ?case by (cases d) (simp_all del: decode_node.simps)
next
  case (arr0 s q r)
  with decode_node_empty(1)[OF arr0(1,2)] show ?case by (cases d) (simp_all del: decode_node.simps)
next
  case (obj0 s q r)
  with decode_node_empty(2)[OF obj0(1,2)] show ?case by (cases d) (simp_all del: decode_node.simps)
qed

subsection \<open>The decoder accepts nothing else\<close>

lemma jvalue_IGNORE: "jvalue fc (IGNORE_CHARS fc s) v r \<longleftrightarrow> jvalue fc s v r"
  by (simp add: jvalue.simps[of fc "IGNORE_CHARS fc s"] jvalue.simps[of fc s] ic.skip_idem)

text \<open>
  A decoder is faithful on texts shorter than \<open>n\<close> if it returns and either fails without storing
  a node or stores the node of the value at the front of the text.
\<close>

definition outcome :: "bool \<Rightarrow> string \<Rightarrow> decoded option \<Rightarrow> bool" where
  "outcome fc p res \<longleftrightarrow>
     (\<exists>h'. res = Some (0, None, h') \<or>
       (\<exists>v r. jvalue fc p v r \<and> res = Some (ptr_diff r p, Some (node_of v), h')))"

definition faithful :: "bool \<Rightarrow> decoder \<Rightarrow> nat \<Rightarrow> bool" where
  "faithful fc dn n \<longleftrightarrow>
     (\<forall>p h. IGNORE_CHARS fc p = p \<longrightarrow> length p < n \<longrightarrow> outcome fc p (dn p h))"

lemma faithfulE:
  assumes "faithful fc dn n" "length (IGNORE_CHARS fc p) < n"
  obtains (fail) h' where "dn (IGNORE_CHARS fc p) h = Some (0, None, h')"
  | (got) v r h' where "jvalue fc p v r"
      "dn (IGNORE_CHARS fc p) h = Some (ptr_diff r (IGNORE_CHARS fc p), Some (node_of v), h')"
  using assms jvalue_IGNORE ic.skip_idem unfolding faithful_def outcome_def by metis

definition loop_ok :: "nat \<Rightarrow> (string \<times> nat \<times> 'e \<times> 'o \<times> heap) option \<Rightarrow> (string \<Rightarrow> 'o \<Rightarrow> bool) \<Rightarrow> bool" where
  "loop_ok final res P \<longleftrightarrow>
     (\<exists>p st e ob h. res = Some (p, st, e, ob, h) \<and> (st = final \<longrightarrow> P p ob))"

lemma loop_okI: "st \<noteq> final \<or> P p ob \<Longrightarrow> loop_ok final (Some (p, st, e, ob, h)) P"
  by (auto simp: loop_ok_def)

lemma loop_ok_mono: "loop_ok final res P \<Longrightarrow> (\<And>p ob. P p ob \<Longrightarrow> Q p ob) \<Longrightarrow> loop_ok final res Q"
  by (auto simp: loop_ok_def)

definition array_post :: "bool \<Rightarrow> string \<Rightarrow> dotj_node dotj_array option \<Rightarrow> string \<Rightarrow> dotj_node dotj_array option \<Rightarrow> bool" where
  "array_post fc p arr r arr' \<longleftrightarrow>
     (\<exists>vs. jelems fc p vs r \<and> arr' = fold (\<lambda>x arr. arr_push arr x) (map node_of vs) arr) \<or>
     arr = None \<and> IGNORE_CHARS fc p = CHR '']'' # r \<and> arr' = Some (Array 1 [])"

definition item_post :: "bool \<Rightarrow> string \<Rightarrow> dotj_node \<Rightarrow> dotj_node dotj_array option \<Rightarrow> string \<Rightarrow> dotj_node dotj_array option \<Rightarrow> bool" where
  "item_post fc p x arr r arr' \<longleftrightarrow>
     IGNORE_CHARS fc p = CHR '']'' # r \<and> arr' = arr_push arr x \<or>
     (\<exists>q. IGNORE_CHARS fc p = CHR '','' # q \<and> array_post fc q (arr_push arr x) r arr')"

lemma array_loop_2_sound:
  assumes "\<And>q h. IGNORE_CHARS fc p = CHR '','' # q \<Longrightarrow>
    loop_ok 3 (array_loop fc dn q 1 None (arr_push arr x) h) (array_post fc q (arr_push arr x))"
  shows "loop_ok 3 (array_loop fc dn p 2 (Some x) arr h) (item_post fc p x arr)"
proof (cases "deref (IGNORE_CHARS fc p) = CHR '','' \<or> deref (IGNORE_CHARS fc p) = CHR '']''")
  case True
  then obtain c q where c: "IGNORE_CHARS fc p = c # q" "c = CHR '','' \<or> c = CHR '']''"
    by (cases "IGNORE_CHARS fc p") auto
  obtain h' where h': "array_loop fc dn p 2 (Some x) arr h =
      array_loop fc dn q (if c = CHR '','' then 1 else 3) None (arr_push arr x) h'"
    using array_loop_item[OF c] by blast
  show ?thesis
  proof (cases "c = CHR '',''")
    case True
    then show ?thesis
      using h' loop_ok_mono[OF assms[of q h'], of "item_post fc p x arr"] c(1)
      by (simp add: item_post_def)
  next
    case False
    then show ?thesis using h' c by (auto simp: array_loop_stop item_post_def intro!: loop_okI)
  qed
next
  case False
  then show ?thesis by (auto simp: array_loop.simps[of fc dn p] intro!: loop_okI)
qed

lemma array_post_value:
  "jvalue fc p v r \<Longrightarrow> item_post fc r (node_of v) arr q arr' \<Longrightarrow> array_post fc p arr q arr'"
  using last_elem[of fc p v r q] next_elem[of fc p v r]
  by (fastforce simp: item_post_def array_post_def arr_push_def)

lemma array_loop_1_sound:
  assumes "faithful fc dn n"
  shows "length (IGNORE_CHARS fc p) < n \<Longrightarrow> loop_ok 3 (array_loop fc dn p 1 None arr h) (array_post fc p arr)"
proof (induction "length (IGNORE_CHARS fc p)" arbitrary: p arr h rule: less_induct)
  case less
  let ?q = "IGNORE_CHARS fc p"
  consider (stop) "deref p = NUL" | (bracket) "deref ?q = CHR '']''" | (other) "deref p \<noteq> NUL" "deref ?q \<noteq> CHR '']''"
    by blast
  then show ?case
  proof cases
    case stop
    then show ?thesis by (auto simp: array_loop.simps[of fc dn p] intro!: loop_okI)
  next
    case bracket
    then have "?q = CHR '']'' # drop 1 ?q" by (rule deref_ConsD) simp
    then show ?thesis
      using array_loop_empty[of fc p "drop 1 ?q" dn None h] bracket
      by (cases arr) (auto simp: array_loop.simps[of fc dn p] array_post_def intro!: loop_okI)
  next
    case other
    from faithfulE[OF assms less(2), of h] show ?thesis
    proof cases
      case (1 h')
      then show ?thesis using other
        by (auto simp: array_loop.simps[of fc dn p] stored_def intro!: loop_okI)
    next
      case (2 v r h')
      note got = this
      have "loop_ok 3 (array_loop fc dn r 2 (Some (node_of v)) arr h') (item_post fc r (node_of v) arr)"
      proof (rule array_loop_2_sound)
        fix q h assume "IGNORE_CHARS fc r = CHR '','' # q"
        from length_next[OF got(1) this] less
        show "loop_ok 3 (array_loop fc dn q 1 None (arr_push arr (node_of v)) h)
          (array_post fc q (arr_push arr (node_of v)))" by auto
      qed
      with array_loop_elem[of fc p v r dn h, OF got, of arr] array_post_value[OF got(1)] show ?thesis
        by (auto intro: loop_ok_mono)
    qed
  qed
qed


type_synonym obj_ptr = "dotj_node dotj_object option"

definition object_post :: "bool \<Rightarrow> string \<Rightarrow> obj_ptr \<Rightarrow> string \<Rightarrow> obj_ptr \<Rightarrow> bool" where
  "object_post fc p obj r obj' \<longleftrightarrow>
     (\<exists>kvs. jmembers fc p kvs r \<and>
        obj' = fold (\<lambda>(k, v) obj. obj_put obj k v) (map (\<lambda>(k, v). (k, node_of v)) kvs) obj) \<or>
     obj = None \<and> IGNORE_CHARS fc p = CHR ''}'' # r \<and> obj' = Some (Object 1 0 [None])"

definition put_post :: "bool \<Rightarrow> string \<Rightarrow> string \<Rightarrow> dotj_node \<Rightarrow> obj_ptr \<Rightarrow> string \<Rightarrow> obj_ptr \<Rightarrow> bool" where
  "put_post fc p k x obj r obj' \<longleftrightarrow>
     IGNORE_CHARS fc p = CHR ''}'' # r \<and> obj' = obj_put obj k x \<or>
     (\<exists>q. IGNORE_CHARS fc p = CHR '','' # q \<and> object_post fc q (obj_put obj k x) r obj')"

abbreviation key_entry :: "string \<Rightarrow> dotj_node option \<Rightarrow> new_entry option" where
  "key_entry k y \<equiv> Some (Entry (hash (k @ [NUL])) (length k) (k @ [NUL]) y)"

lemma object_loop_4_sound:
  assumes "\<And>q h. IGNORE_CHARS fc p = CHR '','' # q \<Longrightarrow>
    loop_ok 5 (object_loop fc dn q 1 None (obj_put obj k x) h) (object_post fc q (obj_put obj k x))"
  shows "loop_ok 5 (object_loop fc dn p 4 (key_entry k (Some x)) obj h) (put_post fc p k x obj)"
proof (cases "deref (IGNORE_CHARS fc p) = CHR '','' \<or> deref (IGNORE_CHARS fc p) = CHR ''}''")
  case True
  then obtain c q where c: "IGNORE_CHARS fc p = c # q" "c = CHR '','' \<or> c = CHR ''}''"
    by (cases "IGNORE_CHARS fc p") auto
  obtain h' where h': "object_loop fc dn p 4 (key_entry k (Some x)) obj h =
      object_loop fc dn q (if c = CHR '','' then 1 else 5) None (obj_put obj k x) h'"
    using object_loop_put[OF c] by blast
  show ?thesis
  proof (cases "c = CHR '',''")
    case True
    then show ?thesis
      using h' loop_ok_mono[OF assms[of q h'], of "put_post fc p k x obj"] c(1)
      by (simp add: put_post_def)
  next
    case False
    then show ?thesis using h' c by (auto simp: object_loop_stop put_post_def intro!: loop_okI)
  qed
next
  case False
  then show ?thesis by (auto simp: object_loop.simps[of fc dn p] intro!: loop_okI)
qed

lemma object_loop_3_sound:
  assumes "faithful fc dn n" "length (IGNORE_CHARS fc p) < n"
    "\<And>v r h. jvalue fc p v r \<Longrightarrow>
       loop_ok 5 (object_loop fc dn r 4 (key_entry k (Some (node_of v))) obj h) (P v r)"
  shows "loop_ok 5 (object_loop fc dn p 3 (key_entry k None) obj h)
    (\<lambda>q obj'. \<exists>v r. jvalue fc p v r \<and> P v r q obj')"
proof (cases "deref p = NUL")
  case True
  then show ?thesis by (auto simp: object_loop.simps[of fc dn p] intro!: loop_okI)
next
  case False
  from faithfulE[OF assms(1,2), of h] show ?thesis
  proof cases
    case (1 h')
    then show ?thesis using False
      by (auto simp: object_loop.simps[of fc dn p] stored_def intro!: loop_okI)
  next
    case (2 v r h')
    note adv = jvalue_advance[OF 2(1)]
    have "object_loop fc dn p 3 (key_entry k None) obj h =
      object_loop fc dn r 4 (key_entry k (Some (node_of v))) obj h'"
      using object_loop_value[of dn fc p h, OF 2(2) adv(2,3)] adv(1) by simp
    moreover have "loop_ok 5 (object_loop fc dn r 4 (key_entry k (Some (node_of v))) obj h')
      (\<lambda>q obj'. \<exists>v r. jvalue fc p v r \<and> P v r q obj')"
      by (rule loop_ok_mono[OF assms(3)[OF 2(1)]]) (use 2(1) in blast)
    ultimately show ?thesis by simp
  qed
qed

lemma object_loop_2_sound:
  assumes "\<And>q h. IGNORE_CHARS fc p = CHR '':'' # q \<Longrightarrow> loop_ok 5 (object_loop fc dn q 3 e obj h) (P q)"
  shows "loop_ok 5 (object_loop fc dn p 2 e obj h)
    (\<lambda>r obj'. \<exists>q. IGNORE_CHARS fc p = CHR '':'' # q \<and> P q r obj')"
proof (cases "deref (IGNORE_CHARS fc p) = CHR '':''")
  case True
  then have q: "IGNORE_CHARS fc p = CHR '':'' # drop 1 (IGNORE_CHARS fc p)" by (rule deref_ConsD) simp
  have "loop_ok 5 (object_loop fc dn (drop 1 (IGNORE_CHARS fc p)) 3 e obj h)
    (\<lambda>r obj'. \<exists>q. IGNORE_CHARS fc p = CHR '':'' # q \<and> P q r obj')"
    by (rule loop_ok_mono[OF assms[OF q]]) (use q in blast)
  then show ?thesis using object_loop_colon[OF q, of dn e obj h] by simp
next
  case False
  then show ?thesis by (auto simp: object_loop.simps[of fc dn p] intro!: loop_okI)
qed

lemma object_post_member:
  assumes "literal (IGNORE_CHARS fc p) = Some (k, q1)" "IGNORE_CHARS fc q1 = CHR '':'' # q2"
    "jvalue fc q2 v q3" "put_post fc q3 k (node_of v) obj r obj'"
  shows "object_post fc p obj r obj'"
  using last_member[OF assms(1-3)] next_member[OF assms(1-3)] assms(4)
  by (fastforce simp: put_post_def object_post_def obj_put_def)

lemma object_loop_1_sound:
  assumes "faithful fc dn n"
  shows "length (IGNORE_CHARS fc p) < n \<Longrightarrow> loop_ok 5 (object_loop fc dn p 1 None obj h) (object_post fc p obj)"
proof (induction "length (IGNORE_CHARS fc p)" arbitrary: p obj h rule: less_induct)
  case less
  let ?q = "IGNORE_CHARS fc p"
  consider (key) k q1 where "literal ?q = Some (k, q1)" | (brace) "deref ?q = CHR ''}''"
    | (other) "literal ?q = None" "deref ?q \<noteq> CHR ''}''"
    by (cases "literal ?q") auto
  then show ?case
  proof cases
    case key
    have "loop_ok 5 (object_loop fc dn q1 2 (key_entry k None) obj (malloc h))
      (\<lambda>r obj'. \<exists>q2. IGNORE_CHARS fc q1 = CHR '':'' # q2 \<and>
         (\<exists>v q3. jvalue fc q2 v q3 \<and> put_post fc q3 k (node_of v) obj r obj'))"
    proof (rule object_loop_2_sound, rule object_loop_3_sound[OF assms], goal_cases)
      case (1 q2 h)
      then show ?case using length_member[OF key 1] less(2) by simp
    next
      case (2 q2 h v q3 h')
      show ?case
      proof (rule object_loop_4_sound)
        fix q h assume "IGNORE_CHARS fc q3 = CHR '','' # q"
        from length_next[OF 2(2) this] length_member[OF key 2(1)] less
        show "loop_ok 5 (object_loop fc dn q 1 None (obj_put obj k (node_of v)) h)
          (object_post fc q (obj_put obj k (node_of v)))" by auto
      qed
    qed
    then show ?thesis
      using object_loop_key[OF key, of dn None obj h] object_post_member[OF key]
      by (auto intro: loop_ok_mono)
  next
    case brace
    then have "?q = CHR ''}'' # drop 1 ?q" by (rule deref_ConsD) simp
    then show ?thesis
      using object_loop_empty[of fc p "drop 1 ?q" dn None h] brace
      by (cases obj) (auto simp: object_loop.simps[of fc dn p] object_post_def intro!: loop_okI)
  next
    case other
    then show ?thesis
      by (auto simp: object_loop.simps[of fc dn p] unescape_str_measure Let_def intro!: loop_okI)
  qed
qed

lemma decode_object_sound:
  assumes "faithful fc dn n" "IGNORE_CHARS fc s = CHR ''{'' # q" "length (IGNORE_CHARS fc q) < n"
  shows "\<exists>h'. decode_object fc dn s h = Some (0, None, h') \<or>
    (\<exists>kvs r. jvalue fc s (JObj kvs) r \<and>
       decode_object fc dn s h = Some (ptr_diff r s, Some (node_of (JObj kvs)), h'))"
proof -
  obtain r st e ob h' where l: "object_loop fc dn q 1 None None h = Some (r, st, e, ob, h')"
    "st = 5 \<longrightarrow> object_post fc q None r ob"
    using object_loop_1_sound[OF assms(1,3), of None h] by (auto simp: loop_ok_def)
  note l' = object_loop_open[OF assms(2), of dn None None h] l(1)
  show ?thesis
  proof (cases "st = 5")
    case True
    with l(2) obtain kvs where kvs: "jvalue fc s (JObj kvs) r"
      "ob = Some (object_of (map (\<lambda>(k, v). (k, node_of v)) kvs))"
    proof (simp add: object_post_def, elim disjE exE conjE)
      fix kvs assume *: "jmembers fc q kvs r"
        "ob = fold (\<lambda>(k, v) obj. obj_put obj k v) (map (\<lambda>(k, v). (k, node_of v)) kvs) None"
      then have "ob = Some (object_of (map (\<lambda>(k, v). (k, node_of v)) kvs))"
        using fold_obj_put[of "map (\<lambda>(k, v). (k, node_of v)) kvs" None] jmembers_nonempty[OF *(1)]
        by (auto simp: object_of_def)
      then show thesis using that[of kvs] obj[OF assms(2) *(1)] by blast
    next
      assume "IGNORE_CHARS fc q = CHR ''}'' # r" "ob = Some (Object (Suc 0) 0 [None])"
      then show thesis using that[of "[]"] obj0[OF assms(2)] by (simp add: object_of_def)
    qed
    with True l' have "decode_object fc dn s h = Some (ptr_diff r s, Some (node_of (JObj kvs)), h')"
      by (simp add: decode_object_def)
    with kvs(1) show ?thesis by blast
  qed (use l' in \<open>auto simp: decode_object_def Let_def\<close>)
qed

lemma decode_array_sound:
  assumes "faithful fc dn n" "IGNORE_CHARS fc s = CHR ''['' # q" "length (IGNORE_CHARS fc q) < n"
  shows "outcome fc s (decode_array fc dn s h)"
proof -
  obtain r st e a h' where l: "array_loop fc dn q 1 None None h = Some (r, st, e, a, h')"
    "st = 3 \<longrightarrow> array_post fc q None r a"
    using array_loop_1_sound[OF assms(1,3), of None h] by (auto simp: loop_ok_def)
  note l' = array_loop_open[OF assms(2), of dn None None h] l(1)
  show ?thesis
  proof (cases "st = 3")
    case True
    with l(2) obtain vs where vs: "jvalue fc s (JArr vs) r" "a = Some (array_of (map node_of vs))"
    proof (simp add: array_post_def, elim disjE exE conjE)
      fix vs assume *: "jelems fc q vs r" "a = fold (\<lambda>x arr. arr_push arr x) (map node_of vs) None"
      then have "a = Some (array_of (map node_of vs))"
        using fold_arr_push[of "map node_of vs" None] jelems_nonempty[OF *(1)]
        by (auto simp: array_of_def)
      then show thesis using that[of vs] arr[OF assms(2) *(1)] by blast
    next
      assume "IGNORE_CHARS fc q = CHR '']'' # r" "a = Some (Array (Suc 0) [])"
      then show thesis using that[of "[]"] arr0[OF assms(2)] by (simp add: array_of_def)
    qed
    with True l' have "decode_array fc dn s h = Some (ptr_diff r s, Some (node_of (JArr vs)), h')"
      by (simp add: decode_array_def)
    with vs(1) show ?thesis unfolding outcome_def by blast
  qed (use l' in \<open>auto simp: decode_array_def outcome_def Let_def\<close>)
qed

lemma at_word:
  "deref p = a \<Longrightarrow> at p 1 = b \<Longrightarrow> at p 2 = c \<Longrightarrow> at p 3 = d \<Longrightarrow> NUL \<notin> {a, b, c, d} \<Longrightarrow> p = [a, b, c, d] @ drop 4 p"
  by (cases p; cases "tl p"; cases "tl (tl p)"; cases "tl (tl (tl p))") auto

lemma at_drop: "deref (drop n p) = at p n"
  by (simp add: at_def)

lemma outcome_advance:
  assumes "IGNORE_CHARS fc p = p" "outcome fc p res"
  shows "outcome fc p (map_option (\<lambda>(n, nd, h). (ptr_diff (drop n p) p, nd, h)) res)"
proof -
  have "drop (ptr_diff r p) p = r" if "jvalue fc p v r" for v r
    using jvalue_advance(1)[OF that] assms(1) by simp
  with assms(2) show ?thesis unfolding outcome_def by (fastforce simp: ptr_diff_def)
qed

lemma outcomeI: "jvalue fc p v r \<Longrightarrow> res = Some (ptr_diff r p, Some (node_of v), h') \<Longrightarrow> outcome fc p res"
  unfolding outcome_def by blast

lemma outcome_fail: "outcome fc p (Some (0, None, h'))"
  unfolding outcome_def by blast

lemma outcome_word:
  assumes "IGNORE_CHARS fc p = p"
  shows "deref p = CHR ''n'' \<Longrightarrow> outcome fc p (decode_node fc (Suc d) p h)"
    and "deref p = CHR ''f'' \<Longrightarrow> outcome fc p (decode_node fc (Suc d) p h)"
    and "deref p = CHR ''t'' \<Longrightarrow> outcome fc p (decode_node fc (Suc d) p h)"
proof -
  show "outcome fc p (decode_node fc (Suc d) p h)" if *: "deref p = CHR ''n''"
  proof (cases "at p 1 = CHR ''u'' \<and> at p 2 = CHR ''l'' \<and> at p 3 = CHR ''l''")
    case True
    then have "p = ''null'' @ drop 4 p" using at_word[OF *] by simp
    with assms decode_node_word(1)[of fc p "drop 4 p" d h] null[of fc p "drop 4 p"] show ?thesis
      by (metis node_of.simps(1) outcomeI)
  qed (use assms * in \<open>auto simp: Let_def ptr_diff_def outcome_fail\<close>)
  show "outcome fc p (decode_node fc (Suc d) p h)" if *: "deref p = CHR ''t''"
  proof (cases "at p 1 = CHR ''r'' \<and> at p 2 = CHR ''u'' \<and> at p 3 = CHR ''e''")
    case True
    then have "p = ''true'' @ drop 4 p" using at_word[OF *] by simp
    with assms decode_node_word(3)[of fc p "drop 4 p" d h] true[of fc p "drop 4 p"] show ?thesis
      by (metis node_of.simps(3) outcomeI)
  qed (use assms * in \<open>auto simp: Let_def ptr_diff_def outcome_fail\<close>)
  show "outcome fc p (decode_node fc (Suc d) p h)" if *: "deref p = CHR ''f''"
  proof (cases "at p 1 = CHR ''a'' \<and> at p 2 = CHR ''l'' \<and> at p 3 = CHR ''s'' \<and> at p 4 = CHR ''e''")
    case True
    then have p: "p = ''fals'' @ drop 4 p" using at_word[OF *] by simp
    have "deref (drop 4 p) = CHR ''e''" using True at_drop[of 4 p] by simp
    then have "drop 4 p = CHR ''e'' # drop 5 p" using deref_ConsD[of "drop 4 p"] by simp
    with p have "p = ''false'' @ drop 5 p" by simp
    with assms decode_node_word(2)[of fc p "drop 5 p" d h] false[of fc p "drop 5 p"] show ?thesis
      by (metis node_of.simps(2) outcomeI)
  qed (use assms * in \<open>auto simp: Let_def ptr_diff_def outcome_fail\<close>)
qed

lemma outcome_literal:
  assumes "IGNORE_CHARS fc p = p" "deref p = CHR 0x22"
  shows "outcome fc p (decode_node fc (Suc d) p h)"
proof (cases "literal p")
  case (Some dr)
  then show ?thesis
    using assms decode_node_string[of fc p "fst dr" "snd dr" d h]
      outcomeI[OF str[of fc p "fst dr" "snd dr"], of _ "malloc h"] by simp
qed (use assms in \<open>simp add: Let_def decode_string_eq ptr_diff_def outcome_fail\<close>)

lemma outcome_number:
  assumes "IGNORE_CHARS fc p = p" "deref p \<notin> set ''{[nft''" "deref p \<noteq> CHR 0x22"
  shows "outcome fc p (decode_node fc (Suc d) p h)"
proof (cases "number p")
  case (Some dr)
  then show ?thesis
    using assms(1) decode_node_number[of fc p "fst dr" "snd dr" d h]
      outcomeI[OF num[of fc p "fst dr" "snd dr"], of _ "malloc h"] by simp
qed (use assms in \<open>simp add: Let_def decode_number_eq ptr_diff_def outcome_fail\<close>)

lemma decode_node_faithful: "faithful fc (decode_node fc d) d"
proof (induction d)
  case (Suc d)
  have "outcome fc p (decode_node fc (Suc d) p h)" if p: "IGNORE_CHARS fc p = p" "length p < Suc d" for p h
  proof -
    have len: "length (IGNORE_CHARS fc (drop 1 p)) < d" if "p \<noteq> []"
      using that p(2) ic.skip_length[of fc "drop 1 p"] by (cases p) auto
    consider (obj) "deref p = CHR ''{''" | (arr) "deref p = CHR ''[''"
      | (scalar) "deref p \<noteq> CHR ''{''" "deref p \<noteq> CHR ''[''" by blast
    then show ?thesis
    proof cases
      case obj
      then have q: "p = CHR ''{'' # drop 1 p" using deref_ConsD by blast
      then have "outcome fc p (decode_object fc (decode_node fc d) p h)"
        using decode_object_sound[OF Suc _ len, of p h] p(1) unfolding outcome_def by (metis list.distinct(1))
      from outcome_advance[OF p(1) this] show ?thesis using p(1) obj by (simp add: Let_def)
    next
      case arr
      then have q: "p = CHR ''['' # drop 1 p" using deref_ConsD by blast
      then have "outcome fc p (decode_array fc (decode_node fc d) p h)"
        using decode_array_sound[OF Suc _ len] p(1) by (metis list.distinct(1))
      from outcome_advance[OF p(1) this] show ?thesis using p(1) arr by (simp add: Let_def)
    next
      case scalar
      then show ?thesis
        using outcome_word[OF p(1)] outcome_literal[OF p(1)] outcome_number[OF p(1)] by fastforce
    qed
  qed
  then show ?case by (simp add: faithful_def)
qed (simp add: faithful_def)


subsection \<open>The whole decoder\<close>

lemma dotjson_decode_accepts:
  assumes "jvalue fc s (JObj kvs) r"
  shows "\<exists>h'. dotjson_decode fc (Some s) True h =
    Some (ptr_diff r s, Some (node_of (JObj kvs)), h')"
proof -
  obtain q where q: "IGNORE_CHARS fc s = CHR ''{'' # q"
    using assms by (auto elim: jvalue.cases)
  let ?dn = "decode_node fc (length s)"
  have len: "length (IGNORE_CHARS fc q) < length s"
    using length_IGNORE_token[OF q] ic.skip_length[of fc s] by simp
  have pos: "ptr_diff r s \<noteq> 0"
    using jvalue_advance(4)[OF assms] ic.skip_length[of fc s] by (simp add: ptr_diff_def)
  have "\<exists>ob h'. object_loop fc ?dn q 1 None None h = Some (r, 5, None, Some ob, h') \<and>
      node_of (JObj kvs) = DOTJ_OBJECT ob"
    using assms
  proof (cases rule: jvalue.cases)
    case (obj0 q')
    with q object_loop_empty[of fc q r ?dn None h] show ?thesis by (simp add: object_of_def)
  next
    case (obj q')
    with q have "jmembers fc q kvs r" by simp
    from decode_complete(3)[OF this len, of None h] jmembers_nonempty[OF this] show ?thesis
      using fold_obj_put[of "map (\<lambda>(k, v). (k, node_of v)) kvs" None] by (auto simp: object_of_def)
  qed
  then obtain ob h' where "object_loop fc ?dn q 1 None None h = Some (r, 5, None, Some ob, h')"
    "node_of (JObj kvs) = DOTJ_OBJECT ob" by blast
  with decode_object_eq[OF q this(1)] pos show ?thesis by (simp add: dotjson_decode_def)
qed

lemma decode_object_no_brace:
  assumes "deref (IGNORE_CHARS fc s) \<noteq> CHR ''{''"
  shows "\<exists>h'. decode_object fc dn s h = Some (0, None, h')"
  using assms by (simp add: decode_object_def object_loop.simps[of fc dn s] Let_def destroy_opt_def)

lemma dotjson_decode_rejects:
  assumes "\<nexists>kvs r. jvalue fc s (JObj kvs) r"
  shows "\<exists>h'. dotjson_decode fc (Some s) True h = Some (0, None, h')"
proof -
  have "\<exists>h'. decode_object fc (decode_node fc (length s)) s h = Some (0, None, h')"
  proof (cases "deref (IGNORE_CHARS fc s) = CHR ''{''")
    case True
    then have q: "IGNORE_CHARS fc s = CHR ''{'' # drop 1 (IGNORE_CHARS fc s)" by (rule deref_ConsD) simp
    have "length (IGNORE_CHARS fc (drop 1 (IGNORE_CHARS fc s))) < length s"
      using length_IGNORE_token[OF q] ic.skip_length[of fc s] by simp
    from decode_object_sound[OF decode_node_faithful q this, of h] assms show ?thesis by blast
  qed (rule decode_object_no_brace)
  then show ?thesis by (auto simp: dotjson_decode_def)
qed

subsection \<open>Nothing behind the terminator is read\<close>

lemma cstring_append_split: "cstring u = w @ r \<Longrightarrow> \<exists>u'. u = w @ u' \<and> cstring u' = r"
proof (induction w arbitrary: u)
  case (Cons c w)
  then show ?case by (cases u) (auto split: if_splits)
qed simp

lemma literal_cstring: "literal (cstring s) = map_option (\<lambda>(d, r). (d, cstring r)) (literal s)"
proof (cases "deref s = CHR 0x22")
  case True
  then obtain t where s: "s = CHR 0x22 # t" by (cases s) auto
  have "tl (cstring q) = cstring (tl q)" if "unescape t = Some (d, q)" for d q
    using unescape_takes[OF that] by (cases q) auto
  with s show ?thesis
    by (cases "unescape t") (auto simp: literal_def unescape_cstring)
qed (simp add: literal_def)

lemma cstring_tl': "deref r \<noteq> NUL \<Longrightarrow> tl (cstring r) = cstring (tl r)"
  by (cases r) auto

lemma skip_sign_cstring: "skip_sign (cstring p) = cstring (skip_sign p)"
  by (cases p) (auto simp: skip_sign_def)

lemma digits_cstring: "digits (cstring r) = map_option cstring (digits r)"
proof -
  have "takeWhile is_digit (cstring r) = takeWhile is_digit r \<and>
      dropWhile is_digit (cstring r) = cstring (dropWhile is_digit r)"
    by (induction r) (auto simp: is_digit_def)
  then show ?thesis by (simp add: digits_def)
qed

lemma number_end_cstring: "number_end (cstring b) = map_option cstring (number_end b)"
proof -
  have f: "frac_part (cstring r) = map_option cstring (frac_part r)" for r
    by (auto simp: frac_part_def cstring_tl' digits_cstring)
  have e: "exp_part (cstring r) = map_option cstring (exp_part r)" for r
    by (auto simp: exp_part_def cstring_tl' digits_cstring skip_sign_cstring)
  show ?thesis
    by (auto simp: number_end_def f e digits_cstring skip_sign_cstring split: bind_splits)
qed

lemma number_cstring: "number (cstring b) = map_option (\<lambda>(n, r). (n, cstring r)) (number b)"
proof (cases "number_end b")
  case (Some r)
  then obtain w where "NUL \<notin> set w" "b = w @ r" using takes_number_end(1) by (auto simp: takes_def)
  moreover have "number_end (cstring b) = Some (cstring r)" by (simp add: number_end_cstring Some)
  ultimately show ?thesis using Some by (simp add: number_def cstring_append)
qed (simp add: number_def number_end_cstring)


lemma jvalue_cstring:
  "jvalue fc s v r \<Longrightarrow> jvalue fc (cstring s) v (cstring r)"
  "jelems fc s vs r \<Longrightarrow> jelems fc (cstring s) vs (cstring r)"
  "jmembers fc s kvs r \<Longrightarrow> jmembers fc (cstring s) kvs (cstring r)"
  by (induction rule: jvalue_jelems_jmembers.inducts)
    (auto simp: ic.skip_cstring number_cstring literal_cstring intro: jvalue_jelems_jmembers.intros)

lemma IGNORE_cstringD: "IGNORE_CHARS fc (cstring t) = c # q \<Longrightarrow> \<exists>q'. IGNORE_CHARS fc t = c # q' \<and> q = cstring q'"
  using cstring_append_split[of "IGNORE_CHARS fc t" "[c]" q] by (auto simp: ic.skip_cstring)

lemma literal_cstringD:
  "literal (IGNORE_CHARS fc (cstring t)) = Some (d, q) \<Longrightarrow> \<exists>q'. literal (IGNORE_CHARS fc t) = Some (d, q') \<and> q = cstring q'"
  by (auto simp: ic.skip_cstring literal_cstring)

lemma jvalue_cstringD:
  "jvalue fc s v r \<Longrightarrow> s = cstring t \<Longrightarrow> \<exists>r'. r = cstring r' \<and> jvalue fc t v r'"
  "jelems fc s vs r \<Longrightarrow> s = cstring t \<Longrightarrow> \<exists>r'. r = cstring r' \<and> jelems fc t vs r'"
  "jmembers fc s kvs r \<Longrightarrow> s = cstring t \<Longrightarrow> \<exists>r'. r = cstring r' \<and> jmembers fc t kvs r'"
proof (induction arbitrary: t and t and t rule: jvalue_jelems_jmembers.inducts)
  case (null s r)
  then have "cstring (IGNORE_CHARS fc t) = ''null'' @ r" by (simp add: ic.skip_cstring)
  from cstring_append_split[OF this] show ?case by (metis jvalue_jelems_jmembers.null)
next
  case (false s r)
  then have "cstring (IGNORE_CHARS fc t) = ''false'' @ r" by (simp add: ic.skip_cstring)
  from cstring_append_split[OF this] show ?case by (metis jvalue_jelems_jmembers.false)
next
  case (true s r)
  then have "cstring (IGNORE_CHARS fc t) = ''true'' @ r" by (simp add: ic.skip_cstring)
  from cstring_append_split[OF this] show ?case by (metis jvalue_jelems_jmembers.true)
next
  case (num s n r)
  then show ?case by (auto simp: ic.skip_cstring number_cstring intro: jvalue_jelems_jmembers.num)
next
  case (str s d r)
  then show ?case by (auto dest!: literal_cstringD intro: jvalue_jelems_jmembers.str)
next
  case (arr0 s q r)
  then show ?case by (metis IGNORE_cstringD jvalue_jelems_jmembers.arr0)
next
  case (arr s q vs r)
  then show ?case by (metis IGNORE_cstringD jvalue_jelems_jmembers.arr)
next
  case (obj0 s q r)
  then show ?case by (metis IGNORE_cstringD jvalue_jelems_jmembers.obj0)
next
  case (obj s q kvs r)
  then show ?case by (metis IGNORE_cstringD jvalue_jelems_jmembers.obj)
next
  case (last_elem s v q r)
  then show ?case by (metis IGNORE_cstringD jvalue_jelems_jmembers.last_elem)
next
  case (next_elem s v q q' vs r)
  then show ?case by (metis IGNORE_cstringD jvalue_jelems_jmembers.next_elem)
next
  case (last_member s k q1 q2 v q3 r)
  from last_member(1,6) obtain t1 where t1: "literal (IGNORE_CHARS fc t) = Some (k, t1)" "q1 = cstring t1"
    using literal_cstringD by blast
  with last_member(2) obtain t2 where t2: "IGNORE_CHARS fc t1 = CHR '':'' # t2" "q2 = cstring t2"
    using IGNORE_cstringD by blast
  from last_member(4)[OF t2(2)] obtain t3 where t3: "q3 = cstring t3" "jvalue fc t2 v t3" by blast
  with last_member(5) obtain t4 where "IGNORE_CHARS fc t3 = CHR ''}'' # t4" "r = cstring t4"
    using IGNORE_cstringD by blast
  with jvalue_jelems_jmembers.last_member[OF t1(1) t2(1) t3(2)] show ?case by blast
next
  case (next_member s k q1 q2 v q3 q4 kvs r)
  from next_member(1,8) obtain t1 where t1: "literal (IGNORE_CHARS fc t) = Some (k, t1)" "q1 = cstring t1"
    using literal_cstringD by blast
  with next_member(2) obtain t2 where t2: "IGNORE_CHARS fc t1 = CHR '':'' # t2" "q2 = cstring t2"
    using IGNORE_cstringD by blast
  from next_member(4)[OF t2(2)] obtain t3 where t3: "q3 = cstring t3" "jvalue fc t2 v t3" by blast
  with next_member(5) obtain t4 where t4: "IGNORE_CHARS fc t3 = CHR '','' # t4" "q4 = cstring t4"
    using IGNORE_cstringD by blast
  from next_member(7)[OF t4(2)] jvalue_jelems_jmembers.next_member[OF t1(1) t2(1) t3(2) t4(1)]
  show ?case by blast
qed

lemma takes_word: "IGNORE_CHARS fc q = w @ r \<Longrightarrow> NUL \<notin> set w \<Longrightarrow> takes q r"
  using ic.skip_takes[of q fc] takes_append[of w r] takes_trans by metis

lemma takes_token: "IGNORE_CHARS fc q = c # r \<Longrightarrow> c \<noteq> NUL \<Longrightarrow> takes q r"
  using takes_word[of fc q "[c]" r] by simp

lemma takes_literal: "literal (IGNORE_CHARS fc q) = Some (d, r) \<Longrightarrow> takes q r"
  using literal_takes[of "IGNORE_CHARS fc q" d r] takes_word[of fc q "CHR 0x22 # _ @ [CHR 0x22]" r] by auto

lemma takes_number: "number (IGNORE_CHARS fc q) = Some (n, r) \<Longrightarrow> takes q r"
  using number_suffix[of "IGNORE_CHARS fc q" n r] takes_word by blast

lemma jvalue_takes:
  "jvalue fc s v r \<Longrightarrow> takes s r"
  "jelems fc s vs r \<Longrightarrow> takes s r"
  "jmembers fc s kvs r \<Longrightarrow> takes s r"
proof (induction rule: jvalue_jelems_jmembers.inducts)
  case (null s r) then show ?case by (rule takes_word) simp
next
  case (false s r) then show ?case by (rule takes_word) simp
next
  case (true s r) then show ?case by (rule takes_word) simp
next
  case (next_member s k q1 q2 v q3 q4 kvs r)
  then have "takes s q2" "takes q3 q4" using takes_trans[OF takes_literal takes_token] takes_token by auto
  with next_member(4,7) show ?case by (blast intro: takes_trans)
qed (auto dest!: takes_token takes_literal takes_number intro: takes_trans)

text \<open>The grammar is unambiguous.\<close>

lemma jvalue_unique:
  assumes "jvalue fc s v r" "jvalue fc s v' r'"
  shows "r = r' \<and> node_of v = node_of v'"
proof -
  obtain h1 h2 where
    1: "decode_node fc (Suc (length (IGNORE_CHARS fc s))) (IGNORE_CHARS fc s) \<lparr>mallocs = 0, frees = 0\<rparr> =
         Some (ptr_diff r (IGNORE_CHARS fc s), Some (node_of v), h1)" and
    2: "decode_node fc (Suc (length (IGNORE_CHARS fc s))) (IGNORE_CHARS fc s) \<lparr>mallocs = 0, frees = 0\<rparr> =
         Some (ptr_diff r' (IGNORE_CHARS fc s), Some (node_of v'), h2)"
    using decode_complete(1)[OF assms(1)] decode_complete(1)[OF assms(2)] by (metis lessI)
  then have eq: "ptr_diff r (IGNORE_CHARS fc s) = ptr_diff r' (IGNORE_CHARS fc s)" "node_of v = node_of v'"
    by (simp_all del: decode_node.simps)
  with jvalue_advance(1)[OF assms(1)] jvalue_advance(1)[OF assms(2)] show ?thesis by metis
qed

section \<open>Properties\<close>

text \<open>
  C1. The decoder is total and exact. For every text \<open>s\<close> (in both builds), either the text starts
  with a JSON object and the decoder returns the number of characters up to its end and the
  node of that object, or no prefix of the text is an object and the decoder returns 0 and
  stores nothing. In particular the nesting depth \<open>length s\<close> is always enough.
\<close>

theorem dotjson_decode_correct:
  "\<exists>h'. (\<exists>kvs r. jvalue fc s (JObj kvs) r \<and>
       dotjson_decode fc (Some s) True h = Some (length s - length r, Some (node_of (JObj kvs)), h')) \<or>
     (\<nexists>kvs r. jvalue fc s (JObj kvs) r) \<and> dotjson_decode fc (Some s) True h = Some (0, None, h')"
  using dotjson_decode_accepts[of fc s _ _ h] dotjson_decode_rejects[of fc s h]
  unfolding ptr_diff_def by metis

text \<open>
  C7. Nothing behind the terminating NUL influences the decoder: on a buffer that holds a C
  string and arbitrary bytes behind it, the decoder returns the same count and the same node as
  on the string alone.
\<close>

theorem dotjson_decode_terminator:
  "map_option (\<lambda>(n, nd, h'). (n, nd)) (dotjson_decode fc (Some (cstring s)) True h) =
   map_option (\<lambda>(n, nd, h'). (n, nd)) (dotjson_decode fc (Some s) True h)"
proof (cases "\<exists>kvs r. jvalue fc s (JObj kvs) r")
  case True
  then obtain kvs r where v: "jvalue fc s (JObj kvs) r" by blast
  from dotjson_decode_accepts[OF this] dotjson_decode_accepts[OF jvalue_cstring(1)[OF this]]
    takes_ptr_diff[OF jvalue_takes(1)[OF this]]
  show ?thesis by (metis (mono_tags, lifting) case_prod_conv option.map(2))
next
  case False
  then have "\<nexists>kvs r. jvalue fc (cstring s) (JObj kvs) r" using jvalue_cstringD(1) by blast
  from dotjson_decode_rejects[OF False] dotjson_decode_rejects[OF this]
  show ?thesis by (metis (mono_tags, lifting) case_prod_conv option.map(2))
qed

text \<open>
  C4. Decoding and lookup together: in an object with up to \<open>2\<^sup>3\<^sup>2\<close> members and pairwise different
  keys, \<^verbatim>\<open>dotjson_object_get\<close> on the decoded node returns the node of exactly the value that the
  text gives for the key, and NULL for a key that does not occur.
\<close>

theorem decode_then_get:
  assumes "jvalue fc s (JObj kvs) r" "length kvs \<le> 2 ^ 32"
    "sorted_wrt (\<lambda>a b. \<not> strcmp_eq (fst a) (fst b)) kvs"
  shows "\<exists>ob h'. dotjson_decode fc (Some s) True h = Some (length s - length r, Some (DOTJ_OBJECT ob), h') \<and>
    (\<forall>k. dotjson_object_get ob k = map_option (node_of \<circ> snd) (find (\<lambda>kv. strcmp_eq (fst kv) k) kvs))"
proof -
  let ?kvs = "map (\<lambda>(k, v). (k, node_of v)) kvs"
  have find: "find (\<lambda>kv. strcmp_eq (fst kv) k) ?kvs =
      map_option (\<lambda>(k, v). (k, node_of v)) (find (\<lambda>kv. strcmp_eq (fst kv) k) kvs)" for k
    by (induction kvs) auto
  have "dotjson_object_get (object_of ?kvs) k = map_option (node_of \<circ> snd) (find (\<lambda>kv. strcmp_eq (fst kv) k) kvs)" for k
  proof (cases "kvs = []")
    case True
    have "dotjson_object_get (Object 1 0 [None]) k = None"
      unfolding dotjson_object_get_None[OF table_ok_fresh(1)] table_ok_fresh(2) by simp
    with True show ?thesis by (simp add: object_of_def)
  next
    case False
    then have "ot.put_all None ?kvs = Some (object_of ?kvs)"
      using fold_obj_put[of ?kvs None] by (auto simp: ot.put_all_def object_of_def)
    moreover have "sorted_wrt (\<lambda>a b. \<not> strcmp_eq (fst a) (fst b)) ?kvs"
      using assms(3) by (simp add: sorted_wrt_map case_prod_unfold)
    moreover have "obj_ok (None :: obj_ptr) \<and> keys_distinct (obj_contents (None :: obj_ptr))"
      by (simp add: obj_ok_def obj_contents_def keys_distinct_def)
    ultimately have "obj_get (Some (object_of ?kvs)) k =
      (case find (\<lambda>kv. strcmp_eq (fst kv) k) ?kvs of Some kv \<Rightarrow> Some (snd kv) | None \<Rightarrow> obj_get None k)"
      using ot.get_put_all[of None ?kvs k] assms(2)
      by (simp add: obj_contents_def obj_get_def[of None])
    then show ?thesis
      by (auto simp: obj_get_def find split: option.splits)
  qed
  then show ?thesis
    using dotjson_decode_accepts[OF assms(1), of h] by (auto simp: ptr_diff_def)
qed

theorem decode_then_get_witness:
  "\<exists>ob h'. dotjson_decode False (Some (''{'' @ [CHR 0x22, CHR ''a'', CHR 0x22] @ '':1}'')) True
       \<lparr>mallocs = 0, frees = 0\<rparr> = Some (7, Some (DOTJ_OBJECT ob), h') \<and>
     dotjson_object_get ob ''a'' = Some (DOTJ_NUMBER (''1'' @ [NUL])) \<and>
     dotjson_object_get ob ''b'' = None"
proof -
  let ?s = "''{'' @ [CHR 0x22, CHR ''a'', CHR 0x22] @ '':1}''"
  have "jvalue False ''1}'' (JNum ''1'') ''}''"
    by (rule num) (simp add: IGNORE_CHARS_def is_space_def number_def number_end_def digits_def skip_sign_def
        frac_part_def exp_part_def is_digit_def)
  then have "jmembers False (tl ?s) [(''a'', JNum ''1'')] []"
    by (rule last_member[where ?q1.0 = "'':1}''", rotated 2])
      (simp_all add: IGNORE_CHARS_def is_space_def literal_def lit_step_def)
  then have "jvalue False ?s (JObj [(''a'', JNum ''1'')]) []"
    by (rule obj[rotated]) (simp add: IGNORE_CHARS_def is_space_def)
  from decode_then_get[OF this, of "\<lparr>mallocs = 0, frees = 0\<rparr>"]
  obtain ob h' where "dotjson_decode False (Some ?s) True \<lparr>mallocs = 0, frees = 0\<rparr> =
      Some (7, Some (DOTJ_OBJECT ob), h')"
    "\<forall>k. dotjson_object_get ob k =
       map_option (node_of \<circ> snd) (find (\<lambda>kv. strcmp_eq (fst kv) k) [(''a'', JNum ''1'')])"
    by auto
  then show ?thesis by (auto simp: strcmp_eq_def)
qed

end
