(* ===== verification/Dotjson_Encode.thy ===== *)
theory Dotjson_Encode
  imports Dotjson_Decode
begin

text \<open>
  The encoder of \<^verbatim>\<open>src/c/dotjson/dotjson.c\<close>: \<^verbatim>\<open>encode_string\<close>, \<^verbatim>\<open>encode_object\<close>, \<^verbatim>\<open>encode_node\<close> and
  \<^verbatim>\<open>dotjson_encode\<close>. An encoder is given the memory from \<^verbatim>\<open>buf\<close> on and the number \<open>len\<close> of bytes it
  may use; it returns the number of bytes the full text has and the memory afterwards. The
  memory of a NULL buffer is empty, and then \<open>len\<close> is 0.
\<close>

section \<open>Definitions\<close>

type_synonym encoded = "nat \<times> string"

definition put_char :: "nat \<Rightarrow> char \<Rightarrow> encoded \<Rightarrow> encoded" where
  \<comment> \<open>\<^verbatim>\<open>if (len > r) buf[r] = c; r++\<close>\<close>
  "put_char len c rb = (case rb of (r, b) \<Rightarrow> (Suc r, if len > r then b[r := c] else b))"

definition memcpy :: "string \<Rightarrow> nat \<Rightarrow> string \<Rightarrow> string" where
  \<comment> \<open>\<^verbatim>\<open>memcpy(buf + i, src, n)\<close> where \<open>src\<close> are the \<open>n\<close> bytes\<close>
  "memcpy b i src = take i b @ src @ drop (i + length src) b"

definition put_word :: "nat \<Rightarrow> string \<Rightarrow> string \<Rightarrow> encoded" where
  \<comment> \<open>the literals of \<^verbatim>\<open>encode_node\<close>: all bytes or none\<close>
  "put_word len w b = (length w, if len \<ge> length w then memcpy b 0 w else b)"

definition escape_letter :: "char \<Rightarrow> char option" where
  "escape_letter c =
     (if c = CHR 0x22 then Some CHR 0x22
      else if c = CHR 0x5C then Some CHR 0x5C
      else if c = CHR ''/'' then Some CHR ''/''
      else if c = CHR 0x08 then Some CHR ''b''
      else if c = CHR 0x0C then Some CHR ''f''
      else if c = CHR 0x0A then Some CHR ''n''
      else if c = CHR 0x0D then Some CHR ''r''
      else if c = CHR 0x09 then Some CHR ''t''
      else None)"

fun encode_chars :: "string \<Rightarrow> nat \<Rightarrow> encoded \<Rightarrow> encoded" where
  "encode_chars [] len rb = rb"
| "encode_chars (c # p) len rb =
     (if c = NUL then rb
      else
        encode_chars p len
          (case escape_letter c of
             Some e \<Rightarrow> put_char len e (put_char len CHR 0x5C rb)
           | None \<Rightarrow> put_char len c rb))"

definition encode_string :: "string \<Rightarrow> string \<Rightarrow> nat \<Rightarrow> encoded" where
  "encode_string s b len =
     put_char len CHR 0x22 (encode_chars s len (put_char len CHR 0x22 (0, b)))"

type_synonym encoder = "dotj_node \<Rightarrow> string \<Rightarrow> nat \<Rightarrow> encoded"

definition sub_encode :: "encoder \<Rightarrow> dotj_node \<Rightarrow> nat \<Rightarrow> encoded \<Rightarrow> encoded" where
  \<comment> \<open>\<^verbatim>\<open>r += encode_node(node, buf + r, len > r ? len - r : 0)\<close>\<close>
  "sub_encode en node len rb =
     (case rb of (r, b) \<Rightarrow>
        let (n, sub) = en node (drop r b) (if len > r then len - r else 0) in (r + n, take r b @ sub))"

definition put_key :: "nat \<Rightarrow> dotj_node dotj_entry \<Rightarrow> encoded \<Rightarrow> encoded" where
  "put_key len e rb =
     (case rb of (r, b) \<Rightarrow>
        (r + (2 + keylen e),
         if len \<ge> r + 2 + keylen e then
           (memcpy (b[r := CHR 0x22]) (r + 1) (take (keylen e) (key e)))[r + 1 + keylen e := CHR 0x22]
         else b))"

fun encode_entries ::
  "encoder \<Rightarrow> dotj_node dotj_entry option list \<Rightarrow> nat \<Rightarrow> bool \<Rightarrow> encoded \<Rightarrow> encoded" where
  "encode_entries en [] len emp rb = rb"
| "encode_entries en (None # es) len emp rb = encode_entries en es len emp rb"
| "encode_entries en (Some e # es) len emp rb =
     encode_entries en es len False
       (sub_encode en (val e) len
         (put_char len CHR '':''
           (put_key len e (if emp then rb else put_char len CHR '','' rb))))"

definition encode_object :: "encoder \<Rightarrow> dotj_node dotj_object \<Rightarrow> string \<Rightarrow> nat \<Rightarrow> encoded" where
  "encode_object en ob b len =
     put_char len CHR ''}''
       (encode_entries en (take (ocap ob) (entries ob)) len True
         (1, if len \<ge> 1 then b[0 := CHR ''{''] else b))"

fun encode_items :: "encoder \<Rightarrow> dotj_node list \<Rightarrow> nat \<Rightarrow> bool \<Rightarrow> encoded \<Rightarrow> encoded" where
  "encode_items en [] len first rb = rb"
| "encode_items en (x # xs) len first rb =
     encode_items en xs len False
       (sub_encode en x len (if first then rb else put_char len CHR '','' rb))"

definition encode_array :: "encoder \<Rightarrow> dotj_node dotj_array \<Rightarrow> string \<Rightarrow> nat \<Rightarrow> encoded" where
  \<comment> \<open>the case \<^verbatim>\<open>DOTJ_ARRAY\<close> of \<^verbatim>\<open>encode_node\<close>\<close>
  "encode_array en a b len =
     put_char len CHR '']''
       (encode_items en (items a) len True (1, if len > 1 then b[0 := CHR ''[''] else b))"

lemma sub_encode_cong [fundef_cong]:
  "x = x' \<Longrightarrow> len = len' \<Longrightarrow> rb = rb' \<Longrightarrow> (\<And>b l. en x' b l = en' x' b l) \<Longrightarrow>
   sub_encode en x len rb = sub_encode en' x' len' rb'"
  by (simp add: sub_encode_def split: prod.splits)

lemma encode_entries_cong:
  "(\<And>e b l. Some e \<in> set es \<Longrightarrow> en (val e) b l = en' (val e) b l) \<Longrightarrow>
   encode_entries en es len emp rb = encode_entries en' es len emp rb"
proof (induction en es len emp rb rule: encode_entries.induct)
  case (3 en e es len emp rb)
  then have "sub_encode en (val e) len x = sub_encode en' (val e) len x" for x
    by (intro sub_encode_cong) auto
  with 3 show ?case by simp
qed auto

lemma encode_items_cong:
  "(\<And>x b l. x \<in> set xs \<Longrightarrow> en x b l = en' x b l) \<Longrightarrow>
   encode_items en xs len first rb = encode_items en' xs len first rb"
proof (induction en xs len first rb rule: encode_items.induct)
  case (2 en x xs len first rb)
  then have "sub_encode en x len y = sub_encode en' x len y" for y
    by (intro sub_encode_cong) auto
  with 2 show ?case by simp
qed auto

lemma encode_object_cong [fundef_cong]:
  assumes "ob = ob'" "b = b'" "len = len'"
    "\<And>e b l. Some e \<in> set (entries ob') \<Longrightarrow> en (val e) b l = en' (val e) b l"
  shows "encode_object en ob b len = encode_object en' ob' b' len'"
proof -
  have "encode_entries en (take (ocap ob') (entries ob')) l emp rb =
      encode_entries en' (take (ocap ob') (entries ob')) l emp rb" for l emp rb
    by (rule encode_entries_cong) (blast dest: in_set_takeD intro: assms(4))
  with assms(1-3) show ?thesis by (simp add: encode_object_def)
qed

lemma encode_array_cong [fundef_cong]:
  assumes "a = a'" "b = b'" "len = len'" "\<And>x b l. x \<in> set (items a') \<Longrightarrow> en x b l = en' x b l"
  shows "encode_array en a b len = encode_array en' a' b' len'"
proof -
  have "encode_items en (items a') l first rb = encode_items en' (items a') l first rb" for l first rb
    by (rule encode_items_cong) (rule assms(4))
  with assms(1-3) show ?thesis by (simp add: encode_array_def)
qed

function (sequential) encode_node :: "dotj_node \<Rightarrow> string \<Rightarrow> nat \<Rightarrow> encoded" where
  "encode_node DOTJ_NULL b len = put_word len ''null'' b"
| "encode_node DOTJ_FALSE b len = put_word len ''false'' b"
| "encode_node DOTJ_TRUE b len = put_word len ''true'' b"
| "encode_node (DOTJ_NUMBER s) b len = put_word len (cstring s) b"
| "encode_node (DOTJ_STRING l s) b len = encode_string s b len"
| "encode_node (DOTJ_OBJECT ob) b len = encode_object encode_node ob b len"
| "encode_node (DOTJ_ARRAY a) b len = encode_array encode_node a b len"
  by pat_completeness auto
termination
  by (relation "measure (size o fst)") (auto simp: size_object_val' size_array_item)

text \<open>\<open>None\<close> is a NULL \<^verbatim>\<open>root\<close> or a NULL \<^verbatim>\<open>buf\<close>.\<close>

definition dotjson_encode :: "dotj_node option \<Rightarrow> string option \<Rightarrow> nat \<Rightarrow> nat \<times> string option" where
  "dotjson_encode root buf len =
     (case root of
        None \<Rightarrow> (0, buf)
      | Some node \<Rightarrow>
          (case buf of
             None \<Rightarrow> (fst (encode_node node [] 0), None)
           | Some b \<Rightarrow>
               let (n, b) = encode_node node b (if len > 0 then len - 1 else 0) in
               (n, Some (if n \<noteq> 0 \<and> len > n then b[n := NUL] else b))))"

section \<open>Specification\<close>

text \<open>The text of a node, without any buffer.\<close>

fun commas :: "bool \<Rightarrow> string list \<Rightarrow> string" where
  "commas first [] = []"
| "commas first (x # xs) = (if first then x else CHR '','' # x) @ commas False xs"

definition escape :: "string \<Rightarrow> string" where
  "escape d = concat (map (\<lambda>c. case escape_letter c of Some e \<Rightarrow> [CHR 0x5C, e] | None \<Rightarrow> [c]) d)"

definition key_text :: "dotj_node dotj_entry \<Rightarrow> string" where
  "key_text e = CHR 0x22 # take (keylen e) (key e) @ [CHR 0x22]"

lemma size_somes_val:
  "e \<in> set (somes (take n (entries ob))) \<Longrightarrow> size (val e) < Suc (size_dotj_object size ob)"
  by (simp add: set_somes size_object_val)

function (sequential) render :: "dotj_node \<Rightarrow> string" where
  "render DOTJ_NULL = ''null''"
| "render DOTJ_FALSE = ''false''"
| "render DOTJ_TRUE = ''true''"
| "render (DOTJ_NUMBER s) = cstring s"
| "render (DOTJ_STRING l s) = CHR 0x22 # escape (cstring s) @ [CHR 0x22]"
| "render (DOTJ_OBJECT ob) =
     ''{'' @ commas True (map (\<lambda>e. key_text e @ '':'' @ render (val e)) (somes (take (ocap ob) (entries ob)))) @ ''}''"
| "render (DOTJ_ARRAY a) = ''['' @ commas True (map render (items a)) @ '']''"
  by pat_completeness auto
termination
  by (relation "measure size") (auto simp: size_somes_val size_array_item)

text \<open>Every key holds at least the \<^verbatim>\<open>keylen\<close> bytes that are copied.\<close>

inductive keys_ok :: "dotj_node \<Rightarrow> bool" where
  "keys_ok DOTJ_NULL"
| "keys_ok DOTJ_FALSE"
| "keys_ok DOTJ_TRUE"
| "keys_ok (DOTJ_NUMBER s)"
| "keys_ok (DOTJ_STRING l s)"
| "(\<And>e. Some e \<in> set (entries ob) \<Longrightarrow> keylen e \<le> length (key e)) \<Longrightarrow>
   (\<And>e. Some e \<in> set (entries ob) \<Longrightarrow> keys_ok (val e)) \<Longrightarrow> keys_ok (DOTJ_OBJECT ob)"
| "(\<And>x. x \<in> set (items a) \<Longrightarrow> keys_ok x) \<Longrightarrow> keys_ok (DOTJ_ARRAY a)"

section \<open>Lemmas\<close>

text \<open>
  The state after writing the text \<open>R\<close> from the start of \<open>b\<close>: the counter is the length of \<open>R\<close>, a
  prefix of \<open>R\<close> of at most \<open>len\<close> bytes is in the buffer, all of it if it fits, and the rest of
  the buffer is unchanged.
\<close>

definition wrote :: "nat \<Rightarrow> string \<Rightarrow> string \<Rightarrow> encoded \<Rightarrow> bool" where
  "wrote len b R rb \<longleftrightarrow>
     (\<exists>m. m \<le> len \<and> m \<le> length R \<and> (length R \<le> len \<longrightarrow> m = length R) \<and>
        rb = (length R, take m R @ drop m b))"

lemma wrote_Nil: "wrote len b [] (0, b)"
  by (simp add: wrote_def)

lemma wrote_chunk:
  assumes "wrote len b R (r, b')" "len \<le> length b"
    "r + length S \<le> len \<Longrightarrow> b'' = memcpy b' r S" "len < r + length S \<Longrightarrow> b'' = b'"
    "n = r + length S"
  shows "wrote len b (R @ S) (n, b'')"
proof (cases "r + length S \<le> len")
  case True
  then have "b' = R @ drop (length R) b" "r = length R" using assms(1) by (auto simp: wrote_def)
  with True assms(3,5) show ?thesis
    by (auto simp: wrote_def memcpy_def add.commute intro!: exI[of _ "length (R @ S)"])
next
  case False
  obtain m where m: "m \<le> len" "m \<le> length R" "b' = take m R @ drop m b" "r = length R"
    using assms(1) by (auto simp: wrote_def)
  with False assms(4,5) show ?thesis by (auto simp: wrote_def intro!: exI[of _ m])
qed

lemma wrote_put_char:
  assumes "wrote len b R rb" "len \<le> length b"
  shows "wrote len b (R @ [c]) (put_char len c rb)"
proof -
  obtain r b' where rb: "rb = (r, b')" by (cases rb)
  have "length b' = length b" using assms rb by (auto simp: wrote_def)
  then have "r + length [c] \<le> len \<Longrightarrow> b'[r := c] = memcpy b' r [c]"
    using assms(2) by (simp add: memcpy_def upd_conv_take_nth_drop)
  then show ?thesis
    using wrote_chunk[of len b R r b' "[c]" "if len > r then b'[r := c] else b'"] assms rb
    by (auto simp: put_char_def)
qed

lemma wrote_sub:
  assumes "wrote len b R (r, b')" "len \<le> length b"
    "wrote (len - r) (drop r b') S (n, sub)"
  shows "wrote len b (R @ S) (r + n, take r b' @ sub)"
proof -
  obtain m where m: "m \<le> len" "m \<le> length R" "length R \<le> len \<longrightarrow> m = length R" "r = length R"
    "b' = take m R @ drop m b" using assms(1) by (auto simp: wrote_def)
  obtain k where k: "k \<le> len - r" "k \<le> length S" "length S \<le> len - r \<longrightarrow> k = length S" "n = length S"
    "sub = take k S @ drop k (drop r b')" using assms(3) by (auto simp: wrote_def)
  show ?thesis
  proof (cases "length R \<le> len")
    case True
    then show ?thesis
      using m k by (auto simp: wrote_def add.commute intro!: exI[of _ "length R + k"])
  next
    case False
    then have "take r b' @ sub = b'" using k(1,5) m(4) by simp
    with False m k show ?thesis by (simp only:) (auto simp: wrote_def intro!: exI[of _ m])
  qed
qed

lemma wrote_length: "wrote len b R (r, b') \<Longrightarrow> len \<le> length b \<Longrightarrow> length b' = length b \<and> r = length R"
  by (auto simp: wrote_def)

lemma wrote_sub_encode:
  assumes "wrote len b R rb" "len \<le> length b"
    "\<And>b l. l \<le> length b \<Longrightarrow> wrote l b S (en x b l)"
  shows "wrote len b (R @ S) (sub_encode en x len rb)"
proof -
  obtain r b' where rb: "rb = (r, b')" by (cases rb)
  have "len - r \<le> length (drop r b')" using wrote_length[of len b R r b'] assms(1,2) rb by auto
  from assms(3)[OF this] show ?thesis
    using wrote_sub[of len b R r b' S] assms(1,2) rb by (auto simp: sub_encode_def split: prod.splits)
qed

lemma wrote_put_key:
  assumes "wrote len b R rb" "len \<le> length b" "keylen e \<le> length (key e)"
  shows "wrote len b (R @ key_text e) (put_key len e rb)"
proof -
  obtain r b' where rb: "rb = (r, b')" by (cases rb)
  let ?k = "take (keylen e) (key e)"
  have len: "length b' = length b" using wrote_length[of len b R r b'] assms rb by simp
  have "(memcpy (b'[r := CHR 0x22]) (r + 1) ?k)[r + 1 + keylen e := CHR 0x22] = memcpy b' r (key_text e)"
    if "r + length (key_text e) \<le> len"
    using that assms(2,3) len
    by (auto simp: memcpy_def key_text_def list_update_append upd_conv_take_nth_drop take_Suc_conv_app_nth
        add.commute)
  with assms rb show ?thesis
    using wrote_chunk[of len b R r b' "key_text e"] by (auto simp: put_key_def key_text_def)
qed


lemma wrote_put_word:
  assumes "len \<le> length b"
  shows "wrote len b w (put_word len w b)"
  using wrote_chunk[OF wrote_Nil assms, of w "if len \<ge> length w then memcpy b 0 w else b"]
  by (simp add: put_word_def)

lemma wrote_encode_chars:
  assumes "len \<le> length b"
  shows "wrote len b R rb \<Longrightarrow> wrote len b (R @ escape (cstring p)) (encode_chars p len rb)"
proof (induction p arbitrary: R rb)
  case (Cons c p)
  show ?case
  proof (cases "c = NUL")
    case False
    let ?x = "case escape_letter c of Some e \<Rightarrow> [CHR 0x5C, e] | None \<Rightarrow> [c]"
    let ?rb = "case escape_letter c of Some e \<Rightarrow> put_char len e (put_char len CHR 0x5C rb) | None \<Rightarrow> put_char len c rb"
    have "wrote len b (R @ ?x) ?rb"
      using wrote_put_char[OF Cons(2) assms] wrote_put_char[OF wrote_put_char[OF Cons(2) assms] assms]
      by (simp split: option.splits)
    from Cons(1)[OF this] False show ?thesis by (simp add: escape_def)
  qed (use Cons in \<open>simp add: escape_def\<close>)
qed (simp add: escape_def)

lemma wrote_encode_string:
  "len \<le> length b \<Longrightarrow> wrote len b (CHR 0x22 # escape (cstring s) @ [CHR 0x22]) (encode_string s b len)"
  using wrote_put_char[OF wrote_encode_chars[OF _ wrote_put_char[OF wrote_Nil]], of len b "CHR 0x22" s]
  by (simp add: encode_string_def)

lemma wrote_encode_entries:
  assumes "len \<le> length b"
    "\<And>e. Some e \<in> set es \<Longrightarrow> keylen e \<le> length (key e)"
    "\<And>e b l. Some e \<in> set es \<Longrightarrow> l \<le> length b \<Longrightarrow> wrote l b (render (val e)) (en (val e) b l)"
    "wrote len b R rb"
  shows "wrote len b (R @ commas emp (map (\<lambda>e. key_text e @ '':'' @ render (val e)) (somes es)))
    (encode_entries en es len emp rb)"
  using assms
proof (induction en es len emp rb arbitrary: R rule: encode_entries.induct)
  case (3 en e es len emp rb)
  let ?R = "R @ (if emp then [] else '','')"
  let ?S = "?R @ key_text e @ '':'' @ render (val e)"
  let ?rb = "sub_encode en (val e) len (put_char len CHR '':''
    (put_key len e (if emp then rb else put_char len CHR '','' rb)))"
  have "wrote len b ?R (if emp then rb else put_char len CHR '','' rb)"
    using 3(5) wrote_put_char[OF 3(5,2)] by simp
  from wrote_sub_encode[OF wrote_put_char[OF wrote_put_key[OF this 3(2)] 3(2)] 3(2), of e "render (val e)" en "val e"]
  have "wrote len b ?S ?rb" using 3(3,4) by simp
  from 3(1)[OF 3(2) _ _ this] 3(3,4) show ?case by (cases emp) simp_all
qed simp_all

lemma wrote_encode_items:
  assumes "len \<le> length b"
    "\<And>x b l. x \<in> set xs \<Longrightarrow> l \<le> length b \<Longrightarrow> wrote l b (render x) (en x b l)"
    "wrote len b R rb"
  shows "wrote len b (R @ commas first (map render xs)) (encode_items en xs len first rb)"
  using assms
proof (induction en xs len first rb arbitrary: R rule: encode_items.induct)
  case (2 en x xs len first rb)
  let ?R = "R @ (if first then [] else '','')"
  let ?rb = "sub_encode en x len (if first then rb else put_char len CHR '','' rb)"
  have "wrote len b ?R (if first then rb else put_char len CHR '','' rb)"
    using 2(4) wrote_put_char[OF 2(4,2)] by simp
  from wrote_sub_encode[OF this 2(2), of "render x" en x]
  have "wrote len b (?R @ render x) ?rb" using 2(3) by simp
  from 2(1)[OF 2(2) _ this] 2(3) show ?case by (cases first) simp_all
qed simp_all

lemma wrote_brace:
  "len \<le> length b \<Longrightarrow> wrote len b ''{'' (1, if len \<ge> 1 then b[0 := CHR ''{''] else b)"
  using wrote_put_char[OF wrote_Nil, of len b "CHR ''{''"] by (simp add: put_char_def Suc_le_eq)

text \<open>
  The opening bracket is only written if there is room for two bytes; the text of an array has
  at least two.
\<close>

lemma encode_items_1: "1 \<le> r \<Longrightarrow> encode_items en xs 1 first (r, b) = encode_items en xs 0 first (r, b)"
proof (induction xs arbitrary: first r b)
  case (Cons x xs)
  have "sub_encode en x 1 (if first then (r, b) else put_char 1 CHR '','' (r, b)) =
      sub_encode en x 0 (if first then (r, b) else put_char 0 CHR '','' (r, b))"
    using Cons(2) by (simp add: sub_encode_def put_char_def)
  moreover have "1 \<le> fst (sub_encode en x 0 (if first then (r, b) else put_char 0 CHR '','' (r, b)))"
    using Cons(2) by (simp add: sub_encode_def put_char_def split: prod.splits)
  ultimately show ?case using Cons(1) by (metis encode_items.simps(2) prod.collapse)
qed simp

lemma put_char_1: "1 \<le> r \<Longrightarrow> put_char 1 c (r, b) = put_char 0 c (r, b)"
  by (simp add: put_char_def)

lemma fst_encode_items: "r \<le> fst (encode_items en xs len first (r, b))"
proof (induction xs arbitrary: first r b)
  case (Cons x xs)
  let ?y = "sub_encode en x len (if first then (r, b) else put_char len CHR '','' (r, b))"
  have "r \<le> fst ?y" by (auto simp: sub_encode_def put_char_def split: prod.splits)
  also have "\<dots> \<le> fst (encode_items en xs len False ?y)" using Cons[of "fst ?y" False "snd ?y"] by simp
  finally show ?case by simp
qed simp

lemma wrote_encode_array:
  assumes "len \<le> length b"
    "\<And>x b l. x \<in> set (items a) \<Longrightarrow> l \<le> length b \<Longrightarrow> wrote l b (render x) (en x b l)"
  shows "wrote len b (render (DOTJ_ARRAY a)) (encode_array en a b len)"
proof -
  have bracket: "wrote l b ''['' (1, if l > 1 then b[0 := CHR ''[''] else b)" if "l \<le> length b" "l \<noteq> 1" for l
    using wrote_put_char[OF wrote_Nil that(1), of "CHR ''[''"] that(2)
    by (auto simp: put_char_def split: if_splits)
  have main: "wrote l b (render (DOTJ_ARRAY a)) (encode_array en a b l)" if "l \<le> length b" "l \<noteq> 1" for l
    using wrote_put_char[OF wrote_encode_items[OF that(1) assms(2) bracket[OF that]] that(1), of "items a" True]
    by (simp add: encode_array_def)
  show ?thesis
  proof (cases "len = 1")
    case True
    have "encode_array en a b 1 = encode_array en a b 0"
      using encode_items_1[of 1 en "items a" True b] fst_encode_items[of 1 en "items a" 0 True b]
      by (simp add: encode_array_def) (metis One_nat_def prod.collapse put_char_1)
    moreover have "2 \<le> length (render (DOTJ_ARRAY a))" by simp
    ultimately show ?thesis using main[of 0] True by (auto simp: wrote_def)
  qed (use main[OF assms(1)] in simp)
qed

lemma wrote_encode_object:
  assumes "len \<le> length b"
    "\<And>e. Some e \<in> set (entries ob) \<Longrightarrow> keylen e \<le> length (key e)"
    "\<And>e b l. Some e \<in> set (entries ob) \<Longrightarrow> l \<le> length b \<Longrightarrow> wrote l b (render (val e)) (en (val e) b l)"
  shows "wrote len b (render (DOTJ_OBJECT ob)) (encode_object en ob b len)"
proof -
  have "Some e \<in> set (take n (entries ob)) \<Longrightarrow> Some e \<in> set (entries ob)" for e n
    by (meson in_set_takeD)
  then show ?thesis
    using wrote_put_char[OF wrote_encode_entries[OF assms(1) assms(2,3) wrote_brace[OF assms(1)]] assms(1),
        where es1 = "take (ocap ob) (entries ob)" and emp1 = True and c = "CHR ''}''"]
    by (simp add: encode_object_def)
qed

lemma wrote_encode_node:
  "keys_ok nd \<Longrightarrow> len \<le> length b \<Longrightarrow> wrote len b (render nd) (encode_node nd b len)"
proof (induction arbitrary: b len rule: keys_ok.induct)
  case (6 ob)
  then show ?case using wrote_encode_object[of len b ob encode_node] by simp
next
  case (7 a)
  then show ?case using wrote_encode_array[of len b a encode_node] by simp
qed (simp_all add: wrote_put_word wrote_encode_string)

lemma encode_node_bytes:
  assumes "keys_ok nd" "len \<le> length b"
  shows "\<exists>m. m \<le> len - 1 \<and> (length (render nd) \<le> len - 1 \<longrightarrow> m = length (render nd)) \<and>
    encode_node nd b (len - 1) = (length (render nd), take m (render nd) @ drop m b)"
proof -
  have "wrote (len - 1) b (render nd) (encode_node nd b (len - 1))"
    using wrote_encode_node[OF assms(1)] assms(2) by simp
  then show ?thesis unfolding wrote_def by blast
qed

lemma dotjson_encode_NULL: "keys_ok nd \<Longrightarrow> fst (dotjson_encode (Some nd) None len) = length (render nd)"
  using wrote_encode_node[of nd 0 "[]"] by (auto simp: dotjson_encode_def wrote_def)

lemma dotjson_encode_fits:
  assumes "keys_ok nd" "length (render nd) < len" "len \<le> length b" "render nd \<noteq> []"
  shows "dotjson_encode (Some nd) (Some b) len =
    (length (render nd), Some (render nd @ NUL # drop (Suc (length (render nd))) b))"
proof -
  let ?R = "render nd"
  obtain m where m: "length ?R \<le> len - 1 \<longrightarrow> m = length ?R"
    "encode_node nd b (len - 1) = (length ?R, take m ?R @ drop m b)"
    using encode_node_bytes[OF assms(1,3)] by blast
  have "drop (length ?R) b = b ! length ?R # drop (Suc (length ?R)) b"
    using assms(2,3) by (simp add: Cons_nth_drop_Suc)
  with m assms(2,4) show ?thesis by (simp add: dotjson_encode_def list_update_append)
qed

section \<open>Properties\<close>

text \<open>
  C3. The encoder writes within its bounds and reports the right size. For a node whose keys hold
  \<^verbatim>\<open>keylen\<close> bytes and a buffer of at least \<open>len\<close> bytes, the result is the length of the text of the
  node, whatever \<open>len\<close> is (also for a NULL buffer). If the text and its terminator fit, the buffer
  holds exactly the text followed by NUL and its remaining bytes are unchanged; otherwise at most
  \<open>len - 1\<close> bytes are changed, and they are a prefix of the text.
\<close>

theorem dotjson_encode_correct:
  assumes "keys_ok nd" "len \<le> length b" "render nd \<noteq> []"
  shows "fst (dotjson_encode (Some nd) None len') = length (render nd) \<and>
    (\<exists>b'. dotjson_encode (Some nd) (Some b) len = (length (render nd), Some b') \<and>
       (length (render nd) < len \<longrightarrow> b' = render nd @ NUL # drop (Suc (length (render nd))) b) \<and>
       (len \<le> length (render nd) \<longrightarrow> (\<exists>m. m \<le> len - 1 \<and> b' = take m (render nd) @ drop m b)))"
proof (cases "length (render nd) < len")
  case True
  with dotjson_encode_fits[OF assms(1) True assms(2,3)] dotjson_encode_NULL[OF assms(1)] show ?thesis by simp
next
  case False
  with encode_node_bytes[OF assms(1,2)] dotjson_encode_NULL[OF assms(1)] show ?thesis
    by (auto simp: dotjson_encode_def)
qed

theorem dotjson_encode_correct_witness:
  "\<exists>b'. dotjson_encode (Some (DOTJ_ARRAY (Array 1 [DOTJ_NULL]))) (Some (replicate 8 CHR ''x'')) 8 =
     (6, Some b') \<and> b' = ''[null]'' @ [NUL, CHR ''x'']"
proof -
  have ok: "keys_ok (DOTJ_ARRAY (Array 1 [DOTJ_NULL]))"
    by (rule keys_ok.intros) (simp add: keys_ok.intros)
  show ?thesis
    using dotjson_encode_correct[OF ok, of 8 "replicate 8 CHR ''x''" 0] by (simp add: numeral_eq_Suc)
qed

end
