(* ===== verification/Dotjson_Roundtrip.thy ===== *)
theory Dotjson_Roundtrip
  imports Dotjson_Parse Dotjson_Encode
begin

text \<open>
  Encoding and decoding together. The text that the encoder writes for a node is in the grammar
  of the decoder, provided that no key contains a quote, a backslash or NUL (the encoder does not
  escape keys), and it denotes the value of the node; the value of the node of a value is that
  value up to the order of the members of its objects.
\<close>

section \<open>Specification\<close>

function (sequential) value_of :: "dotj_node \<Rightarrow> jv" where
  "value_of DOTJ_NULL = JNull"
| "value_of DOTJ_FALSE = JFalse"
| "value_of DOTJ_TRUE = JTrue"
| "value_of (DOTJ_NUMBER s) = JNum (cstring s)"
| "value_of (DOTJ_STRING l s) = JStr (cstring s)"
| "value_of (DOTJ_OBJECT ob) =
     JObj (map (\<lambda>e. (take (keylen e) (key e), value_of (val e))) (somes (take (ocap ob) (entries ob))))"
| "value_of (DOTJ_ARRAY a) = JArr (map value_of (items a))"
  by pat_completeness auto
termination
  by (relation "measure size") (auto simp: size_somes_val size_array_item)

definition plain_key :: "string \<Rightarrow> bool" where
  "plain_key k \<longleftrightarrow> NUL \<notin> set k \<and> CHR 0x22 \<notin> set k \<and> CHR 0x5C \<notin> set k"

inductive plain_node :: "dotj_node \<Rightarrow> bool" where
  "plain_node DOTJ_NULL"
| "plain_node DOTJ_FALSE"
| "plain_node DOTJ_TRUE"
| "number (cstring s) = Some (cstring s, []) \<Longrightarrow> plain_node (DOTJ_NUMBER s)"
| "plain_node (DOTJ_STRING l s)"
| "(\<And>e. Some e \<in> set (entries ob) \<Longrightarrow> plain_key (take (keylen e) (key e))) \<Longrightarrow>
   (\<And>e. Some e \<in> set (entries ob) \<Longrightarrow> plain_node (val e)) \<Longrightarrow> plain_node (DOTJ_OBJECT ob)"
| "(\<And>x. x \<in> set (items a) \<Longrightarrow> plain_node x) \<Longrightarrow> plain_node (DOTJ_ARRAY a)"

text \<open>Equality of values up to the order of the members of objects.\<close>

inductive jeq :: "jv \<Rightarrow> jv \<Rightarrow> bool" where
  "jeq JNull JNull"
| "jeq JFalse JFalse"
| "jeq JTrue JTrue"
| "jeq (JNum n) (JNum n)"
| "jeq (JStr d) (JStr d)"
| "list_all2 jeq vs vs' \<Longrightarrow> jeq (JArr vs) (JArr vs')"
| "list_all2 (rel_prod (=) jeq) kvs kvs1 \<Longrightarrow> mset kvs1 = mset kvs2 \<Longrightarrow> jeq (JObj kvs) (JObj kvs2)"

inductive plain_value :: "jv \<Rightarrow> bool" where
  "plain_value JNull"
| "plain_value JFalse"
| "plain_value JTrue"
| "number n = Some (n, []) \<Longrightarrow> plain_value (JNum n)"
| "NUL \<notin> set d \<Longrightarrow> plain_value (JStr d)"
| "(\<And>v. v \<in> set vs \<Longrightarrow> plain_value v) \<Longrightarrow> plain_value (JArr vs)"
| "length kvs \<le> 2 ^ 32 \<Longrightarrow> (\<And>k v. (k, v) \<in> set kvs \<Longrightarrow> plain_key k \<and> plain_value v) \<Longrightarrow> plain_value (JObj kvs)"

section \<open>Lemmas\<close>

subsection \<open>Numbers and literals in context\<close>

definition stops :: "string \<Rightarrow> bool" where
  "stops r \<longleftrightarrow> \<not> is_digit (deref r) \<and> deref r \<notin> set ''.eE''"

lemma stops_Cons [simp]: "stops (c # r) \<longleftrightarrow> \<not> is_digit c \<and> c \<noteq> CHR ''.'' \<and> c \<noteq> CHR ''e'' \<and> c \<noteq> CHR ''E''"
  by (auto simp: stops_def)

lemma digits_append: "digits x = Some q \<Longrightarrow> \<not> is_digit (deref r) \<Longrightarrow> digits (x @ r) = Some (q @ r)"
proof -
  assume x: "digits x = Some q" and r: "\<not> is_digit (deref r)"
  have "dropWhile is_digit r = r" using r by (cases r) auto
  then have "dropWhile is_digit (x @ r) = dropWhile is_digit x @ r"
    by (cases "\<forall>c\<in>set x. is_digit c") (auto simp: dropWhile_append dropWhile_eq_Nil_conv[THEN iffD2])
  moreover have "takeWhile is_digit x \<noteq> [] \<Longrightarrow> takeWhile is_digit (x @ r) \<noteq> []"
    by (cases x) (auto split: if_splits)
  ultimately show ?thesis using x by (auto simp: digits_def split: if_splits)
qed

lemma digits_nonempty: "digits x = Some q \<Longrightarrow> x \<noteq> []"
  by (auto simp: digits_def)

lemma skip_sign_append: "x \<noteq> [] \<Longrightarrow> skip_sign (x @ r) = skip_sign x @ r"
  by (cases x) (auto simp: skip_sign_def)

lemma frac_part_append: "frac_part x = Some q \<Longrightarrow> stops r \<Longrightarrow> frac_part (x @ r) = Some (q @ r)"
  by (cases x) (auto simp: frac_part_def stops_def digits_append split: if_splits)

lemma exp_part_append:
  assumes "exp_part x = Some q" "stops r"
  shows "exp_part (x @ r) = Some (q @ r)"
proof (cases x)
  case Nil
  with assms show ?thesis by (auto simp: exp_part_def stops_def)
next
  case (Cons c y)
  show ?thesis
  proof (cases "c = CHR ''E'' \<or> c = CHR ''e''")
    case True
    with assms(1) Cons have d: "digits (skip_sign y) = Some q" by (auto simp: exp_part_def)
    then have "y \<noteq> []" by (auto simp: digits_def skip_sign_def split: if_splits)
    from skip_sign_append[OF this, of r] digits_append[OF d] assms(2) True Cons show ?thesis
      by (auto simp: exp_part_def stops_def)
  qed (use assms Cons in \<open>auto simp: exp_part_def\<close>)
qed

lemma number_append:
  assumes "number n = Some (n, [])" "stops r"
  shows "number (n @ r) = Some (n, r)"
proof -
  obtain r1 r2 where r: "digits (skip_sign n) = Some r1" "frac_part r1 = Some r2" "exp_part r2 = Some []"
    using assms(1) by (auto simp: number_def number_end_def bind_eq_Some_conv)
  have "n \<noteq> []" using number_suffix(2)[OF assms(1)] .
  from skip_sign_append[OF this, of r] digits_append[OF r(1), of r] frac_part_append[OF r(2) assms(2)]
    exp_part_append[OF r(3) assms(2)] assms(2)
  have "number_end (n @ r) = Some r" by (simp add: number_end_def stops_def)
  then show ?thesis by (simp add: number_def)
qed

lemma escape_letter_char: "escape_letter c = Some e \<Longrightarrow> e \<noteq> CHR ''u'' \<and> escape_char e = Some c"
  by (auto simp: escape_letter_def escape_char_def split: if_splits)

lemma unescape_escape:
  "NUL \<notin> set d \<Longrightarrow> unescape (escape d @ CHR 0x22 # r) = Some (d, CHR 0x22 # r)"
proof (induction d)
  case (Cons c d)
  show ?case
  proof (cases "escape_letter c")
    case None
    then have "c \<noteq> CHR 0x22" "c \<noteq> CHR 0x5C" by (auto simp: escape_letter_def)
    with None Cons show ?thesis by (auto simp: escape_def lit_step_def)
  next
    case (Some e)
    with Cons escape_letter_char[OF Some] show ?thesis by (simp add: escape_def lit_step_def)
  qed
qed (simp add: escape_def)

lemma unescape_plain:
  "plain_key k \<Longrightarrow> unescape (k @ CHR 0x22 # r) = Some (k, CHR 0x22 # r)"
proof (induction k)
  case (Cons c k)
  then have "c \<notin> {NUL, CHR 0x22, CHR 0x5C}" "plain_key k" by (auto simp: plain_key_def)
  with Cons show ?case by (simp add: lit_step_def)
qed simp


lemma literal_escape:
  "NUL \<notin> set d \<Longrightarrow> literal (CHR 0x22 # escape d @ CHR 0x22 # r) = Some (d, r)"
  by (simp add: literal_def unescape_escape)

lemma literal_plain: "plain_key k \<Longrightarrow> literal (CHR 0x22 # k @ CHR 0x22 # r) = Some (k, r)"
  by (simp add: literal_def unescape_plain)

subsection \<open>The encoder writes the grammar\<close>

lemma IGNORE_token: "\<not> is_space c \<Longrightarrow> c \<noteq> CHR ''/'' \<Longrightarrow> IGNORE_CHARS fc (c # p) = c # p"
  by (rule ic.skip_stop)

lemma IGNORE_number:
  assumes "number n = Some (n', r')"
  shows "IGNORE_CHARS fc (n @ r) = n @ r"
proof -
  obtain c m where n: "n = c # m" using number_suffix(1,2)[OF assms] by (metis append_is_Nil_conv list.exhaust)
  with number_first[OF assms] have "\<not> is_space c" "c \<noteq> CHR ''/''" by (auto simp: is_space_def is_digit_def)
  with n show ?thesis by (simp add: IGNORE_token)
qed

lemma commas_False: "xs \<noteq> [] \<Longrightarrow> commas False xs = CHR '','' # commas True xs"
  by (cases xs) auto

lemma jelems_commas:
  assumes "\<And>x r. x \<in> set xs \<Longrightarrow> stops r \<Longrightarrow> jvalue fc (render x @ r) (f x) r" "xs \<noteq> []"
  shows "jelems fc (commas True (map render xs) @ CHR '']'' # r) (map f xs) r"
  using assms
proof (induction xs)
  case (Cons x xs)
  show ?case
  proof (cases "xs = []")
    case True
    with Cons(2)[of x "CHR '']'' # r"] show ?thesis
      by (auto simp: is_digit_def is_space_def IGNORE_token intro: last_elem)
  next
    case False
    let ?q = "commas True (map render xs) @ CHR '']'' # r"
    have "jvalue fc (render x @ CHR '','' # ?q) (f x) (CHR '','' # ?q)"
      using Cons(2)[of x] by (simp add: is_digit_def)
    moreover have "jelems fc ?q (map f xs) r" using Cons False by simp
    moreover have "commas True (map render (x # xs)) @ CHR '']'' # r = render x @ CHR '','' # ?q"
      using False commas_False[of "map render xs"] by simp
    ultimately show ?thesis
      using next_elem[of fc "render x @ CHR '','' # ?q" "f x" "CHR '','' # ?q" ?q "map f xs" r]
      by (simp add: IGNORE_token is_space_def)
  qed
qed simp

lemma jmembers_commas:
  assumes "\<And>e r. e \<in> set es \<Longrightarrow> stops r \<Longrightarrow> jvalue fc (render (val e) @ r) (f e) r"
    "\<And>e. e \<in> set es \<Longrightarrow> plain_key (take (keylen e) (key e))" "es \<noteq> []"
  shows "jmembers fc (commas True (map (\<lambda>e. key_text e @ '':'' @ render (val e)) es) @ CHR ''}'' # r)
    (map (\<lambda>e. (take (keylen e) (key e), f e)) es) r"
  using assms
proof (induction es)
  case (Cons e es)
  let ?k = "take (keylen e) (key e)"
  have lit: "literal (IGNORE_CHARS fc (key_text e @ q)) = Some (?k, q)" for q
    using Cons(3)[of e] by (simp add: key_text_def IGNORE_token is_space_def literal_plain)
  have colon: "IGNORE_CHARS fc (CHR '':'' # q) = CHR '':'' # q" for q
    by (simp add: IGNORE_token is_space_def)
  show ?case
  proof (cases "es = []")
    case True
    have "jvalue fc (render (val e) @ CHR ''}'' # r) (f e) (CHR ''}'' # r)"
      using Cons(2)[of e "CHR ''}'' # r"] by (simp add: is_digit_def)
    from last_member[OF lit colon this] True show ?thesis
      by (simp add: IGNORE_token is_space_def)
  next
    case False
    let ?q = "commas True (map (\<lambda>e. key_text e @ '':'' @ render (val e)) es) @ CHR ''}'' # r"
    have v: "jvalue fc (render (val e) @ CHR '','' # ?q) (f e) (CHR '','' # ?q)"
      using Cons(2)[of e] by (simp add: is_digit_def)
    have "jmembers fc ?q (map (\<lambda>e. (take (keylen e) (key e), f e)) es) r" using Cons False by simp
    from next_member[OF lit colon v _ this] show ?thesis
      using False commas_False[of "map (\<lambda>e. key_text e @ '':'' @ render (val e)) es"]
      by (simp add: IGNORE_token is_space_def)
  qed
qed simp

lemma render_jvalue:
  "plain_node nd \<Longrightarrow> stops r \<Longrightarrow> jvalue fc (render nd @ r) (value_of nd) r"
proof (induction arbitrary: r rule: plain_node.induct)
  case 1
  then show ?case by (auto intro!: null simp: IGNORE_token is_space_def)
next
  case 2
  then show ?case by (auto intro!: false simp: IGNORE_token is_space_def)
next
  case 3
  then show ?case by (auto intro!: true simp: IGNORE_token is_space_def)
next
  case (4 s)
  then show ?case by (auto intro!: num simp: IGNORE_number number_append)
next
  case (5 l s)
  then show ?case by (auto intro!: str simp: IGNORE_token is_space_def literal_escape)
next
  case (6 ob)
  let ?es = "somes (take (ocap ob) (entries ob))"
  have es: "Some e \<in> set (entries ob)" if "e \<in> set ?es" for e
    using that by (auto simp: set_somes dest: in_set_takeD)
  show ?case
  proof (cases "?es = []")
    case True
    then show ?thesis by (auto intro!: obj0 simp: IGNORE_token is_space_def)
  next
    case False
    from jmembers_commas[of ?es fc "\<lambda>e. value_of (val e)" r, OF 6(3) 6(1) this] es show ?thesis
      by (auto intro!: obj simp: IGNORE_token is_space_def)
  qed
next
  case (7 a)
  show ?case
  proof (cases "items a = []")
    case True
    then show ?thesis by (auto intro!: arr0 simp: IGNORE_token is_space_def)
  next
    case False
    from jelems_commas[of "items a" fc value_of r, OF 7(2) this] show ?thesis
      by (auto intro!: arr simp: IGNORE_token is_space_def)
  qed
qed

subsection \<open>The node of a value\<close>

lemma fold_obj_put_contents:
  "obj_ok obj \<Longrightarrow> size (obj_contents obj) + length kvs \<le> 2 ^ 32 \<Longrightarrow>
   obj_ok (fold (\<lambda>(k, v) obj. obj_put obj k v) kvs obj) \<and>
   obj_contents (fold (\<lambda>(k, v) obj. obj_put obj k v) kvs obj) =
     mset (map (\<lambda>(k, v). mk_entry k v) kvs) + obj_contents obj"
proof (induction kvs arbitrary: obj)
  case (Cons kv kvs)
  obtain k v where kv: "kv = (k, v)" by (cases kv)
  obtain ob where ob: "obj_put obj k v = Some ob" "table_ok ob" "contents ob = add_mset (mk_entry k v) (obj_contents obj)"
    using obj_put_ok[of obj k v] Cons(2,3) by auto
  then have "obj_ok (Some ob)" "size (obj_contents (Some ob)) + length kvs \<le> 2 ^ 32"
    using Cons(3) by (auto simp: obj_ok_def obj_contents_def)
  from Cons(1)[OF this] ob kv show ?case by (simp add: obj_contents_def)
qed simp

lemma object_of_contents:
  assumes "length kvs \<le> 2 ^ 32"
  shows "table_ok (object_of kvs)" "contents (object_of kvs) = mset (map (\<lambda>(k, v). mk_entry k v) kvs)"
proof -
  have "table_ok (object_of kvs) \<and> contents (object_of kvs) = mset (map (\<lambda>(k, v). mk_entry k v) kvs)"
  proof (cases "kvs = []")
    case True
    then show ?thesis by (simp add: object_of_def table_ok_fresh[simplified])
  next
    case False
    then obtain ob where "fold (\<lambda>(k, v) obj. obj_put obj k v) kvs None = Some ob"
      using fold_obj_put by blast
    with False fold_obj_put_contents[of None kvs] assms show ?thesis
      by (auto simp: object_of_def obj_ok_def obj_contents_def)
  qed
  then show "table_ok (object_of kvs)" "contents (object_of kvs) = mset (map (\<lambda>(k, v). mk_entry k v) kvs)"
    by simp_all
qed

lemma set_entries_object_of:
  assumes "length kvs \<le> 2 ^ 32" "Some e \<in> set (entries (object_of kvs))"
  shows "\<exists>k v. (k, v) \<in> set kvs \<and> e = mk_entry k v"
proof -
  have "e \<in># contents (object_of kvs)" using assms(2) by (simp add: contents_def set_somes)
  then show ?thesis using object_of_contents(2)[OF assms(1)] by auto
qed

lemma items_array_of: "items (array_of xs) = xs"
proof -
  have push: "\<exists>a'. arr_push arr x = Some a' \<and> items a' = (case arr of None \<Rightarrow> [] | Some a \<Rightarrow> items a) @ [x]" for arr x
    by (auto simp: arr_push_def array_push_def array_grow_def split: option.splits prod.splits)
  have "xs \<noteq> [] \<Longrightarrow> \<exists>a. fold (\<lambda>x arr. arr_push arr x) xs None = Some a \<and> items a = xs"
  proof (induction xs rule: rev_induct)
    case (snoc x xs)
    then show ?case
      using push[of None x] push[of "fold (\<lambda>x arr. arr_push arr x) xs None" x] by (cases "xs = []") auto
  qed simp
  then show ?thesis by (cases "xs = []") (auto simp: array_of_def)
qed

lemma key_mk_entry [simp]:
  "key (mk_entry k v) = k @ [NUL]" "keylen (mk_entry k v) = length k" "val (mk_entry k v) = v"
  by (simp_all add: mk_entry_def)

lemma node_of_plain: "plain_value v \<Longrightarrow> plain_node (node_of v) \<and> keys_ok (node_of v)"
proof (induction rule: plain_value.induct)
  case (4 n)
  then have "cstring (n @ [NUL]) = n" using number_suffix(3)[of n n "[]"] by (simp add: cstring_id)
  with 4 show ?case by (auto intro!: plain_node.intros keys_ok.intros)
next
  case (6 vs)
  then show ?case by (auto intro!: plain_node.intros keys_ok.intros simp: items_array_of)
next
  case (7 kvs)
  let ?kvs = "map (\<lambda>(k, v). (k, node_of v)) kvs"
  have "\<exists>k v. (k, v) \<in> set kvs \<and> e = mk_entry k (node_of v)" if "Some e \<in> set (entries (object_of ?kvs))" for e
    using set_entries_object_of[OF _ that] 7(1) by auto
  with 7(2) show ?case by (fastforce intro!: plain_node.intros(6) keys_ok.intros(6))
qed (auto intro: plain_node.intros keys_ok.intros)

lemma jeq_node_of: "plain_value v \<Longrightarrow> jeq v (value_of (node_of v))"
proof (induction rule: plain_value.induct)
  case (4 n)
  then have "cstring (n @ [NUL]) = n" using number_suffix(3)[of n n "[]"] by (simp add: cstring_id)
  then show ?case by (simp add: jeq.intros)
next
  case (5 d)
  then show ?case by (simp add: cstring_id jeq.intros)
next
  case (6 vs)
  then show ?case
    by (auto intro!: jeq.intros simp: items_array_of list_all2_conv_all_nth)
next
  case (7 kvs)
  let ?kvs = "map (\<lambda>(k, v). (k, node_of v)) kvs" and ?kvs1 = "map (\<lambda>(k, v). (k, value_of (node_of v))) kvs"
  let ?f = "\<lambda>e. (take (keylen e) (key e), value_of (val e))"
  have len: "length ?kvs \<le> 2 ^ 32" using 7(1) by simp
  note ob = object_of_contents[OF len]
  have "mset (map ?f (somes (entries (object_of ?kvs)))) = image_mset ?f (contents (object_of ?kvs))"
    by (simp add: contents_def)
  also have "\<dots> = mset ?kvs1" unfolding ob(2) by (simp add: image_mset.compositionality comp_def case_prod_unfold)
  finally have "mset ?kvs1 = mset (map ?f (somes (take (ocap (object_of ?kvs)) (entries (object_of ?kvs)))))"
    using table_okD(2)[OF ob(1)] by simp
  moreover have "list_all2 (rel_prod (=) jeq) kvs ?kvs1"
    using 7(2) unfolding list.rel_map by (intro list.rel_refl_strong) (auto split: prod.splits)
  ultimately show ?case by (auto intro: jeq.intros(7))
qed (auto intro: jeq.intros)


section \<open>Properties\<close>

text \<open>
  C2. Round trip. Take an object whose keys need no escaping, whose strings contain no NUL and
  whose numbers are numbers. Encoding its node into a large enough buffer and decoding the
  buffer, whatever follows the terminator, consumes exactly the encoded text and yields the node
  of a value that equals the original value up to the order of members.
\<close>

theorem encode_decode_roundtrip:
  assumes "plain_value (JObj kvs)" "length (render (node_of (JObj kvs))) < length b"
  shows "\<exists>b' v' h'. dotjson_encode (Some (node_of (JObj kvs))) (Some b) (length b) =
      (length (render (node_of (JObj kvs))), Some b') \<and>
    dotjson_decode fc (Some b') True h =
      Some (length (render (node_of (JObj kvs))), Some (node_of v'), h') \<and> jeq (JObj kvs) v'"
proof -
  let ?nd = "node_of (JObj kvs)"
  let ?R = "render ?nd"
  have plain: "plain_node ?nd" "keys_ok ?nd" using node_of_plain[OF assms(1)] by simp_all
  have ne: "?R \<noteq> []" by simp
  from dotjson_encode_fits[OF plain(2) assms(2) order_refl ne]
  have "dotjson_encode (Some ?nd) (Some b) (length b) = (length ?R, Some (?R @ NUL # drop (Suc (length ?R)) b))" .
  moreover have "jvalue fc (?R @ NUL # drop (Suc (length ?R)) b) (value_of ?nd) (NUL # drop (Suc (length ?R)) b)"
    by (rule render_jvalue[OF plain(1)]) (simp add: is_digit_def)
  moreover obtain kvs' where "value_of ?nd = JObj kvs'" by simp
  ultimately show ?thesis
    using dotjson_decode_accepts[of fc _ kvs' _ h] jeq_node_of[OF assms(1)] by (force simp: ptr_diff_def)
qed


theorem encode_decode_roundtrip_witness:
  "\<exists>b' v' h'. dotjson_encode (Some (node_of (JObj []))) (Some ''abcd'') 4 = (2, Some b') \<and>
    dotjson_decode True (Some b') True \<lparr>mallocs = 0, frees = 0\<rparr> = Some (2, Some (node_of v'), h') \<and>
    jeq (JObj []) v'"
proof -
  have "plain_value (JObj [])" by (rule plain_value.intros) simp_all
  from encode_decode_roundtrip[OF this, of "''abcd''" True "\<lparr>mallocs = 0, frees = 0\<rparr>"]
  show ?thesis by (simp add: object_of_def numeral_eq_Suc)
qed

text \<open>
  The condition on keys is needed: the encoder copies keys verbatim. The object with the single
  key of one quote character is encoded as a text that the decoder rejects.
\<close>

lemma encode_key_not_escaped:
  fixes nd :: dotj_node
  defines "nd \<equiv> node_of (JObj [([CHR 0x22], JTrue)])"
  shows "render nd = CHR ''{'' # [CHR 0x22, CHR 0x22, CHR 0x22] @ '':true}''"
    and "\<exists>h'. dotjson_decode fc (Some (render nd)) True h = Some (0, None, h')"
proof -
  let ?e = "mk_entry [CHR 0x22] DOTJ_TRUE"
  have c: "contents (object_of [([CHR 0x22], DOTJ_TRUE)]) = {#?e#}"
    using object_of_contents(2)[of "[([CHR 0x22], DOTJ_TRUE)]"] by simp
  then have "somes (entries (object_of [([CHR 0x22], DOTJ_TRUE)])) = [?e]"
    by (simp add: contents_def)
  moreover have "take (ocap (object_of [([CHR 0x22], DOTJ_TRUE)])) (entries (object_of [([CHR 0x22], DOTJ_TRUE)])) =
    entries (object_of [([CHR 0x22], DOTJ_TRUE)])"
    using table_okD(2)[OF object_of_contents(1)[of "[([CHR 0x22], DOTJ_TRUE)]"]] by simp
  ultimately show r: "render nd = CHR ''{'' # [CHR 0x22, CHR 0x22, CHR 0x22] @ '':true}''"
    by (simp add: nd_def key_text_def)
  have [simp]: "IGNORE_CHARS fc (c # p) = c # p" if "\<not> is_space c" "c \<noteq> CHR ''/''" for c p
    using that by (rule IGNORE_token)
  have "\<not> jvalue fc (render nd) (JObj kvs) q" for kvs q
  proof
    let ?q = "[CHR 0x22, CHR 0x22, CHR 0x22] @ '':true}''"
    assume "jvalue fc (render nd) (JObj kvs) q"
    then have "IGNORE_CHARS fc ?q = CHR ''}'' # q \<or> jmembers fc ?q kvs q"
      unfolding r by (cases rule: jvalue.cases) (auto simp: is_space_def)
    then have "jmembers fc ?q kvs q" by (simp add: is_space_def)
    then obtain k q1 q2 where "literal (IGNORE_CHARS fc ?q) = Some (k, q1)" "IGNORE_CHARS fc q1 = CHR '':'' # q2"
      by (cases rule: jmembers.cases) auto
    then show False by (auto simp: is_space_def literal_def)
  qed
  then show "\<exists>h'. dotjson_decode fc (Some (render nd)) True h = Some (0, None, h')"
    by (intro dotjson_decode_rejects) blast
qed

end
