(* ===== verification/Dotjson_Heap.thy ===== *)
theory Dotjson_Heap
  imports Dotjson_Decode
begin

text \<open>
  What \<^verbatim>\<open>dotjson_destroy\<close> gives back. The blocks of a node are the allocations it owns; the function
  frees all of them when every entry of every object lies in the first \<^verbatim>\<open>len\<close> slots of its table,
  and only then: its loop runs to \<^verbatim>\<open>len\<close> and not to \<^verbatim>\<open>cap\<close>.
\<close>

section \<open>Specification\<close>

function (sequential) blocks :: "dotj_node \<Rightarrow> nat" where
  "blocks (DOTJ_OBJECT ob) =
     Suc (sum_list (map (\<lambda>e. Suc (blocks (val e))) (somes (entries ob))))"
| "blocks (DOTJ_ARRAY a) = Suc (sum_list (map blocks (items a)))"
| "blocks _ = 1"
  by pat_completeness auto
termination
  by (relation "measure size") (auto simp: set_somes size_object_val' size_array_item)

text \<open>The blocks that the loop bounds of \<^verbatim>\<open>dotjson_destroy\<close> reach.\<close>

function (sequential) reached :: "dotj_node \<Rightarrow> nat" where
  "reached (DOTJ_OBJECT ob) =
     Suc (sum_list (map (\<lambda>e. Suc (reached (val e))) (somes (take (olen ob) (entries ob)))))"
| "reached (DOTJ_ARRAY a) = Suc (sum_list (map reached (items a)))"
| "reached _ = 1"
  by pat_completeness auto
termination
  by (relation "measure size") (auto simp: set_somes size_object_val size_array_item)

inductive compact :: "dotj_node \<Rightarrow> bool" where
  "compact DOTJ_NULL"
| "compact DOTJ_FALSE"
| "compact DOTJ_TRUE"
| "compact (DOTJ_NUMBER s)"
| "compact (DOTJ_STRING l s)"
| "somes (drop (olen ob) (entries ob)) = [] \<Longrightarrow>
   (\<And>e. Some e \<in> set (entries ob) \<Longrightarrow> compact (val e)) \<Longrightarrow> compact (DOTJ_OBJECT ob)"
| "(\<And>x. x \<in> set (items a) \<Longrightarrow> compact x) \<Longrightarrow> compact (DOTJ_ARRAY a)"

section \<open>Lemmas\<close>

definition gives_back :: "nat \<Rightarrow> (heap \<Rightarrow> heap) \<Rightarrow> bool" where
  "gives_back n f \<longleftrightarrow> (\<forall>h. f h = h\<lparr>frees := frees h + n\<rparr>)"

lemma gives_back_free: "gives_back n f \<Longrightarrow> gives_back (Suc n) (\<lambda>h. free (f h))"
  by (simp add: gives_back_def free_def)

lemma gives_back_fold:
  "(\<And>x. x \<in> set xs \<Longrightarrow> gives_back (w x) (f x)) \<Longrightarrow> gives_back (sum_list (map w xs)) (fold f xs)"
proof (induction xs)
  case (Cons x xs)
  then have "gives_back (w x) (f x)" "gives_back (sum_list (map w xs)) (fold f xs)" by auto
  then show ?case by (simp add: gives_back_def add.assoc)
qed (simp add: gives_back_def)

lemma fold_somes:
  "fold (\<lambda>e h. case e of None \<Rightarrow> h | Some e \<Rightarrow> f e h) es h = fold f (somes es) h"
  by (induction es arbitrary: h rule: somes.induct) auto

lemma dotjson_destroy_reached: "gives_back (reached nd) (dotjson_destroy nd)"
proof (induction nd rule: reached.induct)
  case (1 ob)
  let ?es = "somes (take (olen ob) (entries ob))"
  have "gives_back (sum_list (map (\<lambda>e. Suc (reached (val e))) ?es)) (fold (\<lambda>e h. free (dotjson_destroy (val e) h)) ?es)"
    by (rule gives_back_fold) (rule gives_back_free, rule 1, assumption)
  from gives_back_free[OF this] show ?case by (simp add: gives_back_def fold_somes)
next
  case (2 a)
  have "gives_back (sum_list (map reached (items a))) (fold dotjson_destroy (items a))"
    by (rule gives_back_fold) (rule 2)
  from gives_back_free[OF this] show ?case by (simp add: gives_back_def)
qed (simp_all add: gives_back_def free_def)

lemma somes_append: "somes (xs @ ys) = somes xs @ somes ys"
  by (induction xs rule: somes.induct) auto

lemma somes_split: "somes es = somes (take n es) @ somes (drop n es)"
  by (metis append_take_drop_id somes_append)

lemma sum_list_somes_take:
  fixes w w' :: "'a \<Rightarrow> nat"
  assumes "\<And>e. Some e \<in> set es \<Longrightarrow> w e \<le> w' e"
  shows "sum_list (map w (somes (take n es))) \<le> sum_list (map w' (somes es))"
proof -
  have "sum_list (map w (somes (take n es))) \<le> sum_list (map w' (somes (take n es)))"
    using assms by (intro sum_list_mono) (auto simp: set_somes dest: in_set_takeD)
  also have "\<dots> \<le> sum_list (map w' (somes es))" by (metis le_add1 map_append somes_split sum_list_append)
  finally show ?thesis .
qed

lemma reached_le_blocks: "reached nd \<le> blocks nd"
proof (induction nd rule: blocks.induct)
  case (1 ob)
  then have "\<And>e. Some e \<in> set (entries ob) \<Longrightarrow> Suc (reached (val e)) \<le> Suc (blocks (val e))"
    by (simp add: set_somes)
  from sum_list_somes_take[OF this, where n = "olen ob"] show ?case by simp
next
  case (2 a)
  then show ?case by (simp add: sum_list_mono)
qed simp_all

lemma reached_compact: "compact nd \<Longrightarrow> reached nd = blocks nd"
proof (induction rule: compact.induct)
  case (6 ob)
  then have "somes (entries ob) = somes (take (olen ob) (entries ob))"
    using somes_split[of "entries ob" "olen ob"] by simp
  moreover have "map (\<lambda>e. Suc (reached (val e))) (somes (entries ob)) = map (\<lambda>e. Suc (blocks (val e))) (somes (entries ob))"
    using 6(3) by (auto simp: set_somes)
  ultimately show ?case by (simp only: reached.simps blocks.simps)
next
  case (7 a)
  then have "map reached (items a) = map blocks (items a)" by auto
  then show ?case by (simp only: reached.simps blocks.simps)
qed simp_all

section \<open>Properties\<close>

text \<open>
  C9. \<^verbatim>\<open>dotjson_destroy\<close> allocates nothing, never frees more blocks than the node owns, and frees
  all of them if every entry of every object table lies in the first \<^verbatim>\<open>len\<close> slots (as in a table
  that is full).
\<close>

theorem dotjson_destroy_frees:
  "mallocs (dotjson_destroy nd h) = mallocs h \<and>
   frees (dotjson_destroy nd h) \<le> frees h + blocks nd \<and>
   (compact nd \<longrightarrow> frees (dotjson_destroy nd h) = frees h + blocks nd)"
  using dotjson_destroy_reached[of nd] reached_le_blocks[of nd] reached_compact[of nd]
  by (simp add: gives_back_def)

theorem dotjson_destroy_frees_witness:
  "frees (dotjson_destroy (DOTJ_ARRAY (Array 2 [DOTJ_NULL, DOTJ_TRUE])) \<lparr>mallocs = 3, frees = 0\<rparr>) = 3"
proof -
  have "compact (DOTJ_ARRAY (Array 2 [DOTJ_NULL, DOTJ_TRUE]))"
    by (rule compact.intros) (auto intro: compact.intros)
  then show ?thesis
    using dotjson_destroy_frees[of "DOTJ_ARRAY (Array 2 [DOTJ_NULL, DOTJ_TRUE])" "\<lparr>mallocs = 3, frees = 0\<rparr>"]
    by simp
qed

text \<open>
  A table of three entries has four slots, and an entry in the last one is not reached: the
  object with members \<open>b\<close>, \<open>b\<close> and \<open>c\<close> loses the entry in slot 3 and its value.
\<close>

lemma dotjson_destroy_leaks:
  "\<exists>ob h'. puts [(''b'', DOTJ_NULL), (''b'', DOTJ_TRUE), (''c'', DOTJ_FALSE)] h = (Some ob, h') \<and>
     frees (dotjson_destroy (DOTJ_OBJECT ob) h') + 2 = frees h' + blocks (DOTJ_OBJECT ob)"
  unfolding puts_bb by (simp add: mk_entry_def free_def malloc_def numeral_eq_Suc)

text \<open>Growing an array copies the items into a new block and keeps the old one allocated.\<close>

lemma array_grow_leaks:
  "length (items a) = acap a \<Longrightarrow> snd (array_grow (Some a) h) = malloc h"
  by (simp add: array_grow_def)

end
