(* ===== verification/EnvExt.thy ===== *)
theory EnvExt
  imports Prelude "HOL-Library.Monad_Syntax"
begin

text \<open>
  The editor plugin \<^verbatim>\<open>cpp/envext\<close>: \<^verbatim>\<open>PluginDefinition.cpp\<close> with the configured environment variables and the commands, and
  the entry points of \<^verbatim>\<open>EnvExt.cpp\<close>. A pointer into a buffer is the memory from there on; leaving a buffer has no result
  (\<open>None\<close>).
\<close>

section \<open>Definitions\<close>

type_synonym tchar = "16 word"

definition wtext :: "string \<Rightarrow> tchar list" where
  "wtext t = map of_char t"

definition zstr :: "tchar list \<Rightarrow> tchar list" where
  \<comment> \<open>the text up to the terminator\<close>
  "zstr t = takeWhile (\<lambda>c. c \<noteq> 0) t"

abbreviation (input) EQUALS :: tchar where "EQUALS \<equiv> 0x3D"
abbreviation (input) BACKSLASH :: tchar where "BACKSLASH \<equiv> 0x5C"
abbreviation (input) MAX_PATH :: nat where "MAX_PATH \<equiv> 260"

definition NPP_PLUGIN_NAME :: "tchar list" where "NPP_PLUGIN_NAME = wtext ''EnvExt''"

text \<open>
  Windows: the path of the module and its length, the section of a configuration file as the number of characters and
  the contents of the buffer they were copied to, the error code when there is none, the expansion of a text into a buffer
  (with its previous contents), and what setting a variable does to the environment of the process.
\<close>

record 'e env_os =
  GetModuleFileName :: "tchar list \<times> nat"
  GetPrivateProfileSection :: "tchar list \<Rightarrow> tchar list \<times> nat"
  GetLastError :: "32 word"
  ExpandEnvironmentStrings :: "'e \<Rightarrow> tchar list \<Rightarrow> tchar list \<Rightarrow> tchar list"
  SetEnvironmentVariable :: "tchar list \<Rightarrow> tchar list \<Rightarrow> 'e \<Rightarrow> 'e"
  new_buffer :: "tchar list" \<comment> \<open>what \<^verbatim>\<open>new TCHAR[buffer_size]\<close> contains\<close>

datatype plugin_cmd = Env_load

record func_item =
  itemName :: "tchar list"
  pFunc :: "plugin_cmd option"
  init2Check :: bool
  pShKey :: "nat option"

record 'e plugin =
  funcItem :: "func_item list"
  nppData :: "nat \<times> nat \<times> nat"
  inited :: bool
  config_file :: "tchar list"
  environ :: 'e
  error_boxes :: "32 word list" \<comment> \<open>the codes reported in message boxes\<close>

abbreviation (input) nbFunc :: nat where "nbFunc \<equiv> 1"
abbreviation (input) nbChar :: nat where "nbChar \<equiv> 64"

text \<open>The strings library: at most \<open>cch - 1\<close> characters and the terminator are written.\<close>

definition StringCchCopy :: "tchar list \<Rightarrow> nat \<Rightarrow> tchar list \<Rightarrow> tchar list" where
  "StringCchCopy dest cch src = (let t = take (cch - 1) (zstr src) @ [0] in t @ drop (length t) dest)"

definition StringCchCat :: "tchar list \<Rightarrow> nat \<Rightarrow> tchar list \<Rightarrow> tchar list" where
  "StringCchCat dest cch src = StringCchCopy dest cch (zstr dest @ zstr src)"

subsection \<open>The variables\<close>

text \<open>The inner loop of \<^verbatim>\<open>env_load\<close> over the characters of the text at \<open>s\<close>\<close>

function assign_loop :: "'e env_os \<Rightarrow> nat \<Rightarrow> nat \<Rightarrow> tchar list \<Rightarrow> tchar list \<Rightarrow> 'e \<Rightarrow> tchar list \<times> tchar list \<times> 'e" where
  "assign_loop os i l s buffer e =
     (if i < l then
        if s ! i = EQUALS then
          if i = 0 then (s, buffer, e)
          else
            let buffer = ExpandEnvironmentStrings os e (zstr (drop (i + 1) s)) buffer;
                s = s[i := 0]
            in (s, buffer, SetEnvironmentVariable os (zstr s) (zstr buffer) e)
        else assign_loop os (i + 1) l s buffer e
      else (s, buffer, e))"
  by pat_completeness auto

termination
  by (relation "measure (\<lambda>(_, i, l, _). l - i)") auto

declare assign_loop.simps [simp del]

lemma assign_loop_length: "length (fst (assign_loop os i l s buffer e)) = length s"
proof (induction os i l s buffer e rule: assign_loop.induct)
  case (1 os i l s buffer e)
  then show ?case by (subst assign_loop.simps) (simp add: Let_def)
qed

function env_loop :: "'e env_os \<Rightarrow> tchar list \<Rightarrow> tchar list \<Rightarrow> 'e \<Rightarrow> 'e option" where
  "env_loop os s buffer e =
     (if s = [] then None
      else if hd s = 0 then Some e
      else if 0 \<notin> set s then None
      else
        let (s', buffer, e) = assign_loop os 0 (length (zstr s)) s buffer e
        in env_loop os (drop (length (zstr s') + 1) s') buffer e)"
  by pat_completeness auto

termination
proof (relation "measure (\<lambda>(_, s, _). length s)", goal_cases)
  case (2 os s buffer e x s' y b e')
  then have "length s' = length s" using assign_loop_length[of os 0 "length (zstr s)" s buffer e] by (metis fst_conv)
  with 2 show ?case by simp
qed simp

declare env_loop.simps [simp del]

definition env_load :: "'e env_os \<Rightarrow> ('e, 'a) plugin_scheme \<Rightarrow> ('e, 'a) plugin_scheme option" where
  "env_load os p =
     (if \<not> inited p then Some p
      else
        let (sections, size) = GetPrivateProfileSection os (zstr (config_file p)) in
        if size = 0 then
          let err = GetLastError os in
          Some (if err \<noteq> 0 then p\<lparr>error_boxes := error_boxes p @ [err]\<rparr> else p)
        else do {
          e \<leftarrow> env_loop os sections (new_buffer os) (environ p);
          Some (p\<lparr>environ := e\<rparr>)
        })"

definition env_init :: "'e env_os \<Rightarrow> tchar list \<Rightarrow> ('e, 'a) plugin_scheme \<Rightarrow> ('e, 'a) plugin_scheme option" where
  "env_init os path p =
     (let p = p\<lparr>config_file := StringCchCopy (config_file p) MAX_PATH path\<rparr>;
          p = p\<lparr>config_file := StringCchCat (config_file p) MAX_PATH (wtext ''envext.ini'')\<rparr>
      in env_load os (p\<lparr>inited := True\<rparr>))"

text \<open>The loop of \<^verbatim>\<open>pluginInit\<close>, from \<^verbatim>\<open>i\<close> down to 1; the result is the path that is handed on.\<close>

fun dir_loop :: "nat \<Rightarrow> tchar list \<Rightarrow> tchar list option option" where
  "dir_loop 0 path = Some None"
| "dir_loop (Suc i) path =
     (if Suc i \<ge> length path then None
      else if path ! Suc i = BACKSLASH then
        if Suc (Suc i) < length path then Some (Some (path[Suc (Suc i) := 0])) else None
      else dir_loop i path)"

definition pluginInit :: "'e env_os \<Rightarrow> ('e, 'a) plugin_scheme \<Rightarrow> ('e, 'a) plugin_scheme option" where
  "pluginInit os p =
     (let (path, size) = GetModuleFileName os in
      if size = 0 then Some p
      else do {
        r \<leftarrow> dir_loop (size - 1) path;
        case r of None \<Rightarrow> Some p | Some path \<Rightarrow> env_init os path p
      })"

subsection \<open>The plugin interface\<close>

definition setCommand :: "nat \<Rightarrow> tchar list \<Rightarrow> plugin_cmd option \<Rightarrow> nat option \<Rightarrow> bool \<Rightarrow> ('e, 'a) plugin_scheme \<Rightarrow> (bool \<times> ('e, 'a) plugin_scheme) option" where
  "setCommand index cmdName f sk check0nInit p =
     (if index \<ge> nbFunc then Some (False, p)
      else if f = None then Some (False, p)
      else if length (zstr cmdName) < nbChar then
        Some (True, p\<lparr>funcItem := (funcItem p)[index :=
          (funcItem p ! index)\<lparr>itemName := zstr cmdName @ 0 # drop (length (zstr cmdName) + 1) (itemName (funcItem p ! index)),
             pFunc := f, init2Check := check0nInit, pShKey := sk\<rparr>]\<rparr>)
      else None)"

definition commandMenuInit :: "('e, 'a) plugin_scheme \<Rightarrow> ('e, 'a) plugin_scheme option" where
  "commandMenuInit p = map_option snd (setCommand 0 (wtext ''Reload'') (Some Env_load) None False p)"

definition pluginCleanUp :: "('e, 'a) plugin_scheme \<Rightarrow> ('e, 'a) plugin_scheme" where "pluginCleanUp p = p"

definition commandMenuCleanUp :: "('e, 'a) plugin_scheme \<Rightarrow> ('e, 'a) plugin_scheme" where "commandMenuCleanUp p = p"

datatype dll_reason = DLL_PROCESS_ATTACH | DLL_PROCESS_DETACH | DLL_THREAD_ATTACH | DLL_THREAD_DETACH

definition DllMain :: "'e env_os \<Rightarrow> dll_reason \<Rightarrow> ('e, 'a) plugin_scheme \<Rightarrow> (bool \<times> ('e, 'a) plugin_scheme) option" where
  "DllMain os reasonForCall p =
     (case reasonForCall of
        DLL_PROCESS_ATTACH \<Rightarrow> do { p \<leftarrow> pluginInit os p; Some (True, p) }
      | DLL_PROCESS_DETACH \<Rightarrow> Some (True, pluginCleanUp (commandMenuCleanUp p))
      | DLL_THREAD_ATTACH \<Rightarrow> Some (True, p)
      | DLL_THREAD_DETACH \<Rightarrow> Some (True, p))"

definition setInfo :: "nat \<times> nat \<times> nat \<Rightarrow> ('e, 'a) plugin_scheme \<Rightarrow> ('e, 'a) plugin_scheme option" where
  "setInfo notpadPlusData p = commandMenuInit (p\<lparr>nppData := notpadPlusData\<rparr>)"

definition getName :: "tchar list" where "getName = NPP_PLUGIN_NAME"

definition getFuncsArray :: "('e, 'a) plugin_scheme \<Rightarrow> func_item list \<times> nat" where
  "getFuncsArray p = (funcItem p, nbFunc)"

definition messageProc :: "nat \<Rightarrow> nat \<Rightarrow> nat \<Rightarrow> bool" where "messageProc m wParam lParam = True"

text \<open>The editor calls the function of a command that the user chooses.\<close>

definition choose_command :: "'e env_os \<Rightarrow> nat \<Rightarrow> ('e, 'a) plugin_scheme \<Rightarrow> ('e, 'a) plugin_scheme option" where
  "choose_command os i p = (if i < snd (getFuncsArray p) then
     case pFunc (fst (getFuncsArray p) ! i) of None \<Rightarrow> None | Some Env_load \<Rightarrow> env_load os p else None)"

section \<open>What a section means\<close>

text \<open>
  The lines of a section: the name up to the first \<open>=\<close> and the value behind it. A line without a name or without a \<open>=\<close>
  sets nothing.
\<close>

definition setting_name :: "tchar list \<Rightarrow> tchar list" where "setting_name l = takeWhile (\<lambda>c. c \<noteq> EQUALS) l"

definition setting_value :: "tchar list \<Rightarrow> tchar list" where "setting_value l = drop (length (setting_name l) + 1) l"

definition assigns :: "tchar list \<Rightarrow> bool" where "assigns l \<longleftrightarrow> EQUALS \<in> set l \<and> hd l \<noteq> EQUALS"

definition set_line :: "'e env_os \<Rightarrow> ('e \<Rightarrow> tchar list \<Rightarrow> tchar list) \<Rightarrow> tchar list \<Rightarrow> 'e \<Rightarrow> 'e" where
  "set_line os f l e = (if assigns l then SetEnvironmentVariable os (setting_name l) (f e (setting_value l)) e else e)"

text \<open>The buffer with these lines: each with its terminator, and another terminator at the end.\<close>

definition section_text :: "tchar list list \<Rightarrow> tchar list" where
  "section_text ls = concat (map (\<lambda>l. l @ [0]) ls)"

text \<open>What the code does with lines: after an assignment it reads the value as the next line, and it stops at an empty one.\<close>

function load_lines :: "'e env_os \<Rightarrow> tchar list list \<Rightarrow> tchar list \<Rightarrow> 'e \<Rightarrow> 'e" where
  "load_lines os [] b e = e"
| "load_lines os (l # ls) b e =
     (if l = [] then e
      else if assigns l then
        let b = ExpandEnvironmentStrings os e (setting_value l) b
        in load_lines os (setting_value l # ls) b (SetEnvironmentVariable os (setting_name l) (zstr b) e)
      else load_lines os ls b e)"
  by pat_completeness auto

termination
  by (relation "measure (\<lambda>(_, ls, _). length (section_text ls))") (auto simp: section_text_def setting_value_def)

lemma zstr_line: "0 \<notin> set l \<Longrightarrow> zstr (l @ 0 # m) = l"
  by (auto simp: zstr_def takeWhile_append2 intro: takeWhile_append2[THEN trans])

lemma zstr_id: "0 \<notin> set t \<Longrightarrow> zstr t = t"
  by (auto simp: zstr_def takeWhile_eq_all_conv)

lemma assign_loop_skip:
  assumes "\<forall>j<n. s ! j \<noteq> EQUALS" "n \<le> l"
  shows "i \<le> n \<Longrightarrow> assign_loop os i l s b e = assign_loop os n l s b e"
proof (induction "n - i" arbitrary: i)
  case (Suc k)
  then have "i < n" by simp
  with assms have "assign_loop os i l s b e = assign_loop os (i + 1) l s b e" by (subst assign_loop.simps) simp
  also have "\<dots> = assign_loop os n l s b e" using Suc \<open>i < n\<close> by simp
  finally show ?case .
qed simp

lemma name_value: "EQUALS \<in> set l \<Longrightarrow> l = setting_name l @ EQUALS # setting_value l"
  unfolding setting_name_def setting_value_def
  by (induction l) auto

lemma name_no_equals: "EQUALS \<notin> set (setting_name l)"
  by (auto simp: setting_name_def dest: set_takeWhileD)

lemma assign_loop_line:
  assumes "0 \<notin> set l" "l \<noteq> []"
  shows "assign_loop os 0 (length l) (l @ 0 # m) b e =
    (if assigns l then
       let b = ExpandEnvironmentStrings os e (setting_value l) b
       in (setting_name l @ 0 # setting_value l @ 0 # m, b, SetEnvironmentVariable os (setting_name l) (zstr b) e)
     else (l @ 0 # m, b, e))"
proof (cases "EQUALS \<in> set l")
  case True
  let ?n = "length (setting_name l)"
  have l: "l = setting_name l @ EQUALS # setting_value l" by (rule name_value[OF True])
  have z: "0 \<notin> set (setting_name l)" "0 \<notin> set (setting_value l)" using assms(1) l by (metis Un_iff set_append, metis Un_iff list.set_intros(2) set_append)
  have n: "(l @ 0 # m) ! ?n = EQUALS" "?n < length l" by (subst l, simp)+ 
  have "\<forall>j<?n. (l @ 0 # m) ! j \<noteq> EQUALS"
    using name_no_equals[of l] by (subst l) (auto simp: nth_append dest: nth_mem)
  from assign_loop_skip[OF this, of "length l" 0] n(2)
  have "assign_loop os 0 (length l) (l @ 0 # m) b e = assign_loop os ?n (length l) (l @ 0 # m) b e" by simp
  moreover have "assigns l \<longleftrightarrow> ?n \<noteq> 0" using True assms(2) l unfolding assigns_def by (cases l) (auto simp: setting_name_def)
  moreover have "drop (Suc ?n) (l @ 0 # m) = setting_value l @ 0 # m" "(l @ 0 # m)[?n := 0] = setting_name l @ 0 # setting_value l @ 0 # m"
    by (subst l, simp)+
  ultimately show ?thesis using n z by (simp add: zstr_line Let_def assign_loop.simps[of os ?n])
next
  case False
  then have "\<forall>j<length l. (l @ 0 # m) ! j \<noteq> EQUALS" by (auto simp: nth_append dest: nth_mem)
  from assign_loop_skip[OF this, of "length l" 0 os b e]
  have "assign_loop os 0 (length l) (l @ 0 # m) b e = assign_loop os (length l) (length l) (l @ 0 # m) b e" by simp
  also have "\<dots> = (l @ 0 # m, b, e)" by (simp add: assign_loop.simps)
  finally show ?thesis using False by (simp add: assigns_def)
qed

lemma env_loop_lines:
  "\<forall>l\<in>set ls. 0 \<notin> set l \<Longrightarrow> env_loop os (section_text ls @ 0 # m) b e = Some (load_lines os ls b e)"
proof (induction os ls b e rule: load_lines.induct)
  case (2 os l ls b e)
  let ?m = "section_text ls @ 0 # m"
  have z: "0 \<notin> set l" and t: "section_text (l # ls) @ 0 # m = l @ 0 # ?m" using 2(3) by (simp_all add: section_text_def)
  show ?case
  proof (cases "l = []")
    case False
    have h: "hd (l @ 0 # ?m) \<noteq> 0" using False z by (cases l) auto
    show ?thesis
    proof (cases "assigns l")
      case True
      then have l: "l = setting_name l @ EQUALS # setting_value l" by (intro name_value) (simp add: assigns_def)
      have zn: "0 \<notin> set (setting_name l)" "0 \<notin> set (setting_value l)" using z l by (metis Un_iff set_append, metis Un_iff list.set_intros(2) set_append)
      define b' where "b' = ExpandEnvironmentStrings os e (setting_value l) b"
      have "env_loop os (l @ 0 # ?m) b e = env_loop os (section_text (setting_value l # ls) @ 0 # m) b' (SetEnvironmentVariable os (setting_name l) (zstr b') e)"
        by (subst env_loop.simps) (use h z zn True in \<open>simp add: zstr_line assign_loop_line[OF z False] b'_def Let_def section_text_def\<close>)
      also have "\<dots> = Some (load_lines os (setting_value l # ls) b' (SetEnvironmentVariable os (setting_name l) (zstr b') e))"
        using 2(1)[OF False True b'_def] 2(3) zn by simp
      finally show ?thesis unfolding t using False True by (simp add: b'_def Let_def)
    next
      case na: False
      have "env_loop os (l @ 0 # ?m) b e = env_loop os ?m b e"
        by (subst env_loop.simps) (use h z na in \<open>simp add: zstr_line assign_loop_line[OF z False]\<close>)
      with 2(2)[OF False na] 2(3) show ?thesis unfolding t using False na by simp
    qed
  qed (simp add: section_text_def env_loop.simps)
qed (simp add: section_text_def env_loop.simps)

text \<open>
  A line is plain if it sets nothing or its value is neither empty nor has another \<open>=\<close>. The expansion of a text is what
  \<^verbatim>\<open>ExpandEnvironmentStrings\<close> leaves in the buffer if it fits.
\<close>

definition plain :: "tchar list \<Rightarrow> bool" where
  "plain l \<longleftrightarrow> l \<noteq> [] \<and> 0 \<notin> set l \<and> (assigns l \<longrightarrow> setting_value l \<noteq> [] \<and> EQUALS \<notin> set (setting_value l))"

definition expands :: "'e env_os \<Rightarrow> ('e \<Rightarrow> tchar list \<Rightarrow> tchar list) \<Rightarrow> bool" where
  "expands os f \<longleftrightarrow> (\<forall>e t b. length (f e t) < 32767 \<longrightarrow> zstr (ExpandEnvironmentStrings os e t b) = f e t)"

fun fits :: "'e env_os \<Rightarrow> ('e \<Rightarrow> tchar list \<Rightarrow> tchar list) \<Rightarrow> tchar list list \<Rightarrow> 'e \<Rightarrow> bool" where
  "fits os f [] e = True"
| "fits os f (l # ls) e = (length (f e (setting_value l)) < 32767 \<and> fits os f ls (set_line os f l e))"

lemma load_lines_plain:
  assumes "expands os f"
  shows "\<forall>l\<in>set ls. plain l \<Longrightarrow> fits os f ls e \<Longrightarrow> load_lines os ls b e = fold (set_line os f) ls e"
proof (induction ls arbitrary: b e)
  case (Cons l ls)
  have "zstr (ExpandEnvironmentStrings os e (setting_value l) b) = f e (setting_value l)"
    using Cons.prems(2) assms by (simp add: expands_def)
  moreover have "\<not> assigns (setting_value l)" if "assigns l" using Cons.prems(1) that by (simp add: plain_def assigns_def)
  ultimately show ?case using Cons by (auto simp: plain_def set_line_def Let_def)
qed simp

section \<open>The plugin\<close>

lemma dir_loop_finds:
  assumes "BACKSLASH \<notin> set f" "d \<noteq> []"
  shows "i < Suc (length f) \<Longrightarrow> dir_loop (length d + i) (d @ BACKSLASH # f @ 0 # m) = Some (Some (d @ BACKSLASH # ((f @ 0 # m)[0 := 0])))"
proof (induction i)
  case 0
  obtain k where "length d = Suc k" using assms(2) by (cases d) auto
  then show ?case by (simp add: nth_append list_update_append)
next
  case (Suc i)
  then have "(d @ BACKSLASH # f @ 0 # m) ! (length d + Suc i) = f ! i" by (simp add: nth_append)
  moreover have "f ! i \<noteq> BACKSLASH" using Suc.prems assms(1) by (metis Suc_less_SucD nth_mem)
  ultimately show ?case using Suc by simp
qed

lemma config_path:
  assumes "0 \<notin> set d" "length d + 11 < MAX_PATH"
  shows "zstr (StringCchCat (StringCchCopy c MAX_PATH (d @ BACKSLASH # 0 # m)) MAX_PATH (wtext ''envext.ini'')) =
    d @ BACKSLASH # wtext ''envext.ini''"
proof -
  have z: "zstr (d @ [BACKSLASH] @ 0 # k) = d @ [BACKSLASH]" for k
    using zstr_line[of "d @ [BACKSLASH]" k] assms(1) by simp
  have e: "zstr (wtext ''envext.ini'') = wtext ''envext.ini''" "0 \<notin> set (wtext ''envext.ini'')" "length (wtext ''envext.ini'') = 10"
    by (simp_all add: wtext_def zstr_def)
  have "zstr (StringCchCopy c MAX_PATH (d @ BACKSLASH # 0 # m)) = d @ [BACKSLASH]"
    using z assms(2) by (simp add: StringCchCopy_def Let_def)
  moreover have "zstr (d @ BACKSLASH # wtext ''envext.ini'') = d @ BACKSLASH # wtext ''envext.ini''"
    using assms(1) e(2) by (intro zstr_id) simp
  ultimately show ?thesis
    using zstr_line[of "d @ BACKSLASH # wtext ''envext.ini''"] assms e by (simp add: StringCchCat_def StringCchCopy_def[of "StringCchCopy _ _ _"] Let_def)
qed

text \<open>
  C40. Loading the plugin sets the configured variables: when the editor loads it from a directory whose path leaves room
  for the name of the configuration file, the lines of that file's section are applied in order, each value expanded in
  the environment the lines before it have made, provided that no value is empty or contains a \<open>=\<close>; and the command of its
  menu then does the same again with the file as it is at that time.
\<close>

theorem plugin_sets_variables:
  assumes "GetModuleFileName os = (d @ BACKSLASH # f @ 0 # m, length d + 1 + length f)"
    "d \<noteq> []" "0 \<notin> set d" "BACKSLASH \<notin> set f" "f \<noteq> []" "length d + 11 < MAX_PATH"
    "GetPrivateProfileSection os (d @ BACKSLASH # wtext ''envext.ini'') = (section_text ls @ 0 # r, n)" "n \<noteq> 0"
    "\<forall>l\<in>set ls. plain l" "expands os g" "fits os g ls (environ p)"
    "length (funcItem p) = 1"
  shows "\<exists>q. DllMain os DLL_PROCESS_ATTACH p = Some (True, q) \<and> environ q = fold (set_line os g) ls (environ p) \<and>
    (\<exists>u. setInfo h q = Some u \<and>
      (fits os g ls (environ u) \<longrightarrow> (\<exists>v. choose_command os 0 u = Some v \<and> environ v = fold (set_line os g) ls (environ u))))"
proof -
  obtain c k where f: "f = c # k" using assms(5) by (cases f) auto
  have "dir_loop (length d + length f) (d @ BACKSLASH # f @ 0 # m) = Some (Some (d @ BACKSLASH # ((f @ 0 # m)[0 := 0])))"
    by (rule dir_loop_finds) (use assms(2,4) in auto)
  then have dir: "dir_loop (length d + 1 + length f - 1) (d @ BACKSLASH # f @ 0 # m) = Some (Some (d @ BACKSLASH # 0 # k @ 0 # m))"
    by (simp add: f)
  let ?q = "p\<lparr>config_file := StringCchCat (StringCchCopy (config_file p) MAX_PATH (d @ BACKSLASH # 0 # k @ 0 # m)) MAX_PATH (wtext ''envext.ini''), inited := True\<rparr>"
  have load: "env_load os q = Some (q\<lparr>environ := fold (set_line os g) ls (environ q)\<rparr>)"
    if "inited q" "config_file q = config_file ?q" "fits os g ls (environ q)" for q :: "('a, 'b) plugin_scheme"
  proof -
    have "env_loop os (section_text ls @ 0 # r) (new_buffer os) (environ q) = Some (fold (set_line os g) ls (environ q))"
      using env_loop_lines[of ls os r] load_lines_plain[OF assms(10,9) that(3)] assms(9) by (simp add: plain_def)
    with that assms(7,8) config_path[OF assms(3,6)] show ?thesis by (simp add: env_load_def)
  qed
  let ?u = "?q\<lparr>environ := fold (set_line os g) ls (environ p)\<rparr>"
  have "DllMain os DLL_PROCESS_ATTACH p = Some (True, ?u)"
    using dir load[of ?q] assms(1,11) by (simp add: DllMain_def pluginInit_def env_init_def)
  moreover obtain v where v: "setInfo h ?u = Some v" "inited v" "config_file v = config_file ?q" "choose_command os 0 v = env_load os v"
    using assms(12) by (simp add: setInfo_def commandMenuInit_def setCommand_def choose_command_def getFuncsArray_def wtext_def zstr_def)
  ultimately show ?thesis using load[OF v(2,3)] by auto
qed

section \<open>What goes wrong\<close>

text \<open>The inner loop ends a name by overwriting the \<open>=\<close>, and the outer one then takes the value for the next line.\<close>

text \<open>A value with a \<open>=\<close> sets a second variable.\<close>

lemma value_sets_variable:
  assumes "assigns l" "assigns (setting_value l)" "\<not> assigns (setting_value (setting_value l))" "setting_value (setting_value l) \<noteq> []" "expands os g"
    "length (g e (setting_value l)) < 32767" "length (g (set_line os g l e) (setting_value (setting_value l))) < 32767"
  shows "load_lines os (l # ls) b e =
    load_lines os ls (ExpandEnvironmentStrings os (set_line os g l e) (setting_value (setting_value l)) (ExpandEnvironmentStrings os e (setting_value l) b))
      (set_line os g (setting_value l) (set_line os g l e))"
proof -
  have z: "zstr (ExpandEnvironmentStrings os e (setting_value l) b') = g e (setting_value l)"
    "zstr (ExpandEnvironmentStrings os (set_line os g l e) (setting_value (setting_value l)) b') = g (set_line os g l e) (setting_value (setting_value l))" for b'
    using assms(5-7) by (simp_all add: expands_def)
  have "l \<noteq> []" "setting_value l \<noteq> []" using assms(1,2) by (auto simp: assigns_def)
  with assms(1-4) z show ?thesis by (simp add: Let_def set_line_def)
qed

text \<open>An empty value ends the section: the lines behind it are not read.\<close>

lemma empty_value_stops:
  assumes "assigns l" "setting_value l = []"
  shows "load_lines os (l # ls) b e = SetEnvironmentVariable os (setting_name l) (zstr (ExpandEnvironmentStrings os e [] b)) e"
  using assms by (auto simp: assigns_def Let_def)

section \<open>An editor\<close>

type_synonym environment = "tchar list \<rightharpoonup> tchar list"

text \<open>Expansion of a variable at the front of a text.\<close>

definition lab_expand :: "environment \<Rightarrow> tchar list \<Rightarrow> tchar list" where
  "lab_expand e t =
     (if t \<noteq> [] \<and> hd t = 0x25 then
        case e (takeWhile (\<lambda>c. c \<noteq> 0x25) (tl t)) of
          None \<Rightarrow> t
        | Some v \<Rightarrow> v @ tl (dropWhile (\<lambda>c. c \<noteq> 0x25) (tl t))
      else t)"

text \<open>The example of the documentation: \<^verbatim>\<open>a=1\<close> and \<^verbatim>\<open>b=%a%;2\<close>.\<close>

definition lab_os :: "environment env_os" where
  "lab_os = \<lparr>GetModuleFileName = (wtext ''C:'' @ BACKSLASH # wtext ''e.dll'' @ [0], 8),
     GetPrivateProfileSection = \<lambda>_. (section_text [wtext ''a=1'', wtext ''b=%a%;2''] @ [0], 12),
     GetLastError = 0,
     ExpandEnvironmentStrings = \<lambda>e t b. zstr (lab_expand e t) @ [0],
     SetEnvironmentVariable = \<lambda>n v e. e(n \<mapsto> v),
     new_buffer = []\<rparr>"

definition lab_plugin :: "environment plugin" where
  "lab_plugin = \<lparr>funcItem = [\<lparr>itemName = replicate 64 0, pFunc = None, init2Check = False, pShKey = None\<rparr>], nppData = (0, 0, 0),
     inited = False, config_file = replicate 260 0, environ = Map.empty, error_boxes = []\<rparr>"

abbreviation lab_lines :: "tchar list list" where "lab_lines \<equiv> [wtext ''a=1'', wtext ''b=%a%;2'']"

abbreviation lab_meaning :: "environment \<Rightarrow> tchar list \<Rightarrow> tchar list" where "lab_meaning e t \<equiv> zstr (lab_expand e t)"

lemma lab_plain: "\<forall>l\<in>set lab_lines. plain l"
  by code_simp

lemma lab_expands: "expands lab_os lab_meaning"
proof -
  have "zstr (zstr t @ [0]) = zstr t" for t using zstr_line[of "zstr t" "[]"] by (auto simp: zstr_def dest: set_takeWhileD)
  then show ?thesis by (simp add: expands_def lab_os_def)
qed

lemma lab_lines_values:
  "assigns (wtext ''a=1'')" "setting_name (wtext ''a=1'') = wtext ''a''" "setting_value (wtext ''a=1'') = wtext ''1''"
  "assigns (wtext ''b=%a%;2'')" "setting_name (wtext ''b=%a%;2'') = wtext ''b''" "setting_value (wtext ''b=%a%;2'') = wtext ''%a%;2''"
  "lab_meaning Map.empty (wtext ''1'') = wtext ''1''"
  "lab_meaning [wtext ''a'' \<mapsto> wtext ''1''] (wtext ''%a%;2'') = wtext ''1;2''"
  by code_simp+

lemma lab_sets: "SetEnvironmentVariable lab_os n v e = e(n \<mapsto> v)"
  by (simp add: lab_os_def)

lemma lab_result:
  "fold (set_line lab_os lab_meaning) lab_lines Map.empty = [wtext ''a'' \<mapsto> wtext ''1'', wtext ''b'' \<mapsto> wtext ''1;2'']"
  by (simp add: set_line_def lab_lines_values lab_sets)

lemma lab_fits: "fits lab_os lab_meaning lab_lines Map.empty"
proof -
  have "length (wtext ''1'') = 1" "length (wtext ''1;2'') = 3" by (simp_all add: wtext_def)
  then show ?thesis by (simp add: set_line_def lab_lines_values lab_sets)
qed

theorem plugin_sets_variables_witness:
  "\<exists>q. DllMain lab_os DLL_PROCESS_ATTACH lab_plugin = Some (True, q) \<and>
     environ q (wtext ''a'') = Some (wtext ''1'') \<and> environ q (wtext ''b'') = Some (wtext ''1;2'')"
proof -
  have m: "GetModuleFileName lab_os = (wtext ''C:'' @ BACKSLASH # wtext ''e.dll'' @ 0 # [], length (wtext ''C:'') + 1 + length (wtext ''e.dll''))"
    by (simp add: lab_os_def wtext_def)
  have s: "GetPrivateProfileSection lab_os (wtext ''C:'' @ BACKSLASH # wtext ''envext.ini'') = (section_text lab_lines @ 0 # [], 12)"
    by (simp add: lab_os_def)
  have "fits lab_os lab_meaning lab_lines (environ lab_plugin)" using lab_fits by (simp add: lab_plugin_def)
  from plugin_sets_variables[OF m _ _ _ _ _ s _ lab_plain lab_expands this, of "(0, 0, 0)"]
  obtain q where "DllMain lab_os DLL_PROCESS_ATTACH lab_plugin = Some (True, q)"
    "environ q = fold (set_line lab_os lab_meaning) lab_lines Map.empty"
    by (auto simp: wtext_def lab_plugin_def)
  moreover have "wtext ''a'' \<noteq> wtext ''b''" by code_simp
  ultimately show ?thesis using lab_result by auto
qed

end
