(* ===== verification/LDasm.thy ===== *)
theory LDasm
  imports Prelude "HOL-Library.Monad_Syntax"
begin

unbundle bit_operations_syntax

text \<open>
  The length disassembler \<^verbatim>\<open>src/c/zax-inspector/zik/LDasm.c\<close>: the two opcode tables,
  \<^verbatim>\<open>SizeOfCode\<close>, \<^verbatim>\<open>SizeOfProc\<close> and \<^verbatim>\<open>IsRelativeCmd\<close>. Memory is a partial function from 32-bit
  addresses to bytes; reading an unmapped byte is an exception, the result \<open>None\<close>.
  \<^verbatim>\<open>MmIsAddressValid\<close> of the kernel is the parameter \<open>valid\<close>. Pointers into the instruction are
  offsets from \<^verbatim>\<open>Code\<close>.
\<close>

section \<open>Definitions\<close>

type_synonym byte = "8 word"
type_synonym addr = "32 word"
type_synonym memory = "addr \<Rightarrow> byte option"

abbreviation (input) OP_NONE :: byte where "OP_NONE \<equiv> 0x00"
abbreviation (input) OP_MODRM :: byte where "OP_MODRM \<equiv> 0x01"
abbreviation (input) OP_DATA_I8 :: byte where "OP_DATA_I8 \<equiv> 0x02"
abbreviation (input) OP_DATA_I16 :: byte where "OP_DATA_I16 \<equiv> 0x04"
abbreviation (input) OP_DATA_I32 :: byte where "OP_DATA_I32 \<equiv> 0x08"
abbreviation (input) OP_DATA_PRE66_67 :: byte where "OP_DATA_PRE66_67 \<equiv> 0x10"
abbreviation (input) OP_WORD :: byte where "OP_WORD \<equiv> 0x20"
abbreviation (input) OP_REL32 :: byte where "OP_REL32 \<equiv> 0x40"

text \<open>The tables, in halves: opcodes 00 to 7F and 80 to FF.\<close>

definition OpcodeFlags_lo :: "byte list" where
  "OpcodeFlags_lo =
     [OP_MODRM, OP_MODRM, OP_MODRM, OP_MODRM,
      OP_DATA_I8, OP_DATA_PRE66_67, OP_NONE, OP_NONE,
      OP_MODRM, OP_MODRM, OP_MODRM, OP_MODRM,
      OP_DATA_I8, OP_DATA_PRE66_67, OP_NONE, OP_NONE,
      OP_MODRM, OP_MODRM, OP_MODRM, OP_MODRM,
      OP_DATA_I8, OP_DATA_PRE66_67, OP_NONE, OP_NONE,
      OP_MODRM, OP_MODRM, OP_MODRM, OP_MODRM,
      OP_DATA_I8, OP_DATA_PRE66_67, OP_NONE, OP_NONE,
      OP_MODRM, OP_MODRM, OP_MODRM, OP_MODRM,
      OP_DATA_I8, OP_DATA_PRE66_67, OP_NONE, OP_NONE,
      OP_MODRM, OP_MODRM, OP_MODRM, OP_MODRM,
      OP_DATA_I8, OP_DATA_PRE66_67, OP_NONE, OP_NONE,
      OP_MODRM, OP_MODRM, OP_MODRM, OP_MODRM,
      OP_DATA_I8, OP_DATA_PRE66_67, OP_NONE, OP_NONE,
      OP_MODRM, OP_MODRM, OP_MODRM, OP_MODRM,
      OP_DATA_I8, OP_DATA_PRE66_67, OP_NONE, OP_NONE,
      OP_NONE, OP_NONE, OP_NONE, OP_NONE,
      OP_NONE, OP_NONE, OP_NONE, OP_NONE,
      OP_NONE, OP_NONE, OP_NONE, OP_NONE,
      OP_NONE, OP_NONE, OP_NONE, OP_NONE,
      OP_NONE, OP_NONE, OP_NONE, OP_NONE,
      OP_NONE, OP_NONE, OP_NONE, OP_NONE,
      OP_NONE, OP_NONE, OP_NONE, OP_NONE,
      OP_NONE, OP_NONE, OP_NONE, OP_NONE,
      OP_NONE, OP_NONE, OP_MODRM, OP_MODRM,
      OP_NONE, OP_NONE, OP_NONE, OP_NONE,
      OP_DATA_PRE66_67, OP_MODRM OR OP_DATA_PRE66_67, OP_DATA_I8, OP_MODRM OR OP_DATA_I8,
      OP_NONE, OP_NONE, OP_NONE, OP_NONE,
      OP_DATA_I8, OP_DATA_I8, OP_DATA_I8, OP_DATA_I8,
      OP_DATA_I8, OP_DATA_I8, OP_DATA_I8, OP_DATA_I8,
      OP_DATA_I8, OP_DATA_I8, OP_DATA_I8, OP_DATA_I8,
      OP_DATA_I8, OP_DATA_I8, OP_DATA_I8, OP_DATA_I8]"

definition OpcodeFlags_hi :: "byte list" where
  "OpcodeFlags_hi =
     [OP_MODRM OR OP_DATA_I8, OP_MODRM OR OP_DATA_PRE66_67, OP_MODRM OR OP_DATA_I8, OP_MODRM OR OP_DATA_I8,
      OP_MODRM, OP_MODRM, OP_MODRM, OP_MODRM,
      OP_MODRM, OP_MODRM, OP_MODRM, OP_MODRM,
      OP_MODRM, OP_MODRM, OP_MODRM, OP_MODRM,
      OP_NONE, OP_NONE, OP_NONE, OP_NONE,
      OP_NONE, OP_NONE, OP_NONE, OP_NONE,
      OP_NONE, OP_NONE, OP_DATA_I16 OR OP_DATA_PRE66_67, OP_NONE,
      OP_NONE, OP_NONE, OP_NONE, OP_NONE,
      OP_DATA_PRE66_67, OP_DATA_PRE66_67, OP_DATA_PRE66_67, OP_DATA_PRE66_67,
      OP_NONE, OP_NONE, OP_NONE, OP_NONE,
      OP_DATA_I8, OP_DATA_PRE66_67, OP_NONE, OP_NONE,
      OP_NONE, OP_NONE, OP_NONE, OP_NONE,
      OP_DATA_I8, OP_DATA_I8, OP_DATA_I8, OP_DATA_I8,
      OP_DATA_I8, OP_DATA_I8, OP_DATA_I8, OP_DATA_I8,
      OP_DATA_PRE66_67, OP_DATA_PRE66_67, OP_DATA_PRE66_67, OP_DATA_PRE66_67,
      OP_DATA_PRE66_67, OP_DATA_PRE66_67, OP_DATA_PRE66_67, OP_DATA_PRE66_67,
      OP_MODRM OR OP_DATA_I8, OP_MODRM OR OP_DATA_I8, OP_DATA_I16, OP_NONE,
      OP_MODRM, OP_MODRM, OP_MODRM OR OP_DATA_I8, OP_MODRM OR OP_DATA_PRE66_67,
      OP_DATA_I8 OR OP_DATA_I16, OP_NONE, OP_DATA_I16, OP_NONE,
      OP_NONE, OP_DATA_I8, OP_NONE, OP_NONE,
      OP_MODRM, OP_MODRM, OP_MODRM, OP_MODRM,
      OP_DATA_I8, OP_DATA_I8, OP_NONE, OP_NONE,
      OP_WORD, OP_WORD, OP_WORD, OP_WORD,
      OP_WORD, OP_WORD, OP_WORD, OP_WORD,
      OP_DATA_I8, OP_DATA_I8, OP_DATA_I8, OP_DATA_I8,
      OP_DATA_I8, OP_DATA_I8, OP_DATA_I8, OP_DATA_I8,
      OP_DATA_PRE66_67 OR OP_REL32, OP_DATA_PRE66_67 OR OP_REL32, OP_DATA_I16 OR OP_DATA_PRE66_67, OP_DATA_I8,
      OP_NONE, OP_NONE, OP_NONE, OP_NONE,
      OP_NONE, OP_NONE, OP_NONE, OP_NONE,
      OP_NONE, OP_NONE, OP_MODRM, OP_MODRM,
      OP_NONE, OP_NONE, OP_NONE, OP_NONE,
      OP_NONE, OP_NONE, OP_MODRM, OP_MODRM OR OP_REL32]"

definition OpcodeFlagsExt_lo :: "byte list" where
  "OpcodeFlagsExt_lo =
     [OP_MODRM, OP_MODRM, OP_MODRM, OP_MODRM,
      OP_NONE, OP_NONE, OP_NONE, OP_NONE,
      OP_NONE, OP_NONE, OP_NONE, OP_NONE,
      OP_NONE, OP_MODRM, OP_NONE, OP_MODRM OR OP_DATA_I8,
      OP_MODRM, OP_MODRM, OP_MODRM, OP_MODRM,
      OP_MODRM, OP_MODRM, OP_MODRM, OP_MODRM,
      OP_MODRM, OP_NONE, OP_NONE, OP_NONE,
      OP_NONE, OP_NONE, OP_NONE, OP_NONE,
      OP_MODRM, OP_MODRM, OP_MODRM, OP_MODRM,
      OP_MODRM, OP_NONE, OP_MODRM, OP_NONE,
      OP_MODRM, OP_MODRM, OP_MODRM, OP_MODRM,
      OP_MODRM, OP_MODRM, OP_MODRM, OP_MODRM,
      OP_NONE, OP_NONE, OP_NONE, OP_NONE,
      OP_NONE, OP_NONE, OP_NONE, OP_NONE,
      OP_NONE, OP_NONE, OP_NONE, OP_NONE,
      OP_NONE, OP_NONE, OP_NONE, OP_NONE,
      OP_MODRM, OP_MODRM, OP_MODRM, OP_MODRM,
      OP_MODRM, OP_MODRM, OP_MODRM, OP_MODRM,
      OP_MODRM, OP_MODRM, OP_MODRM, OP_MODRM,
      OP_MODRM, OP_MODRM, OP_MODRM, OP_MODRM,
      OP_MODRM, OP_MODRM, OP_MODRM, OP_MODRM,
      OP_MODRM, OP_MODRM, OP_MODRM, OP_MODRM,
      OP_MODRM, OP_MODRM, OP_MODRM, OP_MODRM,
      OP_MODRM, OP_MODRM, OP_MODRM, OP_MODRM,
      OP_MODRM, OP_MODRM, OP_MODRM, OP_MODRM,
      OP_MODRM, OP_MODRM, OP_MODRM, OP_MODRM,
      OP_MODRM, OP_MODRM, OP_MODRM, OP_MODRM,
      OP_MODRM, OP_MODRM, OP_MODRM, OP_MODRM,
      OP_MODRM OR OP_DATA_I8, OP_MODRM OR OP_DATA_I8, OP_MODRM OR OP_DATA_I8, OP_MODRM OR OP_DATA_I8,
      OP_MODRM, OP_MODRM, OP_MODRM, OP_NONE,
      OP_NONE, OP_NONE, OP_NONE, OP_NONE,
      OP_MODRM, OP_MODRM, OP_MODRM, OP_MODRM]"

definition OpcodeFlagsExt_hi :: "byte list" where
  "OpcodeFlagsExt_hi =
     [OP_DATA_PRE66_67 OR OP_REL32, OP_DATA_PRE66_67 OR OP_REL32, OP_DATA_PRE66_67 OR OP_REL32, OP_DATA_PRE66_67 OR OP_REL32,
      OP_DATA_PRE66_67 OR OP_REL32, OP_DATA_PRE66_67 OR OP_REL32, OP_DATA_PRE66_67 OR OP_REL32, OP_DATA_PRE66_67 OR OP_REL32,
      OP_DATA_PRE66_67 OR OP_REL32, OP_DATA_PRE66_67 OR OP_REL32, OP_DATA_PRE66_67 OR OP_REL32, OP_DATA_PRE66_67 OR OP_REL32,
      OP_DATA_PRE66_67 OR OP_REL32, OP_DATA_PRE66_67 OR OP_REL32, OP_DATA_PRE66_67 OR OP_REL32, OP_DATA_PRE66_67 OR OP_REL32,
      OP_MODRM, OP_MODRM, OP_MODRM, OP_MODRM,
      OP_MODRM, OP_MODRM, OP_MODRM, OP_MODRM,
      OP_MODRM, OP_MODRM, OP_MODRM, OP_MODRM,
      OP_MODRM, OP_MODRM, OP_MODRM, OP_MODRM,
      OP_NONE, OP_NONE, OP_NONE, OP_MODRM,
      OP_MODRM OR OP_DATA_I8, OP_MODRM, OP_NONE, OP_NONE,
      OP_NONE, OP_NONE, OP_NONE, OP_MODRM,
      OP_MODRM OR OP_DATA_I8, OP_MODRM, OP_MODRM, OP_MODRM,
      OP_MODRM, OP_MODRM, OP_MODRM, OP_MODRM,
      OP_MODRM, OP_MODRM, OP_MODRM, OP_MODRM,
      OP_NONE, OP_NONE, OP_MODRM OR OP_DATA_I8, OP_MODRM,
      OP_MODRM, OP_MODRM, OP_MODRM, OP_MODRM,
      OP_MODRM, OP_MODRM, OP_MODRM OR OP_DATA_I8, OP_MODRM,
      OP_MODRM OR OP_DATA_I8, OP_MODRM OR OP_DATA_I8, OP_MODRM OR OP_DATA_I8, OP_MODRM,
      OP_NONE, OP_NONE, OP_NONE, OP_NONE,
      OP_NONE, OP_NONE, OP_NONE, OP_NONE,
      OP_MODRM, OP_MODRM, OP_MODRM, OP_MODRM,
      OP_MODRM, OP_MODRM, OP_MODRM, OP_MODRM,
      OP_MODRM, OP_MODRM, OP_MODRM, OP_MODRM,
      OP_MODRM, OP_MODRM, OP_MODRM, OP_MODRM,
      OP_MODRM, OP_MODRM, OP_MODRM, OP_MODRM,
      OP_MODRM, OP_MODRM, OP_MODRM, OP_MODRM,
      OP_MODRM, OP_MODRM, OP_MODRM, OP_MODRM,
      OP_MODRM, OP_MODRM, OP_MODRM, OP_MODRM,
      OP_MODRM, OP_MODRM, OP_MODRM, OP_MODRM,
      OP_MODRM, OP_MODRM, OP_MODRM, OP_MODRM,
      OP_MODRM, OP_MODRM, OP_MODRM, OP_MODRM,
      OP_MODRM, OP_MODRM, OP_MODRM, OP_NONE]"

definition OpcodeFlags :: "byte list" where
  "OpcodeFlags = OpcodeFlags_lo @ OpcodeFlags_hi"

definition OpcodeFlagsExt :: "byte list" where
  "OpcodeFlagsExt = OpcodeFlagsExt_lo @ OpcodeFlagsExt_hi"

definition has :: "byte \<Rightarrow> byte \<Rightarrow> bool" where
  \<comment> \<open>\<^verbatim>\<open>Flags & f\<close> as a condition\<close>
  "has Flags f \<longleftrightarrow> Flags AND f \<noteq> 0"

definition is_prefix :: "byte \<Rightarrow> bool" where
  "is_prefix b \<longleftrightarrow>
     b = 0x2E \<or> b = 0x3E \<or> b = 0x36 \<or> b = 0x26 \<or> b = 0x64 \<or> b = 0x65 \<or>
     b = 0xF0 \<or> b = 0xF2 \<or> b = 0xF3 \<or> b = 0x66 \<or> b = 0x67"

definition fetch :: "memory \<Rightarrow> addr \<Rightarrow> nat \<Rightarrow> byte option" where
  "fetch mem Code n = mem (Code + of_nat n)"

text \<open>
  The prefix loop from offset \<open>n\<close> on. The inner \<open>None\<close> is the early \<^verbatim>\<open>return 0\<close> after the pointer has
  passed \<^verbatim>\<open>Code + 16\<close>.
\<close>

function prefix_loop :: "memory \<Rightarrow> addr \<Rightarrow> nat \<Rightarrow> bool \<Rightarrow> bool \<Rightarrow> (nat \<times> bool \<times> bool) option option" where
  "prefix_loop mem Code n PFX66 PFX67 =
     do {
       b \<leftarrow> fetch mem Code n;
       if is_prefix b then
         if Suc n > 16 then Some None
         else prefix_loop mem Code (Suc n) (PFX66 \<or> b = 0x66) (PFX67 \<or> b = 0x67)
       else Some (Some (n, PFX66, PFX67))
     }"
  by pat_completeness auto
termination
  by (relation "measure (\<lambda>(mem, Code, n, _). 17 - n)") auto

definition offset_size :: "bool \<Rightarrow> byte \<Rightarrow> byte \<Rightarrow> nat" where
  \<comment> \<open>the \<^verbatim>\<open>switch (iMod)\<close>\<close>
  "offset_size PFX67 iMod iRM =
     (if iMod = 0 then
        if \<not> PFX67 \<and> iRM = 5 then 4 else if PFX67 \<and> iRM = 6 then 2 else 0
      else if iMod = 1 then 1
      else if iMod = 2 then if PFX67 then 2 else 4
      else 0)"

definition modrm_part :: "memory \<Rightarrow> addr \<Rightarrow> bool \<Rightarrow> nat \<Rightarrow> (byte \<times> nat) option" where
  \<comment> \<open>the ModRM block from offset \<open>n\<close> on: \<^verbatim>\<open>iReg\<close> and the offset behind the displacement\<close>
  "modrm_part mem Code PFX67 n =
     do {
       m \<leftarrow> fetch mem Code n;
       let iMod = drop_bit 6 m;
       let iReg = drop_bit 3 (m AND 0x38);
       let iRM = m AND 7;
       let OffsetSize = offset_size PFX67 iMod iRM;
       if \<not> PFX67 \<and> iRM = 4 \<and> iMod \<noteq> 3 then do {
         s \<leftarrow> fetch mem Code (n + 1);
         let OffsetSize = (if s AND 7 = 5 \<and> (iMod = 0 \<or> iMod = 2) then 4 else OffsetSize);
         Some (iReg, n + 2 + OffsetSize)
       } else Some (iReg, n + 1 + OffsetSize)
     }"

definition data_size :: "byte \<Rightarrow> bool \<Rightarrow> nat" where
  "data_size Flags PFX66 =
     (if has Flags OP_DATA_I8 then 1 else 0) + (if has Flags OP_DATA_I16 then 2 else 0) +
     (if has Flags OP_DATA_I32 then 4 else 0) +
     (if has Flags OP_DATA_PRE66_67 then if PFX66 then 2 else 4 else 0)"

definition opcode_part :: "memory \<Rightarrow> addr \<Rightarrow> nat \<Rightarrow> byte \<Rightarrow> bool \<Rightarrow> bool \<Rightarrow> (nat \<times> byte \<times> bool) option" where
  \<comment> \<open>the table lookup: the offset behind the opcode, \<^verbatim>\<open>Flags\<close> and \<^verbatim>\<open>PFX66\<close>\<close>
  "opcode_part mem Code n Opcode PFX66 PFX67 =
     (if Opcode = 0x0F then do {
        b \<leftarrow> fetch mem Code (n + 1);
        Some (n + 2, OpcodeFlagsExt ! unat b, PFX66)
      } else
        Some (n + 1, OpcodeFlags ! unat Opcode,
          if 0xA0 \<le> Opcode \<and> Opcode \<le> 0xA3 then PFX67 else PFX66))"

definition operand_part :: "memory \<Rightarrow> addr \<Rightarrow> byte \<Rightarrow> bool \<Rightarrow> nat \<Rightarrow> byte \<Rightarrow> (nat \<times> byte) option" where
  \<comment> \<open>\<^verbatim>\<open>OP_WORD\<close> and the ModRM block: the offset behind it and the final \<^verbatim>\<open>Flags\<close>\<close>
  "operand_part mem Code Opcode PFX67 n Flags =
     (let n = (if has Flags OP_WORD then n + 1 else n) in
      if has Flags OP_MODRM then do {
        (iReg, m) \<leftarrow> modrm_part mem Code PFX67 n;
        let Flags = (if Opcode = 0xF6 \<and> iReg = 0 then Flags OR OP_DATA_I8 else Flags);
        let Flags = (if Opcode = 0xF7 \<and> iReg = 0 then Flags OR OP_DATA_PRE66_67 else Flags);
        Some (m, Flags)
      } else Some (n, Flags))"

text \<open>The result: the length and the offset stored through \<^verbatim>\<open>pOpcode\<close> (\<open>None\<close> if nothing is stored).\<close>

definition SizeOfCode :: "(addr \<Rightarrow> bool) \<Rightarrow> memory \<Rightarrow> addr \<Rightarrow> (nat \<times> nat option) option" where
  "SizeOfCode valid mem Code =
     (if \<not> valid Code then Some (0, None)
      else do {
        pre \<leftarrow> prefix_loop mem Code 0 False False;
        case pre of
          None \<Rightarrow> Some (0, None)
        | Some (n, PFX66, PFX67) \<Rightarrow> do {
            Opcode \<leftarrow> fetch mem Code n;
            (n1, Flags, PFX66) \<leftarrow> opcode_part mem Code n Opcode PFX66 PFX67;
            (n2, Flags) \<leftarrow> operand_part mem Code Opcode PFX67 n1 Flags;
            Some (n2 + data_size Flags PFX66, Some n)
          }
      })"

text \<open>
  \<^verbatim>\<open>SizeOfProc\<close>: an exception ends the loop and the sum so far is returned. The loop need not end,
  so the function is partial: \<open>None\<close> if it does not return.
\<close>

partial_function (option) proc_loop :: "(addr \<Rightarrow> bool) \<Rightarrow> memory \<Rightarrow> addr \<Rightarrow> uint32 \<Rightarrow> uint32 option" where
  "proc_loop valid mem Proc Result =
     (if \<not> valid Proc then Some Result
      else
        case SizeOfCode valid mem Proc of
          None \<Rightarrow> Some Result
        | Some (Length, pOpcode) \<Rightarrow>
            let Result = Result + of_nat Length in
            if Length = 1 \<and> fetch mem Proc (the pOpcode) = Some 0xC3 then Some Result
            else if Length = 3 \<and> fetch mem Proc (the pOpcode) = Some 0xC2 then Some Result
            else if Length \<noteq> 0 then proc_loop valid mem (Proc + of_nat Length) Result
            else Some Result)"

definition SizeOfProc :: "(addr \<Rightarrow> bool) \<Rightarrow> memory \<Rightarrow> addr \<Rightarrow> uint32 option" where
  "SizeOfProc valid mem Proc = proc_loop valid mem Proc 0"

definition IsRelativeCmd :: "memory \<Rightarrow> addr \<Rightarrow> byte option" where
  "IsRelativeCmd mem pOpcode =
     do {
       b \<leftarrow> mem pOpcode;
       Flags \<leftarrow> (if b = 0x0F then do { b' \<leftarrow> mem (pOpcode + 1); Some (OpcodeFlagsExt ! unat b') }
                 else Some (OpcodeFlags ! unat b));
       Some (Flags AND OP_REL32)
     }"

declare prefix_loop.simps [simp del]

section \<open>Lemmas\<close>

subsection \<open>The tables\<close>

lemma length_tables [simp]: "length OpcodeFlags = 256" "length OpcodeFlagsExt = 256"
  by (simp_all add: OpcodeFlags_def OpcodeFlags_lo_def OpcodeFlags_hi_def
      OpcodeFlagsExt_def OpcodeFlagsExt_lo_def OpcodeFlagsExt_hi_def)

lemma set_OpcodeFlags: "set OpcodeFlags \<subseteq> {0x00, 0x01, 0x02, 0x03, 0x04, 0x06, 0x10, 0x11, 0x14, 0x20, 0x41, 0x50}"
  by (simp add: OpcodeFlags_def OpcodeFlags_lo_def OpcodeFlags_hi_def)

lemma set_OpcodeFlagsExt: "set OpcodeFlagsExt \<subseteq> {0x00, 0x01, 0x03, 0x50}"
  by (simp add: OpcodeFlagsExt_def OpcodeFlagsExt_lo_def OpcodeFlagsExt_hi_def)

lemma group3: "OpcodeFlags ! 0xF6 = OP_MODRM" "OpcodeFlags ! 0xF7 = OP_MODRM"
  by (simp_all add: OpcodeFlags_def OpcodeFlags_lo_def OpcodeFlags_hi_def nth_append)

lemma unat_byte_less: "unat (b :: byte) < 256"
  using unsigned_less[of b] by simp

lemma flags_in:
  "OpcodeFlags ! unat (b :: byte) \<in> set OpcodeFlags" "OpcodeFlagsExt ! unat b \<in> set OpcodeFlagsExt"
  using unat_byte_less[of b] by (simp_all add: nth_mem)

text \<open>Which flags come together: a bound on the immediate data.\<close>

lemma flags_checked:
  "\<forall>f\<in>{0x00, 0x01, 0x02, 0x03, 0x04, 0x06, 0x10, 0x11, 0x14, 0x20, 0x41, 0x50 :: byte}.
     (has f OP_MODRM \<longrightarrow> \<not> has f OP_WORD \<and> data_size f p \<le> 4) \<and>
     (\<not> has f OP_MODRM \<longrightarrow> (if has f OP_WORD then 1 else 0) + data_size f p \<le> 6)"
  "\<forall>f\<in>{0x00, 0x01, 0x03, 0x50 :: byte}.
     \<not> has f OP_WORD \<and> (if has f OP_MODRM then data_size f p \<le> 1 else data_size f p \<le> 4)"
  by (simp_all add: has_def data_size_def)

lemma data_size_flags:
  "f \<in> set OpcodeFlags \<Longrightarrow> has f OP_MODRM \<Longrightarrow> \<not> has f OP_WORD \<and> data_size f p \<le> 4"
  "f \<in> set OpcodeFlags \<Longrightarrow> \<not> has f OP_MODRM \<Longrightarrow> (if has f OP_WORD then 1 else 0) + data_size f p \<le> 6"
  "f \<in> set OpcodeFlagsExt \<Longrightarrow> has f OP_MODRM \<Longrightarrow> \<not> has f OP_WORD \<and> data_size f p \<le> 1"
  "f \<in> set OpcodeFlagsExt \<Longrightarrow> \<not> has f OP_MODRM \<Longrightarrow> \<not> has f OP_WORD \<and> data_size f p \<le> 4"
  using bspec[OF flags_checked(1)[of p] subsetD[OF set_OpcodeFlags]]
    bspec[OF flags_checked(2)[of p] subsetD[OF set_OpcodeFlagsExt]] by presburger+

lemma data_size_group3:
  "data_size (OP_MODRM OR OP_DATA_I8) p \<le> 4" "data_size (OP_MODRM OR OP_DATA_PRE66_67) p \<le> 4"
  by (simp_all add: has_def data_size_def)

subsection \<open>Prefixes\<close>

lemma prefix_loop_Some:
  assumes "prefix_loop mem Code n a b = Some (Some (m, a', b'))" "n \<le> 16"
  shows "n \<le> m \<and> m \<le> 16 \<and> (\<exists>c. fetch mem Code m = Some c \<and> \<not> is_prefix c) \<and>
    (\<forall>i. n \<le> i \<and> i < m \<longrightarrow> (\<exists>c. fetch mem Code i = Some c \<and> is_prefix c))"
  using assms
proof (induction mem Code n a b rule: prefix_loop.induct)
  case (1 mem Code n a b)
  from 1(2) obtain c where c: "fetch mem Code n = Some c"
    by (auto simp: prefix_loop.simps[of mem Code n] bind_eq_Some_conv)
  show ?case
  proof (cases "is_prefix c")
    case True
    with 1(2) c have n: "\<not> Suc n > 16"
      "prefix_loop mem Code (Suc n) (a \<or> c = 0x66) (b \<or> c = 0x67) = Some (Some (m, a', b'))"
      by (auto simp: prefix_loop.simps[of mem Code n] split: if_splits)
    then have "Suc n \<le> m \<and> m \<le> 16 \<and> (\<exists>c. fetch mem Code m = Some c \<and> \<not> is_prefix c) \<and>
      (\<forall>i. Suc n \<le> i \<and> i < m \<longrightarrow> (\<exists>c. fetch mem Code i = Some c \<and> is_prefix c))"
      using 1(1)[OF c True] by auto
    with c True show ?thesis by (metis Suc_leD Suc_leI le_neq_implies_less)
  next
    case False
    with 1(2,3) c show ?thesis by (auto simp: prefix_loop.simps[of mem Code n])
  qed
qed

lemma prefix_loop_None:
  assumes "prefix_loop mem Code n a b = Some None" "n \<le> i" "i \<le> 16"
  shows "\<exists>c. fetch mem Code i = Some c \<and> is_prefix c"
  using assms
proof (induction mem Code n a b rule: prefix_loop.induct)
  case (1 mem Code n a b)
  from 1(2) obtain c where c: "fetch mem Code n = Some c" "is_prefix c"
    by (auto simp: prefix_loop.simps[of mem Code n] bind_eq_Some_conv split: if_splits)
  show ?case
  proof (cases "i = n")
    case False
    with 1(3,4) have "Suc n \<le> i" "\<not> Suc n > 16" by auto
    moreover from this 1(2) c have "prefix_loop mem Code (Suc n) (a \<or> c = 0x66) (b \<or> c = 0x67) = Some None"
      by (auto simp: prefix_loop.simps[of mem Code n])
    ultimately show ?thesis using 1(1)[OF c] 1(4) by blast
  qed (use c in simp)
qed

lemma prefix_loop_cong:
  assumes "prefix_loop mem Code n a b = Some (Some (m, a', b'))"
    "\<And>i. i \<le> m \<Longrightarrow> fetch mem' Code i = fetch mem Code i" "n \<le> 16"
  shows "prefix_loop mem' Code n a b = Some (Some (m, a', b'))"
  using assms
proof (induction mem Code n a b rule: prefix_loop.induct)
  case (1 mem Code n a b)
  have "n \<le> m" using prefix_loop_Some[OF 1(2,4)] by simp
  with 1(3) have same: "fetch mem' Code n = fetch mem Code n" by simp
  from 1(2) obtain c where c: "fetch mem Code n = Some c"
    by (auto simp: prefix_loop.simps[of mem Code n] bind_eq_Some_conv)
  show ?case
  proof (cases "is_prefix c \<and> \<not> Suc n > 16")
    case True
    with 1(2) c have "prefix_loop mem Code (Suc n) (a \<or> c = 0x66) (b \<or> c = 0x67) = Some (Some (m, a', b'))"
      by (simp add: prefix_loop.simps[of mem Code n])
    with True c same 1(1)[OF c] 1(3) show ?thesis by (simp add: prefix_loop.simps[of mem' Code n])
  next
    case False
    with 1(2) c same show ?thesis
      by (auto simp: prefix_loop.simps[of mem Code n] prefix_loop.simps[of mem' Code n])
  qed
qed

subsection \<open>The ModRM block\<close>

lemma offset_size_le: "offset_size p m r \<le> 4"
  by (simp add: offset_size_def)

lemma modrm_part_cases:
  assumes "modrm_part mem Code p n = Some (r, m)"
  obtains (plain) b where "fetch mem Code n = Some b" "\<not> (\<not> p \<and> b AND 7 = 4 \<and> drop_bit 6 b \<noteq> 3)"
      "r = drop_bit 3 (b AND 0x38)" "m = n + 1 + offset_size p (drop_bit 6 b) (b AND 7)"
  | (sib) b s where "fetch mem Code n = Some b" "\<not> p \<and> b AND 7 = 4 \<and> drop_bit 6 b \<noteq> 3"
      "fetch mem Code (n + 1) = Some s" "r = drop_bit 3 (b AND 0x38)"
      "m = n + 2 + (if s AND 7 = 5 \<and> (drop_bit 6 b = 0 \<or> drop_bit 6 b = 2) then 4
                    else offset_size p (drop_bit 6 b) (b AND 7))"
proof -
  obtain b where b: "fetch mem Code n = Some b"
    using assms by (auto simp: modrm_part_def bind_eq_Some_conv)
  show thesis
  proof (cases "\<not> p \<and> b AND 7 = 4 \<and> drop_bit 6 b \<noteq> 3")
    case True
    obtain s where "fetch mem Code (n + 1) = Some s"
      using assms b True by (auto simp: modrm_part_def bind_eq_Some_conv Let_def)
    with assms b True show thesis by (intro sib) (auto simp: modrm_part_def Let_def)
  next
    case False
    with assms b show thesis by (intro plain) (auto simp: modrm_part_def Let_def)
  qed
qed

lemma modrm_part_bounds:
  assumes "modrm_part mem Code p n = Some (r, m)"
  shows "n < m \<and> m \<le> n + 6"
  using assms
proof (cases rule: modrm_part_cases)
  case (plain b)
  then show ?thesis using offset_size_le[of p "drop_bit 6 b" "b AND 7"] by simp
next
  case (sib b s)
  then show ?thesis using offset_size_le[of p "drop_bit 6 b" "b AND 7"] by simp
qed

lemma modrm_part_cong:
  assumes "modrm_part mem Code p n = Some (r, m)" "\<And>i. i < m \<Longrightarrow> fetch mem' Code i = fetch mem Code i"
  shows "modrm_part mem' Code p n = Some (r, m)"
  using assms(1)
proof (cases rule: modrm_part_cases)
  case (plain b)
  then have "fetch mem' Code n = Some b" using assms(2) by simp
  with plain show ?thesis by (auto simp: modrm_part_def Let_def)
next
  case (sib b s)
  then have "fetch mem' Code n = Some b" "fetch mem' Code (n + 1) = Some s" using assms(2) by simp_all
  with sib show ?thesis by (auto simp: modrm_part_def Let_def)
qed


subsection \<open>Whole instructions\<close>

lemma SizeOfCode_cases:
  assumes "SizeOfCode valid mem Code = Some (len, pOpcode)"
  obtains (invalid) "\<not> valid Code" "len = 0" "pOpcode = None"
  | (prefixes) "prefix_loop mem Code 0 False False = Some None" "len = 0" "pOpcode = None"
  | (code) n a b c n1 f a' n2 f' where "valid Code" "prefix_loop mem Code 0 False False = Some (Some (n, a, b))"
      "fetch mem Code n = Some c" "opcode_part mem Code n c a b = Some (n1, f, a')"
      "operand_part mem Code c b n1 f = Some (n2, f')" "len = n2 + data_size f' a'" "pOpcode = Some n"
proof (cases "valid Code")
  case True
  then obtain pre where pre: "prefix_loop mem Code 0 False False = Some pre"
    using assms by (auto simp: SizeOfCode_def bind_eq_Some_conv)
  show thesis
  proof (cases pre)
    case None
    with pre True assms show thesis by (intro prefixes) (auto simp: SizeOfCode_def)
  next
    case (Some x)
    obtain n a b where x: "x = (n, a, b)" by (cases x)
    with Some pre True assms code show thesis by (auto simp: SizeOfCode_def bind_eq_Some_conv)
  qed
qed (use assms invalid in \<open>auto simp: SizeOfCode_def\<close>)

lemma opcode_part_cases:
  assumes "opcode_part mem Code n c a b = Some (n1, f, a')"
  obtains (ext) x where "c = 0x0F" "fetch mem Code (n + 1) = Some x" "n1 = n + 2" "f = OpcodeFlagsExt ! unat x" "a' = a"
  | (one) "c \<noteq> 0x0F" "n1 = n + 1" "f = OpcodeFlags ! unat c"
  using assms by (auto simp: opcode_part_def bind_eq_Some_conv split: if_splits)

lemma operand_part_cases:
  assumes "operand_part mem Code c b n f = Some (n2, f')"
  obtains (none) "\<not> has f OP_MODRM" "f' = f" "n2 = n + (if has f OP_WORD then 1 else 0)"
  | (modrm) r where "has f OP_MODRM" "modrm_part mem Code b (n + (if has f OP_WORD then 1 else 0)) = Some (r, n2)"
      "f' = (if c = 0xF6 \<and> r = 0 then f OR OP_DATA_I8 else if c = 0xF7 \<and> r = 0 then f OR OP_DATA_PRE66_67 else f)"
  using assms by (auto simp: operand_part_def bind_eq_Some_conv Let_def split: if_splits)

lemma operand_part_bounds:
  assumes "opcode_part mem Code n c a b = Some (n1, f, a')" "operand_part mem Code c b n1 f = Some (n2, f')"
  shows "n < n1 \<and> n1 \<le> n2 \<and> n2 + data_size f' p \<le> n + 11"
  using assms(2)
proof (cases rule: operand_part_cases)
  case none
  from assms(1) show ?thesis
  proof (cases rule: opcode_part_cases)
    case (ext x)
    with none data_size_flags(4)[OF flags_in(2), of x p] show ?thesis by auto
  next
    case one
    with none data_size_flags(2)[OF flags_in(1), of c p] show ?thesis by auto
  qed
next
  case (modrm r)
  note mb = modrm_part_bounds[OF modrm(2)]
  from assms(1) show ?thesis
  proof (cases rule: opcode_part_cases)
    case (ext x)
    with modrm mb data_size_flags(3)[OF flags_in(2), of x p] show ?thesis by auto
  next
    case one
    have "data_size f' p \<le> 4"
      using modrm one data_size_flags(1)[OF flags_in(1), of c p] data_size_group3[of p] group3
      by (auto split: if_splits)
    with modrm one mb data_size_flags(1)[OF flags_in(1), of c p] show ?thesis by auto
  qed
qed

lemma opcode_part_cong:
  assumes "opcode_part mem Code n c a b = Some (n1, f, a')" "\<And>i. i < n1 \<Longrightarrow> fetch mem' Code i = fetch mem Code i"
  shows "opcode_part mem' Code n c a b = Some (n1, f, a')"
  using assms by (auto simp: opcode_part_def bind_eq_Some_conv split: if_splits)

lemma operand_part_cong:
  assumes "operand_part mem Code c b n f = Some (n2, f')" "\<And>i. i < n2 \<Longrightarrow> fetch mem' Code i = fetch mem Code i"
  shows "operand_part mem' Code c b n f = Some (n2, f')"
  using assms(1)
proof (cases rule: operand_part_cases)
  case (modrm r)
  with modrm_part_cong[OF modrm(2) assms(2)] show ?thesis
    by (cases "has f OP_WORD") (auto simp: operand_part_def Let_def)
qed (simp add: operand_part_def)

section \<open>Properties\<close>

text \<open>
  C10. The length of an instruction. A length of 0 is returned only for an invalid address or
  after seventeen prefix bytes; otherwise the opcode stored through \<^verbatim>\<open>pOpcode\<close> is preceded by at
  most sixteen prefixes, all of them prefix bytes, lies inside the instruction, and the
  instruction ends at most eleven bytes after the last prefix. The tables never combine flags that exceed this.
\<close>

theorem SizeOfCode_bounds:
  assumes "SizeOfCode valid mem Code = Some (len, pOpcode)"
  shows "len = 0 \<and> pOpcode = None \<and>
      (valid Code \<longrightarrow> (\<forall>i\<le>16. \<exists>c. fetch mem Code i = Some c \<and> is_prefix c)) \<or>
    valid Code \<and> (\<exists>n. pOpcode = Some n \<and> n \<le> 16 \<and> n < len \<and> len \<le> n + 11 \<and>
      (\<forall>i<n. \<exists>c. fetch mem Code i = Some c \<and> is_prefix c))"
  using assms
proof (cases rule: SizeOfCode_cases)
  case prefixes
  then show ?thesis using prefix_loop_None[OF prefixes(1)] by blast
next
  case (code n a b c n1 f a' n2 f')
  then show ?thesis
    using prefix_loop_Some[OF code(2)] operand_part_bounds[OF code(4,5), of a'] by auto
qed simp

text \<open>The memory that holds the bytes \<open>bs\<close> from address 0 on.\<close>

definition memory_of :: "byte list \<Rightarrow> memory" where
  "memory_of bs a = (if unat a < length bs then Some (bs ! unat a) else None)"

lemma size_mov_ax:
  "SizeOfCode (\<lambda>_. True) (memory_of [0x66, 0xB8, 0x34, 0x12]) 0 = Some (4, Some 1)"
proof -
  have "OpcodeFlags ! 0xB8 = OP_DATA_PRE66_67"
    by (simp add: OpcodeFlags_def OpcodeFlags_lo_def OpcodeFlags_hi_def nth_append)
  then show ?thesis
    by (simp add: SizeOfCode_def prefix_loop.simps fetch_def memory_of_def is_prefix_def
        opcode_part_def operand_part_def has_def data_size_def)
qed

theorem SizeOfCode_bounds_witness:
  "\<exists>n. SizeOfCode (\<lambda>_. True) (memory_of [0x66, 0xB8, 0x34, 0x12]) 0 = Some (4, Some n) \<and> n \<le> 16 \<and> n < 4"
  using SizeOfCode_bounds[OF size_mov_ax] size_mov_ax by simp

text \<open>
  C11. The length of an instruction depends on its own bytes only: if another memory agrees on
  the bytes that the measured instruction occupies, the same length and opcode position are
  found there. So no instruction is a proper prefix of another one, and nothing behind the
  instruction is read.
\<close>

theorem SizeOfCode_local:
  assumes "SizeOfCode valid mem Code = Some (len, pOpcode)" "len \<noteq> 0"
    "\<And>i. i < len \<Longrightarrow> fetch mem' Code i = fetch mem Code i"
  shows "SizeOfCode valid mem' Code = Some (len, pOpcode)"
  using assms(1)
proof (cases rule: SizeOfCode_cases)
  case (code n a b c n1 f a' n2 f')
  note b = operand_part_bounds[OF code(4,5), of a']
  have "prefix_loop mem' Code 0 False False = Some (Some (n, a, b))"
    using prefix_loop_cong[OF code(2)] assms(3) b code(6) by simp
  moreover have "fetch mem' Code n = Some c" using assms(3) b code(3,6) by simp
  moreover have "opcode_part mem' Code n c a b = Some (n1, f, a')"
    using opcode_part_cong[OF code(4)] assms(3) b code(6) by simp
  moreover have "operand_part mem' Code c b n1 f = Some (n2, f')"
    using operand_part_cong[OF code(5)] assms(3) b code(6) by simp
  ultimately show ?thesis using code by (simp add: SizeOfCode_def)
qed (use assms(2) in simp_all)


theorem SizeOfCode_local_witness:
  "SizeOfCode (\<lambda>_. True) (memory_of [0x66, 0xB8, 0x34, 0x12, 0xC3]) 0 = Some (4, Some 1)"
proof (rule SizeOfCode_local[OF size_mov_ax])
  show "fetch (memory_of [0x66, 0xB8, 0x34, 0x12, 0xC3]) 0 i = fetch (memory_of [0x66, 0xB8, 0x34, 0x12]) 0 i"
    if "i < 4" for i
  proof -
    from that have "i \<in> {0, 1, 2, 3}" by auto
    then show ?thesis by (auto simp: fetch_def memory_of_def)
  qed
qed simp

text \<open>
  Straight-line code that ends with a return: the lengths of consecutive instructions, of which
  the last one and no other is a \<^verbatim>\<open>C3\<close> of length 1 or a \<^verbatim>\<open>C2\<close> of length 3.
\<close>

definition is_ret :: "memory \<Rightarrow> addr \<Rightarrow> nat \<Rightarrow> nat \<Rightarrow> bool" where
  "is_ret mem p l n \<longleftrightarrow> l = 1 \<and> fetch mem p n = Some 0xC3 \<or> l = 3 \<and> fetch mem p n = Some 0xC2"

inductive proc_code :: "(addr \<Rightarrow> bool) \<Rightarrow> memory \<Rightarrow> addr \<Rightarrow> nat list \<Rightarrow> bool" for valid mem where
  return: "valid p \<Longrightarrow> SizeOfCode valid mem p = Some (l, Some n) \<Longrightarrow> is_ret mem p l n \<Longrightarrow> proc_code valid mem p [l]"
| step: "valid p \<Longrightarrow> SizeOfCode valid mem p = Some (l, Some n) \<Longrightarrow> l \<noteq> 0 \<Longrightarrow> \<not> is_ret mem p l n \<Longrightarrow>
    proc_code valid mem (p + of_nat l) ls \<Longrightarrow> proc_code valid mem p (l # ls)"

lemma proc_loop_sum:
  "proc_code valid mem p ls \<Longrightarrow> proc_loop valid mem p r = Some (r + of_nat (sum_list ls))"
proof (induction arbitrary: r rule: proc_code.induct)
  case (return p l n)
  then show ?case by (auto simp: proc_loop.simps[of valid mem p] is_ret_def Let_def)
next
  case (step p l n ls)
  then show ?case by (auto simp: proc_loop.simps[of valid mem p] is_ret_def Let_def add.assoc)
qed

text \<open>
  C12. \<^verbatim>\<open>SizeOfProc\<close> on straight-line code that ends with a return instruction returns, and its result
  is the sum of the lengths of the instructions up to and including the return.
\<close>

theorem SizeOfProc_sum:
  assumes "proc_code valid mem p ls"
  shows "SizeOfProc valid mem p = Some (of_nat (sum_list ls))"
  using proc_loop_sum[OF assms, of 0] by (simp add: SizeOfProc_def)

theorem SizeOfProc_sum_witness: "SizeOfProc (\<lambda>_. True) (memory_of [0x90, 0xC3]) 0 = Some 2"
proof -
  have t: "OpcodeFlags ! 0x90 = 0" "OpcodeFlags ! 0xC3 = 0"
    by (simp_all add: OpcodeFlags_def OpcodeFlags_lo_def OpcodeFlags_hi_def nth_append)
  have s: "SizeOfCode (\<lambda>_. True) (memory_of [0x90, 0xC3]) 0 = Some (1, Some 0)"
    "SizeOfCode (\<lambda>_. True) (memory_of [0x90, 0xC3]) 1 = Some (1, Some 0)"
    by (simp_all add: SizeOfCode_def prefix_loop.simps fetch_def memory_of_def is_prefix_def
        opcode_part_def operand_part_def has_def data_size_def t)
  have "proc_code (\<lambda>_. True) (memory_of [0x90, 0xC3]) 1 [1]"
    by (rule return[OF _ s(2)]) (simp_all add: is_ret_def fetch_def memory_of_def)
  then have "proc_code (\<lambda>_. True) (memory_of [0x90, 0xC3]) 0 [1, 1]"
    by (intro step[OF _ s(1)]) (simp_all add: is_ret_def fetch_def memory_of_def)
  from SizeOfProc_sum[OF this] show ?thesis by simp
qed

text \<open>The indices of the table entries with the flag \<^verbatim>\<open>OP_REL32\<close>.\<close>

fun rel32_from :: "nat \<Rightarrow> byte list \<Rightarrow> nat list" where
  "rel32_from k [] = []"
| "rel32_from k (f # fs) = (if f AND OP_REL32 \<noteq> 0 then [k] else []) @ rel32_from (k + 1) fs"

lemma set_rel32_from:
  "n \<in> set (rel32_from k fs) \<longleftrightarrow> k \<le> n \<and> n < k + length fs \<and> fs ! (n - k) AND OP_REL32 \<noteq> 0"
proof (induction fs arbitrary: k)
  case (Cons f fs)
  show ?case
  proof (cases "n = k")
    case False
    then have "k \<le> n \<longleftrightarrow> Suc k \<le> n" by auto
    moreover have "Suc k \<le> n \<Longrightarrow> n - k = Suc (n - Suc k)" by simp
    ultimately show ?thesis using Cons[of "Suc k"] False by auto
  qed (use Cons[of "Suc k"] in auto)
qed simp

lemma rel32_tables:
  "rel32_from 0 OpcodeFlags = [0xE8, 0xE9, 0xFF]"
  "rel32_from 0 OpcodeFlagsExt = [0x80, 0x81, 0x82, 0x83, 0x84, 0x85, 0x86, 0x87,
     0x88, 0x89, 0x8A, 0x8B, 0x8C, 0x8D, 0x8E, 0x8F]"
  by (simp_all add: OpcodeFlags_def OpcodeFlags_lo_def OpcodeFlags_hi_def
      OpcodeFlagsExt_def OpcodeFlagsExt_lo_def OpcodeFlagsExt_hi_def)

lemma rel32_flag:
  "OpcodeFlags ! unat b AND OP_REL32 \<noteq> 0 \<longleftrightarrow> b \<in> {0xE8, 0xE9, 0xFF}"
  "OpcodeFlagsExt ! unat b AND OP_REL32 \<noteq> 0 \<longleftrightarrow> 0x80 \<le> b \<and> b \<le> (0x8F :: byte)"
proof -
  have "unat b \<in> set (rel32_from 0 OpcodeFlags) \<longleftrightarrow> b \<in> {0xE8, 0xE9, 0xFF}"
    unfolding rel32_tables by (auto simp: word_unat_eq_iff)
  then show "OpcodeFlags ! unat b AND OP_REL32 \<noteq> 0 \<longleftrightarrow> b \<in> {0xE8, 0xE9, 0xFF}"
    using unat_byte_less[of b] by (simp add: set_rel32_from)
  have "unat b \<in> set (rel32_from 0 OpcodeFlagsExt) \<longleftrightarrow> 0x80 \<le> unat b \<and> unat b \<le> 0x8F"
    unfolding rel32_tables by (simp, presburger)
  then show "OpcodeFlagsExt ! unat b AND OP_REL32 \<noteq> 0 \<longleftrightarrow> 0x80 \<le> b \<and> b \<le> 0x8F"
    using unat_byte_less[of b] by (simp add: set_rel32_from word_le_nat_alt)
qed

text \<open>
  \<^verbatim>\<open>IsRelativeCmd\<close> is non-zero exactly for the opcodes E8 and E9, the two-byte opcodes 0F 80 to
  0F 8F, and the group FF; a missing byte is an exception.
\<close>

theorem IsRelativeCmd_correct:
  "IsRelativeCmd mem p =
   (case mem p of
      None \<Rightarrow> None
    | Some b \<Rightarrow>
        if b = 0x0F then
          map_option (\<lambda>b'. if 0x80 \<le> b' \<and> b' \<le> 0x8F then OP_REL32 else 0) (mem (p + 1))
        else Some (if b \<in> {0xE8, 0xE9, 0xFF} then OP_REL32 else 0))"
proof -
  have bit: "x AND OP_REL32 = 0 \<or> x AND OP_REL32 = OP_REL32" for x :: byte
  proof (cases "bit x 6")
    case True
    then have "x AND 2 ^ 6 = 2 ^ 6" by (intro bit_eqI) (auto simp only: bit_and_iff bit_exp_iff bit_0_eq bot_apply bot_bool_def)
    then show ?thesis by simp
  next
    case False
    then have "x AND 2 ^ 6 = 0" by (intro bit_eqI) (auto simp only: bit_and_iff bit_exp_iff bit_0_eq bot_apply bot_bool_def)
    then show ?thesis by simp
  qed
  have lo: "OpcodeFlags ! unat b AND OP_REL32 = (if b \<in> {0xE8, 0xE9, 0xFF} then OP_REL32 else 0)"
    and hi: "OpcodeFlagsExt ! unat b AND OP_REL32 = (if 0x80 \<le> b \<and> b \<le> 0x8F then OP_REL32 else 0)"
    for b :: byte
    using bit[of "OpcodeFlags ! unat b"] bit[of "OpcodeFlagsExt ! unat b"]
      rel32_flag(1)[of b] rel32_flag(2)[of b]
    by (metis (full_types))+
  show ?thesis
  proof (cases "mem p")
    case (Some b)
    show ?thesis
    proof (cases "b = 0x0F")
      case True
      with Some hi show ?thesis by (cases "mem (p + 1)") (simp_all add: IsRelativeCmd_def)
    next
      case False
      with Some lo[of b] show ?thesis by (simp add: IsRelativeCmd_def del: insert_iff)
    qed
  qed (simp add: IsRelativeCmd_def)
qed

text \<open>
  The x87 opcodes D8 to DF are measured as two bytes whatever their ModRM byte says: the
  instruction \<^verbatim>\<open>fld dword [ebp+8]\<close> (D9 45 08) has three.
\<close>

lemma x87_displacement_ignored:
  "SizeOfCode (\<lambda>_. True) (memory_of [0xD9, 0x45, 0x08]) 0 = Some (2, Some 0)"
proof -
  have "OpcodeFlags ! 0xD9 = OP_WORD"
    by (simp add: OpcodeFlags_def OpcodeFlags_lo_def OpcodeFlags_hi_def nth_append)
  then show ?thesis
    by (simp add: SizeOfCode_def prefix_loop.simps fetch_def memory_of_def is_prefix_def
        opcode_part_def operand_part_def has_def data_size_def)
qed

end
