(* ===== verification/Md5.thy ===== *)
theory Md5
  imports Prelude "HOL-Library.Word" "HOL-Library.Monad_Syntax"
begin

unbundle bit_operations_syntax

text \<open>
  \<^verbatim>\<open>cpp/md5/md5p.cpp\<close> and \<^verbatim>\<open>md5p.h\<close>: the hash of a message in memory. \<^verbatim>\<open>unsigned long\<close> has 32 bits, as the header
  asserts, and the machine is little-endian. Reading outside the message has no result, and neither has a loop that
  does not end.
\<close>

section \<open>Definitions\<close>

record md5p =
  chain0 :: "32 word"
  chain1 :: "32 word"
  chain2 :: "32 word"
  chain3 :: "32 word"
  length0 :: "32 word"
  length1 :: "32 word"

definition MD5p :: md5p where
  "MD5p = \<lparr>chain0 = 0x67452301, chain1 = 0xEFCDAB89, chain2 = 0x98BADCFE, chain3 = 0x10325476, length0 = 0, length1 = 0\<rparr>"

definition md5_f :: "32 word \<Rightarrow> 32 word \<Rightarrow> 32 word \<Rightarrow> 32 word" where "md5_f x y z = (x AND y) OR ((NOT x) AND z)"
definition md5_g :: "32 word \<Rightarrow> 32 word \<Rightarrow> 32 word \<Rightarrow> 32 word" where "md5_g x y z = (x AND z) OR (y AND (NOT z))"
definition md5_h :: "32 word \<Rightarrow> 32 word \<Rightarrow> 32 word \<Rightarrow> 32 word" where "md5_h x y z = x XOR y XOR z"
definition md5_i :: "32 word \<Rightarrow> 32 word \<Rightarrow> 32 word \<Rightarrow> 32 word" where "md5_i x y z = y XOR (x OR (NOT z))"

definition md5_rol :: "32 word \<Rightarrow> nat \<Rightarrow> 32 word" where
  "md5_rol n c = push_bit c n OR drop_bit (32 - c) n"

definition addLength :: "32 word \<Rightarrow> md5p \<Rightarrow> md5p" where
  "addLength len s =
     (let s = (if 0xFFFFFFFF - length0 s < len then s\<lparr>length1 := length1 s + 1\<rparr> else s)
      in s\<lparr>length0 := length0 s + len\<rparr>)"

definition MD5P_XX :: "32 word \<Rightarrow> 32 word \<Rightarrow> 32 word \<Rightarrow> 32 word \<Rightarrow> nat \<Rightarrow> 32 word \<Rightarrow> 32 word" where
  "MD5P_XX a b r M s t = b + md5_rol (a + r + M + t) s"

text \<open>
  The 64 lines of \<^verbatim>\<open>Update\<close>, each with its function, the index into \<^verbatim>\<open>M\<close>, the shift and the constant. The registers
  that a line names go round: the four lines of a group assign \<^verbatim>\<open>a\<close>, \<^verbatim>\<open>d\<close>, \<^verbatim>\<open>c\<close> and \<^verbatim>\<open>b\<close>.
\<close>

type_synonym md5_line = "(32 word \<Rightarrow> 32 word \<Rightarrow> 32 word \<Rightarrow> 32 word) \<times> nat \<times> nat \<times> 32 word"

definition md5_lines :: "md5_line list" where
  "md5_lines =
     [(md5_f, 0, 7, 0xD76AA478), (md5_f, 1, 12, 0xE8C7B756),
      (md5_f, 2, 17, 0x242070DB), (md5_f, 3, 22, 0xC1BDCEEE),
      (md5_f, 4, 7, 0xF57C0FAF), (md5_f, 5, 12, 0x4787C62A),
      (md5_f, 6, 17, 0xA8304613), (md5_f, 7, 22, 0xFD469501),
      (md5_f, 8, 7, 0x698098D8), (md5_f, 9, 12, 0x8B44F7AF),
      (md5_f, 10, 17, 0xFFFF5BB1), (md5_f, 11, 22, 0x895CD7BE),
      (md5_f, 12, 7, 0x6B901122), (md5_f, 13, 12, 0xFD987193),
      (md5_f, 14, 17, 0xA679438E), (md5_f, 15, 22, 0x49B40821),
      (md5_g, 1, 5, 0xF61E2562), (md5_g, 6, 9, 0xC040B340),
      (md5_g, 11, 14, 0x265E5A51), (md5_g, 0, 20, 0xE9B6C7AA),
      (md5_g, 5, 5, 0xD62F105D), (md5_g, 10, 9, 0x2441453),
      (md5_g, 15, 14, 0xD8A1E681), (md5_g, 4, 20, 0xE7D3FBC8),
      (md5_g, 9, 5, 0x21E1CDE6), (md5_g, 14, 9, 0xC33707D6),
      (md5_g, 3, 14, 0xF4D50D87), (md5_g, 8, 20, 0x455A14ED),
      (md5_g, 13, 5, 0xA9E3E905), (md5_g, 2, 9, 0xFCEFA3F8),
      (md5_g, 7, 14, 0x676F02D9), (md5_g, 12, 20, 0x8D2A4C8A),
      (md5_h, 5, 4, 0xFFFA3942), (md5_h, 8, 11, 0x8771F681),
      (md5_h, 11, 16, 0x6D9D6122), (md5_h, 14, 23, 0xFDE5380C),
      (md5_h, 1, 4, 0xA4BEEA44), (md5_h, 4, 11, 0x4BDECFA9),
      (md5_h, 7, 16, 0xF6BB4B60), (md5_h, 10, 23, 0xBEBFBC70),
      (md5_h, 13, 4, 0x289B7EC6), (md5_h, 0, 11, 0xEAA127FA),
      (md5_h, 3, 16, 0xD4EF3085), (md5_h, 6, 23, 0x4881D05),
      (md5_h, 9, 4, 0xD9D4D039), (md5_h, 12, 11, 0xE6DB99E5),
      (md5_h, 15, 16, 0x1FA27CF8), (md5_h, 2, 23, 0xC4AC5665),
      (md5_i, 0, 6, 0xF4292244), (md5_i, 7, 10, 0x432AFF97),
      (md5_i, 14, 15, 0xAB9423A7), (md5_i, 5, 21, 0xFC93A039),
      (md5_i, 12, 6, 0x655B59C3), (md5_i, 3, 10, 0x8F0CCC92),
      (md5_i, 10, 15, 0xFFEFF47D), (md5_i, 1, 21, 0x85845DD1),
      (md5_i, 8, 6, 0x6FA87E4F), (md5_i, 15, 10, 0xFE2CE6E0),
      (md5_i, 6, 15, 0xA3014314), (md5_i, 13, 21, 0x4E0811A1),
      (md5_i, 4, 6, 0xF7537E82), (md5_i, 11, 10, 0xBD3AF235),
      (md5_i, 2, 15, 0x2AD7D2BB), (md5_i, 9, 21, 0xEB86D391)]"

fun run_lines :: "32 word list \<Rightarrow> md5_line list \<Rightarrow> 32 word \<Rightarrow> 32 word \<Rightarrow> 32 word \<Rightarrow> 32 word \<Rightarrow> 32 word \<times> 32 word \<times> 32 word \<times> 32 word" where
  "run_lines M ((f1, i1, s1, t1) # (f2, i2, s2, t2) # (f3, i3, s3, t3) # (f4, i4, s4, t4) # ls) a b c d =
     (let a = MD5P_XX a b (f1 b c d) (M ! i1) s1 t1;
          d = MD5P_XX d a (f2 a b c) (M ! i2) s2 t2;
          c = MD5P_XX c d (f3 d a b) (M ! i3) s3 t3;
          b = MD5P_XX b c (f4 c d a) (M ! i4) s4 t4
      in run_lines M ls a b c d)"
| "run_lines M _ a b c d = (a, b, c, d)"

definition Update :: "32 word list \<Rightarrow> md5p \<Rightarrow> md5p" where
  "Update M s =
     (case run_lines M md5_lines (chain0 s) (chain1 s) (chain2 s) (chain3 s) of
        (a, b, c, d) \<Rightarrow>
          addLength 64 (s\<lparr>chain0 := chain0 s + a, chain1 := chain1 s + b, chain2 := chain2 s + c, chain3 := chain3 s + d\<rparr>))"

text \<open>The cast of 64 bytes to words, and of a word to bytes.\<close>

fun words :: "8 word list \<Rightarrow> 32 word list" where
  "words (b0 # b1 # b2 # b3 # bs) =
     (ucast b0 OR push_bit 8 (ucast b1) OR push_bit 16 (ucast b2) OR push_bit 24 (ucast b3)) # words bs"
| "words _ = []"

definition le_bytes :: "32 word \<Rightarrow> 8 word list" where
  "le_bytes w = [ucast w, ucast (drop_bit 8 w), ucast (drop_bit 16 w), ucast (drop_bit 24 w)]"

text \<open>\<^verbatim>\<open>Final\<close>: the cells of \<^verbatim>\<open>padding\<close> that have been written, in order\<close>

function copy_tail :: "8 word list \<Rightarrow> nat \<Rightarrow> nat \<Rightarrow> 8 word list \<Rightarrow> 8 word list option" where
  "copy_tail tail l p padding =
     (if p < l then if p < length tail then copy_tail tail l (Suc p) (padding @ [tail ! p]) else None else Some padding)"
  by pat_completeness auto
termination
  by (relation "measure (\<lambda>(_, l, p, _). l - p)") auto

fun pad_zeros :: "nat \<Rightarrow> 8 word list \<Rightarrow> 8 word list" where
  "pad_zeros n padding = (if n - 1 > 0 then pad_zeros (n - 1) (padding @ [0]) else padding)"

definition Final :: "8 word list \<Rightarrow> 32 word \<Rightarrow> md5p \<Rightarrow> md5p option" where
  "Final tail len s =
     (let s = addLength len s;
          l = unat (length0 s AND 0x3F)
      in do {
        padding \<leftarrow> copy_tail tail l 0 [];
        let n = (if l \<ge> 56 then 120 else 56) - l;
        let padding = (if n > 0 then pad_zeros n (padding @ [0x80]) else padding);
        let padding = padding @ le_bytes (push_bit 3 (length0 s)) @ le_bytes (push_bit 3 (length1 s) OR drop_bit 29 (length0 s));
        let s = Update (words (take 64 padding)) s;
        Some (if l \<ge> 56 then Update (words (drop 64 padding)) s else s)
      })"

definition Output :: "md5p \<Rightarrow> 8 word list" where
  "Output s = le_bytes (chain0 s) @ le_bytes (chain1 s) @ le_bytes (chain2 s) @ le_bytes (chain3 s)"

partial_function (option) sum_loop :: "8 word list \<Rightarrow> 32 word \<Rightarrow> 32 word \<Rightarrow> md5p \<Rightarrow> (32 word \<times> md5p) option" where
  "sum_loop message len p s =
     (if p + 64 \<le> len then
        if unat p + 64 \<le> length message then
          sum_loop message len (p + 64) (Update (words (take 64 (drop (unat p) message))) s)
        else None
      else Some (p, s))"

definition GetSum :: "8 word list \<Rightarrow> 32 word \<Rightarrow> 8 word list option" where
  "GetSum message len =
     do {
       (p, s) \<leftarrow> sum_loop message len 0 MD5p;
       s \<leftarrow> Final (drop (unat p) message) (len - p) s;
       Some (Output s)
     }"

section \<open>Reference\<close>

text \<open>
  The algorithm of RFC 1321 in table form: round \<open>i\<close> uses a function, a word of the block and a shift that follow from \<open>i\<close>, and
  the \<open>i\<close>-th constant (the integer part of \<open>2\<^sup>3\<^sup>2 |sin (i + 1)|\<close>).
\<close>

definition md5_K :: "32 word list" where
  "md5_K =
     [0xD76AA478, 0xE8C7B756, 0x242070DB, 0xC1BDCEEE, 0xF57C0FAF, 0x4787C62A, 0xA8304613, 0xFD469501,
      0x698098D8, 0x8B44F7AF, 0xFFFF5BB1, 0x895CD7BE, 0x6B901122, 0xFD987193, 0xA679438E, 0x49B40821,
      0xF61E2562, 0xC040B340, 0x265E5A51, 0xE9B6C7AA, 0xD62F105D, 0x02441453, 0xD8A1E681, 0xE7D3FBC8,
      0x21E1CDE6, 0xC33707D6, 0xF4D50D87, 0x455A14ED, 0xA9E3E905, 0xFCEFA3F8, 0x676F02D9, 0x8D2A4C8A,
      0xFFFA3942, 0x8771F681, 0x6D9D6122, 0xFDE5380C, 0xA4BEEA44, 0x4BDECFA9, 0xF6BB4B60, 0xBEBFBC70,
      0x289B7EC6, 0xEAA127FA, 0xD4EF3085, 0x04881D05, 0xD9D4D039, 0xE6DB99E5, 0x1FA27CF8, 0xC4AC5665,
      0xF4292244, 0x432AFF97, 0xAB9423A7, 0xFC93A039, 0x655B59C3, 0x8F0CCC92, 0xFFEFF47D, 0x85845DD1,
      0x6FA87E4F, 0xFE2CE6E0, 0xA3014314, 0x4E0811A1, 0xF7537E82, 0xBD3AF235, 0x2AD7D2BB, 0xEB86D391]"

definition ref_round :: "nat \<Rightarrow> md5_line" where
  "ref_round i =
     (if i < 16 then (md5_f, i, [7, 12, 17, 22] ! (i mod 4), md5_K ! i)
      else if i < 32 then (md5_g, (5 * i + 1) mod 16, [5, 9, 14, 20] ! (i mod 4), md5_K ! i)
      else if i < 48 then (md5_h, (3 * i + 5) mod 16, [4, 11, 16, 23] ! (i mod 4), md5_K ! i)
      else (md5_i, (7 * i) mod 16, [6, 10, 15, 21] ! (i mod 4), md5_K ! i))"

type_synonym md5_chain = "32 word \<times> 32 word \<times> 32 word \<times> 32 word"

definition ref_step :: "32 word list \<Rightarrow> md5_line \<Rightarrow> md5_chain \<Rightarrow> md5_chain" where
  "ref_step M r x = (case r of (f, g, s, t) \<Rightarrow> case x of (a, b, c, d) \<Rightarrow> (d, b + md5_rol (a + f b c d + M ! g + t) s, b, c))"

definition compress :: "32 word list \<Rightarrow> md5_chain \<Rightarrow> md5_chain" where
  "compress M x =
     (case (x, fold (\<lambda>i. ref_step M (ref_round i)) [0..<64] x) of
        ((a, b, c, d), (a', b', c', d')) \<Rightarrow> (a + a', b + b', c + c', d + d'))"

fun md5_blocks :: "8 word list \<Rightarrow> md5_chain \<Rightarrow> md5_chain" where
  "md5_blocks bs x = (if 64 \<le> length bs then md5_blocks (drop 64 bs) (compress (words (take 64 bs)) x) else x)"

definition md5_pad :: "8 word list \<Rightarrow> 8 word list" where
  "md5_pad msg = msg @ [0x80] @ replicate ((119 - length msg mod 64) mod 64) 0 @
     le_bytes (of_nat (8 * length msg)) @ le_bytes (of_nat (8 * length msg div 2 ^ 32))"

definition md5 :: "8 word list \<Rightarrow> 8 word list" where
  "md5 msg =
     (case md5_blocks (md5_pad msg) (0x67452301, 0xEFCDAB89, 0x98BADCFE, 0x10325476) of
        (a, b, c, d) \<Rightarrow> le_bytes a @ le_bytes b @ le_bytes c @ le_bytes d)"

text \<open>The chaining value a hash object holds.\<close>

definition chain :: "md5p \<Rightarrow> md5_chain" where
  "chain s = (chain0 s, chain1 s, chain2 s, chain3 s)"

declare copy_tail.simps [simp del] pad_zeros.simps [simp del] md5_blocks.simps [simp del]

section \<open>The rounds\<close>

lemma md5_lines_table: "md5_lines = map ref_round [0..<64]"
proof -
  have "[0..<64] = 0 # 1 # [2..<64 :: nat]" by (simp add: upt_conv_Cons[of 0 64] upt_conv_Cons[of "Suc 0" 64] numeral_2_eq_2[symmetric])
  then show ?thesis by (simp add: upt_rec_numeral md5_lines_def ref_round_def md5_K_def)
qed

lemma ref_step_apply: "ref_step M (f, g, s, t) (a, b, c, d) = (d, MD5P_XX a b (f b c d) (M ! g) s t, b, c)"
  by (simp add: ref_step_def MD5P_XX_def)

lemma run_lines_fold: "length ls = 4 * n \<Longrightarrow> run_lines M ls a b c d = fold (ref_step M) ls (a, b, c, d)"
proof (induction n arbitrary: ls a b c d)
  case (Suc n)
  then have "length ls = Suc (Suc (Suc (Suc (4 * n))))" by simp
  then obtain l1 l2 l3 l4 ls' where ls: "ls = l1 # l2 # l3 # l4 # ls'" "length ls' = 4 * n"
    unfolding length_Suc_conv by blast
  obtain f1 i1 s1 t1 f2 i2 s2 t2 f3 i3 s3 t3 f4 i4 s4 t4 where
    l: "l1 = (f1, i1, s1, t1)" "l2 = (f2, i2, s2, t2)" "l3 = (f3, i3, s3, t3)" "l4 = (f4, i4, s4, t4)" by (metis prod_cases4)
  show ?case
    unfolding ls(1) l run_lines.simps(1) Let_def Suc.IH[OF ls(2)] by (simp add: ref_step_apply)
qed simp

lemma addLength_chain [simp]: "chain (addLength n s) = chain s"
  by (simp add: chain_def addLength_def)

text \<open>
  The unrolled lines of \<^verbatim>\<open>Update\<close> are the 64 rounds of the algorithm, for every block and every chaining value.
\<close>

theorem Update_compress: "chain (Update M s) = compress M (chain s)"
proof -
  have "run_lines M md5_lines a b c d = fold (\<lambda>i. ref_step M (ref_round i)) [0..<64] (a, b, c, d)" for a b c d
    using run_lines_fold[of md5_lines 16 M a b c d] by (simp add: md5_lines_table fold_map comp_def)
  then show ?thesis
    by (simp add: Update_def chain_def compress_def addLength_def split: prod.splits)
qed

section \<open>The message\<close>

lemma md5_blocks_short: "length bs < 64 \<Longrightarrow> md5_blocks bs x = x"
  by (simp add: md5_blocks.simps)

lemma md5_blocks_step: "64 \<le> length bs \<Longrightarrow> md5_blocks bs x = md5_blocks (drop 64 bs) (compress (words (take 64 bs)) x)"
  by (simp add: md5_blocks.simps[of bs])

lemma md5_blocks_append: "length xs = 64 * k \<Longrightarrow> md5_blocks (xs @ ys) x = md5_blocks ys (md5_blocks xs x)"
proof (induction k arbitrary: xs x)
  case (Suc k)
  then show ?case by (simp add: md5_blocks_step[of "xs @ ys"] md5_blocks_step[of xs])
qed (simp add: md5_blocks_short)

lemma copy_tail_eq: "p \<le> l \<Longrightarrow> l \<le> length tail \<Longrightarrow> copy_tail tail l p padding = Some (padding @ take (l - p) (drop p tail))"
proof (induction tail l p padding rule: copy_tail.induct)
  case (1 tail l p padding)
  show ?case
  proof (cases "p < l")
    case True
    with 1 have "copy_tail tail l p padding = Some ((padding @ [tail ! p]) @ take (l - Suc p) (drop (Suc p) tail))"
      by (subst copy_tail.simps) simp
    moreover have "take (l - p) (drop p tail) = tail ! p # take (l - Suc p) (drop (Suc p) tail)"
      using True 1(3) by (simp add: take_Cons' flip: Cons_nth_drop_Suc)
    ultimately show ?thesis by simp
  qed (use 1 in \<open>simp add: copy_tail.simps\<close>)
qed

lemma pad_zeros_eq: "pad_zeros n padding = padding @ replicate (n - 1) 0"
proof (induction n padding rule: pad_zeros.induct)
  case (1 n padding)
  show ?case
  proof (cases "n - 1 > 0")
    case True
    then have "n = Suc (Suc (n - 2))" by simp
    then obtain m where "n = Suc (Suc m)" by blast
    with 1[OF True] show ?thesis by (simp add: pad_zeros.simps[of "Suc (Suc m)"] replicate_append_same)
  next
    case False
    then show ?thesis by (subst pad_zeros.simps) simp
  qed
qed

lemma unat_sub_max: "unat (0xFFFFFFFF - (x :: 32 word)) = 2 ^ 32 - 1 - unat x"
proof -
  have "x \<le> 0xFFFFFFFF" using unsigned_less[of x, where 'a = nat] by (simp add: word_le_nat_alt)
  then show ?thesis by (simp add: unat_sub_if_size word_le_nat_alt)
qed

lemma addLength_small:
  assumes "unat (length0 s) + unat n < 2 ^ 32"
  shows "length0 (addLength n s) = length0 s + n" "length1 (addLength n s) = length1 s"
    "unat (length0 s + n) = unat (length0 s) + unat n"
proof -
  have "\<not> 0xFFFFFFFF - length0 s < n" using assms by (simp add: word_less_nat_alt unat_sub_max)
  then show "length0 (addLength n s) = length0 s + n" "length1 (addLength n s) = length1 s" by (simp_all add: addLength_def)
  show "unat (length0 s + n) = unat (length0 s) + unat n" using assms by (simp add: unat_word_ariths)
qed

lemma Update_length:
  assumes "unat (length0 s) + 64 < 2 ^ 32"
  shows "length0 (Update M s) = length0 s + 64" "length1 (Update M s) = length1 s"
proof -
  obtain t where t: "Update M s = addLength 64 t" "length0 t = length0 s" "length1 t = length1 s"
    by (cases "run_lines M md5_lines (chain0 s) (chain1 s) (chain2 s) (chain3 s)") (simp add: Update_def)
  then show "length0 (Update M s) = length0 s + 64" "length1 (Update M s) = length1 s"
    using addLength_small[of t 64] assms by simp_all
qed

lemma sum_loop_blocks:
  assumes "unat len + 64 < 2 ^ 32" "unat len \<le> length m"
  shows "unat p \<le> unat len \<Longrightarrow> length0 s = p \<Longrightarrow> length1 s = 0 \<Longrightarrow>
    \<exists>p' s'. sum_loop m len p s = Some (p', s') \<and> unat p' = unat p + 64 * ((unat len - unat p) div 64) \<and>
      length0 s' = p' \<and> length1 s' = 0 \<and> chain s' = md5_blocks (take (unat len - unat p) (drop (unat p) m)) (chain s)"
proof (induction "unat len - unat p" arbitrary: p s rule: less_induct)
  case less
  have p64: "unat (p + 64) = unat p + 64" using less.prems(1) assms(1) by (simp add: unat_word_ariths)
  show ?case
  proof (cases "unat p + 64 \<le> unat len")
    case False
    then have "sum_loop m len p s = Some (p, s)" by (subst sum_loop.simps) (simp add: word_le_nat_alt p64)
    with False less.prems show ?thesis by (simp add: md5_blocks_short)
  next
    case True
    let ?M = "words (take 64 (drop (unat p) m))"
    have "sum_loop m len p s = sum_loop m len (p + 64) (Update ?M s)"
      using True assms(2) by (subst sum_loop.simps) (simp add: word_le_nat_alt p64)
    moreover have "length0 (Update ?M s) = p + 64" "length1 (Update ?M s) = 0"
      using Update_length[of s ?M] less.prems True assms(1) by simp_all
    then obtain p' s' where "sum_loop m len (p + 64) (Update ?M s) = Some (p', s')"
      "unat p' = unat p + 64 + 64 * ((unat len - (unat p + 64)) div 64)" "length0 s' = p'" "length1 s' = 0"
      "chain s' = md5_blocks (take (unat len - (unat p + 64)) (drop (unat p + 64) m)) (chain (Update ?M s))"
      using less.hyps[of "p + 64" "Update ?M s"] True unfolding p64 by force
    moreover have "(unat len - unat p) div 64 = Suc ((unat len - (unat p + 64)) div 64)"
    proof -
      have e: "unat len - unat p = 64 + (unat len - (unat p + 64))" using True by simp
      show ?thesis by (subst e) simp
    qed
    moreover have "md5_blocks (take (unat len - unat p) (drop (unat p) m)) (chain s) =
        md5_blocks (take (unat len - (unat p + 64)) (drop (unat p + 64) m)) (compress ?M (chain s))"
    proof (subst md5_blocks_step)
      show "64 \<le> length (take (unat len - unat p) (drop (unat p) m))" using True assms(2) by simp
      show "md5_blocks (drop 64 (take (unat len - unat p) (drop (unat p) m)))
          (compress (words (take 64 (take (unat len - unat p) (drop (unat p) m)))) (chain s)) =
        md5_blocks (take (unat len - (unat p + 64)) (drop (unat p + 64) m)) (compress ?M (chain s))"
        using True by (simp add: drop_take min_absorb1 add.commute)
    qed
    ultimately show ?thesis by (simp add: Update_compress)
  qed
qed


section \<open>The sum\<close>

lemma drop_bit_29: "drop_bit 29 (of_nat n :: 32 word) = of_nat (8 * n div 2 ^ 32)" if "n < 2 ^ 32"
proof -
  have "8 * n div 2 ^ 32 = n div 2 ^ 29" using div_mult_mult1[of 8 n "2 ^ 29"] by simp
  moreover have "unat (drop_bit 29 (of_nat n :: 32 word)) = n div 2 ^ 29"
    using that unfolding unat_drop_bit_eq by (simp add: drop_bit_eq_div unat_of_nat take_bit_nat_eq_self)
  then have "drop_bit 29 (of_nat n :: 32 word) = of_nat (n div 2 ^ 29)" by (metis of_nat_unat ucast_id)
  ultimately show ?thesis by simp
qed

lemma unat_and_3F: "unat (x AND 0x3F :: 32 word) = unat x mod 64"
proof -
  have "(0x3F :: 32 word) = mask 6" by (simp add: mask_eq_exp_minus_1)
  then have "x AND 0x3F = take_bit 6 x" by (simp only: take_bit_eq_mask)
  then show ?thesis by (simp only: unsigned_take_bit_eq) (simp add: take_bit_eq_mod)
qed

lemma length_le_bytes [simp]: "length (le_bytes w) = 4"
  by (simp add: le_bytes_def)

lemma push_bit_3: "push_bit 3 (of_nat n :: 32 word) = of_nat (8 * n)"
  by (simp add: push_bit_eq_mult)

lemma Final_blocks:
  assumes "unat (length0 s) + unat len < 2 ^ 32 - 64" "64 dvd unat (length0 s)" "unat len < 64" "length1 s = 0" "unat len \<le> length tail"
  shows "\<exists>s'. Final tail len s = Some s' \<and>
    chain s' = md5_blocks (take (unat len) tail @ [0x80] @ replicate ((119 - unat len) mod 64) 0 @
      le_bytes (of_nat (8 * (unat (length0 s) + unat len))) @ le_bytes (of_nat (8 * (unat (length0 s) + unat len) div 2 ^ 32))) (chain s)"
proof -
  let ?t = "addLength len s" and ?n = "unat (length0 s) + unat len"
  have t: "length0 ?t = of_nat ?n" "length1 ?t = 0" "unat (length0 ?t) = ?n"
    using addLength_small[of s len] assms(1,4) by simp_all
  then have l: "unat (length0 ?t AND 0x3F) = unat len" unfolding unat_and_3F using assms(2,3) by (auto elim!: dvdE)
  define l where "l = unat len"
  define bits where "bits = le_bytes (of_nat (8 * ?n)) @ le_bytes (of_nat (8 * ?n div 2 ^ 32))"
  define pad where "pad = take l tail @ [0x80] @ replicate ((119 - l) mod 64) 0 @ bits"
  have z: "(119 - l) mod 64 = (if l \<ge> 56 then 119 - l else 55 - l)"
    using assms(3) mod_add_self1[of 64 "55 - l"] unfolding l_def by (auto simp: mod_if)
  have b: "le_bytes (push_bit 3 (length0 ?t)) @ le_bytes (push_bit 3 (length1 ?t) OR drop_bit 29 (length0 ?t)) = bits"
    using assms(1) unfolding t(1,2) bits_def push_bit_3 by (subst drop_bit_29) simp_all
  have len: "length pad = (if l \<ge> 56 then 128 else 64)"
    using assms(3,5) z unfolding pad_def bits_def l_def by simp
  have F: "Final tail len s = Some (if l \<ge> 56 then Update (words (drop 64 pad)) (Update (words (take 64 pad)) ?t) else Update (words (take 64 pad)) ?t)"
    using assms(3,5) unfolding Final_def Let_def l b pad_def
    by (simp add: copy_tail_eq pad_zeros_eq z l_def[symmetric] bits_def[symmetric])
  have "md5_blocks pad (chain s) = (if l \<ge> 56 then compress (words (drop 64 pad)) (compress (words (take 64 pad)) (chain s)) else compress (words (take 64 pad)) (chain s))"
    using len by (simp add: md5_blocks_step[of pad] md5_blocks_step[of "drop 64 pad"] md5_blocks_short)
  with F show ?thesis unfolding pad_def[symmetric] bits_def l_def by (simp add: Update_compress pad_def bits_def l_def)
qed

text \<open>
  C18. \<^verbatim>\<open>GetSum\<close> returns, and writes the MD5 of the message, for every message whose length leaves room for one more block
  below \<open>2\<^sup>3\<^sup>2\<close>: the full blocks, the tail, the padding in one or two blocks and the length in bits.
\<close>

theorem GetSum_correct:
  assumes "unat len + 64 < 2 ^ 32" "unat len \<le> length message"
  shows "GetSum message len = Some (md5 (take (unat len) message))"
proof -
  define k where "k = 64 * (unat len div 64)"
  have k: "k \<le> unat len" "unat len - k = unat len mod 64" unfolding k_def by (simp_all add: minus_mult_div_eq_mod)
  have "k + unat len mod 64 = unat len" unfolding k_def by simp
  then have split: "take (unat len) message = take k message @ take (unat len mod 64) (drop k message)"
    by (metis take_add)
  let ?init = "(0x67452301, 0xEFCDAB89, 0x98BADCFE, 0x10325476) :: md5_chain"
  obtain p s where loop: "sum_loop message len 0 MD5p = Some (p, s)" "unat p = k" "length0 s = p" "length1 s = 0"
    "chain s = md5_blocks (take (unat len) message) ?init"
    using sum_loop_blocks[OF assms, of 0 MD5p] unfolding k_def by (force simp: MD5p_def chain_def)
  have tail: "unat (len - p) = unat len mod 64" using loop(2) k by (simp add: unat_sub_if_size)
  let ?bits = "le_bytes (of_nat (8 * unat len)) @ le_bytes (of_nat (8 * unat len div 2 ^ 32))"
  let ?rest = "take (unat len mod 64) (drop k message) @ [0x80] @ replicate ((119 - unat len mod 64) mod 64) 0 @ ?bits"
  have n: "unat (length0 s) + unat (len - p) = unat len" using loop(2,3) tail k by simp
  have "\<exists>s'. Final (drop k message) (len - p) s = Some s' \<and> chain s' = md5_blocks ?rest (chain s)"
  proof (rule Final_blocks[of s "len - p" "drop (unat p) message", unfolded n, unfolded tail loop(2)])
    show "unat len < 2 ^ 32 - 64" using assms(1) by simp
    show "64 dvd unat (length0 s)" using loop(2,3) by (simp add: k_def)
    show "unat len mod 64 \<le> length (drop k message)" using assms(2) k by simp
  qed (use loop(4) in simp_all)
  then obtain s' where fin: "Final (drop k message) (len - p) s = Some s'" "chain s' = md5_blocks ?rest (chain s)"
    by blast
  have whole: "md5_blocks (take (unat len) message) x = md5_blocks (take k message) x" for x
    unfolding split using k assms(2) md5_blocks_append[of "take k message" "unat len div 64"]
    by (simp add: md5_blocks_short k_def min_absorb2)
  have "md5_pad (take (unat len) message) = take k message @ ?rest"
    unfolding md5_pad_def using assms(2) by (simp add: min_absorb2) (simp add: split)
  moreover have "length (take k message) = 64 * (unat len div 64)" using k assms(2) by (simp add: k_def)
  ultimately have "md5_blocks (md5_pad (take (unat len) message)) ?init = chain s'"
    using md5_blocks_append fin(2) loop(5) whole by simp
  then show ?thesis using loop(1,2) fin(1) by (simp add: GetSum_def md5_def Output_def chain_def)
qed


lemma md5_abc:
  "md5 [0x61, 0x62, 0x63] = [0x90, 0x01, 0x50, 0x98, 0x3C, 0xD2, 0x4F, 0xB0, 0xD6, 0x96, 0x3F, 0x7D, 0x28, 0xE1, 0x7F, 0x72]"
proof -
  have "md5_pad [0x61, 0x62, 0x63] = [0x61, 0x62, 0x63, 0x80] @ replicate 52 0 @ [24, 0, 0, 0, 0, 0, 0, 0]"
    by (simp add: md5_pad_def le_bytes_def)
  also have "replicate 52 (0 :: 8 word) =
      [0, 0, 0, 0, 0, 0, 0, 0, 0, 0, 0, 0, 0, 0, 0, 0, 0, 0, 0, 0, 0, 0, 0, 0, 0, 0,
        0, 0, 0, 0, 0, 0, 0, 0, 0, 0, 0, 0, 0, 0, 0, 0, 0, 0, 0, 0, 0, 0, 0, 0, 0, 0]" by code_simp
  finally have pad: "md5_pad [0x61, 0x62, 0x63] = [0x61, 0x62, 0x63, 0x80] @
      [0, 0, 0, 0, 0, 0, 0, 0, 0, 0, 0, 0, 0, 0, 0, 0, 0, 0, 0, 0, 0, 0, 0, 0, 0, 0,
        0, 0, 0, 0, 0, 0, 0, 0, 0, 0, 0, 0, 0, 0, 0, 0, 0, 0, 0, 0, 0, 0, 0, 0, 0, 0] @
      [24, 0, 0, 0, 0, 0, 0, 0]" .
  have "words (md5_pad [0x61, 0x62, 0x63]) = [0x80636261, 0, 0, 0, 0, 0, 0, 0, 0, 0, 0, 0, 0, 0, 24, 0]"
    unfolding pad by simp
  moreover have "length (md5_pad [0x61, 0x62, 0x63]) = 64" unfolding pad by simp
  moreover have "compress [0x80636261, 0, 0, 0, 0, 0, 0, 0, 0, 0, 0, 0, 0, 0, 24, 0] (0x67452301, 0xEFCDAB89, 0x98BADCFE, 0x10325476) =
      (0x98500190, 0xB04FD23C, 0x7D3F96D6, 0x727FE128)"
    by code_simp
  ultimately show ?thesis by (simp add: md5_def md5_blocks.simps) (simp add: le_bytes_def)
qed

theorem GetSum_correct_witness:
  "GetSum [0x61, 0x62, 0x63] 3 =
     Some [0x90, 0x01, 0x50, 0x98, 0x3C, 0xD2, 0x4F, 0xB0, 0xD6, 0x96, 0x3F, 0x7D, 0x28, 0xE1, 0x7F, 0x72]"
  using GetSum_correct[of 3 "[0x61, 0x62, 0x63]"] by (simp add: md5_abc)

text \<open>
  Above that bound \<^verbatim>\<open>p + 64\<close> wraps to a small number, the condition of the loop always holds, and the loop only stops by
  reading outside the message: a message of \<open>2\<^sup>3\<^sup>2 - 64\<close> bytes or more has no sum.
\<close>

lemma sum_loop_endless:
  assumes "0xFFFFFFC0 \<le> len" "unat p mod 64 = 0"
  shows "sum_loop message len p s = None"
proof -
  have "unat p mod 64 = 0 \<longrightarrow> 0xFFFFFFC0 \<le> len \<longrightarrow> False" if "sum_loop message len p s = Some r" for r
  proof (rule sum_loop.raw_induct[where P = "\<lambda>_ len p _ _. unat p mod 64 = 0 \<longrightarrow> 0xFFFFFFC0 \<le> len \<longrightarrow> False", OF _ that], intro impI)
    fix self :: "8 word list \<Rightarrow> 32 word \<Rightarrow> 32 word \<Rightarrow> md5p \<Rightarrow> (32 word \<times> md5p) option" and message len p s r
    assume IH: "\<And>message len p s r. self message len p s = Some r \<Longrightarrow> unat p mod 64 = 0 \<longrightarrow> 0xFFFFFFC0 \<le> len \<longrightarrow> False"
      and run: "(if p + 64 \<le> len then
        if unat p + 64 \<le> length message then self message len (p + 64) (Update (words (take 64 (drop (unat p) message))) s)
        else None else Some (p, s)) = Some r"
      and p: "unat p mod 64 = 0" and len: "0xFFFFFFC0 \<le> len"
    have "unat (p + 64) mod 64 = (unat p + 64) mod 64" by (simp add: unat_word_ariths mod_mod_cancel)
    then have q: "unat (p + 64) mod 64 = 0" using p by simp
    moreover have "unat (p + 64) < 2 ^ 32" using unsigned_less[of "p + 64", where 'a = nat] by simp
    ultimately have "unat (p + 64) \<le> 2 ^ 32 - 64" by (auto simp: mod_eq_0_iff_dvd elim!: dvdE)
    then have "p + 64 \<le> len" using len by (simp add: word_le_nat_alt)
    then show False using run IH q len by (auto split: if_splits)
  qed
  then show ?thesis using assms by (cases "sum_loop message len p s") auto
qed

theorem GetSum_endless: "0xFFFFFFC0 \<le> len \<Longrightarrow> GetSum message len = None"
  by (simp add: GetSum_def sum_loop_endless)

end
