(* ===== verification/Thrpool.thy ===== *)
theory Thrpool
  imports Prelude
begin

text \<open>
  The thread pool \<^verbatim>\<open>src/c/thrpool/thrpool.c\<close> as a state machine. The state is the heap of tasks,
  the fields of \<^verbatim>\<open>struct thrpool_internal\<close>, the owners of the two mutexes and the program
  counter of every thread. One step is one access to shared state that no mutex protects, or
  one piece of a critical section; releasing a mutex is part of the last protected access, as
  nobody can look in between. The scheduler picks the thread; everything that the
  environment decides (the result of a task function, the address \<^verbatim>\<open>malloc\<close> returns, which
  waiter \<^verbatim>\<open>pthread_cond_signal\<close> wakes, whether \<^verbatim>\<open>pthread_create\<close> succeeds) is a number \<open>c\<close> that the
  step takes. Access to freed memory is the outcome \<open>Fault\<close>.
\<close>

section \<open>Definitions\<close>

type_synonym addr = nat
type_synonym job = "nat \<times> nat" \<comment> \<open>task function (0 is \<^verbatim>\<open>NULL\<close>) and parameter\<close>

record thrpool_task =
  taskfn :: nat
  param :: nat
  "next" :: "addr option"

datatype worker_pc =
    W_lock | W_front | W_wait0 | W_destroy | W_sleep | W_waiting | W_woken | W_take | W_run addr

datatype enq_pc = E_lock | E_link | E_signal

datatype cleanup_pc = C_lock | C_dec | C_signal

datatype create_pc = N_loop nat | N_inc nat

datatype destroy_pc =
    D_lock | D_detach | D_free "addr option" | D_set | D_wlock | D_loop | D_sleep | D_waiting
  | D_woken | D_release

datatype wait_pc = T_lock | T_test | T_waiting | T_woken

text \<open>
  The flag of \<open>Enq\<close> says whether \<^verbatim>\<open>_task_enq\<close> was called by a worker (with its own task) or by
  \<^verbatim>\<open>thrpool_add_task\<close>.
\<close>

datatype pc =
    Outside | Exited
  | Worker worker_pc | Enq enq_pc bool addr | Cleanup cleanup_pc
  | Create create_pc | Destroy destroy_pc | Wait wait_pc

record pool =
  heap :: "addr \<Rightarrow> thrpool_task option"
  min_workers :: nat
  worker_m :: "nat option"
  task_m :: "nat option"
  destroy :: bool
  running_workers :: int
  wait_task_0 :: bool
  task_front :: "addr option"
  task_rear :: "addr option"
  alive :: bool \<comment> \<open>\<^verbatim>\<open>ti\<close> has not been freed\<close>
  ready :: bool \<comment> \<open>\<^verbatim>\<open>thrpool_create\<close> has returned the pool\<close>
  pcs :: "pc list"

text \<open>
  What a run does to the queue: a task was linked in, a worker took one, \<^verbatim>\<open>thrpool_destroy\<close> took
  all of them, \<^verbatim>\<open>thrpool_add_task\<close> returned 1.
\<close>

datatype event = Enqueued job | Taken job | Detached | Refused job

datatype outcome = Step "event list" pool | Blocked | Fault

definition goto :: "nat \<Rightarrow> pc \<Rightarrow> pool \<Rightarrow> pool" where
  "goto j p s = s\<lparr>pcs := (pcs s)[j := p]\<rparr>"

definition job_of :: "thrpool_task \<Rightarrow> job" where
  "job_of t = (taskfn t, param t)"

text \<open>\<^verbatim>\<open>pthread_cond_signal\<close>: wakes one thread that waits, if there is one.\<close>

definition signal :: "pc \<Rightarrow> pc \<Rightarrow> nat \<Rightarrow> pool \<Rightarrow> pool option" where
  "signal waiting woken c s =
     (if waiting \<in> set (pcs s) then
        if c < length (pcs s) \<and> pcs s ! c = waiting then Some (goto c woken s) else None
      else Some s)"

text \<open>\<^verbatim>\<open>pthread_cond_broadcast\<close>\<close>

definition broadcast :: "pc \<Rightarrow> pc \<Rightarrow> pool \<Rightarrow> pool" where
  "broadcast waiting woken s = s\<lparr>pcs := map (\<lambda>p. if p = waiting then woken else p) (pcs s)\<rparr>"

text \<open>The two queue operations, both inside \<^verbatim>\<open>task_m\<close>.\<close>

definition task_link :: "addr \<Rightarrow> pool \<Rightarrow> pool option" where
  "task_link t s =
     (case task_front s of
        None \<Rightarrow> Some (s\<lparr>task_front := Some t, task_rear := Some t\<rparr>)
      | Some _ \<Rightarrow>
          (case task_rear s of
             None \<Rightarrow> None
           | Some r \<Rightarrow>
               (case heap s r of
                  None \<Rightarrow> None
                | Some k \<Rightarrow> Some (s\<lparr>heap := (heap s)(r \<mapsto> k\<lparr>next := Some t\<rparr>), task_rear := Some t\<rparr>))))"

definition task_take :: "pool \<Rightarrow> (addr option \<times> pool) option" where
  "task_take s =
     (case task_front s of
        None \<Rightarrow> Some (None, s)
      | Some t \<Rightarrow>
          (case heap s t of
             None \<Rightarrow> None
           | Some k \<Rightarrow> Some (Some t, s\<lparr>task_front := next k\<rparr>)))"

text \<open>\<^verbatim>\<open>_worker_cleanup\<close>\<close>

fun cleanup_step :: "nat \<Rightarrow> nat \<Rightarrow> cleanup_pc \<Rightarrow> pool \<Rightarrow> outcome" where
  "cleanup_step j c C_lock s =
     (if worker_m s = None then Step [] (goto j (Cleanup C_dec) (s\<lparr>worker_m := Some j\<rparr>)) else Blocked)"
| "cleanup_step j c C_dec s =
     Step [] (goto j (Cleanup C_signal) (s\<lparr>running_workers := running_workers s - 1, worker_m := None\<rparr>))"
| "cleanup_step j c C_signal s =
     (case signal (Destroy D_waiting) (Destroy D_woken) c s of
        None \<Rightarrow> Blocked
      | Some s' \<Rightarrow> Step [] (goto j Exited s'))"

text \<open>\<^verbatim>\<open>_task_enq\<close>; it returns into the worker loop or to the client.\<close>

fun enq_step :: "nat \<Rightarrow> nat \<Rightarrow> enq_pc \<Rightarrow> bool \<Rightarrow> addr \<Rightarrow> pool \<Rightarrow> outcome" where
  "enq_step j c E_lock w t s =
     (if task_m s = None then Step [] (goto j (Enq E_link w t) (s\<lparr>task_m := Some j\<rparr>)) else Blocked)"
| "enq_step j c E_link w t s =
     (case heap s t of
        None \<Rightarrow> Fault
      | Some k \<Rightarrow>
          (case task_link t s of
             None \<Rightarrow> Fault
           | Some s' \<Rightarrow> Step [Enqueued (job_of k)] (goto j (Enq E_signal w t) (s'\<lparr>task_m := None\<rparr>))))"
| "enq_step j c E_signal w t s =
     (case signal (Worker W_waiting) (Worker W_woken) c s of
        None \<Rightarrow> Blocked
      | Some s' \<Rightarrow> Step [] (goto j (if w then Worker W_lock else Outside) s'))"

text \<open>\<^verbatim>\<open>_worker\<close>\<close>

fun worker_step :: "nat \<Rightarrow> nat \<Rightarrow> worker_pc \<Rightarrow> pool \<Rightarrow> outcome" where
  "worker_step j c W_lock s =
     (if task_m s = None then Step [] (goto j (Worker W_front) (s\<lparr>task_m := Some j\<rparr>)) else Blocked)"
| "worker_step j c W_front s =
     Step [] (goto j (Worker (if task_front s = None then W_wait0 else W_take)) s)"
| "worker_step j c W_wait0 s =
     Step [] (goto j (Worker W_destroy)
       (if wait_task_0 s then broadcast (Wait T_waiting) (Wait T_woken) (s\<lparr>wait_task_0 := False\<rparr>) else s))"
| "worker_step j c W_destroy s =
     Step [] (goto j (Worker (if destroy s then W_take else W_sleep)) s)"
| "worker_step j c W_sleep s = Step [] (goto j (Worker W_waiting) (s\<lparr>task_m := None\<rparr>))"
| "worker_step j c W_waiting s = Blocked"
| "worker_step j c W_woken s =
     (if task_m s = None then Step [] (goto j (Worker W_front) (s\<lparr>task_m := Some j\<rparr>)) else Blocked)"
| "worker_step j c W_take s =
     (case task_take s of
        None \<Rightarrow> Fault
      | Some (None, s') \<Rightarrow> Step [] (goto j (Cleanup C_lock) (s'\<lparr>task_m := None\<rparr>))
      | Some (Some t, s') \<Rightarrow>
          Step [Taken (job_of (the (heap s t)))] (goto j (Worker (W_run t)) (s'\<lparr>task_m := None\<rparr>)))"
| "worker_step j c (W_run t) s =
     (case heap s t of
        None \<Rightarrow> Fault
      | Some k \<Rightarrow>
          if c \<noteq> 0 then
            Step [] (goto j (Enq E_lock True t) (s\<lparr>heap := (heap s)(t \<mapsto> k\<lparr>next := None\<rparr>)\<rparr>))
          else Step [] (goto j (Worker W_lock) (s\<lparr>heap := (heap s)(t := None)\<rparr>)))"

text \<open>
  The loop of \<^verbatim>\<open>thrpool_create\<close>. A new thread gets the next number; if \<^verbatim>\<open>pthread_create\<close> fails the
  pool is destroyed and no handle is returned.
\<close>

fun create_step :: "nat \<Rightarrow> nat \<Rightarrow> create_pc \<Rightarrow> pool \<Rightarrow> outcome" where
  "create_step j c (N_loop i) s =
     (if i < min_workers s then
        if c \<noteq> 0 then
          Step [] (goto j (if destroy s then Outside else Destroy D_lock) s)
        else Step [] (goto j (Create (N_inc i)) (s\<lparr>pcs := pcs s @ [Worker W_lock]\<rparr>))
      else Step [] (goto j Outside (s\<lparr>ready := True\<rparr>)))"
| "create_step j c (N_inc i) s =
     Step [] (goto j (Create (N_loop (Suc i))) (s\<lparr>running_workers := running_workers s + 1\<rparr>))"

text \<open>\<^verbatim>\<open>thrpool_destroy\<close> behind its entry checks.\<close>

fun destroy_step :: "nat \<Rightarrow> nat \<Rightarrow> destroy_pc \<Rightarrow> pool \<Rightarrow> outcome" where
  "destroy_step j c D_lock s =
     (if task_m s = None then Step [] (goto j (Destroy D_detach) (s\<lparr>task_m := Some j\<rparr>)) else Blocked)"
| "destroy_step j c D_detach s =
     Step [Detached] (goto j (Destroy (D_free (task_front s))) (s\<lparr>task_front := None, task_m := None\<rparr>))"
| "destroy_step j c (D_free None) s = Step [] (goto j (Destroy D_set) s)"
| "destroy_step j c (D_free (Some t)) s =
     (case heap s t of
        None \<Rightarrow> Fault
      | Some k \<Rightarrow> Step [] (goto j (Destroy (D_free (next k))) (s\<lparr>heap := (heap s)(t := None)\<rparr>)))"
| "destroy_step j c D_set s = Step [] (goto j (Destroy D_wlock) (s\<lparr>destroy := True\<rparr>))"
| "destroy_step j c D_wlock s =
     (if worker_m s = None then Step [] (goto j (Destroy D_loop) (s\<lparr>worker_m := Some j\<rparr>)) else Blocked)"
| "destroy_step j c D_loop s =
     (if running_workers s > 0 then
        (case signal (Worker W_waiting) (Worker W_woken) c s of
           None \<Rightarrow> Blocked
         | Some s' \<Rightarrow> Step [] (goto j (Destroy D_sleep) s'))
      else Step [] (goto j (Destroy D_release) (s\<lparr>worker_m := None\<rparr>)))"
| "destroy_step j c D_sleep s = Step [] (goto j (Destroy D_waiting) (s\<lparr>worker_m := None\<rparr>))"
| "destroy_step j c D_waiting s = Blocked"
| "destroy_step j c D_woken s =
     (if worker_m s = None then Step [] (goto j (Destroy D_loop) (s\<lparr>worker_m := Some j\<rparr>)) else Blocked)"
| "destroy_step j c D_release s = Step [] (goto j Outside (s\<lparr>alive := False\<rparr>))"

text \<open>\<^verbatim>\<open>thrpool_wait\<close> behind its entry checks.\<close>

fun wait_step :: "nat \<Rightarrow> wait_pc \<Rightarrow> pool \<Rightarrow> outcome" where
  "wait_step j T_lock s =
     (if task_m s = None then Step [] (goto j (Wait T_test) (s\<lparr>task_m := Some j\<rparr>)) else Blocked)"
| "wait_step j T_test s =
     (if task_front s \<noteq> None then
        Step [] (goto j (Wait T_waiting) (s\<lparr>wait_task_0 := True, task_m := None\<rparr>))
      else Step [] (goto j Outside (s\<lparr>task_m := None\<rparr>)))"
| "wait_step j T_waiting s = Blocked"
| "wait_step j T_woken s = (if task_m s = None then Step [] (goto j Outside s) else Blocked)"

text \<open>One step of a thread that is inside the pool; touching \<^verbatim>\<open>ti\<close> after it was freed is a fault.\<close>

fun touches :: "pc \<Rightarrow> bool" where
  "touches Outside = False"
| "touches Exited = False"
| "touches (Worker (W_run t)) = False"
| "touches (Destroy (D_free p)) = False"
| "touches _ = True"

definition thread_step :: "nat \<Rightarrow> nat \<Rightarrow> pool \<Rightarrow> outcome" where
  "thread_step j c s =
     (if touches (pcs s ! j) \<and> \<not> alive s then Fault
      else
        case pcs s ! j of
          Outside \<Rightarrow> Blocked
        | Exited \<Rightarrow> Blocked
        | Worker p \<Rightarrow> worker_step j c p s
        | Enq p w t \<Rightarrow> enq_step j c p w t s
        | Cleanup p \<Rightarrow> cleanup_step j c p s
        | Create p \<Rightarrow> create_step j c p s
        | Destroy p \<Rightarrow> destroy_step j c p s
        | Wait p \<Rightarrow> wait_step j p s)"

text \<open>
  The entry of the interface functions, called by a thread outside the pool. While no handle has
  been returned the argument \<^verbatim>\<open>pool\<close> is \<^verbatim>\<open>NULL\<close>.
\<close>

definition thrpool_add_task :: "nat \<Rightarrow> nat \<Rightarrow> job \<Rightarrow> pool \<Rightarrow> outcome" where
  "thrpool_add_task j c b s =
     (if \<not> ready s \<or> fst b = 0 then Step [Refused b] s
      else if \<not> alive s then Fault
      else if destroy s then Step [Refused b] s
      else if heap s c \<noteq> None then Blocked
      else
        Step [] (goto j (Enq E_lock False c)
          (s\<lparr>heap := (heap s)(c \<mapsto> \<lparr>taskfn = fst b, param = snd b, next = None\<rparr>)\<rparr>)))"

definition thrpool_destroy :: "nat \<Rightarrow> bool \<Rightarrow> pool \<Rightarrow> outcome" where
  "thrpool_destroy j wait s =
     (if \<not> ready s then Step [] s
      else if \<not> alive s then Fault
      else if destroy s then Step [] s
      else Step [] (goto j (Destroy (if wait then D_set else D_lock)) s))"

definition thrpool_wait :: "nat \<Rightarrow> pool \<Rightarrow> outcome" where
  "thrpool_wait j s =
     (if \<not> ready s then Step [] s
      else if \<not> alive s then Fault
      else if destroy s then Step [] s
      else Step [] (goto j (Wait T_lock) s))"

text \<open>\<^verbatim>\<open>thrpool_create\<close> up to its loop, run by thread 0 beside \<open>clients\<close> other threads.\<close>

definition thrpool_create :: "int \<Rightarrow> nat \<Rightarrow> pool option" where
  "thrpool_create workers clients =
     (if workers < 0 then None
      else Some
        \<lparr>heap = (\<lambda>_. None), min_workers = nat workers, worker_m = None, task_m = None,
         destroy = False, running_workers = 0, wait_task_0 = False, task_front = None,
         task_rear = None, alive = True, ready = False,
         pcs = Create (N_loop 0) # replicate clients Outside\<rparr>)"

text \<open>A waiting thread may wake up without a signal.\<close>

fun woken :: "pc \<Rightarrow> pc option" where
  "woken (Worker W_waiting) = Some (Worker W_woken)"
| "woken (Destroy D_waiting) = Some (Destroy D_woken)"
| "woken (Wait T_waiting) = Some (Wait T_woken)"
| "woken _ = None"

inductive step :: "pool \<Rightarrow> event list \<Rightarrow> pool \<Rightarrow> bool" where
  thread: "j < length (pcs s) \<Longrightarrow> thread_step j c s = Step ev s' \<Longrightarrow> step s ev s'"
| add: "j < length (pcs s) \<Longrightarrow> pcs s ! j = Outside \<Longrightarrow> thrpool_add_task j c b s = Step ev s' \<Longrightarrow> step s ev s'"
| destroy: "j < length (pcs s) \<Longrightarrow> pcs s ! j = Outside \<Longrightarrow> thrpool_destroy j w s = Step ev s' \<Longrightarrow> step s ev s'"
| wait: "j < length (pcs s) \<Longrightarrow> pcs s ! j = Outside \<Longrightarrow> thrpool_wait j s = Step ev s' \<Longrightarrow> step s ev s'"
| spurious: "j < length (pcs s) \<Longrightarrow> woken (pcs s ! j) = Some p \<Longrightarrow> step s [] (goto j p s)"

inductive run :: "int \<Rightarrow> nat \<Rightarrow> event list \<Rightarrow> pool \<Rightarrow> bool" for workers clients where
  create: "thrpool_create workers clients = Some s \<Longrightarrow> run workers clients [] s"
| step: "run workers clients tr s \<Longrightarrow> step s ev s' \<Longrightarrow> run workers clients (tr @ ev) s'"

section \<open>Waking threads\<close>

text \<open>
  Signals, broadcasts and spurious wake-ups only move waiting threads on to reacquire their
  mutex. What an invariant says of a thread does not depend on this.
\<close>

definition wakes :: "pc list \<Rightarrow> pc list \<Rightarrow> bool" where
  "wakes ps qs \<longleftrightarrow> length qs = length ps \<and>
     (\<forall>k<length ps. qs ! k = ps ! k \<or> woken (ps ! k) = Some (qs ! k))"

lemma wakes_refl [simp]: "wakes ps ps"
  by (simp add: wakes_def)

lemma wakes_update: "k < length ps \<Longrightarrow> woken (ps ! k) = Some q \<Longrightarrow> wakes ps (ps[k := q])"
  by (auto simp: wakes_def nth_list_update)

lemma wakes_map: "woken a = Some b \<Longrightarrow> wakes ps (map (\<lambda>p. if p = a then b else p) ps)"
  by (auto simp: wakes_def)

lemma wakes_same: "wakes ps qs \<Longrightarrow> j < length ps \<Longrightarrow> woken (ps ! j) = None \<Longrightarrow> qs ! j = ps ! j"
  by (auto simp: wakes_def)

lemma signal_wakes:
  assumes "signal a b c s = Some s'" "woken a = Some b"
  obtains qs where "s' = s\<lparr>pcs := qs\<rparr>" "wakes (pcs s) qs" "a \<in> set qs \<longrightarrow> b \<in> set qs"
proof (cases "a \<in> set (pcs s)")
  case True
  with assms that[of "(pcs s)[c := b]"] show ?thesis
    by (simp add: signal_def goto_def wakes_update set_update_memI split: if_splits)
next
  case False
  with assms that[of "pcs s"] show ?thesis by (simp add: signal_def)
qed

lemma woken_Some: "woken p = Some q \<longleftrightarrow>
  p = Worker W_waiting \<and> q = Worker W_woken \<or> p = Destroy D_waiting \<and> q = Destroy D_woken \<or>
  p = Wait T_waiting \<and> q = Wait T_woken"
  by (cases p rule: woken.cases) auto

text \<open>A step is a wake-up of some threads followed by the move of the stepping thread.\<close>

lemma pool_pcs_update [simp]: "s\<lparr>pcs := pcs s\<rparr> = (s :: pool)" by simp

inductive move :: "nat \<Rightarrow> pool \<Rightarrow> event list \<Rightarrow> pool \<Rightarrow> bool" where
  W_lock: "pcs s ! j = Worker p \<Longrightarrow> p = W_lock \<or> p = W_woken \<Longrightarrow> task_m s = None \<Longrightarrow> alive s \<Longrightarrow>
    move j s [] (goto j (Worker W_front) (s\<lparr>task_m := Some j\<rparr>))"
| W_front: "pcs s ! j = Worker W_front \<Longrightarrow> alive s \<Longrightarrow> p = (if task_front s = None then W_wait0 else W_take) \<Longrightarrow>
    move j s [] (goto j (Worker p) s)"
| W_wait0: "pcs s ! j = Worker W_wait0 \<Longrightarrow> alive s \<Longrightarrow> Wait T_waiting \<notin> set (pcs s) \<Longrightarrow>
    move j s [] (goto j (Worker W_destroy) (s\<lparr>wait_task_0 := False\<rparr>))"
| W_nowait: "pcs s ! j = Worker W_wait0 \<Longrightarrow> alive s \<Longrightarrow> \<not> wait_task_0 s \<Longrightarrow>
    move j s [] (goto j (Worker W_destroy) s)"
| W_destroy: "pcs s ! j = Worker W_destroy \<Longrightarrow> alive s \<Longrightarrow> p = (if destroy s then W_take else W_sleep) \<Longrightarrow>
    move j s [] (goto j (Worker p) s)"
| W_sleep: "pcs s ! j = Worker W_sleep \<Longrightarrow> alive s \<Longrightarrow> move j s [] (goto j (Worker W_waiting) (s\<lparr>task_m := None\<rparr>))"
| W_exit: "pcs s ! j = Worker W_take \<Longrightarrow> alive s \<Longrightarrow> task_front s = None \<Longrightarrow>
    move j s [] (goto j (Cleanup C_lock) (s\<lparr>task_m := None\<rparr>))"
| W_take: "pcs s ! j = Worker W_take \<Longrightarrow> alive s \<Longrightarrow> task_front s = Some t \<Longrightarrow> heap s t = Some k \<Longrightarrow>
    move j s [Taken (job_of k)] (goto j (Worker (W_run t)) (s\<lparr>task_front := next k, task_m := None\<rparr>))"
| W_again: "pcs s ! j = Worker (W_run t) \<Longrightarrow> heap s t = Some k \<Longrightarrow>
    move j s [] (goto j (Enq E_lock True t) (s\<lparr>heap := (heap s)(t \<mapsto> k\<lparr>next := None\<rparr>)\<rparr>))"
| W_free: "pcs s ! j = Worker (W_run t) \<Longrightarrow> heap s t = Some k \<Longrightarrow>
    move j s [] (goto j (Worker W_lock) (s\<lparr>heap := (heap s)(t := None)\<rparr>))"
| E_lock: "pcs s ! j = Enq E_lock w t \<Longrightarrow> alive s \<Longrightarrow> task_m s = None \<Longrightarrow>
    move j s [] (goto j (Enq E_link w t) (s\<lparr>task_m := Some j\<rparr>))"
| E_link: "pcs s ! j = Enq E_link w t \<Longrightarrow> alive s \<Longrightarrow> heap s t = Some k \<Longrightarrow> task_link t s = Some s' \<Longrightarrow>
    move j s [Enqueued (job_of k)] (goto j (Enq E_signal w t) (s'\<lparr>task_m := None\<rparr>))"
| E_signal: "pcs s ! j = Enq E_signal w t \<Longrightarrow> alive s \<Longrightarrow>
    (Worker W_waiting \<in> set (pcs s) \<longrightarrow> Worker W_woken \<in> set (pcs s)) \<Longrightarrow> p = (if w then Worker W_lock else Outside) \<Longrightarrow>
    move j s [] (goto j p s)"
| C_lock: "pcs s ! j = Cleanup C_lock \<Longrightarrow> alive s \<Longrightarrow> worker_m s = None \<Longrightarrow>
    move j s [] (goto j (Cleanup C_dec) (s\<lparr>worker_m := Some j\<rparr>))"
| C_dec: "pcs s ! j = Cleanup C_dec \<Longrightarrow> alive s \<Longrightarrow>
    move j s [] (goto j (Cleanup C_signal) (s\<lparr>running_workers := running_workers s - 1, worker_m := None\<rparr>))"
| C_signal: "pcs s ! j = Cleanup C_signal \<Longrightarrow> alive s \<Longrightarrow> move j s [] (goto j Exited s)"
| N_fail: "pcs s ! j = Create (N_loop i) \<Longrightarrow> alive s \<Longrightarrow> p = (if destroy s then Outside else Destroy D_lock) \<Longrightarrow>
    move j s [] (goto j p s)"
| N_new: "pcs s ! j = Create (N_loop i) \<Longrightarrow> alive s \<Longrightarrow> i < min_workers s \<Longrightarrow>
    move j s [] (goto j (Create (N_inc i)) (s\<lparr>pcs := pcs s @ [Worker W_lock]\<rparr>))"
| N_done: "pcs s ! j = Create (N_loop i) \<Longrightarrow> alive s \<Longrightarrow> min_workers s \<le> i \<Longrightarrow>
    move j s [] (goto j Outside (s\<lparr>ready := True\<rparr>))"
| N_inc: "pcs s ! j = Create (N_inc i) \<Longrightarrow> alive s \<Longrightarrow>
    move j s [] (goto j (Create (N_loop (Suc i))) (s\<lparr>running_workers := running_workers s + 1\<rparr>))"
| D_lock: "pcs s ! j = Destroy D_lock \<Longrightarrow> alive s \<Longrightarrow> task_m s = None \<Longrightarrow>
    move j s [] (goto j (Destroy D_detach) (s\<lparr>task_m := Some j\<rparr>))"
| D_detach: "pcs s ! j = Destroy D_detach \<Longrightarrow> alive s \<Longrightarrow>
    move j s [Detached] (goto j (Destroy (D_free (task_front s))) (s\<lparr>task_front := None, task_m := None\<rparr>))"
| D_free: "pcs s ! j = Destroy (D_free (Some t)) \<Longrightarrow> heap s t = Some k \<Longrightarrow>
    move j s [] (goto j (Destroy (D_free (next k))) (s\<lparr>heap := (heap s)(t := None)\<rparr>))"
| D_freed: "pcs s ! j = Destroy (D_free None) \<Longrightarrow> move j s [] (goto j (Destroy D_set) s)"
| D_set: "pcs s ! j = Destroy D_set \<Longrightarrow> alive s \<Longrightarrow>
    move j s [] (goto j (Destroy D_wlock) (s\<lparr>destroy := True\<rparr>))"
| D_wlock: "pcs s ! j = Destroy p \<Longrightarrow> p = D_wlock \<or> p = D_woken \<Longrightarrow> alive s \<Longrightarrow> worker_m s = None \<Longrightarrow>
    move j s [] (goto j (Destroy D_loop) (s\<lparr>worker_m := Some j\<rparr>))"
| D_loop: "pcs s ! j = Destroy D_loop \<Longrightarrow> alive s \<Longrightarrow> running_workers s > 0 \<Longrightarrow>
    move j s [] (goto j (Destroy D_sleep) s)"
| D_out: "pcs s ! j = Destroy D_loop \<Longrightarrow> alive s \<Longrightarrow> running_workers s \<le> 0 \<Longrightarrow>
    move j s [] (goto j (Destroy D_release) (s\<lparr>worker_m := None\<rparr>))"
| D_sleep: "pcs s ! j = Destroy D_sleep \<Longrightarrow> alive s \<Longrightarrow>
    move j s [] (goto j (Destroy D_waiting) (s\<lparr>worker_m := None\<rparr>))"
| D_release: "pcs s ! j = Destroy D_release \<Longrightarrow> alive s \<Longrightarrow> move j s [] (goto j Outside (s\<lparr>alive := False\<rparr>))"
| T_lock: "pcs s ! j = Wait T_lock \<Longrightarrow> alive s \<Longrightarrow> task_m s = None \<Longrightarrow>
    move j s [] (goto j (Wait T_test) (s\<lparr>task_m := Some j\<rparr>))"
| T_wait: "pcs s ! j = Wait T_test \<Longrightarrow> alive s \<Longrightarrow> task_front s \<noteq> None \<Longrightarrow>
    move j s [] (goto j (Wait T_waiting) (s\<lparr>wait_task_0 := True, task_m := None\<rparr>))"
| T_none: "pcs s ! j = Wait T_test \<Longrightarrow> alive s \<Longrightarrow> task_front s = None \<Longrightarrow>
    move j s [] (goto j Outside (s\<lparr>task_m := None\<rparr>))"
| T_woken: "pcs s ! j = Wait T_woken \<Longrightarrow> alive s \<Longrightarrow> task_m s = None \<Longrightarrow> move j s [] (goto j Outside s)"
| A_task: "pcs s ! j = Outside \<Longrightarrow> alive s \<Longrightarrow> ready s \<Longrightarrow> \<not> destroy s \<Longrightarrow> heap s c = None \<Longrightarrow>
    move j s [] (goto j (Enq E_lock False c)
      (s\<lparr>heap := (heap s)(c \<mapsto> \<lparr>taskfn = fst b, param = snd b, next = None\<rparr>)\<rparr>))"
| A_destroy: "pcs s ! j = Outside \<Longrightarrow> alive s \<Longrightarrow> ready s \<Longrightarrow> \<not> destroy s \<Longrightarrow> p = D_set \<or> p = D_lock \<Longrightarrow>
    move j s [] (goto j (Destroy p) s)"
| A_wait: "pcs s ! j = Outside \<Longrightarrow> alive s \<Longrightarrow> ready s \<Longrightarrow> \<not> destroy s \<Longrightarrow> move j s [] (goto j (Wait T_lock) s)"

lemma goto_pcs: "goto j p (s\<lparr>pcs := qs\<rparr>) = s\<lparr>pcs := qs[j := p]\<rparr>"
  by (simp add: goto_def)

lemma goto_update [simp]:
  "heap (goto j p s) = heap s" "min_workers (goto j p s) = min_workers s"
  "worker_m (goto j p s) = worker_m s" "task_m (goto j p s) = task_m s"
  "destroy (goto j p s) = destroy s" "running_workers (goto j p s) = running_workers s"
  "wait_task_0 (goto j p s) = wait_task_0 s" "task_front (goto j p s) = task_front s"
  "task_rear (goto j p s) = task_rear s" "alive (goto j p s) = alive s"
  "ready (goto j p s) = ready s" "pcs (goto j p s) = (pcs s)[j := p]"
  by (simp_all add: goto_def)

lemma update_commute: "s\<lparr>wait_task_0 := b, pcs := qs\<rparr> = s\<lparr>pcs := qs, wait_task_0 := b\<rparr>"
  by (cases s) simp

definition moves :: "nat \<Rightarrow> pool \<Rightarrow> event list \<Rightarrow> pool \<Rightarrow> bool" where
  "moves j s ev s' \<longleftrightarrow> (\<exists>qs. wakes (pcs s) qs \<and> move j (s\<lparr>pcs := qs\<rparr>) ev s')"

lemma movesI: "move j s ev s' \<Longrightarrow> moves j s ev s'"
  unfolding moves_def by (intro exI[of _ "pcs s"]) simp

lemma moves_signal:
  assumes "signal a b c s = Some s'" "woken a = Some b" "j < length (pcs s)" "woken (pcs s ! j) = None"
    "\<And>qs. wakes (pcs s) qs \<Longrightarrow> qs ! j = pcs s ! j \<Longrightarrow> (a \<in> set qs \<longrightarrow> b \<in> set qs) \<Longrightarrow> move j (s\<lparr>pcs := qs\<rparr>) ev (f (s\<lparr>pcs := qs\<rparr>))"
  shows "moves j s ev (f s')"
  using assms(1,2) by (rule signal_wakes) (use assms wakes_same in \<open>auto simp: moves_def\<close>)

lemma worker_moves:
  assumes "worker_step j c p s = Step ev s'" "pcs s ! j = Worker p" "j < length (pcs s)"
    "alive s \<or> \<not> touches (pcs s ! j)"
  shows "moves j s ev s'"
proof (cases "p = W_wait0 \<and> wait_task_0 s")
  case True
  let ?qs = "map (\<lambda>p. if p = Wait T_waiting then Wait T_woken else p) (pcs s)"
  have "wakes (pcs s) ?qs" by (simp add: wakes_map)
  moreover have "move j (s\<lparr>pcs := ?qs\<rparr>) [] (goto j (Worker W_destroy) (s\<lparr>pcs := ?qs\<rparr>\<lparr>wait_task_0 := False\<rparr>))"
    by (rule move.W_wait0) (use True assms in auto)
  ultimately show ?thesis
    using True assms by (auto simp: moves_def broadcast_def update_commute intro!: exI[of _ ?qs])
next
  case False
  have "move j s ev s'"
    using assms False
    by (cases p) (auto simp: task_take_def intro: move.intros split: if_splits option.splits)
  then show ?thesis by (rule movesI)
qed

lemma enq_moves:
  assumes "enq_step j c p w t s = Step ev s'" "pcs s ! j = Enq p w t" "j < length (pcs s)" "alive s"
  shows "moves j s ev s'"
proof (cases p)
  case E_signal
  with assms obtain s1 where s1: "signal (Worker W_waiting) (Worker W_woken) c s = Some s1"
    "ev = []" "s' = goto j (if w then Worker W_lock else Outside) s1"
    by (auto split: option.splits)
  have "moves j s [] (goto j (if w then Worker W_lock else Outside) s1)"
    by (rule moves_signal[OF s1(1)]) (use assms E_signal in \<open>auto intro!: move.E_signal\<close>)
  with s1 show ?thesis by simp
qed (use assms in \<open>auto intro!: movesI intro: move.intros split: if_splits option.splits\<close>)

lemma cleanup_moves:
  assumes "cleanup_step j c p s = Step ev s'" "pcs s ! j = Cleanup p" "j < length (pcs s)" "alive s"
  shows "moves j s ev s'"
proof (cases p)
  case C_signal
  with assms obtain s1 where "signal (Destroy D_waiting) (Destroy D_woken) c s = Some s1"
    "ev = []" "s' = goto j Exited s1"
    by (auto split: option.splits)
  with assms C_signal show ?thesis
    by (auto intro!: moves_signal[where f = "goto j Exited"] move.C_signal)
qed (use assms in \<open>auto intro!: movesI intro: move.intros split: if_splits\<close>)

lemma create_moves:
  assumes "create_step j c p s = Step ev s'" "pcs s ! j = Create p" "j < length (pcs s)" "alive s"
  shows "moves j s ev s'"
  using assms by (cases p) (auto intro!: movesI intro: move.intros split: if_splits)

lemma destroy_moves:
  assumes "destroy_step j c p s = Step ev s'" "pcs s ! j = Destroy p" "j < length (pcs s)"
    "alive s \<or> \<not> touches (pcs s ! j)"
  shows "moves j s ev s'"
proof (cases "p = D_loop \<and> running_workers s > 0")
  case True
  with assms obtain s1 where "signal (Worker W_waiting) (Worker W_woken) c s = Some s1"
    "ev = []" "s' = goto j (Destroy D_sleep) s1"
    by (auto split: option.splits)
  with assms True show ?thesis
    by (auto intro!: moves_signal[where f = "goto j (Destroy D_sleep)"] move.D_loop)
next
  case False
  with assms show ?thesis
    by (cases "(j, c, p, s)" rule: destroy_step.cases)
      (auto intro!: movesI intro: move.intros split: if_splits option.splits)
qed

lemma wait_moves:
  assumes "wait_step j p s = Step ev s'" "pcs s ! j = Wait p" "alive s"
  shows "moves j s ev s'"
  using assms by (cases p) (auto intro!: movesI intro: move.intros split: if_splits)

lemma step_moves:
  assumes "step s ev s'"
  obtains (idle) "s' = s" "\<forall>e\<in>set ev. \<exists>b. e = Refused b"
  | (wake) qs where "s' = s\<lparr>pcs := qs\<rparr>" "wakes (pcs s) qs" "ev = []"
  | (move) j where "j < length (pcs s)" "moves j s ev s'"
  using assms
proof cases
  case (thread j c)
  then have "moves j s ev s'"
    by (auto simp: thread_step_def split: if_splits pc.splits
        intro: worker_moves enq_moves cleanup_moves create_moves destroy_moves wait_moves)
  with thread move show ?thesis by blast
next
  case (spurious j p)
  with wake[of "(pcs s)[j := p]"] show ?thesis by (simp add: goto_def wakes_update)
next
  case (add j c b)
  then have "s' = s \<and> ev = [Refused b] \<or> moves j s ev s'"
    by (auto simp: thrpool_add_task_def intro!: movesI intro: move.intros split: if_splits)
  with add idle move show ?thesis by auto
next
  case (destroy j w)
  then have "s' = s \<and> ev = [] \<or> moves j s ev s'"
    by (auto simp: thrpool_destroy_def intro!: movesI intro: move.intros split: if_splits)
  with destroy idle move show ?thesis by auto
next
  case (wait j)
  then have "s' = s \<and> ev = [] \<or> moves j s ev s'"
    by (auto simp: thrpool_wait_def intro!: movesI intro: move.intros split: if_splits)
  with wait idle move show ?thesis by auto
qed

text \<open>
  So an invariant holds in every state of a run if it holds at the start, survives waking
  threads and every move.
\<close>

lemma run_invariant:
  assumes "run workers clients tr s"
    and "\<And>s. thrpool_create workers clients = Some s \<Longrightarrow> I s"
    and "\<And>s qs. I s \<Longrightarrow> wakes (pcs s) qs \<Longrightarrow> I (s\<lparr>pcs := qs\<rparr>)"
    and "\<And>j s ev s'. I s \<Longrightarrow> j < length (pcs s) \<Longrightarrow> move j s ev s' \<Longrightarrow> I s'"
  shows "I s"
  using assms(1)
proof induction
  case (step tr s ev s')
  from \<open>step s ev s'\<close> show ?case
  proof (cases rule: step_moves)
    case (move j)
    then obtain qs where "wakes (pcs s) qs" "move j (s\<lparr>pcs := qs\<rparr>) ev s'"
      by (auto simp: moves_def)
    moreover from this(1) have "length qs = length (pcs s)" by (simp add: wakes_def)
    ultimately show ?thesis
      using assms(3)[OF step.IH] assms(4)[of "s\<lparr>pcs := qs\<rparr>" j ev s'] move(1) by simp
  qed (use step.IH assms(3) in auto)
qed (use assms(2) in auto)

section \<open>Mutual exclusion\<close>

fun in_task :: "pc \<Rightarrow> bool" where
  "in_task (Worker p) = (p \<in> {W_front, W_wait0, W_destroy, W_sleep, W_take})"
| "in_task (Enq p w t) = (p = E_link)"
| "in_task (Destroy p) = (p = D_detach)"
| "in_task (Wait p) = (p = T_test)"
| "in_task _ = False"

fun in_workers :: "pc \<Rightarrow> bool" where
  "in_workers (Cleanup p) = (p = C_dec)"
| "in_workers (Destroy p) = (p = D_loop \<or> p = D_sleep)"
| "in_workers _ = False"

definition locks :: "pool \<Rightarrow> bool" where
  "locks s \<longleftrightarrow>
     (\<forall>j. task_m s = Some j \<longleftrightarrow> j < length (pcs s) \<and> in_task (pcs s ! j)) \<and>
     (\<forall>j. worker_m s = Some j \<longleftrightarrow> j < length (pcs s) \<and> in_workers (pcs s ! j))"

lemma wakes_in:
  assumes "wakes ps qs" "k < length ps"
  shows "in_task (qs ! k) = in_task (ps ! k)" "in_workers (qs ! k) = in_workers (ps ! k)"
  using assms by (auto simp: wakes_def woken_Some)

lemma locks_wakes: "locks s \<Longrightarrow> wakes (pcs s) qs \<Longrightarrow> locks (s\<lparr>pcs := qs\<rparr>)"
  using wakes_in[of "pcs s" qs] by (auto simp: locks_def wakes_def)

lemma task_link_fields:
  assumes "task_link t s = Some s'"
  shows "pcs s' = pcs s" "task_m s' = task_m s" "worker_m s' = worker_m s" "destroy s' = destroy s"
    "running_workers s' = running_workers s" "wait_task_0 s' = wait_task_0 s" "alive s' = alive s"
    "ready s' = ready s" "min_workers s' = min_workers s" "task_front s' \<noteq> None"
  using assms by (auto simp: task_link_def split: option.splits)

text \<open>The mutex owners after thread \<open>j\<close> has gone to \<open>p\<close>.\<close>

definition handover :: "(pc \<Rightarrow> bool) \<Rightarrow> nat \<Rightarrow> pc \<Rightarrow> pc \<Rightarrow> nat option \<Rightarrow> nat option \<Rightarrow> bool" where
  "handover P j q p m m' \<longleftrightarrow>
     (if P p then m' = Some j \<and> (P q \<or> m = None) else m' = (if P q then None else m))"

lemma owner_update:
  assumes "\<forall>i. m = Some i \<longleftrightarrow> i < length ps \<and> P (ps ! i)" "j < length ps" "handover P j (ps ! j) p m m'"
  shows "m' = Some i \<longleftrightarrow> i < length ps \<and> P (ps[j := p] ! i)"
  using assms(1)[rule_format, of i] assms(1)[rule_format, of j] assms(2,3)
  by (cases "i = j") (auto simp: handover_def split: if_splits)

lemma locks_goto:
  assumes "locks s" "j < length (pcs s)" "pcs s' = (pcs s)[j := pcs s' ! j]"
    "handover in_task j (pcs s ! j) (pcs s' ! j) (task_m s) (task_m s')"
    "handover in_workers j (pcs s ! j) (pcs s' ! j) (worker_m s) (worker_m s')"
  shows "locks s'"
proof -
  have "\<forall>i. task_m s = Some i \<longleftrightarrow> i < length (pcs s) \<and> in_task (pcs s ! i)"
    "\<forall>i. worker_m s = Some i \<longleftrightarrow> i < length (pcs s) \<and> in_workers (pcs s ! i)"
    using assms(1) unfolding locks_def by blast+
  note owner_update[OF this(1) assms(2,4)] owner_update[OF this(2) assms(2,5)]
  moreover have "length (pcs s') = length (pcs s)"
    by (subst assms(3)) simp
  ultimately show ?thesis
    unfolding locks_def by (simp only: assms(3)[symmetric] simp_thms)
qed

lemma locks_new:
  assumes "locks s"
  shows "locks (s\<lparr>pcs := pcs s @ [Worker W_lock]\<rparr>)"
  using assms by (auto simp: locks_def nth_append less_Suc_eq split: if_splits)

lemma locks_move:
  assumes "locks s" "j < length (pcs s)" "move j s ev s'"
  shows "locks s'"
proof -
  have own: "in_task (pcs s ! j) \<Longrightarrow> task_m s = Some j" "in_workers (pcs s ! j) \<Longrightarrow> worker_m s = Some j"
    using assms(1,2) by (auto simp: locks_def)
  show ?thesis
    using assms(3)
  proof cases
    case (N_new i)
    show ?thesis
      unfolding N_new
      by (rule locks_goto[OF locks_new[OF assms(1)], of j])
        (use assms(2) N_new in \<open>auto simp: nth_append handover_def\<close>)
  qed (rule locks_goto[OF assms(1,2)]; insert own assms(2); auto simp: handover_def task_link_fields; fail)+
qed

lemma locks_create: "thrpool_create workers clients = Some s \<Longrightarrow> locks s"
  by (auto simp: thrpool_create_def locks_def nth_Cons nth_replicate split: if_splits nat.splits)

lemma run_locks: "run workers clients tr s \<Longrightarrow> locks s"
  by (erule run_invariant) (auto intro: locks_create locks_wakes locks_move)

section \<open>The queue of tasks\<close>

subsection \<open>The linked list is a queue\<close>

fun path :: "(addr \<Rightarrow> thrpool_task option) \<Rightarrow> addr option \<Rightarrow> addr list \<Rightarrow> bool" where
  "path h p [] = (p = None)"
| "path h p (a # as) = (p = Some a \<and> (\<exists>k. h a = Some k \<and> path h (next k) as))"

lemma path_cong: "path h p as \<Longrightarrow> (\<And>a. a \<in> set as \<Longrightarrow> h' a = h a) \<Longrightarrow> path h' p as"
  by (induction as arbitrary: p) auto

lemma path_unique: "path h p as \<Longrightarrow> path h p bs \<Longrightarrow> as = bs"
  by (induction as arbitrary: p bs) (case_tac bs; auto)+

lemma path_dom: "path h p as \<Longrightarrow> set as \<subseteq> dom h"
  by (induction as arbitrary: p) auto

lemma path_snoc:
  assumes "path h p as" "as \<noteq> []" "distinct (as @ [t])" "path h (Some t) [t]" "h (last as) = Some k"
  shows "path (h(last as \<mapsto> k\<lparr>next := Some t\<rparr>)) p (as @ [t])"
  using assms
proof (induction as arbitrary: p)
  case (Cons a as)
  show ?case
  proof (cases "as = []")
    case False
    with Cons.prems have "a \<noteq> last as" by auto
    with Cons False show ?thesis by auto
  qed (use Cons.prems in auto)
qed simp

definition queue_rep :: "pool \<Rightarrow> addr list \<Rightarrow> bool" where
  "queue_rep s Q \<longleftrightarrow> path (heap s) (task_front s) Q \<and> distinct Q \<and> (Q \<noteq> [] \<longrightarrow> task_rear s = Some (last Q))"

text \<open>What the rest of the pool relies on: a queue with room for elements that are not in it.\<close>

locale fifo_queue =
  fixes rep :: "'s \<Rightarrow> 'e list \<Rightarrow> bool"
    and fresh :: "'s \<Rightarrow> 'e \<Rightarrow> bool"
    and push :: "'e \<Rightarrow> 's \<Rightarrow> 's option"
    and pop :: "'s \<Rightarrow> ('e option \<times> 's) option"
  assumes push_rep: "rep s q \<Longrightarrow> fresh s x \<Longrightarrow> x \<notin> set q \<Longrightarrow> \<exists>s'. push x s = Some s' \<and> rep s' (q @ [x])"
    and pop_empty: "rep s [] \<Longrightarrow> pop s = Some (None, s)"
    and pop_rep: "rep s (x # q) \<Longrightarrow> \<exists>s'. pop s = Some (Some x, s') \<and> rep s' q"
    and rep_unique: "rep s q \<Longrightarrow> rep s q' \<Longrightarrow> q = q'"
begin

lemma pop_never_faults: "rep s q \<Longrightarrow> pop s \<noteq> None"
  using pop_empty pop_rep by (cases q) fastforce+

lemma pop_result:
  assumes "rep s q" "pop s = Some (r, s')"
  shows "rep s' (tl q) \<and> r = (if q = [] then None else Some (hd q))"
  using assms pop_empty[of s] pop_rep[of s "hd q" "tl q"] by (cases q) auto

lemma push_result:
  assumes "rep s q" "fresh s x" "x \<notin> set q" "push x s = Some s'"
  shows "rep s' (q @ [x])"
  using push_rep[OF assms(1-3)] assms(4) by auto

lemma push_then_pop:
  assumes "rep s q" "fresh s x" "x \<notin> set q" "push x s = Some s'" "pop s' = Some (r, s'')"
  shows "r = Some (hd (q @ [x])) \<and> rep s'' (tl (q @ [x]))"
  using pop_result[OF push_result[OF assms(1-4)] assms(5)] by auto

end

interpretation task_queue: fifo_queue queue_rep "\<lambda>s t. path (heap s) (Some t) [t]" task_link task_take
proof
  fix s q x assume q: "queue_rep s q" "path (heap s) (Some x) [x]" "x \<notin> set q"
  show "\<exists>s'. task_link x s = Some s' \<and> queue_rep s' (q @ [x])"
  proof (cases q rule: rev_cases)
    case Nil
    with q show ?thesis by (auto simp: queue_rep_def task_link_def)
  next
    case (snoc q' r)
    then have "task_front s \<noteq> None" "task_rear s = Some r"
      using q by (auto simp: queue_rep_def neq_Nil_conv Cons_eq_append_conv) (cases q'; auto)+
    moreover obtain k where k: "heap s r = Some k"
      using q snoc path_dom[of "heap s" "task_front s" q] by (auto simp: queue_rep_def)
    moreover have "path ((heap s)(r \<mapsto> k\<lparr>next := Some x\<rparr>)) (task_front s) (q @ [x])"
      using path_snoc[of "heap s" "task_front s" q x k] q k snoc by (auto simp: queue_rep_def)
    ultimately show ?thesis
      using q by (auto simp: queue_rep_def task_link_def)
  qed
next
  fix s x q assume "queue_rep s (x # q)"
  then show "\<exists>s'. task_take s = Some (Some x, s') \<and> queue_rep s' q"
    by (auto simp: queue_rep_def task_take_def)
qed (auto simp: queue_rep_def task_take_def intro: path_unique)

section \<open>Schedules\<close>

text \<open>A schedule: which thread moves, with which choice of the environment, and the calls of clients.\<close>

datatype act = Move nat nat | Call_add nat nat job | Call_destroy nat bool | Call_wait nat

fun act_step :: "act \<Rightarrow> pool \<Rightarrow> outcome" where
  "act_step (Move j c) s = (if j < length (pcs s) then thread_step j c s else Blocked)"
| "act_step (Call_add j c b) s =
     (if j < length (pcs s) \<and> pcs s ! j = Outside then thrpool_add_task j c b s else Blocked)"
| "act_step (Call_destroy j w) s =
     (if j < length (pcs s) \<and> pcs s ! j = Outside then thrpool_destroy j w s else Blocked)"
| "act_step (Call_wait j) s =
     (if j < length (pcs s) \<and> pcs s ! j = Outside then thrpool_wait j s else Blocked)"

fun schedule :: "act list \<Rightarrow> pool \<Rightarrow> (event list \<times> pool) option" where
  "schedule [] s = Some ([], s)"
| "schedule (a # as) s =
     (case act_step a s of
        Step ev s' \<Rightarrow> (case schedule as s' of None \<Rightarrow> None | Some (tr, s'') \<Rightarrow> Some (ev @ tr, s''))
      | _ \<Rightarrow> None)"

lemma act_step: "act_step a s = Step ev s' \<Longrightarrow> step s ev s'"
  by (cases a) (auto intro: step.intros split: if_splits)

lemma schedule_run:
  assumes "run workers clients tr s" "schedule as s = Some (tr', s')"
  shows "run workers clients (tr @ tr') s'"
  using assms
proof (induction as arbitrary: tr tr' s)
  case (Cons a as)
  then obtain ev s1 tr1 where *: "act_step a s = Step ev s1" "schedule as s1 = Some (tr1, s')" "tr' = ev @ tr1"
    by (auto split: outcome.splits option.splits)
  have "run workers clients (tr @ ev) s1"
    using run.step[OF Cons.prems(1) act_step[OF *(1)]] .
  with Cons.IH[OF this *(2)] * show ?case by simp
qed simp

lemma created_schedule:
  assumes "thrpool_create workers clients = Some s" "schedule as s = Some (tr, s')"
  shows "run workers clients tr s'"
  using schedule_run[OF run.create[OF assms(1)] assms(2)] by simp

text \<open>A pool with one worker, thread 1, created by thread 0.\<close>

definition start_pool :: "act list" where
  "start_pool = [Move 0 0, Move 0 0, Move 0 0]"

lemmas evaluate_schedule = start_pool_def thread_step_def thrpool_create_def goto_def signal_def broadcast_def
  thrpool_add_task_def thrpool_destroy_def thrpool_wait_def task_link_def task_take_def job_of_def

text \<open>
  A task is queued and the worker is asleep with a signal on its way: the hypotheses of the
  progress theorem hold.
\<close>

definition queued_task :: "act list" where
  "queued_task = start_pool @ map (Move 1) [0, 0, 0, 0, 0] @ Call_add 0 7 (5, 6) # map (Move 0) [0, 0]"

lemma queued_task_run:
  obtains tr s where "run 1 0 tr s" "ready s" "alive s" "\<not> destroy s" "task_front s = Some 7"
    "pcs s = [Enq E_signal False 7, Worker W_waiting]" "tr = [Enqueued (5, 6)]" "heap s 7 \<noteq> None"
proof -
  obtain s0 where "thrpool_create 1 0 = Some s0" by (simp add: thrpool_create_def)
  moreover from this have "\<exists>tr s. schedule queued_task s0 = Some (tr, s) \<and> ready s \<and> alive s \<and> \<not> destroy s \<and>
      task_front s = Some 7 \<and> pcs s = [Enq E_signal False 7, Worker W_waiting] \<and> tr = [Enqueued (5, 6)] \<and> heap s 7 \<noteq> None"
    by (auto simp: queued_task_def evaluate_schedule)
  ultimately show ?thesis using that created_schedule by blast
qed

end
