(* ===== verification/Thrpool_Tasks.thy ===== *)
theory Thrpool_Tasks
  imports Thrpool
begin

text \<open>
  The tasks of the thread pool: who owns which task, and the order in which tasks are served.
\<close>

subsection \<open>Ownership of tasks\<close>

lemma path_None [simp]: "path h None as \<longleftrightarrow> as = []"
  by (cases as) auto

text \<open>
  The tasks that a thread holds: the one it runs or is about to link in, or the rest of the list
  that it frees.
\<close>

fun holds :: "(addr \<Rightarrow> thrpool_task option) \<Rightarrow> pc \<Rightarrow> addr list \<Rightarrow> bool" where
  "holds h (Worker (W_run t)) as = (as = [t])"
| "holds h (Enq E_lock w t) as = (as = [t] \<and> path h (Some t) [t])"
| "holds h (Enq E_link w t) as = (as = [t] \<and> path h (Some t) [t])"
| "holds h (Destroy (D_free p)) as = path h p as"
| "holds h _ as = (as = [])"

text \<open>
  Every allocated task is in the queue, \<open>own None\<close>, or held by thread \<open>j\<close>, \<open>own (Some j)\<close>, and none is
  there twice.
\<close>

definition owned :: "(addr \<Rightarrow> thrpool_task option) \<Rightarrow> (nat option \<Rightarrow> addr list) \<Rightarrow> bool" where
  "owned h own \<longleftrightarrow> (\<forall>x. distinct (own x)) \<and>
     (\<forall>x y a. a \<in> set (own x) \<longrightarrow> a \<in> set (own y) \<longrightarrow> x = y) \<and> (\<forall>a. h a \<noteq> None \<longleftrightarrow> (\<exists>x. a \<in> set (own x)))"

definition tasks_inv :: "pool \<Rightarrow> (nat option \<Rightarrow> addr list) \<Rightarrow> bool" where
  "tasks_inv s own \<longleftrightarrow> queue_rep s (own None) \<and> owned (heap s) own \<and>
     (\<forall>j<length (pcs s). holds (heap s) (pcs s ! j) (own (Some j))) \<and>
     (\<forall>j\<ge>length (pcs s). own (Some j) = [])"

lemma holds_cong: "holds h p as \<Longrightarrow> (\<And>a. a \<in> set as \<Longrightarrow> h' a = h a) \<Longrightarrow> holds h' p as"
  by (cases "(h, p, as)" rule: holds.cases) (auto intro: path_cong)

lemma holds_woken: "woken p = Some q \<Longrightarrow> holds h q as = holds h p as"
  by (auto simp: woken_Some)

lemma tasks_inv_wakes: "tasks_inv s own \<Longrightarrow> wakes (pcs s) qs \<Longrightarrow> tasks_inv (s\<lparr>pcs := qs\<rparr>) own"
  unfolding tasks_inv_def queue_rep_def wakes_def using holds_woken by fastforce

lemma ownedI:
  assumes "\<And>x. distinct (own x)" "\<And>x y a. a \<in> set (own x) \<Longrightarrow> a \<in> set (own y) \<Longrightarrow> x = y"
    "\<And>a. h a \<noteq> None \<longleftrightarrow> (\<exists>x. a \<in> set (own x))"
  shows "owned h own"
  unfolding owned_def using assms by auto

lemma ownedD:
  assumes "owned h own"
  shows "distinct (own x)" "a \<in> set (own x) \<Longrightarrow> a \<in> set (own y) \<Longrightarrow> x = y"
    "h a \<noteq> None \<longleftrightarrow> (\<exists>x. a \<in> set (own x))"
  using assms unfolding owned_def by auto

text \<open>The ways in which a step moves tasks.\<close>

lemma owned_exchange:
  assumes "owned h own" "x \<noteq> y" "set as \<union> set bs = set (own x) \<union> set (own y)" "distinct (as @ bs)" "dom h' = dom h"
  shows "owned h' (own(x := as, y := bs))"
proof (rule ownedI)
  have two: "a \<in> set as \<or> a \<in> set bs \<longleftrightarrow> a \<in> set (own x) \<or> a \<in> set (own y)" for a
    using assms(3) by blast
  show "distinct ((own(x := as, y := bs)) z)" for z
    using ownedD(1)[OF assms(1)] assms(4) by auto
  show "z = z'" if "a \<in> set ((own(x := as, y := bs)) z)" "a \<in> set ((own(x := as, y := bs)) z')" for a z z'
    using that ownedD(2)[OF assms(1)] assms(2,4) two[of a] by (auto split: if_splits)
  fix a
  have "(\<exists>z. a \<in> set ((own(x := as, y := bs)) z)) \<longleftrightarrow> (\<exists>z. a \<in> set (own z))"
    using two[of a] assms(2) by (metis fun_upd_other fun_upd_same)
  moreover have "h' a \<noteq> None \<longleftrightarrow> h a \<noteq> None"
    using assms(5) by (metis domIff)
  ultimately show "h' a \<noteq> None \<longleftrightarrow> (\<exists>z. a \<in> set ((own(x := as, y := bs)) z))"
    using ownedD(3)[OF assms(1), of a] by simp
qed

lemma owned_free:
  assumes "owned h own" "own x = t # as"
  shows "owned (h(t := None)) (own(x := as))"
proof (rule ownedI)
  have t: "t \<notin> set as" "distinct as"
    using ownedD(1)[OF assms(1), of x] assms(2) by auto
  show "distinct ((own(x := as)) z)" for z
    using ownedD(1)[OF assms(1)] t by auto
  have sub: "a \<in> set ((own(x := as)) z) \<longleftrightarrow> a \<in> set (own z) \<and> a \<noteq> t" for a z
    using ownedD(2)[OF assms(1), of a z x] t assms(2) by auto
  show "z = z'" if "a \<in> set ((own(x := as)) z)" "a \<in> set ((own(x := as)) z')" for a z z'
    using that ownedD(2)[OF assms(1)] unfolding sub by blast
  show "(h(t := None)) a \<noteq> None \<longleftrightarrow> (\<exists>z. a \<in> set ((own(x := as)) z))" for a
    unfolding sub using ownedD(3)[OF assms(1), of a] by auto
qed

lemma owned_new:
  assumes "owned h own" "own x = []" "h t = None"
  shows "owned (h(t \<mapsto> k)) (own(x := [t]))"
proof (rule ownedI)
  have sub: "a \<in> set ((own(x := [t])) z) \<longleftrightarrow> a \<in> set (own z) \<or> a = t \<and> z = x" for a z
    using assms(2) by auto
  have t: "t \<notin> set (own z)" for z
    using ownedD(3)[OF assms(1), of t] assms(3) by auto
  show "distinct ((own(x := [t])) z)" for z
    using ownedD(1)[OF assms(1)] by auto
  show "z = z'" if "a \<in> set ((own(x := [t])) z)" "a \<in> set ((own(x := [t])) z')" for a z z'
    using that ownedD(2)[OF assms(1)] t unfolding sub by blast
  show "(h(t \<mapsto> k)) a \<noteq> None \<longleftrightarrow> (\<exists>z. a \<in> set ((own(x := [t])) z))" for a
    unfolding sub using ownedD(3)[OF assms(1), of a] by auto
qed

lemma owned_dom: "owned h own \<Longrightarrow> dom h' = dom h \<Longrightarrow> owned h' own"
  unfolding owned_def by (metis domIff)

subsection \<open>Steps keep the ownership and serve the queue in order\<close>

text \<open>The queue as the callers see it.\<close>

fun replay :: "job list \<Rightarrow> event list \<Rightarrow> job list option" where
  "replay q [] = Some q"
| "replay q (Enqueued b # es) = replay (q @ [b]) es"
| "replay q (Taken b # es) = (case q of [] \<Rightarrow> None | b' # q' \<Rightarrow> if b = b' then replay q' es else None)"
| "replay q (Detached # es) = replay [] es"
| "replay q (Refused b # es) = replay q es"

definition jobs :: "pool \<Rightarrow> addr list \<Rightarrow> job list" where
  "jobs s Q = map (\<lambda>a. job_of (the (heap s a))) Q"

lemma jobs_cong: "(\<And>a. a \<in> set Q \<Longrightarrow> heap s' a = heap s a) \<Longrightarrow> jobs s' Q = jobs s Q"
  by (simp add: jobs_def)

lemma tasks_inv_goto:
  assumes inv: "tasks_inv s own" and j: "j < length (pcs s)" "pcs s' = (pcs s)[j := p]"
    and eq: "heap s' = heap s" "task_front s' = task_front s" "task_rear s' = task_rear s"
    and p: "\<And>h as. holds h p as = holds h (pcs s ! j) as"
  shows "tasks_inv s' own"
  using assms unfolding tasks_inv_def queue_rep_def by (auto simp: nth_list_update)

lemma holds_others:
  assumes inv: "tasks_inv s own" and i: "i < length (pcs s)" "i \<noteq> j"
    and h: "\<And>a. a \<notin> set (own (Some j)) \<Longrightarrow> a \<notin> set (own None) \<Longrightarrow> a \<in> dom (heap s) \<Longrightarrow> h' a = heap s a"
  shows "holds h' (pcs s ! i) (own (Some i))"
proof (rule holds_cong)
  show "holds (heap s) (pcs s ! i) (own (Some i))"
    using inv i by (simp add: tasks_inv_def)
  fix a assume a: "a \<in> set (own (Some i))"
  have ow: "owned (heap s) own" using inv by (simp add: tasks_inv_def)
  show "h' a = heap s a"
    using h[of a] ownedD(2)[OF ow a, of "Some j"] ownedD(2)[OF ow a, of None] ownedD(3)[OF ow, of a] a i(2)
    by blast
qed

lemma tasks_inv_change:
  assumes inv: "tasks_inv s own" and j: "j < length (pcs s)" "pcs s' = (pcs s)[j := p]"
    and Q: "queue_rep s' Q" and ow: "owned (heap s') (own(None := Q, Some j := as))"
    and p: "holds (heap s') p as"
    and h: "\<And>a. a \<notin> set (own (Some j)) \<Longrightarrow> a \<notin> set (own None) \<Longrightarrow> a \<in> dom (heap s) \<Longrightarrow> heap s' a = heap s a"
  shows "tasks_inv s' (own(None := Q, Some j := as))"
proof -
  have "holds (heap s') (pcs s' ! i) ((own(None := Q, Some j := as)) (Some i))" if "i < length (pcs s')" for i
    using holds_others[OF inv _ _ h] that p j by (cases "i = j") auto
  moreover have "own (Some i) = []" "i \<noteq> j" if "i \<ge> length (pcs s')" for i
    using inv that j by (auto simp: tasks_inv_def)
  ultimately show ?thesis using Q ow by (simp add: tasks_inv_def)
qed

lemma tasks_invD:
  assumes "tasks_inv s own"
  shows "queue_rep s (own None)" "owned (heap s) own" "path (heap s) (task_front s) (own None)"
    "j < length (pcs s) \<Longrightarrow> holds (heap s) (pcs s ! j) (own (Some j))"
  using assms by (auto simp: tasks_inv_def queue_rep_def)

lemma tasks_take:
  assumes inv: "tasks_inv s own" and j: "j < length (pcs s)" "pcs s ! j = Worker W_take"
    and t: "task_front s = Some t" "heap s t = Some k"
  shows "\<exists>own'. tasks_inv (goto j (Worker (W_run t)) (s\<lparr>task_front := next k, task_m := None\<rparr>)) own' \<and>
    jobs s (own None) = job_of k # jobs s (own' None)"
proof -
  have as: "own (Some j) = []"
    using tasks_invD(4)[OF inv j(1)] j(2) by simp
  obtain Q where Q: "own None = t # Q"
    using tasks_invD(3)[OF inv] t by (cases "own None") auto
  have "task_take s = Some (Some t, s\<lparr>task_front := next k\<rparr>)"
    using t by (simp add: task_take_def)
  then have "queue_rep (s\<lparr>task_front := next k\<rparr>) Q"
    using task_queue.pop_result[OF tasks_invD(1)[OF inv]] Q by auto
  moreover have "owned (heap s) (own(None := Q, Some j := [t]))"
    using tasks_invD(2)[OF inv] Q as ownedD(1)[OF tasks_invD(2)[OF inv], of None]
    by (intro owned_exchange) auto
  ultimately have "tasks_inv (goto j (Worker (W_run t)) (s\<lparr>task_front := next k, task_m := None\<rparr>)) (own(None := Q, Some j := [t]))"
    using inv j by (intro tasks_inv_change[where p = "Worker (W_run t)"]) (auto simp: queue_rep_def)
  moreover have "jobs s (own None) = job_of k # jobs s Q"
    using Q t by (simp add: jobs_def)
  ultimately show ?thesis by auto
qed

lemma tasks_link:
  assumes inv: "tasks_inv s own" and j: "j < length (pcs s)" "pcs s ! j = Enq E_link w t"
    and t: "heap s t = Some k" "task_link t s = Some s'"
  shows "\<exists>own'. tasks_inv (goto j (Enq E_signal w t) (s'\<lparr>task_m := None\<rparr>)) own' \<and>
    jobs s (own None) @ [job_of k] = jobs s' (own' None)"
proof -
  have as: "own (Some j) = [t]" "path (heap s) (Some t) [t]"
    using tasks_invD(4)[OF inv j(1)] j(2) by auto
  have notin: "t \<notin> set (own None)"
    using ownedD(2)[OF tasks_invD(2)[OF inv], of t "Some j" None] as by auto
  have heap: "dom (heap s') = dom (heap s)" "a \<notin> set (own None) \<Longrightarrow> heap s' a = heap s a"
    "job_of (the (heap s' a)) = job_of (the (heap s a))" for a
    using t(2) tasks_invD(1)[OF inv]
    by (cases "own None"; auto simp: task_link_def queue_rep_def job_of_def split: option.splits if_splits)+
  have "queue_rep s' (own None @ [t])"
    using task_queue.push_result[OF tasks_invD(1)[OF inv] as(2) notin t(2)] .
  moreover have "owned (heap s') (own(None := own None @ [t], Some j := []))"
    using tasks_invD(2)[OF inv] as heap(1) notin ownedD(1)[OF tasks_invD(2)[OF inv], of None]
    by (intro owned_exchange) auto
  ultimately have "tasks_inv (goto j (Enq E_signal w t) (s'\<lparr>task_m := None\<rparr>)) (own(None := own None @ [t], Some j := []))"
    using inv j task_link_fields(1)[OF t(2)] heap(2)
    by (intro tasks_inv_change[where p = "Enq E_signal w t"]) (auto simp: queue_rep_def)
  moreover have "jobs s (own None) @ [job_of k] = jobs s' (own None @ [t])"
    using heap(3) t(1) by (auto simp: jobs_def)
  ultimately show ?thesis by auto
qed

lemma tasks_free:
  assumes inv: "tasks_inv s own" and j: "j < length (pcs s)" "own (Some j) = t # as" "pcs s' = (pcs s)[j := p]"
    and s': "heap s' = (heap s)(t := None)" "task_front s' = task_front s" "task_rear s' = task_rear s"
    and p: "\<And>h. (\<And>a. a \<in> set as \<Longrightarrow> h a = heap s a) \<Longrightarrow> holds h p as"
  shows "\<exists>own'. tasks_inv s' own' \<and> jobs s (own None) = jobs s' (own' None)"
proof -
  note ow = tasks_invD(2)[OF inv]
  have t: "t \<notin> set (own None)" "t \<notin> set as"
    using ownedD(2)[OF ow, of t "Some j" None] ownedD(1)[OF ow, of "Some j"] j by auto
  have "path (heap s') (task_front s') (own None)"
    using tasks_invD(3)[OF inv] t s' by (auto intro: path_cong)
  then have "queue_rep s' (own None)"
    using tasks_invD(1)[OF inv] s' by (simp add: queue_rep_def)
  moreover have "owned (heap s') (own(None := own None, Some j := as))"
    using owned_free[OF ow j(2)] s' by simp
  moreover have "holds (heap s') p as"
    using t s' by (intro p) auto
  ultimately have "tasks_inv s' (own(None := own None, Some j := as))"
    by (rule tasks_inv_change[OF inv j(1,3)]) (use s' j in auto)
  moreover have "jobs s (own None) = jobs s' (own None)"
    using t s' by (auto simp: jobs_def)
  ultimately show ?thesis by auto
qed

lemma tasks_keep:
  assumes inv: "tasks_inv s own" and j: "j < length (pcs s)" "pcs s' = (pcs s)[j := p]"
    and s': "dom (heap s') = insert t (dom (heap s))" "task_front s' = task_front s" "task_rear s' = task_rear s"
      "\<And>a. a \<noteq> t \<Longrightarrow> heap s' a = heap s a"
    and t: "own (Some j) = [t] \<or> own (Some j) = [] \<and> heap s t = None"
    and p: "holds (heap s') p [t]"
  shows "\<exists>own'. tasks_inv s' own' \<and> jobs s (own None) = jobs s' (own' None)"
proof -
  note ow = tasks_invD(2)[OF inv]
  have notin: "t \<notin> set (own None)"
    using ownedD(2)[OF ow, of t "Some j" None] ownedD(3)[OF ow, of t] t by auto
  have "path (heap s') (task_front s') (own None)"
    using path_cong[OF tasks_invD(3)[OF inv], of "heap s'"] notin s'(2,4) by metis
  then have "queue_rep s' (own None)"
    using tasks_invD(1)[OF inv] s' by (simp add: queue_rep_def)
  moreover have "owned (heap s') (own(None := own None, Some j := [t]))"
    using t
  proof
    assume "own (Some j) = [t]"
    moreover from this have "t \<in> dom (heap s)" using ownedD(3)[OF ow, of t] by (metis domIff list.set_intros(1))
    ultimately show ?thesis using owned_dom[OF ow] s' by (simp add: insert_absorb fun_upd_idem)
  next
    assume n: "own (Some j) = [] \<and> heap s t = None"
    then have "owned ((heap s)(t \<mapsto> the (heap s' t))) (own(Some j := [t]))"
      using owned_new[OF ow] by blast
    then show ?thesis using owned_dom s' by fastforce
  qed
  ultimately have "tasks_inv s' (own(None := own None, Some j := [t]))"
    by (rule tasks_inv_change[OF inv j]) (use s' t p in auto, metis option.distinct(1))
  moreover have "jobs s (own None) = jobs s' (own None)"
    using jobs_cong[of "own None" s' s] notin s'(4) by metis
  ultimately show ?thesis by auto
qed

lemma tasks_detach:
  assumes inv: "tasks_inv s own" and j: "j < length (pcs s)" "own (Some j) = []"
  shows "\<exists>own'. tasks_inv (goto j (Destroy (D_free (task_front s))) (s\<lparr>task_front := None, task_m := None\<rparr>)) own' \<and>
    own' None = []"
proof -
  note ow = tasks_invD(2)[OF inv]
  have "owned (heap s) (own(None := [], Some j := own None))"
    using ow j(2) ownedD(1)[OF ow, of None] by (intro owned_exchange) auto
  then have "tasks_inv (goto j (Destroy (D_free (task_front s))) (s\<lparr>task_front := None, task_m := None\<rparr>))
      (own(None := [], Some j := own None))"
    using inv j tasks_invD(3)[OF inv]
    by (intro tasks_inv_change[where p = "Destroy (D_free (task_front s))"]) (auto simp: queue_rep_def)
  then show ?thesis by auto
qed

lemma tasks_new_thread:
  assumes "tasks_inv s own"
  shows "tasks_inv (s\<lparr>pcs := pcs s @ [Worker W_lock]\<rparr>) own"
  using assms by (auto simp: tasks_inv_def queue_rep_def nth_append less_Suc_eq)

lemma tasks_move:
  assumes inv: "tasks_inv s own" and j: "j < length (pcs s)" and mv: "move j s ev s'"
  shows "\<exists>own'. tasks_inv s' own' \<and> replay (jobs s (own None)) ev = Some (jobs s' (own' None))"
proof -
  note hd = tasks_invD(4)[OF inv j]
  have same: "\<exists>own'. tasks_inv s' own' \<and> jobs s (own None) = jobs s' (own' None)"
    if "pcs s' = (pcs s)[j := pcs s' ! j]" "\<And>h as. holds h (pcs s' ! j) as = holds h (pcs s ! j) as"
      "heap s' = heap s" "task_front s' = task_front s" "task_rear s' = task_rear s"
    using tasks_inv_goto[OF inv j that(1,3-5,2)] jobs_cong[of "own None" s' s] that(3) by auto
  show ?thesis
    using mv
  proof cases
    case (W_take t k)
    then show ?thesis using tasks_take[OF inv j] by (fastforce simp: jobs_def)
  next
    case (E_link w t k s1)
    then show ?thesis using tasks_link[OF inv j] by (fastforce simp: jobs_def)
  next
    case (W_again t k)
    then have "\<exists>own'. tasks_inv s' own' \<and> jobs s (own None) = jobs s' (own' None)"
      using hd by (intro tasks_keep[OF inv j, where t = t and p = "Enq E_lock True t"]) auto
    with W_again show ?thesis by simp
  next
    case (A_task c b)
    then have "\<exists>own'. tasks_inv s' own' \<and> jobs s (own None) = jobs s' (own' None)"
      using hd by (intro tasks_keep[OF inv j, where t = c and p = "Enq E_lock False c"]) auto
    with A_task show ?thesis by simp
  next
    case (W_free t k)
    then have "\<exists>own'. tasks_inv s' own' \<and> jobs s (own None) = jobs s' (own' None)"
      using hd by (intro tasks_free[OF inv j, where t = t and p = "Worker W_lock"]) auto
    with W_free show ?thesis by simp
  next
    case (D_free t k)
    then obtain as where as: "own (Some j) = t # as" "path (heap s) (next k) as"
      using hd by (cases "own (Some j)") auto
    then have "\<exists>own'. tasks_inv s' own' \<and> jobs s (own None) = jobs s' (own' None)"
      using D_free by (intro tasks_free[OF inv j, where p = "Destroy (D_free (next k))"]) (auto intro: path_cong)
    with D_free show ?thesis by simp
  next
    case D_detach
    then show ?thesis using tasks_detach[OF inv j] hd by (fastforce simp: jobs_def)
  next
    case (N_new i)
    have "tasks_inv s' own"
      unfolding N_new
      by (rule tasks_inv_goto[OF tasks_new_thread[OF inv], of j]) (use j N_new in \<open>auto simp: nth_append\<close>)
    with N_new show ?thesis by (auto simp: jobs_def)
  qed (insert same j hd; auto; fail)+
qed

lemma replay_append: "replay q (a @ b) = Option.bind (replay q a) (\<lambda>q'. replay q' b)"
  by (induction q a rule: replay.induct) (auto split: list.splits)

lemma replay_refused: "\<forall>e\<in>set ev. \<exists>b. e = Refused b \<Longrightarrow> replay q ev = Some q"
  by (induction ev) auto

lemma tasks_step:
  assumes "tasks_inv s own" "step s ev s'"
  shows "\<exists>own'. tasks_inv s' own' \<and> replay (jobs s (own None)) ev = Some (jobs s' (own' None))"
  using assms(2)
proof (cases rule: step_moves)
  case idle
  with assms show ?thesis by (auto simp: replay_refused)
next
  case (wake qs)
  with tasks_inv_wakes[OF assms(1)] show ?thesis by (auto simp: jobs_def)
next
  case (move j)
  then obtain qs where qs: "wakes (pcs s) qs" "move j (s\<lparr>pcs := qs\<rparr>) ev s'"
    by (auto simp: moves_def)
  moreover from qs(1) have "j < length (pcs (s\<lparr>pcs := qs\<rparr>))" using move by (simp add: wakes_def)
  moreover have "jobs (s\<lparr>pcs := qs\<rparr>) Q = jobs s Q" for Q by (simp add: jobs_def)
  ultimately show ?thesis
    using tasks_move[OF tasks_inv_wakes[OF assms(1) qs(1)]] by metis
qed

lemma run_tasks:
  assumes "run workers clients tr s"
  shows "\<exists>own. tasks_inv s own \<and> replay [] tr = Some (jobs s (own None))"
  using assms
proof induction
  case (create s)
  then have "tasks_inv s (\<lambda>_. [])"
    by (auto simp: thrpool_create_def tasks_inv_def queue_rep_def owned_def nth_Cons split: if_splits nat.splits)
  then show ?case by (force simp: jobs_def)
next
  case (step tr s ev s')
  then show ?case using tasks_step by (fastforce simp: replay_append)
qed

text \<open>
  C14. The queue is served in order. Over any run, with any interleaving of the threads, the tasks
  that workers take are the tasks that \<^verbatim>\<open>_task_enq\<close> linked in, in the same order, where
  \<^verbatim>\<open>thrpool_destroy\<close> without waiting discards everything that is queued at that moment: replaying the
  queue operations on an abstract queue succeeds and ends with the jobs on the linked list
  from \<^verbatim>\<open>task_front\<close>.
\<close>

theorem thrpool_fifo:
  assumes "run workers clients tr s"
  shows "\<exists>Q. path (heap s) (task_front s) Q \<and> replay [] tr = Some (jobs s Q)"
  using run_tasks[OF assms] tasks_invD(3) by blast

theorem thrpool_fifo_witness:
  "\<exists>tr s Q. run 1 0 tr s \<and> tr = [Enqueued (5, 6)] \<and> path (heap s) (task_front s) Q \<and> replay [] tr = Some (jobs s Q)"
  by (rule queued_task_run) (use thrpool_fifo in blast)

text \<open>
  C15. No task is lost, leaked or in two hands: in every state of a run the allocated tasks
  are the tasks on the list from \<^verbatim>\<open>task_front\<close> and those that some thread runs, is about to link in or is
  about to free, and each of them has one place only. In particular nothing is allocated when the list is
  empty and no thread holds a task.
\<close>

theorem thrpool_tasks_owned:
  assumes "run workers clients tr s"
  shows "\<exists>own. path (heap s) (task_front s) (own None) \<and> owned (heap s) own \<and>
    (\<forall>j<length (pcs s). holds (heap s) (pcs s ! j) (own (Some j)))"
  using run_tasks[OF assms] tasks_invD by blast

theorem thrpool_tasks_owned_witness:
  "\<exists>tr s own. run 1 0 tr s \<and> heap s 7 \<noteq> None \<and> path (heap s) (task_front s) (own None) \<and> owned (heap s) own \<and>
    (\<forall>j<length (pcs s). holds (heap s) (pcs s ! j) (own (Some j)))"
  by (rule queued_task_run) (use thrpool_tasks_owned in blast)

lemma run_tasks_no_fault:
  assumes "run workers clients tr s" "alive s" "j < length (pcs s)"
  shows "thread_step j c s \<noteq> Fault"
proof -
  obtain own where own: "tasks_inv s own"
    using run_tasks[OF assms(1)] by blast
  note hd = tasks_invD(4)[OF own assms(3)] and ow = ownedD(3)[OF tasks_invD(2)[OF own]]
  have held: "heap s t \<noteq> None" if "t \<in> set (own (Some j))" for t
    using ow that by blast
  have take: "task_take s \<noteq> None"
    by (rule task_queue.pop_never_faults[OF tasks_invD(1)[OF own]])
  have link: "task_link t s \<noteq> None" if "own (Some j) = [t]" "path (heap s) (Some t) [t]" for t
  proof -
    have "t \<notin> set (own None)"
      using ownedD(2)[OF tasks_invD(2)[OF own], of t "Some j" None] that by auto
    then show ?thesis
      using task_queue.push_rep[OF tasks_invD(1)[OF own] that(2)] by auto
  qed
  show ?thesis
  proof (cases "pcs s ! j")
    case (Worker p)
    with hd held take assms(2) show ?thesis
      by (cases p) (auto simp: thread_step_def split: option.splits)
  next
    case (Enq p w t)
    with hd held link assms(2) show ?thesis
      by (cases p) (auto simp: thread_step_def split: option.splits)
  next
    case (Cleanup p)
    with assms(2) show ?thesis by (cases p) (auto simp: thread_step_def split: option.splits)
  next
    case (Create p)
    with assms(2) show ?thesis by (cases p) (auto simp: thread_step_def)
  next
    case (Destroy p)
    with hd have "holds (heap s) (Destroy p) (own (Some j))" by simp
    then have "heap s t \<noteq> None" if "p = D_free (Some t)" for t
      using that by (cases "own (Some j)") auto
    with Destroy assms(2) show ?thesis
      by (cases "(j, c, p, s)" rule: destroy_step.cases) (auto simp: thread_step_def split: option.splits)
  next
    case (Wait p)
    with assms(2) show ?thesis by (cases p) (auto simp: thread_step_def)
  qed (simp_all add: thread_step_def)
qed

text \<open>
  C16. Memory safety: as long as the pool has not been freed no thread ever touches a freed task
  or follows a dangling \<^verbatim>\<open>task_rear\<close>, whatever the scheduler and the environment do.
\<close>

theorem thrpool_no_fault:
  assumes "run workers clients tr s" "alive s" "j < length (pcs s)"
  shows "thread_step j c s \<noteq> Fault"
  using run_tasks_no_fault[OF assms] .

theorem thrpool_no_fault_witness:
  "\<exists>tr s. run 1 0 tr s \<and> alive s \<and> length (pcs s) = 2 \<and> thread_step 0 1 s \<noteq> Fault"
  by (rule queued_task_run) (use thrpool_no_fault[of 1 0 _ _ 0 1] in force)

end
