(* ===== verification/Thrpool_Life.thy ===== *)
theory Thrpool_Life
  imports Thrpool_Tasks
begin

text \<open>
  The life of the thread pool: workers that sleep are woken, \<^verbatim>\<open>thrpool_destroy\<close> waits for all of
  them, and where both promises end.
\<close>

lemma locks_exclusive:
  assumes "locks s" "i < length (pcs s)" "j < length (pcs s)"
  shows "in_task (pcs s ! i) \<Longrightarrow> in_task (pcs s ! j) \<Longrightarrow> i = j"
    "in_workers (pcs s ! i) \<Longrightarrow> in_workers (pcs s ! j) \<Longrightarrow> i = j"
  using assms unfolding locks_def by (metis option.inject)+

section \<open>Sleeping and waking\<close>

fun is_worker :: "pc \<Rightarrow> bool" where
  "is_worker (Worker p) = True"
| "is_worker (Enq p w t) = w"
| "is_worker _ = False"

text \<open>
  What a thread knows at its position, given whether the queue is non-empty, a waiter has
  announced itself and the pool is being destroyed.
\<close>

fun knows :: "bool \<Rightarrow> bool \<Rightarrow> bool \<Rightarrow> pc \<Rightarrow> bool" where
  "knows f w d (Worker p) =
     (if p = W_wait0 then \<not> f else if p = W_destroy \<or> p = W_sleep then \<not> f \<and> \<not> w
      else if p = W_take then f \<or> d else True)"
| "knows f w d (Cleanup p) = d"
| "knows f w d Exited = d"
| "knows f w d (Wait p) = (p = T_waiting \<longrightarrow> w)"
| "knows f w d _ = True"

text \<open>A thread that will look at the queue, or is about to send a signal.\<close>

fun awake :: "pc \<Rightarrow> bool" where
  "awake (Worker p) = (p \<noteq> W_waiting)"
| "awake (Enq p w t) = (w \<or> p = E_signal)"
| "awake _ = False"

abbreviation demand :: "pool \<Rightarrow> bool" where
  "demand s \<equiv> task_front s \<noteq> None \<or> wait_task_0 s"

definition wake_inv :: "pool \<Rightarrow> bool" where
  "wake_inv s \<longleftrightarrow> locks s \<and>
     (\<forall>p\<in>set (pcs s). knows (task_front s \<noteq> None) (wait_task_0 s) (destroy s) p) \<and>
     (demand s \<longrightarrow> \<not> destroy s \<longrightarrow> (\<exists>p\<in>set (pcs s). is_worker p) \<longrightarrow> (\<exists>p\<in>set (pcs s). awake p))"

lemma knows_other:
  assumes "knows f w d p" "\<not> in_task p" "w \<longrightarrow> w' \<or> p \<noteq> Wait T_waiting" "d \<longrightarrow> d'"
  shows "knows f' w' d' p"
  using assms by (cases p) auto

lemma knows_mono: "knows f w d p \<Longrightarrow> d \<longrightarrow> d' \<Longrightarrow> knows f w d' p"
  by (cases p) (auto split: if_splits)

lemma wakes_Ball:
  assumes "wakes ps qs" "\<And>p q. woken p = Some q \<Longrightarrow> P p \<Longrightarrow> P q" "\<forall>p\<in>set ps. P p"
  shows "\<forall>p\<in>set qs. P p"
  using assms unfolding wakes_def all_set_conv_all_nth by metis

lemma wakes_Bex:
  assumes "wakes ps qs" "\<And>p q. woken p = Some q \<Longrightarrow> P p \<Longrightarrow> P q" "\<exists>p\<in>set ps. P p"
  shows "\<exists>p\<in>set qs. P p"
  using assms unfolding wakes_def by (metis in_set_conv_nth)

lemma wake_wakes:
  assumes "wake_inv s" "wakes (pcs s) qs"
  shows "wake_inv (s\<lparr>pcs := qs\<rparr>)"
proof -
  have kn: "\<forall>p\<in>set qs. knows (task_front s \<noteq> None) (wait_task_0 s) (destroy s) p"
    using assms by (intro wakes_Ball[OF assms(2)]) (auto simp: woken_Some wake_inv_def)
  have "\<exists>p\<in>set (pcs s). is_worker p" if "\<exists>p\<in>set qs. is_worker p"
  proof (rule ccontr)
    assume "\<not> (\<exists>p\<in>set (pcs s). is_worker p)"
    then have "\<forall>p\<in>set qs. \<not> is_worker p"
      by (intro wakes_Ball[OF assms(2)]) (auto simp: woken_Some)
    with that show False by blast
  qed
  moreover have "\<exists>p\<in>set qs. awake p" if "\<exists>p\<in>set (pcs s). awake p"
    using that by (rule wakes_Bex[OF assms(2), rotated]) (auto simp: woken_Some)
  ultimately show ?thesis
    using assms kn locks_wakes[of s qs] unfolding wake_inv_def by auto
qed

lemma wake_goto:
  assumes inv: "wake_inv s" "locks s'" and j: "j < length (pcs s)" "pcs s' = (pcs s)[j := pcs s' ! j]"
    and q: "task_front s' = task_front s \<and> wait_task_0 s' = wait_task_0 s \<or> in_task (pcs s ! j)"
      "wait_task_0 s \<longrightarrow> wait_task_0 s' \<or> Wait T_waiting \<notin> set (pcs s)" "destroy s \<longrightarrow> destroy s'"
    and p: "knows (task_front s' \<noteq> None) (wait_task_0 s') (destroy s') (pcs s' ! j)"
      "awake (pcs s' ! j) \<or> \<not> demand s' \<or> destroy s' \<or> \<not> (\<exists>p\<in>set (pcs s'). is_worker p) \<or>
       \<not> awake (pcs s ! j) \<and> (demand s' \<longrightarrow> demand s) \<and> (is_worker (pcs s' ! j) \<longrightarrow> is_worker (pcs s ! j)) \<or>
       (\<exists>i<length (pcs s). i \<noteq> j \<and> awake (pcs s ! i))"
  shows "wake_inv s'"
proof -
  have [simp]: "length (pcs s') = length (pcs s)" by (subst j(2)) simp
  have nth: "pcs s' ! i = pcs s ! i" if "i \<noteq> j" for i
    using that by (subst j(2)) simp
  have "knows (task_front s' \<noteq> None) (wait_task_0 s') (destroy s') (pcs s ! i)" if i: "i < length (pcs s)" "i \<noteq> j" for i
  proof -
    have kn: "knows (task_front s \<noteq> None) (wait_task_0 s) (destroy s) (pcs s ! i)"
      using inv i by (simp add: wake_inv_def)
    show ?thesis
      using q(1)
    proof
      assume "task_front s' = task_front s \<and> wait_task_0 s' = wait_task_0 s"
      with knows_mono[OF kn q(3)] show ?thesis by simp
    next
      assume "in_task (pcs s ! j)"
      with locks_exclusive(1)[of s i j] inv(1) i j(1) have "\<not> in_task (pcs s ! i)"
        unfolding wake_inv_def by blast
      with knows_other[OF kn] q(2,3) i show ?thesis by (metis nth_mem)
    qed
  qed
  then have kn: "\<forall>p\<in>set (pcs s'). knows (task_front s' \<noteq> None) (wait_task_0 s') (destroy s') p"
    unfolding all_set_conv_all_nth using p(1) nth by (metis \<open>length (pcs s') = length (pcs s)\<close>)
  have aw: "\<exists>p\<in>set (pcs s'). awake p" if d: "demand s'" "\<not> destroy s'" "\<exists>p\<in>set (pcs s'). is_worker p"
  proof -
    consider "awake (pcs s' ! j)" | i where "i < length (pcs s)" "i \<noteq> j" "awake (pcs s ! i)"
      | "\<not> awake (pcs s ! j)" "demand s" "is_worker (pcs s' ! j) \<longrightarrow> is_worker (pcs s ! j)"
      using p(2) d by blast
    then show ?thesis
    proof cases
      case 3
      obtain i where i: "i < length (pcs s)" "is_worker (pcs s' ! i)"
        using d(3) by (auto simp: in_set_conv_nth)
      with 3 nth[of i] have "is_worker (pcs s ! i)" by (cases "i = j") auto
      with i have "\<exists>p\<in>set (pcs s). is_worker p" by auto
      with inv 3 d q(3) have "\<exists>p\<in>set (pcs s). awake p" by (auto simp: wake_inv_def)
      then obtain k where "k < length (pcs s)" "awake (pcs s ! k)" by (auto simp: in_set_conv_nth)
      with 3 nth[of k] show ?thesis by (metis \<open>length (pcs s') = length (pcs s)\<close> nth_mem)
    qed (use j(1) nth in \<open>metis \<open>length (pcs s') = length (pcs s)\<close> nth_mem\<close>)+
  qed
  from kn aw inv show ?thesis unfolding wake_inv_def by blast
qed

lemma wake_new:
  assumes "wake_inv s"
  shows "wake_inv (s\<lparr>pcs := pcs s @ [Worker W_lock]\<rparr>)"
  using assms locks_new[of s] by (auto simp: wake_inv_def)

lemma wake_move:
  assumes inv: "wake_inv s" and j: "j < length (pcs s)" and mv: "move j s ev s'"
  shows "wake_inv s'"
proof -
  have lk: "locks s'"
    using inv j mv by (auto simp: wake_inv_def intro: locks_move)
  have kn: "knows (task_front s \<noteq> None) (wait_task_0 s) (destroy s) (pcs s ! j)"
    using inv j by (simp add: wake_inv_def)
  show ?thesis
    using mv
  proof cases
    case (N_new i)
    have len: "j < length (pcs (s\<lparr>pcs := pcs s @ [Worker W_lock]\<rparr>))" using j by simp
    show ?thesis
      by (rule wake_goto[OF wake_new[OF inv] lk len]) (use j N_new in \<open>auto simp: nth_append intro!: exI[of _ "length (pcs s)"]\<close>)
  next
    case (E_signal w t p)
    show ?thesis
    proof (cases "w \<or> (\<forall>q\<in>set (pcs s). \<not> is_worker q)")
      case True
      with E_signal have "w \<or> \<not> (\<exists>p\<in>set (pcs s'). is_worker p)"
        by (auto dest!: set_update_subset_insert[THEN subsetD] split: if_splits)
      with E_signal j show ?thesis
        by (intro wake_goto[OF inv lk j]) (auto split: if_splits)
    next
      case False
      then obtain i where i: "i < length (pcs s)" "is_worker (pcs s ! i)" "\<not> w"
        by (auto simp: in_set_conv_nth)
      have "\<exists>k<length (pcs s). k \<noteq> j \<and> awake (pcs s ! k)"
      proof (cases "pcs s ! i = Worker W_waiting")
        case True
        with E_signal i obtain k where "k < length (pcs s)" "pcs s ! k = Worker W_woken"
          by (metis in_set_conv_nth)
        with E_signal show ?thesis by (intro exI[of _ k]) auto
      next
        case False
        with E_signal i show ?thesis by (intro exI[of _ i]) (cases "pcs s ! i"; auto)
      qed
      with E_signal i j show ?thesis by (intro wake_goto[OF inv lk j]) auto
    qed
  qed (rule wake_goto[OF inv lk j]; insert kn j; auto simp: task_link_fields split: if_splits; fail)+
qed

lemma wake_create: "thrpool_create workers clients = Some s \<Longrightarrow> wake_inv s"
  using locks_create by (auto simp: thrpool_create_def wake_inv_def split: if_splits)

lemma run_wake: "run workers clients tr s \<Longrightarrow> wake_inv s"
  by (erule run_invariant) (auto intro: wake_create wake_wakes wake_move)

text \<open>
  A thread at position \<open>p\<close> is blocked only if it waits for a mutex that another thread holds, or
  on a condition variable.
\<close>

fun wants_task :: "pc \<Rightarrow> bool" where
  "wants_task (Worker p) = (p = W_lock \<or> p = W_woken)"
| "wants_task (Enq p w t) = (p = E_lock)"
| "wants_task (Destroy p) = (p = D_lock)"
| "wants_task (Wait p) = (p = T_lock \<or> p = T_woken)"
| "wants_task _ = False"

lemma signal_enabled: "\<exists>c s'. signal a b c s = Some s'"
  by (auto simp: signal_def in_set_conv_nth)

lemma unlocked_enabled:
  assumes "alive s" "thread_step j 0 s \<noteq> Fault"
    "in_task (pcs s ! j) \<or> awake (pcs s ! j) \<and> (\<not> wants_task (pcs s ! j) \<or> task_m s = None)"
  shows "\<exists>c ev s'. thread_step j c s = Step ev s'"
proof (cases "pcs s ! j")
  case (Worker p)
  with assms have "\<exists>ev s'. thread_step j 0 s = Step ev s'"
    by (cases p) (auto simp: thread_step_def split: option.splits)
  then show ?thesis by blast
next
  case (Enq p w t)
  show ?thesis
  proof (cases p)
    case E_signal
    obtain c s' where "signal (Worker W_waiting) (Worker W_woken) c s = Some s'"
      using signal_enabled by blast
    with E_signal Enq assms show ?thesis by (intro exI[of _ c]) (auto simp: thread_step_def)
  next
    case E_lock
    with Enq assms show ?thesis by (auto simp: thread_step_def)
  next
    case E_link
    with Enq assms have "\<exists>ev s'. thread_step j 0 s = Step ev s'"
      by (auto simp: thread_step_def split: option.splits)
    then show ?thesis by blast
  qed
next
  case (Destroy p)
  with assms show ?thesis by (cases p) (auto simp: thread_step_def)
next
  case (Wait p)
  with assms show ?thesis by (cases p) (auto simp: thread_step_def)
qed (use assms in auto)

lemma demand_served:
  assumes "wake_inv s" "alive s" "\<And>j. j < length (pcs s) \<Longrightarrow> thread_step j 0 s \<noteq> Fault"
    and "demand s" "\<not> destroy s" "\<exists>p\<in>set (pcs s). is_worker p"
  shows "\<exists>j<length (pcs s). (in_task (pcs s ! j) \<or> awake (pcs s ! j)) \<and> (\<exists>c ev s'. thread_step j c s = Step ev s')"
proof -
  obtain i where i: "i < length (pcs s)" "awake (pcs s ! i)"
    using assms by (auto simp: wake_inv_def in_set_conv_nth)
  show ?thesis
  proof (cases "task_m s")
    case None
    with i assms unlocked_enabled[of s i] show ?thesis by blast
  next
    case (Some j)
    then have "j < length (pcs s)" "in_task (pcs s ! j)"
      using assms(1) by (auto simp: wake_inv_def locks_def)
    with assms unlocked_enabled[of s j] show ?thesis by blast
  qed
qed

section \<open>Life of the pool\<close>

fun is_create :: "pc \<Rightarrow> bool" where
  "is_create (Create p) = True"
| "is_create _ = False"

fun is_inc :: "pc \<Rightarrow> bool" where
  "is_inc (Create (N_inc i)) = True"
| "is_inc _ = False"

fun is_destroy :: "pc \<Rightarrow> bool" where
  "is_destroy (Destroy p) = True"
| "is_destroy _ = False"

text \<open>A worker that has not been counted out by \<^verbatim>\<open>_worker_cleanup\<close> yet.\<close>

fun active :: "pc \<Rightarrow> bool" where
  "active (Cleanup p) = (p \<noteq> C_signal)"
| "active p = is_worker p"

definition tally :: "(pc \<Rightarrow> bool) \<Rightarrow> pc list \<Rightarrow> int" where
  "tally P ps = int (length (filter P ps))"

lemma tally_update:
  "j < length ps \<Longrightarrow> tally P (ps[j := p]) = tally P ps - of_bool (P (ps ! j)) + of_bool (P p)"
proof (induction ps arbitrary: j)
  case (Cons a ps)
  then show ?case by (cases j) (auto simp: tally_def)
qed simp

lemma tally_append [simp]: "tally P (ps @ [p]) = tally P ps + of_bool (P p)"
  by (simp add: tally_def)

lemma tally_wakes:
  assumes "wakes ps qs" "\<And>p q. woken p = Some q \<Longrightarrow> P q = P p"
  shows "tally P qs = tally P ps"
proof -
  have "map P qs = map P ps"
    using assms by (intro nth_equalityI) (auto simp: wakes_def)
  then have "length (filter id (map P qs)) = length (filter id (map P ps))" by simp
  then show ?thesis by (simp add: tally_def filter_map comp_def)
qed

lemma tally_0: "tally P ps \<le> 0 \<longleftrightarrow> (\<forall>p\<in>set ps. \<not> P p)"
  by (auto simp: tally_def filter_empty_conv)

definition life_inv :: "pool \<Rightarrow> bool" where
  "life_inv s \<longleftrightarrow>
     (\<forall>j<length (pcs s). is_create (pcs s ! j) \<longrightarrow>
        j = 0 \<and> \<not> ready s \<and> alive s \<and> \<not> destroy s \<and> (\<forall>i<length (pcs s). \<not> is_destroy (pcs s ! i))) \<and>
     running_workers s = tally active (pcs s) - tally is_inc (pcs s) \<and>
     (\<forall>j<length (pcs s). pcs s ! j = Destroy D_release \<longrightarrow> running_workers s \<le> 0) \<and>
     (\<not> alive s \<longrightarrow> running_workers s \<le> 0)"

lemma woken_classes:
  assumes "woken p = Some q"
  shows "is_create q = is_create p" "is_inc q = is_inc p" "is_destroy q = is_destroy p"
    "is_worker q = is_worker p" "active q = active p" "q \<noteq> Destroy D_release"
  using assms by (auto simp: woken_Some)

lemma life_wakes:
  assumes "life_inv s" "wakes (pcs s) qs"
  shows "life_inv (s\<lparr>pcs := qs\<rparr>)"
proof -
  have "is_create (qs ! k) = is_create (pcs s ! k)" "is_destroy (qs ! k) = is_destroy (pcs s ! k)"
    "qs ! k = Destroy D_release \<Longrightarrow> pcs s ! k = Destroy D_release" if "k < length (pcs s)" for k
    using assms(2) woken_classes[of "pcs s ! k" "qs ! k"] that unfolding wakes_def by metis+
  then show ?thesis
    using assms tally_wakes[of "pcs s" qs active] tally_wakes[of "pcs s" qs is_inc]
    by (auto simp: life_inv_def woken_classes wakes_def)
qed

lemma life_destroy:
  "life_inv s \<Longrightarrow> i < length (pcs s) \<Longrightarrow> is_destroy (pcs s ! i) \<Longrightarrow> k < length (pcs s) \<Longrightarrow> \<not> is_create (pcs s ! k)"
  unfolding life_inv_def by blast

lemma life_goto:
  assumes inv: "life_inv s" and j: "j < length (pcs s)" "pcs s' = (pcs s)[j := pcs s' ! j]"
    and same: "ready s' = ready s" "alive s' = alive s" "destroy s' = destroy s"
    and run: "running_workers s' = running_workers s + of_bool (active (pcs s' ! j)) - of_bool (active (pcs s ! j))
        - of_bool (is_inc (pcs s' ! j)) + of_bool (is_inc (pcs s ! j))"
      "running_workers s' \<le> running_workers s \<or> is_create (pcs s ! j)"
    and cls: "is_create (pcs s' ! j) \<Longrightarrow> is_create (pcs s ! j)"
      "is_destroy (pcs s' ! j) \<Longrightarrow> is_destroy (pcs s ! j) \<or> ready s \<or> is_create (pcs s ! j)"
      "pcs s' ! j = Destroy D_release \<Longrightarrow> running_workers s' \<le> 0"
  shows "life_inv s'"
proof -
  have [simp]: "length (pcs s') = length (pcs s)" by (subst j(2)) simp
  have nth: "pcs s' ! i = pcs s ! i" if "i \<noteq> j" for i
    using that by (subst j(2)) simp
  have num: "tally P (pcs s') = tally P (pcs s) - of_bool (P (pcs s ! j)) + of_bool (P (pcs s' ! j))" for P
    using tally_update[OF j(1), of P "pcs s' ! j"] unfolding j(2)[symmetric] .
  have "j = 0 \<and> \<not> ready s \<and> alive s \<and> \<not> destroy s \<and> (\<forall>i<length (pcs s). \<not> is_destroy (pcs s ! i))"
    if "is_create (pcs s ! j)"
    using inv j that by (auto simp: life_inv_def)
  note 1 = this
  have "is_create (pcs s' ! i) \<longrightarrow> i = 0 \<and> \<not> ready s' \<and> alive s' \<and> \<not> destroy s' \<and> (\<forall>k<length (pcs s'). \<not> is_destroy (pcs s' ! k))"
    if "i < length (pcs s')" for i
  proof
    assume c: "is_create (pcs s' ! i)"
    have ci: "is_create (pcs s ! i)"
      using c cls(1) nth[of i] that by (cases "i = j") auto
    then have *: "i = 0" "\<not> ready s" "alive s" "\<not> destroy s" "\<And>k. k < length (pcs s) \<Longrightarrow> \<not> is_destroy (pcs s ! k)"
      using inv that by (auto simp: life_inv_def)
    have "\<not> is_destroy (pcs s' ! j)"
    proof
      assume d: "is_destroy (pcs s' ! j)"
      with cls(2) * j(1) have "is_create (pcs s ! j)" by blast
      with 1 * have "i = j" by blast
      with c d show False by (cases "pcs s' ! j") auto
    qed
    then have "\<not> is_destroy (pcs s' ! k)" if "k < length (pcs s)" for k
      using * nth that by (cases "k = j") auto
    with * same show "i = 0 \<and> \<not> ready s' \<and> alive s' \<and> \<not> destroy s' \<and> (\<forall>k<length (pcs s'). \<not> is_destroy (pcs s' ! k))"
      by auto
  qed
  moreover have "running_workers s' = tally active (pcs s') - tally is_inc (pcs s')"
    using inv run(1) by (simp add: num life_inv_def)
  moreover have "pcs s' ! i = Destroy D_release \<longrightarrow> running_workers s' \<le> 0" if "i < length (pcs s')" for i
  proof
    assume d: "pcs s' ! i = Destroy D_release"
    show "running_workers s' \<le> 0"
    proof (cases "i = j")
      case False
      with d nth that have d': "pcs s ! i = Destroy D_release" by auto
      then have "running_workers s \<le> 0" "\<not> is_create (pcs s ! j)"
        using inv that life_destroy[OF inv, of i j] j(1) by (auto simp: life_inv_def)
      with run(2) show ?thesis by auto
    qed (use d cls(3) in auto)
  qed
  moreover have "\<not> alive s' \<longrightarrow> running_workers s' \<le> 0"
    using inv run(2) same 1 by (auto simp: life_inv_def)
  ultimately show ?thesis by (simp add: life_inv_def)
qed

lemma life_new:
  assumes "life_inv s" "is_create (pcs s ! j)" "j < length (pcs s)"
  shows "life_inv (s\<lparr>pcs := pcs s @ [Worker W_lock], running_workers := running_workers s + 1\<rparr>)"
proof -
  from assms have "\<forall>i<length (pcs s). \<not> is_destroy (pcs s ! i)" "alive s"
    by (auto simp: life_inv_def)
  with assms(1) show ?thesis
    by (auto simp: life_inv_def nth_append less_Suc_eq split: if_splits)
qed

lemma life_move:
  assumes inv: "life_inv s" and j: "j < length (pcs s)" and mv: "move j s ev s'"
  shows "life_inv s'"
  using mv
proof cases
  case (N_new i)
  show ?thesis
    unfolding N_new
    by (rule life_goto[OF life_new[OF inv], of j j]) (use j N_new in \<open>auto simp: nth_append\<close>)
next
  case (N_done i)
  then have "j = 0" "alive s" "\<not> destroy s" "\<forall>i<length (pcs s). \<not> is_destroy (pcs s ! i)"
    using inv j by (auto simp: life_inv_def)
  moreover have "is_create (pcs s ! i) \<Longrightarrow> i < length (pcs s) \<Longrightarrow> i = j" for i
    using inv \<open>j = 0\<close> by (auto simp: life_inv_def)
  ultimately show ?thesis
    using inv N_done j by (auto simp: life_inv_def tally_update nth_list_update split: if_splits)
next
  case D_set
  then show ?thesis
    using inv j life_destroy[OF inv j] by (auto simp: life_inv_def tally_update nth_list_update split: if_splits)
next
  case D_release
  then show ?thesis
    using inv j life_destroy[OF inv j] by (auto simp: life_inv_def tally_update nth_list_update split: if_splits)
qed (rule life_goto[OF inv j]; insert j; auto simp: task_link_fields split: if_splits; fail)+

lemma life_create: "thrpool_create workers clients = Some s \<Longrightarrow> life_inv s"
  by (auto simp: thrpool_create_def life_inv_def tally_def nth_Cons split: if_splits nat.splits)

lemma run_life: "run workers clients tr s \<Longrightarrow> life_inv s"
  by (erule run_invariant) (auto intro: life_create life_wakes life_move)

text \<open>
  How many workers there are: while the pool is created the counter is the loop variable, and
  nobody is counted out before the pool is destroyed.
\<close>

fun counted :: "int \<Rightarrow> nat \<Rightarrow> pc \<Rightarrow> bool" where
  "counted r m (Create (N_loop i)) = (r = int i \<and> i \<le> m)"
| "counted r m (Create (N_inc i)) = (r = int i \<and> i < m)"
| "counted r m p = True"

definition count_inv :: "pool \<Rightarrow> bool" where
  "count_inv s \<longleftrightarrow> wake_inv s \<and> life_inv s \<and>
     (\<forall>j<length (pcs s). counted (running_workers s) (min_workers s) (pcs s ! j)) \<and>
     (ready s \<and> \<not> destroy s \<longrightarrow> running_workers s = int (min_workers s))"

lemma counted_woken: "woken p = Some q \<Longrightarrow> counted r m q"
  by (auto simp: woken_Some)

lemma counted_other: "\<not> is_create p \<Longrightarrow> counted r m p"
  by (cases p) auto

lemma count_wakes:
  assumes "count_inv s" "wakes (pcs s) qs"
  shows "count_inv (s\<lparr>pcs := qs\<rparr>)"
proof -
  have "counted (running_workers s) (min_workers s) (qs ! j)" if "j < length (pcs s)" for j
    using assms that counted_woken unfolding count_inv_def wakes_def by metis
  with assms show ?thesis
    using wake_wakes[of s qs] life_wakes[of s qs] by (auto simp: count_inv_def wakes_def)
qed

lemma count_goto:
  assumes inv: "count_inv s" and s': "wake_inv s'" "life_inv s'" "pcs s' = qs[j := pcs s' ! j]"
    "qs = pcs s \<or> qs = pcs s @ [Worker W_lock]" "j < length (pcs s)" "min_workers s' = min_workers s"
    and r: "running_workers s' = running_workers s \<or> is_create (pcs s ! j) \<or> destroy s'"
    and c: "counted (running_workers s') (min_workers s) (pcs s' ! j)"
      "ready s' \<and> \<not> destroy s' \<longrightarrow> running_workers s' = int (min_workers s)"
  shows "count_inv s'"
proof -
  have len: "length (pcs s') = length qs" by (subst s'(3)) simp
  have "counted (running_workers s') (min_workers s) (pcs s' ! i)" if i: "i < length (pcs s')" for i
  proof (cases "i = j \<or> \<not> is_create (pcs s' ! i)")
    case False
    have "pcs s' ! i = qs ! i" using False by (subst s'(3)) simp
    with False i len s'(4) have old: "i < length (pcs s)" "pcs s ! i = pcs s' ! i"
      by (auto simp: nth_append less_Suc_eq split: if_splits)
    with False inv have "i = 0" "\<not> destroy s'"
      using s'(2) i by (auto simp: count_inv_def life_inv_def)
    moreover have "\<not> is_create (pcs s ! j)"
      using inv False s'(5) \<open>i = 0\<close> by (auto simp: count_inv_def life_inv_def)
    ultimately show ?thesis using r inv old by (auto simp: count_inv_def)
  qed (use c counted_other in auto)
  with s' c show ?thesis by (simp add: count_inv_def)
qed

lemma count_move:
  assumes inv: "count_inv s" and j: "j < length (pcs s)" and mv: "move j s ev s'"
  shows "count_inv s'"
proof -
  have inv': "wake_inv s" "life_inv s" using inv by (auto simp: count_inv_def)
  have kn: "knows (task_front s \<noteq> None) (wait_task_0 s) (destroy s) (pcs s ! j)"
    "counted (running_workers s) (min_workers s) (pcs s ! j)"
    "ready s \<and> \<not> destroy s \<longrightarrow> running_workers s = int (min_workers s)"
    "is_create (pcs s ! j) \<longrightarrow> \<not> ready s \<and> \<not> destroy s"
    using inv j by (auto simp: count_inv_def wake_inv_def life_inv_def)
  note g = count_goto[OF inv wake_move[OF inv'(1) j mv] life_move[OF inv'(2) j mv]]
  show ?thesis
    using mv
  proof cases
    case (N_new i)
    show ?thesis
      by (rule g[where j = j and qs = "pcs s @ [Worker W_lock]"]) (use j kn N_new in \<open>auto simp: nth_append\<close>)
  qed (rule g[where j = j and qs = "pcs s"]; insert j kn; auto simp: task_link_fields split: if_splits; fail)+
qed

lemma count_create: "thrpool_create workers clients = Some s \<Longrightarrow> count_inv s"
  using wake_create life_create
  by (auto simp: thrpool_create_def count_inv_def nth_Cons split: if_splits nat.splits)

lemma run_count: "run workers clients tr s \<Longrightarrow> count_inv s"
  by (erule run_invariant) (auto intro: count_create count_wakes count_move)

lemma run_min_workers: "run workers clients tr s \<Longrightarrow> min_workers s = nat workers"
proof (erule run_invariant)
  fix j ev and s s' :: pool
  assume "min_workers s = nat workers" "move j s ev s'"
  from this(2,1) show "min_workers s' = nat workers"
    by cases (auto simp: task_link_fields)
qed (auto simp: thrpool_create_def split: if_splits)

lemma run_has_worker:
  assumes "run workers clients tr s" "ready s" "\<not> destroy s" "workers > 0"
  shows "\<exists>p\<in>set (pcs s). is_worker p"
proof -
  have inv: "count_inv s" "life_inv s" "wake_inv s"
    using run_count[OF assms(1)] by (auto simp: count_inv_def)
  have "tally is_inc (pcs s) \<le> 0"
    unfolding tally_0
  proof
    fix p assume "p \<in> set (pcs s)"
    then have "\<not> is_create p"
      using inv(2) assms(2) by (auto simp: life_inv_def in_set_conv_nth)
    then show "\<not> is_inc p" by (cases p rule: is_inc.cases) auto
  qed
  moreover have "running_workers s > 0"
    using inv(1) assms run_min_workers[OF assms(1)] by (simp add: count_inv_def)
  ultimately have "\<not> tally active (pcs s) \<le> 0"
    using inv(2) by (simp add: life_inv_def tally_def)
  then obtain p where p: "p \<in> set (pcs s)" "active p"
    unfolding tally_0 by blast
  moreover have "knows (task_front s \<noteq> None) (wait_task_0 s) (destroy s) p"
    using inv(3) p by (auto simp: wake_inv_def)
  ultimately show ?thesis
    using assms(3) by (intro bexI[of _ p]) (cases p; auto)
qed

section \<open>The promises of the pool\<close>

text \<open>
  C13. No wake-up is lost while the pool is in use. If a task is queued, or a caller of
  \<^verbatim>\<open>thrpool_wait\<close> waits, and the pool was created with at least one worker, then the workers are not all asleep: some
  thread that holds \<^verbatim>\<open>task_m\<close>, is a worker on its way to the queue or is about to signal one can take a
  step. So the pool never gets stuck with work to do.
\<close>

theorem thrpool_progress:
  assumes "run workers clients tr s" "workers > 0" "ready s" "alive s" "\<not> destroy s"
    "task_front s \<noteq> None \<or> Wait T_waiting \<in> set (pcs s)"
  shows "\<exists>j<length (pcs s). (in_task (pcs s ! j) \<or> awake (pcs s ! j)) \<and>
    (\<exists>c ev s'. thread_step j c s = Step ev s')"
proof (rule demand_served[OF run_wake[OF assms(1)] assms(4)])
  show "thread_step j 0 s \<noteq> Fault" if "j < length (pcs s)" for j
    using that assms(1,4) run_tasks_no_fault by blast
  show "demand s"
    using assms(6) run_wake[OF assms(1)] by (auto simp: wake_inv_def)
qed (use assms run_has_worker in auto)

theorem thrpool_progress_witness:
  "\<exists>tr s. run 1 0 tr s \<and> pcs s = [Enq E_signal False 7, Worker W_waiting] \<and>
    (\<exists>j<length (pcs s). (in_task (pcs s ! j) \<or> awake (pcs s ! j)) \<and> (\<exists>c ev s'. thread_step j c s = Step ev s'))"
proof (rule queued_task_run)
  fix tr s
  assume s: "run 1 0 tr s" "ready s" "alive s" "\<not> destroy s" "task_front s = Some 7"
    "pcs s = [Enq E_signal False 7, Worker W_waiting]"
  with thrpool_progress[OF s(1)] show ?thesis by (intro exI[of _ tr] exI[of _ s]) simp
qed

text \<open>
  C17. \<^verbatim>\<open>thrpool_destroy\<close> frees the pool only after every worker has been counted out: in a state where
  the pool is freed, no thread is a worker in its loop, in a task, in \<^verbatim>\<open>_task_enq\<close> or in
  \<^verbatim>\<open>_worker_cleanup\<close> before the decrement; all that can be left of a worker is its last signal.
\<close>

theorem thrpool_destroy_waits:
  assumes "run workers clients tr s" "\<not> alive s" "p \<in> set (pcs s)"
  shows "\<not> active p"
proof -
  have inv: "life_inv s" using run_life[OF assms(1)] .
  have "\<not> is_create q" if "q \<in> set (pcs s)" for q
    using inv assms(2) that by (auto simp: life_inv_def in_set_conv_nth)
  then have "\<not> is_inc q" if "q \<in> set (pcs s)" for q
    using that by (cases q rule: is_inc.cases) fastforce+
  then have "tally is_inc (pcs s) \<le> 0" by (simp add: tally_0)
  moreover have "running_workers s \<le> 0" using inv assms(2) by (simp add: life_inv_def)
  ultimately have "tally active (pcs s) \<le> 0" using inv by (simp add: life_inv_def)
  with assms(3) show ?thesis by (auto simp: tally_0)
qed

section \<open>Where the promises end\<close>

text \<open>The worker has left its loop and been counted out; then the pool is freed.\<close>

definition freed_early :: "act list" where
  "freed_early = start_pool @ Call_destroy 0 True # Move 0 0 # map (Move 1) [0, 0, 0, 0, 0, 0, 0] @
     map (Move 0) [0, 0, 0]"

lemma freed_early_run:
  obtains tr s where "run 1 0 tr s" "\<not> alive s" "pcs s = [Outside, Cleanup C_signal]"
proof -
  obtain s0 where "thrpool_create 1 0 = Some s0" by (simp add: thrpool_create_def)
  moreover from this have "\<exists>tr s. schedule freed_early s0 = Some (tr, s) \<and> \<not> alive s \<and> pcs s = [Outside, Cleanup C_signal]"
    by (auto simp: freed_early_def evaluate_schedule)
  ultimately show ?thesis using that created_schedule by blast
qed

theorem thrpool_destroy_waits_witness:
  "\<exists>tr s. run 1 0 tr s \<and> \<not> alive s \<and> Cleanup C_signal \<in> set (pcs s) \<and> \<not> active (Cleanup C_signal)"
  by (rule freed_early_run) (use thrpool_destroy_waits in fastforce)

text \<open>
  That last signal of the worker, \<^verbatim>\<open>pthread_cond_signal(&ti->worker_c)\<close> after \<^verbatim>\<open>worker_m\<close> has been released, is a
  use after free.
\<close>

lemma cleanup_use_after_free: "\<exists>tr s. run 1 0 tr s \<and> (\<forall>c. thread_step 1 c s = Fault)"
  by (rule freed_early_run) (force simp: thread_step_def)

text \<open>
  \<^verbatim>\<open>thrpool_destroy\<close> sets \<^verbatim>\<open>destroy\<close> and signals without holding \<^verbatim>\<open>task_m\<close>. If the worker has read the flag but
  has not yet called \<^verbatim>\<open>pthread_cond_wait\<close>, the signal is lost and both threads wait for each other.
\<close>

definition lost_signal :: "act list" where
  "lost_signal = start_pool @ map (Move 1) [0, 0, 0, 0] @ Call_destroy 0 True # map (Move 0) [0, 0, 0, 0] @ [Move 1 0]"

lemma destroy_deadlock:
  "\<exists>tr s. run 1 0 tr s \<and> destroy s \<and> pcs s = [Destroy D_waiting, Worker W_waiting] \<and>
    (\<forall>j<length (pcs s). \<forall>c. thread_step j c s = Blocked)"
proof -
  obtain s0 where "thrpool_create 1 0 = Some s0" by (simp add: thrpool_create_def)
  moreover from this have "\<exists>tr s. schedule lost_signal s0 = Some (tr, s) \<and> destroy s \<and> alive s \<and>
      pcs s = [Destroy D_waiting, Worker W_waiting]"
    by (auto simp: lost_signal_def evaluate_schedule)
  moreover have "\<forall>j<length (pcs s). \<forall>c. thread_step j c s = Blocked"
    if "alive s" "pcs s = [Destroy D_waiting, Worker W_waiting]" for s
    using that by (auto simp: thread_step_def less_Suc_eq)
  ultimately show ?thesis using created_schedule by blast
qed

text \<open>\<^verbatim>\<open>thrpool_wait\<close> waits until the queue is empty; the last task may still be running.\<close>

definition early_wait :: "act list" where
  "early_wait = start_pool @ Call_add 0 7 (5, 6) # map (Move 0) [0, 0, 0] @ map (Move 1) [0, 0, 0] @
     Call_wait 0 # map (Move 0) [0, 0]"

lemma wait_returns_while_running:
  "\<exists>tr s. run 1 0 tr s \<and> pcs s = [Outside, Worker (W_run 7)] \<and> tr = [Enqueued (5, 6), Taken (5, 6)]"
proof -
  obtain s0 where "thrpool_create 1 0 = Some s0" by (simp add: thrpool_create_def)
  moreover from this have "\<exists>tr s. schedule early_wait s0 = Some (tr, s) \<and>
      pcs s = [Outside, Worker (W_run 7)] \<and> tr = [Enqueued (5, 6), Taken (5, 6)]"
    by (auto simp: early_wait_def evaluate_schedule)
  ultimately show ?thesis using created_schedule by blast
qed

end
