(* ===== verification/Tcp_Echo.thy ===== *)
theory Tcp_Echo
  imports Prelude "HOL-Library.Sublist"
begin

unbundle bit_operations_syntax

text \<open>
  The echo server \<^verbatim>\<open>src/c/tcp_echo/main.c\<close>, from \<^verbatim>\<open>main\<close> down to the handler of a client. The state
  is the heap of I/O contexts together with what the kernel knows: the open sockets with
  the bytes that were read from and written to them, and the interest list of the epoll instance. The results of
  the system calls are a parameter, one list per call; a list that is used up, or a result that
  the call's documentation excludes (a read longer than asked for, a descriptor that is
  already open, an event for a descriptor that is not registered), is the outcome \<open>Starved\<close>. \<^verbatim>\<open>FATAL\<close> is
  \<open>Exit\<close>, access through a freed context is \<open>Fault\<close>. Log output is modelled for \<^verbatim>\<open>print_sockaddr\<close> only.
\<close>

section \<open>Definitions\<close>

type_synonym byte = "8 word"
type_synonym addr = nat
type_synonym fd = int

abbreviation (input) CLIENT_BUF_SIZE :: nat where "CLIENT_BUF_SIZE \<equiv> 4096"
abbreviation (input) MAX_EVENTS :: nat where "MAX_EVENTS \<equiv> 64"

abbreviation (input) EPOLLIN :: uint32 where "EPOLLIN \<equiv> 0x1"
abbreviation (input) EPOLLOUT :: uint32 where "EPOLLOUT \<equiv> 0x4"
abbreviation (input) EPOLLERR :: uint32 where "EPOLLERR \<equiv> 0x8"
abbreviation (input) EPOLLHUP :: uint32 where "EPOLLHUP \<equiv> 0x10"
abbreviation (input) EPOLLRDHUP :: uint32 where "EPOLLRDHUP \<equiv> 0x2000"
abbreviation (input) EPOLLET :: uint32 where "EPOLLET \<equiv> 0x80000000"

record client =
  buf :: "byte list"
  sz :: nat
  wr :: nat

record io_context =
  kind :: int
  ctx_fd :: fd
  data :: "client option"
  prd :: bool
  pwr :: bool

text \<open>What has gone through a socket: the bytes read from it and the bytes written to it.\<close>

record sock =
  inp :: "byte list"
  outp :: "byte list"

record sockaddr =
  sa_family :: nat
  sa_port :: "16 word" \<comment> \<open>in network byte order\<close>
  sa_addr :: "byte list"

datatype read_result = Read "byte list" | Read_again | Read_error
datatype write_result = Wrote nat | Write_again | Write_error
datatype accept_result = Accepted fd sockaddr | Accept_again | Accept_error
datatype wait_result = Events "(addr \<times> uint32) list" | Wait_intr | Wait_error

record world =
  ctxs :: "addr \<Rightarrow> io_context option"
  socks :: "fd \<Rightarrow> sock option"
  interest :: "fd \<Rightarrow> (addr \<times> uint32) option"
  reads :: "read_result list"
  writes :: "write_result list"
  accepts :: "accept_result list"
  sockopts :: "bool list" \<comment> \<open>\<^verbatim>\<open>setsockopt\<close> succeeded\<close>
  ctls :: "bool list" \<comment> \<open>\<^verbatim>\<open>epoll_ctl\<close> succeeded\<close>
  mallocs :: "addr list"
  waits :: "wait_result list"

datatype 'a outcome = Ok 'a | Exit | Starved | Fault

fun bind :: "'a outcome \<Rightarrow> ('a \<Rightarrow> 'b outcome) \<Rightarrow> 'b outcome" where
  "bind (Ok x) f = f x"
| "bind Exit f = Exit"
| "bind Starved f = Starved"
| "bind Fault f = Fault"

text \<open>\<^verbatim>\<open>epoll_ctl\<close>: whether it succeeds\<close>

definition epoll_ctl :: "(world \<Rightarrow> world) \<Rightarrow> world \<Rightarrow> world outcome" where
  "epoll_ctl change w =
     (case ctls w of
        [] \<Rightarrow> Starved
      | r # rs \<Rightarrow> if r then Ok (change (w\<lparr>ctls := rs\<rparr>)) else Exit)"

definition setsockopt :: "world \<Rightarrow> world outcome" where
  "setsockopt w =
     (case sockopts w of [] \<Rightarrow> Starved | r # rs \<Rightarrow> if r then Ok (w\<lparr>sockopts := rs\<rparr>) else Exit)"

definition del_epoll_ctx :: "addr \<Rightarrow> world \<Rightarrow> world outcome" where
  "del_epoll_ctx a w =
     (case ctxs w a of
        None \<Rightarrow> Fault
      | Some ctx \<Rightarrow>
          bind (epoll_ctl (\<lambda>w. w\<lparr>interest := (interest w)(ctx_fd ctx := None)\<rparr>) w)
            (\<lambda>w. Ok (w\<lparr>ctxs := (ctxs w)(a := None)\<rparr>)))"

definition epoll_events :: "nat \<Rightarrow> uint32" where
  "epoll_events rw =
     EPOLLET OR (if rw mod 2 = 1 then EPOLLIN OR EPOLLRDHUP else 0) OR
       (if rw div 2 mod 2 = 1 then EPOLLOUT else 0)"

definition add_epoll_ctx :: "int \<Rightarrow> fd \<Rightarrow> nat \<Rightarrow> client option \<Rightarrow> world \<Rightarrow> world outcome" where
  "add_epoll_ctx k f rw d w =
     (case mallocs w of
        [] \<Rightarrow> Starved
      | a # as \<Rightarrow>
          if ctxs w a \<noteq> None then Starved
          else
            let ctx = \<lparr>kind = k, ctx_fd = f, data = d, prd = False, pwr = False\<rparr>;
                w = w\<lparr>mallocs := as, ctxs := (ctxs w)(a \<mapsto> ctx)\<rparr>
            in epoll_ctl (\<lambda>w. w\<lparr>interest := (interest w)(f \<mapsto> (a, epoll_events rw))\<rparr>) w)"

definition close_client :: "addr \<Rightarrow> world \<Rightarrow> world outcome" where
  "close_client a w =
     (case ctxs w a of
        None \<Rightarrow> Fault
      | Some ctx \<Rightarrow>
          bind (del_epoll_ctx a (w\<lparr>ctxs := (ctxs w)(a \<mapsto> ctx\<lparr>data := None\<rparr>)\<rparr>))
            (\<lambda>w. Ok (w\<lparr>socks := (socks w)(ctx_fd ctx := None)\<rparr>)))"

text \<open>
  The loops of \<^verbatim>\<open>handle_client_io\<close> on the client, its socket and the list of results: the flag is
  \<^verbatim>\<open>ctx->prd\<close> or \<^verbatim>\<open>ctx->pwr\<close> afterwards; \<open>None\<close> stands for \<^verbatim>\<open>close_client\<close>.
\<close>

fun read_loop :: "client \<Rightarrow> sock \<Rightarrow> read_result list \<Rightarrow> ((bool \<times> client \<times> sock) option \<times> read_result list) outcome" where
  "read_loop c s rs =
     (if sz c < CLIENT_BUF_SIZE then
        (case rs of
           [] \<Rightarrow> Starved
         | Read_again # rs \<Rightarrow> Ok (Some (False, c, s), rs)
         | Read_error # rs \<Rightarrow> Ok (None, rs)
         | Read bs # rs \<Rightarrow>
             if length bs > CLIENT_BUF_SIZE - sz c then Starved
             else if bs = [] then Ok (None, rs)
             else
               read_loop
                 (c\<lparr>buf := take (sz c) (buf c) @ bs @ drop (sz c + length bs) (buf c), sz := sz c + length bs\<rparr>)
                 (s\<lparr>inp := inp s @ bs\<rparr>) rs)
      else Ok (Some (True, c, s), rs))"

fun write_loop :: "client \<Rightarrow> sock \<Rightarrow> write_result list \<Rightarrow> ((bool \<times> client \<times> sock) option \<times> write_result list) outcome" where
  "write_loop c s rs =
     (if wr c < sz c then
        (case rs of
           [] \<Rightarrow> Starved
         | Write_again # rs \<Rightarrow> Ok (Some (False, c, s), rs)
         | Write_error # rs \<Rightarrow> Ok (None, rs)
         | Wrote n # rs \<Rightarrow>
             if n > sz c - wr c then Starved
             else
               write_loop (c\<lparr>wr := wr c + n\<rparr>)
                 (s\<lparr>outp := outp s @ take n (drop (wr c) (buf c))\<rparr>) rs)
      else Ok (Some (True, c, s), rs))"

declare read_loop.simps [simp del] write_loop.simps [simp del]

definition read_part :: "addr \<Rightarrow> io_context \<Rightarrow> client \<Rightarrow> sock \<Rightarrow> world \<Rightarrow> ((io_context \<times> client \<times> sock) option \<times> world) outcome" where
  "read_part a ctx c s w =
     (if prd ctx then
        bind (read_loop c s (reads w)) (\<lambda>(r, rs).
          let w = w\<lparr>reads := rs\<rparr> in
          case r of
            None \<Rightarrow> bind (close_client a w) (\<lambda>w. Ok (None, w))
          | Some (b, c, s) \<Rightarrow> Ok (Some (ctx\<lparr>prd := b\<rparr>, c, s), w))
      else Ok (Some (ctx, c, s), w))"

definition write_part :: "addr \<Rightarrow> io_context \<Rightarrow> client \<Rightarrow> sock \<Rightarrow> world \<Rightarrow> ((io_context \<times> client \<times> sock) option \<times> world) outcome" where
  "write_part a ctx c s w =
     (if pwr ctx then
        bind (write_loop c s (writes w)) (\<lambda>(r, rs).
          let w = w\<lparr>writes := rs\<rparr> in
          case r of
            None \<Rightarrow> bind (close_client a w) (\<lambda>w. Ok (None, w))
          | Some (b, c, s) \<Rightarrow>
              let c = (if wr c = sz c then c\<lparr>wr := 0, sz := 0\<rparr> else c)
              in Ok (Some (ctx\<lparr>pwr := b\<rparr>, c, s), w))
      else Ok (Some (ctx, c, s), w))"

definition handle_client_io :: "addr \<Rightarrow> world \<Rightarrow> world outcome" where
  "handle_client_io a w =
     (case ctxs w a of
        None \<Rightarrow> Fault
      | Some ctx \<Rightarrow>
          (case (data ctx, socks w (ctx_fd ctx)) of
             (Some c, Some s) \<Rightarrow>
               bind (read_part a ctx c s w) (\<lambda>(r, w).
                 case r of
                   None \<Rightarrow> Ok w
                 | Some (ctx, c, s) \<Rightarrow>
                     bind (write_part a ctx c s w) (\<lambda>(r, w).
                       case r of
                         None \<Rightarrow> Ok w
                       | Some (ctx, c, s) \<Rightarrow>
                           Ok (w\<lparr>ctxs := (ctxs w)(a \<mapsto> ctx\<lparr>data := Some c\<rparr>),
                                 socks := (socks w)(ctx_fd ctx \<mapsto> s)\<rparr>)))
           | _ \<Rightarrow> Fault))"

text \<open>The line that \<^verbatim>\<open>print_sockaddr\<close> prints, with \<^verbatim>\<open>inet_ntop\<close> as a parameter.\<close>

definition ntohs :: "16 word \<Rightarrow> 16 word" where
  "ntohs x = push_bit 8 x OR drop_bit 8 x"

definition print_sockaddr :: "(nat \<Rightarrow> byte list \<Rightarrow> string) \<Rightarrow> string \<Rightarrow> sockaddr \<Rightarrow> (string \<times> string \<times> 16 word) option" where
  "print_sockaddr inet_ntop msg sa =
     (if sa_family sa = 2 then Some (msg, inet_ntop 2 (take 4 (sa_addr sa)), ntohs (sa_port sa))
      else if sa_family sa = 10 then Some (msg, inet_ntop 10 (take 16 (sa_addr sa)), ntohs (sa_port sa))
      else None)"

definition new_client :: client where
  "new_client = \<lparr>buf = replicate CLIENT_BUF_SIZE 0, sz = 0, wr = 0\<rparr>"

definition handle_new_client :: "fd \<Rightarrow> world \<Rightarrow> world outcome" where
  "handle_new_client cfd w = add_epoll_ctx 2 cfd 3 (Some new_client) w"

definition clear_prd :: "addr \<Rightarrow> world \<Rightarrow> world outcome" where
  "clear_prd a w =
     (case ctxs w a of None \<Rightarrow> Fault | Some ctx \<Rightarrow> Ok (w\<lparr>ctxs := (ctxs w)(a \<mapsto> ctx\<lparr>prd := False\<rparr>)\<rparr>))"

definition accepted :: "fd \<Rightarrow> world \<Rightarrow> world outcome" where
  \<comment> \<open>the body of the accept loop for a new connection\<close>
  "accepted cfd w =
     (if cfd < 0 \<or> socks w cfd \<noteq> None then Starved
      else
        bind (setsockopt (w\<lparr>socks := (socks w)(cfd \<mapsto> \<lparr>inp = [], outp = []\<rparr>)\<rparr>)) (\<lambda>w.
        bind (setsockopt w) (\<lambda>w.
        bind (setsockopt w) (\<lambda>w. handle_new_client cfd w))))"

fun accept_loop :: "addr \<Rightarrow> accept_result list \<Rightarrow> world \<Rightarrow> world outcome" where
  "accept_loop a [] w = Starved"
| "accept_loop a (Accept_again # rs) w = clear_prd a (w\<lparr>accepts := rs\<rparr>)"
| "accept_loop a (Accept_error # rs) w = Exit"
| "accept_loop a (Accepted cfd sa # rs) w = bind (accepted cfd w) (\<lambda>w. accept_loop a rs w)"

definition accept_client :: "addr \<Rightarrow> world \<Rightarrow> world outcome" where
  "accept_client a w = (case ctxs w a of None \<Rightarrow> Fault | Some _ \<Rightarrow> accept_loop a (accepts w) w)"

definition process_io :: "addr \<Rightarrow> world \<Rightarrow> world outcome" where
  "process_io a w =
     (case ctxs w a of
        None \<Rightarrow> Fault
      | Some ctx \<Rightarrow>
          if kind ctx = 1 then accept_client a w
          else if kind ctx = 2 then handle_client_io a w
          else Ok w)"

text \<open>The body of the loop over the events of one \<^verbatim>\<open>epoll_wait\<close>.\<close>

abbreviation (input) READ_EVENTS :: uint32 where "READ_EVENTS \<equiv> EPOLLIN OR EPOLLRDHUP OR EPOLLHUP OR EPOLLERR"
abbreviation (input) WRITE_EVENTS :: uint32 where "WRITE_EVENTS \<equiv> EPOLLOUT OR EPOLLHUP OR EPOLLERR"

definition one_event :: "addr \<Rightarrow> uint32 \<Rightarrow> world \<Rightarrow> world outcome" where
  "one_event a ev w =
     (case ctxs w a of
        None \<Rightarrow> Fault
      | Some ctx \<Rightarrow>
          let ctx = (if ev AND READ_EVENTS \<noteq> 0 then ctx\<lparr>prd := True\<rparr> else ctx);
              ctx = (if ev AND WRITE_EVENTS \<noteq> 0 then ctx\<lparr>pwr := True\<rparr> else ctx)
          in process_io a (w\<lparr>ctxs := (ctxs w)(a \<mapsto> ctx)\<rparr>))"

fun all_events :: "(addr \<times> uint32) list \<Rightarrow> world \<Rightarrow> world outcome" where
  "all_events [] w = Ok w"
| "all_events ((a, ev) # es) w = bind (one_event a ev w) (\<lambda>w. all_events es w)"

text \<open>
  What \<^verbatim>\<open>epoll_wait\<close> may return: at most \<^verbatim>\<open>MAX_EVENTS\<close> events, for different contexts, each of them in
  the interest list.
\<close>

definition epoll_ok :: "(addr \<times> uint32) list \<Rightarrow> world \<Rightarrow> bool" where
  "epoll_ok es w \<longleftrightarrow> length es \<le> MAX_EVENTS \<and> distinct (map fst es) \<and>
     (\<forall>a\<in>set (map fst es). \<exists>ctx. ctxs w a = Some ctx \<and> map_option fst (interest w (ctx_fd ctx)) = Some a)"

fun main_loop :: "wait_result list \<Rightarrow> world \<Rightarrow> world outcome" where
  \<comment> \<open>the endless loop, as far as the results of \<^verbatim>\<open>epoll_wait\<close> are known\<close>
  "main_loop [] w = Ok w"
| "main_loop (Wait_intr # rs) w = main_loop rs w"
| "main_loop (Wait_error # rs) w = Exit"
| "main_loop (Events es # rs) w =
     (if epoll_ok es w then bind (all_events es w) (\<lambda>w. main_loop rs w) else Starved)"

text \<open>
  \<^verbatim>\<open>listen_port\<close>: the results of \<^verbatim>\<open>socket\<close> (a negative number on error), \<^verbatim>\<open>bind\<close>, \<^verbatim>\<open>setsockopt\<close> and \<^verbatim>\<open>listen\<close>
  are parameters, as is the result of \<^verbatim>\<open>epoll_create1\<close> below.
\<close>

definition listen_port :: "fd \<Rightarrow> bool \<Rightarrow> bool \<Rightarrow> bool \<Rightarrow> fd outcome" where
  "listen_port sfd bound opt listening =
     (if sfd < 0 then Exit
      else if \<not> bound then Exit
      else if \<not> opt then Exit
      else if \<not> listening then Exit
      else Ok sfd)"

definition initial :: "world \<Rightarrow> fd \<Rightarrow> world" where
  \<comment> \<open>before \<^verbatim>\<open>main\<close> nothing is allocated or registered, and the listening socket is new\<close>
  "initial env lfd = env\<lparr>ctxs := (\<lambda>_. None), interest := (\<lambda>_. None), socks := (\<lambda>_. None)(lfd \<mapsto> \<lparr>inp = [], outp = []\<rparr>)\<rparr>"

definition main :: "nat \<Rightarrow> int \<Rightarrow> fd \<Rightarrow> bool \<Rightarrow> bool \<Rightarrow> bool \<Rightarrow> world \<Rightarrow> (int + world) outcome" where
  \<comment> \<open>\<open>Inl\<close> is the exit code that \<^verbatim>\<open>main\<close> returns, \<open>Inr\<close> the state of the running server\<close>
  "main argc epfd sfd bound opt listening env =
     (if argc \<noteq> 2 then Ok (Inl 1)
      else if epfd = -1 then Exit
      else
        bind (listen_port sfd bound opt listening) (\<lambda>lfd.
        bind (add_epoll_ctx 1 lfd 1 None (initial env lfd)) (\<lambda>w.
        bind (main_loop (waits w) w) (\<lambda>w. Ok (Inr w)))))"

section \<open>Partial correctness without faults\<close>

fun safe :: "('a \<Rightarrow> bool) \<Rightarrow> 'a outcome \<Rightarrow> bool" where
  "safe P (Ok x) = P x"
| "safe P Fault = False"
| "safe P _ = True"

lemma safe_bind [intro]: "safe Q r \<Longrightarrow> (\<And>x. Q x \<Longrightarrow> safe P (f x)) \<Longrightarrow> safe P (bind r f)"
  by (cases r) auto

lemma safe_mono: "safe P r \<Longrightarrow> (\<And>x. P x \<Longrightarrow> Q x) \<Longrightarrow> safe Q r"
  by (cases r) auto

lemma safe_Ok: "safe P r \<Longrightarrow> r = Ok x \<Longrightarrow> P x"
  by auto

lemma safe_Fault: "safe P r \<Longrightarrow> r \<noteq> Fault"
  by auto

lemma safe_epoll_ctl: "(\<And>rs. P (change (w\<lparr>ctls := rs\<rparr>))) \<Longrightarrow> safe P (epoll_ctl change w)"
  by (auto simp: epoll_ctl_def split: list.splits)

lemma safe_setsockopt: "(\<And>rs. P (w\<lparr>sockopts := rs\<rparr>)) \<Longrightarrow> safe P (setsockopt w)"
  by (auto simp: setsockopt_def split: list.splits)

section \<open>A client and its buffer\<close>

definition pending :: "client \<Rightarrow> byte list" where
  "pending c = take (sz c - wr c) (drop (wr c) (buf c))"

text \<open>The buffer holds what has been read and not yet written.\<close>

definition client_ok :: "client \<Rightarrow> sock \<Rightarrow> bool" where
  "client_ok c s \<longleftrightarrow> length (buf c) = CLIENT_BUF_SIZE \<and> wr c \<le> sz c \<and> sz c \<le> CLIENT_BUF_SIZE \<and>
     inp s = outp s @ pending c"

lemma client_ok_new [simp]: "client_ok new_client \<lparr>inp = [], outp = []\<rparr>"
  by (simp add: client_ok_def new_client_def pending_def)

lemma take_length_append: "take (length xs) (xs @ ys) = xs"
  by simp

lemma client_ok_read:
  assumes "client_ok c s" "length bs \<le> CLIENT_BUF_SIZE - sz c"
  shows "client_ok (c\<lparr>buf := take (sz c) (buf c) @ bs @ drop (sz c + length bs) (buf c), sz := sz c + length bs\<rparr>)
    (s\<lparr>inp := inp s @ bs\<rparr>)"
proof -
  define A where "A = take (sz c) (buf c)"
  have A: "length A = sz c" "drop (wr c) A = take (sz c - wr c) (drop (wr c) (buf c))"
    using assms by (auto simp: A_def client_ok_def drop_take)
  then have "drop (wr c) (A @ bs @ drop (sz c + length bs) (buf c)) = drop (wr c) A @ bs @ drop (sz c + length bs) (buf c)"
    using assms by (simp add: client_ok_def)
  moreover have "sz c - wr c + length bs = length (drop (wr c) A @ bs)"
    using A(1) by simp
  ultimately have "take (sz c - wr c + length bs) (drop (wr c) (A @ bs @ drop (sz c + length bs) (buf c))) =
      drop (wr c) A @ bs"
    by (simp only: append_assoc[symmetric] take_length_append)
  then have "take (sz c - wr c + length bs) (drop (wr c) (take (sz c) (buf c) @ bs @ drop (sz c + length bs) (buf c)))
      = take (sz c - wr c) (drop (wr c) (buf c)) @ bs"
    by (simp only: A(2)) (simp only: A_def)
  moreover have "sz c + length bs - wr c = sz c - wr c + length bs"
    using assms by (simp add: client_ok_def)
  moreover have upd: "pending (c\<lparr>buf := X, sz := n\<rparr>) = take (n - wr c) (drop (wr c) X)" for X n
    by (simp add: pending_def)
  ultimately have "pending (c\<lparr>buf := take (sz c) (buf c) @ bs @ drop (sz c + length bs) (buf c), sz := sz c + length bs\<rparr>) =
      pending c @ bs"
    by (simp only: upd) (simp only: pending_def)
  with assms show ?thesis by (auto simp: client_ok_def)
qed

lemma client_ok_write:
  assumes "client_ok c s" "n \<le> sz c - wr c"
  shows "client_ok (c\<lparr>wr := wr c + n\<rparr>) (s\<lparr>outp := outp s @ take n (drop (wr c) (buf c))\<rparr>)"
proof -
  have "take (sz c - wr c) (drop (wr c) (buf c)) =
      take n (drop (wr c) (buf c)) @ take (sz c - wr c - n) (drop n (drop (wr c) (buf c)))"
    using assms(2) by (metis le_add_diff_inverse take_add)
  with assms show ?thesis
    by (auto simp: client_ok_def pending_def add.commute)
qed

lemma client_ok_reset: "client_ok c s \<Longrightarrow> wr c = sz c \<Longrightarrow> client_ok (c\<lparr>wr := 0, sz := 0\<rparr>) s"
  by (simp add: client_ok_def pending_def)

lemma read_loop_safe:
  assumes "client_ok c s"
  shows "safe (\<lambda>(r, rs). \<forall>b c' s'. r = Some (b, c', s') \<longrightarrow>
    client_ok c' s' \<and> wr c' = wr c \<and> outp s' = outp s \<and> prefix (inp s) (inp s') \<and> (b \<longrightarrow> sz c' = CLIENT_BUF_SIZE))
    (read_loop c s rs)"
  using assms
proof (induction rs arbitrary: c s)
  case Nil
  then show ?case by (auto simp: read_loop.simps[of c s] client_ok_def)
next
  case (Cons r rs)
  show ?case
  proof (cases r)
    case (Read bs)
    let ?c = "c\<lparr>buf := take (sz c) (buf c) @ bs @ drop (sz c + length bs) (buf c), sz := sz c + length bs\<rparr>"
    let ?s = "s\<lparr>inp := inp s @ bs\<rparr>"
    show ?thesis
    proof (cases "sz c < CLIENT_BUF_SIZE \<and> length bs \<le> CLIENT_BUF_SIZE - sz c \<and> bs \<noteq> []")
      case True
      then have eq: "read_loop c s (r # rs) = read_loop ?c ?s rs"
        using Read by (simp add: read_loop.simps[of c s])
      have ok: "client_ok ?c ?s" using True Cons.prems by (intro client_ok_read) auto
      show ?thesis
        unfolding eq by (rule safe_mono[OF Cons.IH[OF ok]]) (auto simp: prefix_def)
    next
      case False
      with Read Cons.prems show ?thesis by (auto simp: read_loop.simps[of c s] client_ok_def)
    qed
  qed (use Cons.prems in \<open>auto simp: read_loop.simps[of c s] client_ok_def\<close>)
qed

lemma write_loop_safe:
  assumes "client_ok c s"
  shows "safe (\<lambda>(r, rs). \<forall>b c' s'. r = Some (b, c', s') \<longrightarrow>
    client_ok c' s' \<and> inp s' = inp s \<and> prefix (outp s) (outp s') \<and> (b \<longrightarrow> wr c' = sz c'))
    (write_loop c s rs)"
  using assms
proof (induction rs arbitrary: c s)
  case Nil
  then show ?case by (auto simp: write_loop.simps[of c s] client_ok_def)
next
  case (Cons r rs)
  show ?case
  proof (cases r)
    case (Wrote n)
    let ?c = "c\<lparr>wr := wr c + n\<rparr>"
    let ?s = "s\<lparr>outp := outp s @ take n (drop (wr c) (buf c))\<rparr>"
    show ?thesis
    proof (cases "wr c < sz c \<and> n \<le> sz c - wr c")
      case True
      then have eq: "write_loop c s (r # rs) = write_loop ?c ?s rs"
        using Wrote by (simp add: write_loop.simps[of c s])
      have ok: "client_ok ?c ?s" using True Cons.prems by (intro client_ok_write) auto
      show ?thesis
        unfolding eq by (rule safe_mono[OF Cons.IH[OF ok]]) (auto simp: prefix_def)
    next
      case False
      with Wrote Cons.prems show ?thesis by (auto simp: write_loop.simps[of c s] client_ok_def)
    qed
  qed (use Cons.prems in \<open>auto simp: write_loop.simps[of c s] client_ok_def\<close>)
qed

section \<open>The invariant of the server\<close>

definition ctx_ok :: "world \<Rightarrow> addr \<Rightarrow> io_context \<Rightarrow> bool" where
  "ctx_ok w a ctx \<longleftrightarrow> map_option fst (interest w (ctx_fd ctx)) = Some a \<and>
     (\<exists>s. socks w (ctx_fd ctx) = Some s \<and>
        (kind ctx = 1 \<and> data ctx = None \<or> kind ctx = 2 \<and> (\<exists>c. data ctx = Some c \<and> client_ok c s)))"

text \<open>
  Every context is registered with its own descriptor, whose socket is open, and every
  registration belongs to a context.
\<close>

definition server_inv :: "world \<Rightarrow> bool" where
  "server_inv w \<longleftrightarrow> (\<forall>a ctx. ctxs w a = Some ctx \<longrightarrow> ctx_ok w a ctx) \<and>
     (\<forall>f x. interest w f = Some x \<longrightarrow> (\<exists>ctx. ctxs w (fst x) = Some ctx \<and> ctx_fd ctx = f))"

text \<open>Contexts other than \<open>a\<close> stay allocated.\<close>

definition keeps :: "addr \<Rightarrow> world \<Rightarrow> world \<Rightarrow> bool" where
  "keeps a w w' \<longleftrightarrow> (\<forall>b. b \<noteq> a \<longrightarrow> ctxs w b \<noteq> None \<longrightarrow> ctxs w' b \<noteq> None)"

lemma server_invD:
  assumes "server_inv w" "ctxs w a = Some ctx"
  shows "ctx_ok w a ctx" "ctxs w b = Some ctx' \<Longrightarrow> b \<noteq> a \<Longrightarrow> ctx_fd ctx' \<noteq> ctx_fd ctx"
proof -
  show "ctx_ok w a ctx" using assms by (simp add: server_inv_def)
  assume "ctxs w b = Some ctx'" "b \<noteq> a"
  moreover from this assms have "ctx_ok w a ctx" "ctx_ok w b ctx'" by (auto simp: server_inv_def)
  ultimately show "ctx_fd ctx' \<noteq> ctx_fd ctx" by (auto simp: ctx_ok_def)
qed

lemma server_inv_interest:
  assumes "server_inv w" "interest w f = Some x"
  obtains ctx where "ctxs w (fst x) = Some ctx" "ctx_fd ctx = f"
  using assms unfolding server_inv_def by blast

lemma server_inv_cong:
  "ctxs w' = ctxs w \<Longrightarrow> socks w' = socks w \<Longrightarrow> interest w' = interest w \<Longrightarrow> server_inv w' = server_inv w"
  by (simp add: server_inv_def ctx_ok_def)

lemma server_inv_update:
  assumes inv: "server_inv w" and a: "ctxs w a = Some ctx" "ctx_fd ctx' = ctx_fd ctx" "kind ctx' = kind ctx"
    and c: "kind ctx = 1 \<and> data ctx' = None \<or> kind ctx = 2 \<and> (\<exists>c. data ctx' = Some c \<and> client_ok c s)"
  shows "server_inv (w\<lparr>ctxs := (ctxs w)(a \<mapsto> ctx'), socks := (socks w)(ctx_fd ctx \<mapsto> s)\<rparr>)"
proof -
  have "ctx_ok (w\<lparr>ctxs := (ctxs w)(a \<mapsto> ctx'), socks := (socks w)(ctx_fd ctx \<mapsto> s)\<rparr>) b ctxb"
    if "((ctxs w)(a \<mapsto> ctx')) b = Some ctxb" for b ctxb
  proof (cases "b = a")
    case True
    with that a c server_invD(1)[OF inv a(1)] show ?thesis by (auto simp: ctx_ok_def)
  next
    case False
    with that have b: "ctxs w b = Some ctxb" by simp
    with server_invD(2)[OF inv a(1) b] server_invD(1)[OF inv b] False show ?thesis by (simp add: ctx_ok_def)
  qed
  moreover have "\<exists>ctx2. ((ctxs w)(a \<mapsto> ctx')) (fst x) = Some ctx2 \<and> ctx_fd ctx2 = f" if "interest w f = Some x" for f x
    using inv that by (rule server_inv_interest) (use a in auto)
  ultimately show ?thesis by (simp add: server_inv_def)
qed

lemma server_inv_close:
  assumes inv: "server_inv w" and a: "ctxs w a = Some ctx"
  shows "server_inv (w\<lparr>ctxs := (ctxs w)(a := None), interest := (interest w)(ctx_fd ctx := None),
    socks := (socks w)(ctx_fd ctx := None)\<rparr>)"
proof -
  have "ctx_ok (w\<lparr>ctxs := (ctxs w)(a := None), interest := (interest w)(ctx_fd ctx := None), socks := (socks w)(ctx_fd ctx := None)\<rparr>) b ctxb"
    if "((ctxs w)(a := None)) b = Some ctxb" for b ctxb
  proof -
    from that have b: "ctxs w b = Some ctxb" "b \<noteq> a" by (auto split: if_splits)
    with server_invD(2)[OF inv a b] server_invD(1)[OF inv b(1)] show ?thesis by (simp add: ctx_ok_def)
  qed
  moreover have "fst x \<noteq> a" if "interest w f = Some x" "f \<noteq> ctx_fd ctx" for f x
    using inv that(1) by (rule server_inv_interest) (use a that(2) in auto)
  ultimately show ?thesis
    using inv unfolding server_inv_def by (auto split: if_splits) (metis fst_conv)
qed

lemma server_inv_new:
  assumes inv: "server_inv w" and new: "ctxs w a = None" "interest w (ctx_fd ctx) = None" "socks w (ctx_fd ctx) = Some s"
    and c: "kind ctx = 1 \<and> data ctx = None \<or> kind ctx = 2 \<and> (\<exists>c. data ctx = Some c \<and> client_ok c s)"
  shows "server_inv (w\<lparr>ctxs := (ctxs w)(a \<mapsto> ctx), interest := (interest w)(ctx_fd ctx \<mapsto> (a, m))\<rparr>)"
proof -
  have "ctx_ok (w\<lparr>ctxs := (ctxs w)(a \<mapsto> ctx), interest := (interest w)(ctx_fd ctx \<mapsto> (a, m))\<rparr>) b ctxb"
    if "((ctxs w)(a \<mapsto> ctx)) b = Some ctxb" for b ctxb
  proof (cases "b = a")
    case True
    with that new c show ?thesis by (auto simp: ctx_ok_def)
  next
    case False
    with that have b: "ctxs w b = Some ctxb" by simp
    from server_invD(1)[OF inv b] new(2) have "ctx_fd ctxb \<noteq> ctx_fd ctx" by (auto simp: ctx_ok_def)
    with server_invD(1)[OF inv b] show ?thesis by (simp add: ctx_ok_def)
  qed
  moreover have "\<exists>ctx2. ((ctxs w)(a \<mapsto> ctx)) (fst x) = Some ctx2 \<and> ctx_fd ctx2 = f"
    if "((interest w)(ctx_fd ctx \<mapsto> (a, m))) f = Some x" for f x
  proof (cases "f = ctx_fd ctx")
    case False
    with that have "interest w f = Some x" by simp
    with inv show ?thesis by (rule server_inv_interest) (use new(1) in auto)
  qed (use that in auto)
  ultimately show ?thesis by (simp add: server_inv_def)
qed

section \<open>The handlers\<close>

lemma keeps_refl [simp]: "keeps a w w"
  by (simp add: keeps_def)

lemma keeps_trans: "keeps a w w' \<Longrightarrow> keeps a w' w'' \<Longrightarrow> keeps a w w''"
  by (simp add: keeps_def)

lemma close_client_safe:
  assumes inv: "server_inv w" and a: "ctxs w a = Some ctx"
  shows "safe (\<lambda>w'. server_inv w' \<and> keeps a w w' \<and> ctxs w' a = None) (close_client a w)"
proof -
  have *: "server_inv w'" if "ctxs w' = (ctxs w)(a := None)" "interest w' = (interest w)(ctx_fd ctx := None)"
    "socks w' = (socks w)(ctx_fd ctx := None)" for w'
    using server_inv_close[OF inv a] that
      server_inv_cong[of w' "w\<lparr>ctxs := (ctxs w)(a := None), interest := (interest w)(ctx_fd ctx := None),
        socks := (socks w)(ctx_fd ctx := None)\<rparr>"] by simp
  show ?thesis
    by (cases "ctls w") (simp_all add: close_client_def del_epoll_ctx_def epoll_ctl_def a keeps_def *)
qed

text \<open>Reading and writing keep the client's buffer and the rest of the server as the invariant wants them.\<close>

definition io_step :: "addr \<Rightarrow> world \<Rightarrow> (io_context \<times> client \<times> sock \<Rightarrow> bool) \<Rightarrow> (io_context \<times> client \<times> sock) option \<times> world \<Rightarrow> bool" where
  "io_step a w P = (\<lambda>(r, w'). server_inv w' \<and> keeps a w w' \<and>
     (case r of None \<Rightarrow> ctxs w' a = None | Some x \<Rightarrow> ctxs w' = ctxs w \<and> socks w' = socks w \<and> P x))"

lemma io_step_close:
  assumes "server_inv w" "ctxs w a = Some ctx" "ctxs w' = ctxs w" "socks w' = socks w" "interest w' = interest w"
  shows "safe (io_step a w P) (bind (close_client a w') (\<lambda>w. Ok (None, w)))"
proof (rule safe_bind)
  show "safe (\<lambda>w1. server_inv w1 \<and> keeps a w' w1 \<and> ctxs w1 a = None) (close_client a w')"
    using assms server_inv_cong[of w' w] by (intro close_client_safe) auto
qed (use assms in \<open>auto simp: io_step_def keeps_def\<close>)

lemma io_step_go:
  assumes "server_inv w" "ctxs w' = ctxs w" "socks w' = socks w" "interest w' = interest w" "P x"
  shows "safe (io_step a w P) (Ok (Some x, w'))"
  using assms server_inv_cong[of w' w] by (auto simp: io_step_def keeps_def)

lemma read_part_safe:
  assumes inv: "server_inv w" and a: "ctxs w a = Some ctx0" and c: "client_ok c s"
  shows "safe (io_step a w (\<lambda>(ctx', c', s').
     (\<exists>b. ctx' = ctx\<lparr>prd := b\<rparr>) \<and> client_ok c' s' \<and> wr c' = wr c \<and> outp s' = outp s \<and>
     prefix (inp s) (inp s') \<and> (prd ctx' \<longrightarrow> sz c' = CLIENT_BUF_SIZE))) (read_part a ctx c s w)"
proof (cases "prd ctx")
  case True
  show ?thesis
    unfolding read_part_def if_P[OF True]
  proof (rule safe_bind[OF read_loop_safe[OF c]])
    fix x :: "(bool \<times> client \<times> sock) option \<times> read_result list"
    assume x: "case x of (r, rs) \<Rightarrow> \<forall>b c' s'. r = Some (b, c', s') \<longrightarrow>
      client_ok c' s' \<and> wr c' = wr c \<and> outp s' = outp s \<and> prefix (inp s) (inp s') \<and> (b \<longrightarrow> sz c' = CLIENT_BUF_SIZE)"
    obtain r rs where r: "x = (r, rs)" by (cases x)
    show "safe (io_step a w (\<lambda>(ctx', c', s').
       (\<exists>b. ctx' = ctx\<lparr>prd := b\<rparr>) \<and> client_ok c' s' \<and> wr c' = wr c \<and> outp s' = outp s \<and>
       prefix (inp s) (inp s') \<and> (prd ctx' \<longrightarrow> sz c' = CLIENT_BUF_SIZE)))
       (case x of (r, rs) \<Rightarrow> let w = w\<lparr>reads := rs\<rparr> in
          (case r of None \<Rightarrow> bind (close_client a w) (\<lambda>w. Ok (None, w))
          | Some (b, c, s) \<Rightarrow> Ok (Some (ctx\<lparr>prd := b\<rparr>, c, s), w)))"
    proof (cases r)
      case None
      then show ?thesis using io_step_close[OF inv a] by (simp add: r Let_def)
    next
      case (Some y)
      obtain b c' s' where y: "y = (b, c', s')" by (cases y)
      show ?thesis unfolding r Some y Let_def option.case prod.case
        by (rule io_step_go[OF inv]) (use x r Some y in auto)
    qed
  qed
next
  case False
  have "\<exists>b. ctx = ctx\<lparr>prd := b\<rparr>" using False by (intro exI[of _ False]) (cases ctx, simp)
  then show ?thesis using False inv c by (auto simp: read_part_def io_step_def)
qed

lemma write_part_safe:
  assumes inv: "server_inv w" and a: "ctxs w a = Some ctx0" and c: "client_ok c s"
  shows "safe (io_step a w (\<lambda>(ctx', c', s').
     (\<exists>b. ctx' = ctx\<lparr>pwr := b\<rparr>) \<and> client_ok c' s' \<and> inp s' = inp s \<and>
     prefix (outp s) (outp s') \<and> (pwr ctx' \<longrightarrow> wr c' = 0 \<and> sz c' = 0))) (write_part a ctx c s w)"
proof (cases "pwr ctx")
  case True
  show ?thesis
    unfolding write_part_def if_P[OF True]
  proof (rule safe_bind[OF write_loop_safe[OF c]])
    fix x :: "(bool \<times> client \<times> sock) option \<times> write_result list"
    assume x: "case x of (r, rs) \<Rightarrow> \<forall>b c' s'. r = Some (b, c', s') \<longrightarrow>
      client_ok c' s' \<and> inp s' = inp s \<and> prefix (outp s) (outp s') \<and> (b \<longrightarrow> wr c' = sz c')"
    obtain r rs where r: "x = (r, rs)" by (cases x)
    show "safe (io_step a w (\<lambda>(ctx', c', s').
       (\<exists>b. ctx' = ctx\<lparr>pwr := b\<rparr>) \<and> client_ok c' s' \<and> inp s' = inp s \<and>
       prefix (outp s) (outp s') \<and> (pwr ctx' \<longrightarrow> wr c' = 0 \<and> sz c' = 0)))
       (case x of (r, rs) \<Rightarrow> let w = w\<lparr>writes := rs\<rparr> in
          (case r of None \<Rightarrow> bind (close_client a w) (\<lambda>w. Ok (None, w))
          | Some (b, c, s) \<Rightarrow>
              let c = (if wr c = sz c then c\<lparr>wr := 0, sz := 0\<rparr> else c) in Ok (Some (ctx\<lparr>pwr := b\<rparr>, c, s), w)))"
    proof (cases r)
      case None
      then show ?thesis using io_step_close[OF inv a] by (simp add: r Let_def)
    next
      case (Some y)
      obtain b c' s' where y: "y = (b, c', s')" by (cases y)
      show ?thesis unfolding r Some y Let_def option.case prod.case
        by (rule io_step_go[OF inv]) (use x r Some y client_ok_reset in auto)
    qed
  qed
next
  case False
  have "\<exists>b. ctx = ctx\<lparr>pwr := b\<rparr>" using False by (intro exI[of _ False]) (cases ctx, simp)
  then show ?thesis using False inv c by (auto simp: write_part_def io_step_def)
qed

text \<open>What one call of \<^verbatim>\<open>handle_client_io\<close> does to its client.\<close>

definition served :: "addr \<Rightarrow> io_context \<Rightarrow> client \<Rightarrow> sock \<Rightarrow> world \<Rightarrow> bool" where
  "served a ctx c s w' \<longleftrightarrow> (\<exists>ctx' c' s'. ctxs w' a = Some ctx' \<and> data ctx' = Some c' \<and> socks w' (ctx_fd ctx) = Some s' \<and>
     ctx_fd ctx' = ctx_fd ctx \<and> kind ctx' = kind ctx \<and> client_ok c' s' \<and> prefix (inp s) (inp s') \<and> prefix (outp s) (outp s') \<and>
     (pwr ctx' \<longrightarrow> outp s' = inp s' \<and> sz c' = 0) \<and>
     (prd ctx' \<longrightarrow> length (inp s') = length (outp s) + CLIENT_BUF_SIZE - wr c))"

lemma length_pending: "client_ok c s \<Longrightarrow> length (inp s) = length (outp s) + (sz c - wr c)"
  by (auto simp: client_ok_def pending_def min_def)

lemma write_then_store_safe:
  assumes inv: "server_inv w" "server_inv w1" "ctxs w1 = ctxs w" "socks w1 = socks w"
    and a: "ctxs w a = Some ctx" "kind ctx = 2"
    and r: "ctx1 = ctx\<lparr>prd := b\<rparr>" "client_ok c1 s1" "wr c1 = wr c" "outp s1 = outp s" "prefix (inp s) (inp s1)"
      "prd ctx1 \<longrightarrow> sz c1 = CLIENT_BUF_SIZE"
  shows "safe (\<lambda>w'. server_inv w' \<and> keeps a w w' \<and> (ctxs w' a = None \<or> served a ctx c s w'))
    (bind (write_part a ctx1 c1 s1 w1) (\<lambda>(r, w). case r of None \<Rightarrow> Ok w
      | Some (ctx, c, s) \<Rightarrow> Ok (w\<lparr>ctxs := (ctxs w)(a \<mapsto> ctx\<lparr>data := Some c\<rparr>), socks := (socks w)(ctx_fd ctx \<mapsto> s)\<rparr>)))"
proof (rule safe_bind[OF write_part_safe[OF inv(2) _ r(2), of a ctx ctx1]])
  show "ctxs w1 a = Some ctx" using inv a by simp
next
  fix x assume x: "io_step a w1 (\<lambda>(ctx', c', s'). (\<exists>b. ctx' = ctx1\<lparr>pwr := b\<rparr>) \<and> client_ok c' s' \<and> inp s' = inp s1 \<and>
     prefix (outp s1) (outp s') \<and> (pwr ctx' \<longrightarrow> wr c' = 0 \<and> sz c' = 0)) x"
  obtain r2 w2 where x2: "x = (r2, w2)" by (cases x)
  show "safe (\<lambda>w'. server_inv w' \<and> keeps a w w' \<and> (ctxs w' a = None \<or> served a ctx c s w'))
    (case x of (r, w) \<Rightarrow> (case r of None \<Rightarrow> Ok w
      | Some (ctx, c, s) \<Rightarrow> Ok (w\<lparr>ctxs := (ctxs w)(a \<mapsto> ctx\<lparr>data := Some c\<rparr>), socks := (socks w)(ctx_fd ctx \<mapsto> s)\<rparr>)))"
  proof (cases r2)
    case None
    with x x2 inv show ?thesis by (simp add: io_step_def keeps_def)
  next
    case (Some y)
    obtain ctx2 c2 s2 where y: "y = (ctx2, c2, s2)" by (cases y)
    from x obtain b2 where 2: "server_inv w2" "ctxs w2 = ctxs w" "socks w2 = socks w" "ctx2 = ctx1\<lparr>pwr := b2\<rparr>" "client_ok c2 s2"
      "inp s2 = inp s1" "prefix (outp s1) (outp s2)" "pwr ctx2 \<longrightarrow> wr c2 = 0 \<and> sz c2 = 0"
      using inv by (auto simp: x2 Some y io_step_def)
    let ?w = "w2\<lparr>ctxs := (ctxs w2)(a \<mapsto> ctx2\<lparr>data := Some c2\<rparr>), socks := (socks w2)(ctx_fd ctx \<mapsto> s2)\<rparr>"
    have fd: "ctx_fd ctx2 = ctx_fd ctx" using 2 r by simp
    have "server_inv ?w"
      by (rule server_inv_update[OF 2(1)]) (use 2 a r in auto)
    moreover have "served a ctx c s ?w"
    proof -
      have "outp s2 = inp s2" if "pwr ctx2"
        using 2(5,8) that by (simp add: client_ok_def pending_def)
      moreover have "length (inp s2) = length (outp s) + CLIENT_BUF_SIZE - wr c" if "prd ctx2"
        using length_pending[OF r(2)] r 2 that by (simp add: client_ok_def)
      ultimately show ?thesis
        using 2 r a fd by (auto simp: served_def)
    qed
    moreover have "keeps a w ?w" using 2 by (simp add: keeps_def)
    ultimately show ?thesis by (simp add: x2 Some y fd)
  qed
qed

lemma handle_client_io_safe:
  assumes inv: "server_inv w" and a: "ctxs w a = Some ctx" "kind ctx = 2" "data ctx = Some c" "socks w (ctx_fd ctx) = Some s"
  shows "safe (\<lambda>w'. server_inv w' \<and> keeps a w w' \<and> (ctxs w' a = None \<or> served a ctx c s w')) (handle_client_io a w)"
proof -
  have cs: "client_ok c s"
    using server_invD(1)[OF inv a(1)] a by (auto simp: ctx_ok_def)
  show ?thesis
    unfolding handle_client_io_def a option.case prod.case
  proof (rule safe_bind[OF read_part_safe[OF inv a(1) cs, of ctx]])
    fix x assume x: "io_step a w (\<lambda>(ctx', c', s'). (\<exists>b. ctx' = ctx\<lparr>prd := b\<rparr>) \<and> client_ok c' s' \<and> wr c' = wr c \<and> outp s' = outp s \<and>
       prefix (inp s) (inp s') \<and> (prd ctx' \<longrightarrow> sz c' = CLIENT_BUF_SIZE)) x"
    obtain r1 w1 where x1: "x = (r1, w1)" by (cases x)
    show "safe (\<lambda>w'. server_inv w' \<and> keeps a w w' \<and> (ctxs w' a = None \<or> served a ctx c s w'))
      (case x of (r, w) \<Rightarrow> (case r of None \<Rightarrow> Ok w | Some (ctx, c, s) \<Rightarrow>
        bind (write_part a ctx c s w) (\<lambda>(r, w). case r of None \<Rightarrow> Ok w
          | Some (ctx, c, s) \<Rightarrow> Ok (w\<lparr>ctxs := (ctxs w)(a \<mapsto> ctx\<lparr>data := Some c\<rparr>), socks := (socks w)(ctx_fd ctx \<mapsto> s)\<rparr>))))"
    proof (cases r1)
      case None
      with x x1 show ?thesis by (simp add: io_step_def)
    next
      case (Some y)
      obtain ctx1 c1 s1 where y: "y = (ctx1, c1, s1)" by (cases y)
      from x show ?thesis
        unfolding x1 Some y option.case prod.case
        by (auto simp: io_step_def intro!: write_then_store_safe[OF inv _ _ _ a(1,2)])
    qed
  qed
qed

text \<open>Accepting: the new contexts leave the old ones alone.\<close>

definition grows :: "world \<Rightarrow> world \<Rightarrow> bool" where
  "grows w w' \<longleftrightarrow> (\<forall>b. ctxs w b \<noteq> None \<longrightarrow> ctxs w' b = ctxs w b)"

lemma grows_trans: "grows w w' \<Longrightarrow> grows w' w'' \<Longrightarrow> grows w w''"
  by (auto simp: grows_def)

lemma add_epoll_ctx_safe:
  assumes inv: "server_inv w" and f: "interest w f = None" "socks w f = Some s"
    and c: "k = 1 \<and> d = None \<or> k = 2 \<and> (\<exists>c. d = Some c \<and> client_ok c s)"
  shows "safe (\<lambda>w'. server_inv w' \<and> grows w w') (add_epoll_ctx k f rw d w)"
proof (cases "mallocs w")
  case (Cons a as)
  let ?ctx = "\<lparr>kind = k, ctx_fd = f, data = d, prd = False, pwr = False\<rparr>"
  show ?thesis
  proof (cases "ctxs w a")
    case None
    have new: "server_inv (w\<lparr>ctxs := (ctxs w)(a \<mapsto> ?ctx), interest := (interest w)(ctx_fd ?ctx \<mapsto> (a, epoll_events rw))\<rparr>)"
      by (rule server_inv_new[OF inv None]) (use f c in auto)
    have "server_inv w'" if "ctxs w' = (ctxs w)(a \<mapsto> ?ctx)" "interest w' = (interest w)(f \<mapsto> (a, epoll_events rw))" "socks w' = socks w" for w'
      using new that server_inv_cong[of w' "w\<lparr>ctxs := (ctxs w)(a \<mapsto> ?ctx), interest := (interest w)(ctx_fd ?ctx \<mapsto> (a, epoll_events rw))\<rparr>"]
      by simp
    with None Cons show ?thesis
      by (cases "ctls w") (simp_all add: add_epoll_ctx_def epoll_ctl_def grows_def Let_def)
  qed (simp add: add_epoll_ctx_def Cons)
qed (simp add: add_epoll_ctx_def)

lemma server_inv_unopened:
  assumes "server_inv w" "socks w f = None"
  shows "interest w f = None"
proof (rule ccontr)
  assume "interest w f \<noteq> None"
  then obtain x where x: "interest w f = Some x" by auto
  from assms(1) this show False
  proof (rule server_inv_interest)
    fix ctx assume "ctxs w (fst x) = Some ctx" "ctx_fd ctx = f"
    with server_invD(1)[OF assms(1)] assms(2) show False by (fastforce simp: ctx_ok_def)
  qed
qed

lemma accepted_safe:
  assumes inv: "server_inv w"
  shows "safe (\<lambda>w'. server_inv w' \<and> grows w w') (accepted cfd w)"
proof (cases "cfd < 0 \<or> socks w cfd \<noteq> None")
  case False
  then have no: "interest w cfd = None" using server_inv_unopened[OF inv] by blast
  define ready where "ready w' \<longleftrightarrow> server_inv w' \<and> ctxs w' = ctxs w \<and> interest w' cfd = None \<and>
    socks w' cfd = Some \<lparr>inp = [], outp = []\<rparr>" for w'
  have "ctx_ok (w\<lparr>socks := (socks w)(cfd \<mapsto> \<lparr>inp = [], outp = []\<rparr>)\<rparr>) a ctx" if "ctxs w a = Some ctx" for a ctx
    using server_invD(1)[OF inv that] False by (auto simp: ctx_ok_def)
  then have start: "ready (w\<lparr>socks := (socks w)(cfd \<mapsto> \<lparr>inp = [], outp = []\<rparr>)\<rparr>)"
    using inv no by (auto simp: ready_def server_inv_def)
  have opt: "safe ready (setsockopt w')" if "ready w'" for w'
  proof (rule safe_setsockopt)
    show "ready (w'\<lparr>sockopts := rs\<rparr>)" for rs
      using that server_inv_cong[of "w'\<lparr>sockopts := rs\<rparr>" w'] by (simp add: ready_def)
  qed
  have new: "safe (\<lambda>w'. server_inv w' \<and> grows w w') (handle_new_client cfd w')" if w': "ready w'" for w'
  proof -
    have "safe (\<lambda>w2. server_inv w2 \<and> grows w' w2) (handle_new_client cfd w')"
      unfolding handle_new_client_def
      by (rule add_epoll_ctx_safe) (use w' client_ok_new in \<open>auto simp: ready_def simp del: client_ok_new\<close>)
    then show ?thesis by (rule safe_mono) (use w' in \<open>simp add: ready_def grows_def\<close>)
  qed
  show ?thesis
    unfolding accepted_def if_not_P[OF False]
    by (rule safe_bind[OF opt[OF start]], rule safe_bind[OF opt], assumption, rule safe_bind[OF opt], assumption) (rule new)
qed (simp add: accepted_def)

lemma clear_prd_safe:
  assumes inv: "server_inv w" and a: "ctxs w a = Some ctx"
  shows "safe (\<lambda>w'. server_inv w' \<and> keeps a w w') (clear_prd a w)"
proof -
  obtain s where s: "socks w (ctx_fd ctx) = Some s"
    "kind ctx = 1 \<and> data ctx = None \<or> kind ctx = 2 \<and> (\<exists>c. data ctx = Some c \<and> client_ok c s)"
    using server_invD(1)[OF inv a] by (auto simp: ctx_ok_def)
  have "server_inv (w\<lparr>ctxs := (ctxs w)(a \<mapsto> ctx\<lparr>prd := False\<rparr>), socks := (socks w)(ctx_fd ctx \<mapsto> s)\<rparr>)"
    by (rule server_inv_update[OF inv a]) (use s in auto)
  moreover have "(socks w)(ctx_fd ctx \<mapsto> s) = socks w" using s by (simp add: fun_upd_idem)
  ultimately have "server_inv (w\<lparr>ctxs := (ctxs w)(a \<mapsto> ctx\<lparr>prd := False\<rparr>)\<rparr>)"
    by (simp add: server_inv_def ctx_ok_def)
  then show ?thesis using a by (simp add: clear_prd_def keeps_def)
qed

lemma accept_loop_safe:
  assumes "server_inv w" "ctxs w a = Some ctx"
  shows "safe (\<lambda>w'. server_inv w' \<and> keeps a w w') (accept_loop a rs w)"
  using assms
proof (induction a rs w rule: accept_loop.induct)
  case (2 a rs w)
  have "safe (\<lambda>w'. server_inv w' \<and> keeps a (w\<lparr>accepts := rs\<rparr>) w') (clear_prd a (w\<lparr>accepts := rs\<rparr>))"
    using 2 server_inv_cong[of "w\<lparr>accepts := rs\<rparr>" w] by (intro clear_prd_safe[of _ _ ctx]) auto
  then show ?case by (auto simp: keeps_def elim: safe_mono)
next
  case (4 a cfd sa rs w)
  have "safe (\<lambda>w'. server_inv w' \<and> keeps a w w') (accept_loop a rs w')" if w': "server_inv w'" "grows w w'" for w'
  proof -
    have "ctxs w' a = Some ctx" using w' 4(3) by (auto simp: grows_def)
    from 4(1)[OF w'(1) this] show ?thesis
      by (rule safe_mono) (use w' in \<open>auto simp: keeps_def grows_def\<close>)
  qed
  with accepted_safe[OF 4(2)] show ?case by (auto intro!: safe_bind)
qed simp_all

lemma process_io_safe:
  assumes inv: "server_inv w" and a: "ctxs w a = Some ctx"
  shows "safe (\<lambda>w'. server_inv w' \<and> keeps a w w') (process_io a w)"
proof -
  have k: "kind ctx = 1 \<or> kind ctx = 2 \<and> data ctx \<noteq> None \<and> socks w (ctx_fd ctx) \<noteq> None"
    using server_invD(1)[OF inv a] by (auto simp: ctx_ok_def)
  show ?thesis
  proof (cases "kind ctx = 1")
    case True
    with accept_loop_safe[OF inv a] a show ?thesis by (simp add: process_io_def accept_client_def)
  next
    case False
    with k obtain c s where "data ctx = Some c" "socks w (ctx_fd ctx) = Some s" "kind ctx = 2" by auto
    then have "safe (\<lambda>w'. server_inv w' \<and> keeps a w w') (handle_client_io a w)"
      by (intro safe_mono[OF handle_client_io_safe[OF inv a]]) auto
    with a False \<open>kind ctx = 2\<close> show ?thesis by (simp add: process_io_def)
  qed
qed

lemma one_event_safe:
  assumes inv: "server_inv w" and a: "ctxs w a = Some ctx"
  shows "safe (\<lambda>w'. server_inv w' \<and> keeps a w w') (one_event a ev w)"
proof -
  obtain s where s: "socks w (ctx_fd ctx) = Some s"
    "kind ctx = 1 \<and> data ctx = None \<or> kind ctx = 2 \<and> (\<exists>c. data ctx = Some c \<and> client_ok c s)"
    using server_invD(1)[OF inv a] by (auto simp: ctx_ok_def)
  have ok: "server_inv (w\<lparr>ctxs := (ctxs w)(a \<mapsto> ctx')\<rparr>)" if "ctx_fd ctx' = ctx_fd ctx" "kind ctx' = kind ctx" "data ctx' = data ctx" for ctx'
  proof -
    have "server_inv (w\<lparr>ctxs := (ctxs w)(a \<mapsto> ctx'), socks := (socks w)(ctx_fd ctx \<mapsto> s)\<rparr>)"
      by (rule server_inv_update[OF inv a]) (use s that in auto)
    moreover have "(socks w)(ctx_fd ctx \<mapsto> s) = socks w" using s by (simp add: fun_upd_idem)
    ultimately show ?thesis by (simp add: server_inv_def ctx_ok_def)
  qed
  define ctx' where "ctx' = (let ctx = (if ev AND READ_EVENTS \<noteq> 0 then ctx\<lparr>prd := True\<rparr> else ctx)
    in if ev AND WRITE_EVENTS \<noteq> 0 then ctx\<lparr>pwr := True\<rparr> else ctx)"
  have "ctx_fd ctx' = ctx_fd ctx" "kind ctx' = kind ctx" "data ctx' = data ctx"
    by (simp_all add: ctx'_def Let_def)
  then have "safe (\<lambda>w'. server_inv w' \<and> keeps a (w\<lparr>ctxs := (ctxs w)(a \<mapsto> ctx')\<rparr>) w') (process_io a (w\<lparr>ctxs := (ctxs w)(a \<mapsto> ctx')\<rparr>))"
    by (intro process_io_safe[of _ _ ctx'] ok) simp_all
  moreover have "one_event a ev w = process_io a (w\<lparr>ctxs := (ctxs w)(a \<mapsto> ctx')\<rparr>)"
    by (simp only: one_event_def a option.case ctx'_def Let_def)
  ultimately show ?thesis by (auto simp: keeps_def elim: safe_mono)
qed

lemma all_events_safe:
  assumes "server_inv w" "distinct (map fst es)" "\<forall>a\<in>set (map fst es). ctxs w a \<noteq> None"
  shows "safe server_inv (all_events es w)"
  using assms
proof (induction es w rule: all_events.induct)
  case (2 a ev es w)
  then obtain ctx where a: "ctxs w a = Some ctx" by auto
  have "safe server_inv (all_events es w')" if "server_inv w'" "keeps a w w'" for w'
  proof (rule 2(1)[OF that(1)])
    show "\<forall>b\<in>set (map fst es). ctxs w' b \<noteq> None"
      using 2(3,4) that(2) unfolding keeps_def by (metis (no_types) distinct.simps(2) fst_conv list.set_intros(2) list.simps(9))
  qed (use 2(3) in simp)
  with one_event_safe[OF 2(2) a] show ?case by (auto intro!: safe_bind)
qed simp

lemma main_loop_safe: "server_inv w \<Longrightarrow> safe server_inv (main_loop rs w)"
proof (induction rs w rule: main_loop.induct)
  case (4 es rs w)
  show ?case
  proof (cases "epoll_ok es w")
    case True
    then have "safe server_inv (all_events es w)"
      by (intro all_events_safe 4(2)) (auto simp: epoll_ok_def)
    with True 4(1) show ?thesis by (auto intro!: safe_bind)
  qed simp
qed auto

lemma main_safe: "safe (\<lambda>r. \<forall>w. r = Inr w \<longrightarrow> server_inv w) (main argc epfd sfd bound opt listening env)"
proof -
  have inv: "server_inv (initial env lfd)" for lfd
    by (simp add: server_inv_def initial_def)
  have "safe (\<lambda>w. server_inv w) (add_epoll_ctx 1 lfd 1 None (initial env lfd))" for lfd
    by (rule safe_mono[OF add_epoll_ctx_safe[OF inv]]) (auto simp: initial_def)
  then show ?thesis
    unfolding main_def listen_port_def
    by (auto intro!: safe_bind[of server_inv] main_loop_safe)
qed

section \<open>What the server promises\<close>

text \<open>
  C19. The server echoes. Whatever the system calls return, in every state that the server reaches,
  for every connected client the bytes written to its socket are a prefix of the bytes read
  from it, in order, and what is missing is exactly the unwritten part of the client's buffer,
  which never overflows.
\<close>

theorem server_echoes:
  assumes "main argc epfd sfd bound opt listening env = Ok (Inr w)" "ctxs w a = Some ctx" "kind ctx = 2"
  shows "\<exists>c s. data ctx = Some c \<and> socks w (ctx_fd ctx) = Some s \<and>
    inp s = outp s @ take (sz c - wr c) (drop (wr c) (buf c)) \<and>
    wr c \<le> sz c \<and> sz c \<le> CLIENT_BUF_SIZE \<and> length (buf c) = CLIENT_BUF_SIZE"
proof -
  have "server_inv w" using safe_Ok[OF main_safe assms(1)] by simp
  from server_invD(1)[OF this assms(2)] assms(3) show ?thesis
    by (auto simp: ctx_ok_def client_ok_def pending_def)
qed

text \<open>
  C20. No context is used after it was freed: with an epoll instance that reports registered
  contexts only, each at most once per call, the server never reads or writes through a
  freed context or client.
\<close>

theorem main_no_fault: "main argc epfd sfd bound opt listening env \<noteq> Fault"
  by (rule safe_Fault[OF main_safe])

text \<open>
  C21. What an event leaves behind, which edge-triggered notification relies on: after
  \<^verbatim>\<open>handle_client_io\<close> the client is closed, or bytes were only added to both streams and
  if the socket is still marked writable everything that was read has been
  written and the buffer is empty, and if it is still marked readable the buffer has been filled.
\<close>

theorem handle_client_io_drains:
  assumes "server_inv w" "ctxs w a = Some ctx" "kind ctx = 2" "data ctx = Some c" "socks w (ctx_fd ctx) = Some s"
    "handle_client_io a w = Ok w'"
  shows "ctxs w' a = None \<or>
    (\<exists>ctx' c' s'. ctxs w' a = Some ctx' \<and> data ctx' = Some c' \<and> socks w' (ctx_fd ctx) = Some s' \<and>
      prefix (inp s) (inp s') \<and> prefix (outp s) (outp s') \<and>
      (pwr ctx' \<longrightarrow> outp s' = inp s' \<and> sz c' = 0) \<and>
      (prd ctx' \<longrightarrow> length (inp s') = length (outp s) + CLIENT_BUF_SIZE - wr c))"
  using safe_Ok[OF handle_client_io_safe[OF assms(1-5)] assms(6)] unfolding served_def by blast

lemma bind_Ok [simp]: "bind r f = Ok y \<longleftrightarrow> (\<exists>x. r = Ok x \<and> f x = Ok y)"
  by (cases r) auto

lemma bind_Exit: "bind r f = Exit \<longleftrightarrow> r = Exit \<or> (\<exists>x. r = Ok x \<and> f x = Exit)"
  by (cases r) auto

definition apart :: "addr \<Rightarrow> fd \<Rightarrow> world \<Rightarrow> world \<Rightarrow> bool" where
  "apart a f w w' \<longleftrightarrow> (\<forall>b. b \<noteq> a \<longrightarrow> ctxs w' b = ctxs w b) \<and> (\<forall>g. g \<noteq> f \<longrightarrow> socks w' g = socks w g)"

lemma close_client_apart:
  assumes "close_client a w = Ok w'" "ctxs w a = Some ctx"
  shows "apart a (ctx_fd ctx) w w'"
  using assms
  by (auto simp: apart_def close_client_def del_epoll_ctx_def epoll_ctl_def split: list.splits if_splits)

lemma close_client_no_Exit: "ctxs w a = Some ctx \<Longrightarrow> False \<notin> set (ctls w) \<Longrightarrow> close_client a w \<noteq> Exit"
  by (auto simp: close_client_def del_epoll_ctx_def epoll_ctl_def bind_Exit split: list.splits if_splits)

lemma read_loop_no_Exit: "read_loop c s rs \<noteq> Exit"
proof (induction rs arbitrary: c s)
  case Nil
  show ?case by (simp add: read_loop.simps[of c s])
next
  case (Cons r rs)
  then show ?case by (cases r) (auto simp: read_loop.simps[of c s])
qed

lemma write_loop_no_Exit: "write_loop c s rs \<noteq> Exit"
proof (induction rs arbitrary: c s)
  case Nil
  show ?case by (simp add: write_loop.simps[of c s])
next
  case (Cons r rs)
  then show ?case by (cases r) (auto simp: write_loop.simps[of c s])
qed

text \<open>The result of a part of the handler: nothing else is touched, and there is no exit without an \<^verbatim>\<open>epoll_ctl\<close> error.\<close>

definition part_apart :: "addr \<Rightarrow> io_context \<Rightarrow> world \<Rightarrow> ((io_context \<times> client \<times> sock) option \<times> world) outcome \<Rightarrow> bool" where
  "part_apart a ctx w r \<longleftrightarrow> (False \<notin> set (ctls w) \<longrightarrow> r \<noteq> Exit) \<and>
     (\<forall>x w'. r = Ok (x, w') \<longrightarrow> apart a (ctx_fd ctx) w w' \<and>
        (\<forall>ctx' c s. x = Some (ctx', c, s) \<longrightarrow> ctxs w' = ctxs w \<and> ctls w' = ctls w \<and> ctx_fd ctx' = ctx_fd ctx))"

lemma part_apart_close:
  assumes "ctxs w a = Some ctx0" "ctx_fd ctx0 = ctx_fd ctx" "ctxs w' = ctxs w" "socks w' = socks w" "ctls w' = ctls w"
  shows "part_apart a ctx w (bind (close_client a w') (\<lambda>w. Ok (None, w)))"
proof -
  have "apart a (ctx_fd ctx) w w1" if "close_client a w' = Ok w1" for w1
    using close_client_apart[OF that, of ctx0] assms by (simp add: apart_def)
  moreover have "close_client a w' \<noteq> Exit" if "False \<notin> set (ctls w)"
    using close_client_no_Exit[of w' a ctx0] assms that by simp
  ultimately show ?thesis
    unfolding part_apart_def by (auto simp: bind_Exit)
qed

lemma read_part_apart:
  assumes "ctxs w a = Some ctx0" "ctx_fd ctx0 = ctx_fd ctx"
  shows "part_apart a ctx w (read_part a ctx c s w)"
proof (cases "prd ctx")
  case True
  show ?thesis
  proof (cases "read_loop c s (reads w)")
    case (Ok x)
    obtain r rs where x: "x = (r, rs)" by (cases x)
    show ?thesis
    proof (cases r)
      case None
      with Ok x True show ?thesis
        using part_apart_close[OF assms, of "w\<lparr>reads := rs\<rparr>"] by (simp add: read_part_def)
    next
      case (Some y)
      with Ok x True show ?thesis by (cases y) (simp add: read_part_def part_apart_def apart_def)
    qed
  next
    case Exit
    with read_loop_no_Exit show ?thesis by blast
  qed (use True in \<open>simp_all add: read_part_def part_apart_def\<close>)
qed (simp add: read_part_def part_apart_def apart_def)

lemma write_part_apart:
  assumes "ctxs w a = Some ctx0" "ctx_fd ctx0 = ctx_fd ctx"
  shows "part_apart a ctx w (write_part a ctx c s w)"
proof (cases "pwr ctx")
  case True
  show ?thesis
  proof (cases "write_loop c s (writes w)")
    case (Ok x)
    obtain r rs where x: "x = (r, rs)" by (cases x)
    show ?thesis
    proof (cases r)
      case None
      with Ok x True show ?thesis
        using part_apart_close[OF assms, of "w\<lparr>writes := rs\<rparr>"] by (simp add: write_part_def)
    next
      case (Some y)
      with Ok x True show ?thesis by (cases y) (simp add: write_part_def part_apart_def apart_def Let_def)
    qed
  next
    case Exit
    with write_loop_no_Exit show ?thesis by blast
  qed (use True in \<open>simp_all add: write_part_def part_apart_def\<close>)
qed (simp add: write_part_def part_apart_def apart_def)

text \<open>
  A client cannot disturb the others: whatever happens while one client is served, including errors
  and the end of its stream, all other contexts and sockets are unchanged, and the server goes on
  unless \<^verbatim>\<open>epoll_ctl\<close> fails.
\<close>

theorem handle_client_io_isolated:
  assumes "ctxs w a = Some ctx"
  shows "(handle_client_io a w = Ok w' \<longrightarrow>
      (\<forall>b. b \<noteq> a \<longrightarrow> ctxs w' b = ctxs w b) \<and> (\<forall>g. g \<noteq> ctx_fd ctx \<longrightarrow> socks w' g = socks w g)) \<and>
    (False \<notin> set (ctls w) \<longrightarrow> handle_client_io a w \<noteq> Exit)"
proof (cases "data ctx = None \<or> socks w (ctx_fd ctx) = None")
  case True
  with assms show ?thesis by (auto simp: handle_client_io_def split: option.splits)
next
  case False
  then obtain c s where cs: "data ctx = Some c" "socks w (ctx_fd ctx) = Some s" by auto
  note r = read_part_apart[OF assms refl, of c s]
  show ?thesis
  proof (cases "read_part a ctx c s w")
    case (Ok x)
    obtain r1 w1 where x: "x = (r1, w1)" by (cases x)
    show ?thesis
    proof (cases r1)
      case None
      with Ok x r assms cs show ?thesis by (auto simp: handle_client_io_def part_apart_def apart_def)
    next
      case (Some y)
      obtain ctx1 c1 s1 where y: "y = (ctx1, c1, s1)" by (cases y)
      have 1: "apart a (ctx_fd ctx) w w1" "ctxs w1 = ctxs w" "ctls w1 = ctls w" "ctx_fd ctx1 = ctx_fd ctx"
        using r Ok x Some y by (auto simp: part_apart_def)
      have p: "part_apart a ctx1 w1 (write_part a ctx1 c1 s1 w1)"
        using write_part_apart[of w1 a ctx ctx1] assms 1 by simp
      show ?thesis
      proof (cases "write_part a ctx1 c1 s1 w1")
        case (Ok x2)
        obtain r2 w2 where x2: "x2 = (r2, w2)" by (cases x2)
        have 2: "apart a (ctx_fd ctx) w1 w2" "\<And>c2 s2 ctx2. r2 = Some (ctx2, c2, s2) \<Longrightarrow> ctx_fd ctx2 = ctx_fd ctx"
          using p Ok x2 1(4) by (auto simp: part_apart_def)
        show ?thesis
          using 1 2 Ok x2 \<open>read_part a ctx c s w = Ok x\<close> x Some y assms cs
          by (cases r2) (auto simp: handle_client_io_def apart_def)
      qed (use p 1 \<open>read_part a ctx c s w = Ok x\<close> x Some y assms cs in \<open>auto simp: handle_client_io_def part_apart_def\<close>)
    qed
  qed (use r assms cs in \<open>auto simp: handle_client_io_def part_apart_def\<close>)
qed

section \<open>A session\<close>

text \<open>One client connects, sends two bytes and takes one of them back.\<close>

definition session :: world where
  "session = \<lparr>ctxs = (\<lambda>_. None), socks = (\<lambda>_. None), interest = (\<lambda>_. None),
     reads = [Read [104, 105], Read_again], writes = [Wrote 1, Write_again],
     accepts = [Accepted 7 \<lparr>sa_family = 2, sa_port = 0, sa_addr = []\<rparr>, Accept_again],
     sockopts = [True, True, True], ctls = [True, True], mallocs = [1, 2],
     waits = [Events [(1, EPOLLIN)], Wait_intr, Events [(2, EPOLLIN OR EPOLLOUT)]]\<rparr>"

lemmas evaluate_server = main_def session_def listen_port_def initial_def add_epoll_ctx_def epoll_ctl_def Let_def
  epoll_ok_def one_event_def process_io_def accept_client_def accepted_def setsockopt_def handle_new_client_def
  clear_prd_def handle_client_io_def read_part_def write_part_def read_loop.simps write_loop.simps new_client_def

lemma session_runs:
  obtains w ctx where "main 2 3 4 True True True session = Ok (Inr w)" "ctxs w 2 = Some ctx" "kind ctx = 2" "ctx_fd ctx = 7"
    "map_option inp (socks w 7) = Some [104, 105]" "map_option outp (socks w 7) = Some [104]"
proof -
  have "\<exists>w ctx. main 2 3 4 True True True session = Ok (Inr w) \<and> ctxs w 2 = Some ctx \<and> kind ctx = 2 \<and> ctx_fd ctx = 7 \<and>
      map_option inp (socks w 7) = Some [104, 105] \<and> map_option outp (socks w 7) = Some [104]"
    by (simp add: evaluate_server)
  then show ?thesis using that by blast
qed

theorem server_echoes_witness:
  "\<exists>w ctx c s. main 2 3 4 True True True session = Ok (Inr w) \<and> ctxs w 2 = Some ctx \<and> data ctx = Some c \<and>
    socks w (ctx_fd ctx) = Some s \<and> inp s = outp s @ take (sz c - wr c) (drop (wr c) (buf c))"
  by (rule session_runs) (use server_echoes in blast)

text \<open>A server with one client, whose socket is readable and writable.\<close>

definition connected :: "client \<Rightarrow> sock \<Rightarrow> read_result list \<Rightarrow> write_result list \<Rightarrow> world" where
  "connected c s rs ws = session\<lparr>ctxs := [2 \<mapsto> \<lparr>kind = 2, ctx_fd = 7, data = Some c, prd = True, pwr = True\<rparr>],
     interest := [7 \<mapsto> (2, EPOLLIN)], socks := [7 \<mapsto> s], reads := rs, writes := ws\<rparr>"

lemma server_inv_connected: "client_ok c s \<Longrightarrow> server_inv (connected c s rs ws)"
  by (simp add: server_inv_def ctx_ok_def connected_def)

lemma connected_fields [simp]:
  "ctxs (connected c s rs ws) 2 = Some \<lparr>kind = 2, ctx_fd = 7, data = Some c, prd = True, pwr = True\<rparr>"
  "socks (connected c s rs ws) 7 = Some s" "reads (connected c s rs ws) = rs" "writes (connected c s rs ws) = ws"
  "ctls (connected c s rs ws) = [True, True]"
  by (simp_all add: connected_def session_def)

lemma echo_one_byte:
  "\<exists>w'. handle_client_io 2 (connected new_client \<lparr>inp = [], outp = []\<rparr> [Read [104], Read_again] [Wrote 1]) = Ok w'"
  by (simp add: evaluate_server connected_def)

theorem handle_client_io_drains_witness:
  "\<exists>w' ctx' s'. handle_client_io 2 (connected new_client \<lparr>inp = [], outp = []\<rparr> [Read [104], Read_again] [Wrote 1]) = Ok w' \<and>
    ctxs w' 2 = Some ctx' \<and> socks w' 7 = Some s' \<and> (pwr ctx' \<longrightarrow> outp s' = inp s')"
proof -
  let ?w = "connected new_client \<lparr>inp = [], outp = []\<rparr> [Read [104], Read_again] [Wrote 1]"
  obtain w' where w': "handle_client_io 2 ?w = Ok w'" using echo_one_byte by blast
  moreover have "ctxs w' 2 \<noteq> None" using w' by (auto simp: evaluate_server connected_def)
  ultimately show ?thesis
    using handle_client_io_drains[OF server_inv_connected connected_fields(1) _ _ _ w'] client_ok_new by force
qed

theorem handle_client_io_isolated_witness:
  "\<exists>w'. handle_client_io 2 (connected new_client \<lparr>inp = [], outp = []\<rparr> [Read [104], Read_again] [Wrote 1]) = Ok w' \<and> ctxs w' 1 = None"
proof -
  let ?w = "connected new_client \<lparr>inp = [], outp = []\<rparr> [Read [104], Read_again] [Wrote 1]"
  obtain w' where w': "handle_client_io 2 ?w = Ok w'" using echo_one_byte by blast
  moreover have "ctxs ?w 1 = None" by (simp add: connected_def)
  ultimately show ?thesis
    using handle_client_io_isolated[OF connected_fields(1), of new_client "\<lparr>inp = [], outp = []\<rparr>" "[Read [104], Read_again]" "[Wrote 1]" w'] by auto
qed

section \<open>Where the promises end\<close>

text \<open>
  When one read fills the buffer the loop stops before the socket reports \<^verbatim>\<open>EAGAIN\<close>. The buffer is then written and
  emptied, but nothing reads on: with edge-triggered events the rest of the data waits until
  the peer sends more.
\<close>

lemma full_buffer_stalls:
  assumes "length bs = CLIENT_BUF_SIZE"
  shows "\<exists>w' ctx' c'. handle_client_io 2 (connected new_client \<lparr>inp = [], outp = []\<rparr> (Read bs # rest) [Wrote CLIENT_BUF_SIZE]) = Ok w' \<and>
    reads w' = rest \<and> ctxs w' 2 = Some ctx' \<and> prd ctx' \<and> data ctx' = Some c' \<and> sz c' = 0"
proof -
  from assms have "bs \<noteq> []" by auto
  with assms show ?thesis
    by (simp add: handle_client_io_def read_part_def write_part_def read_loop.simps write_loop.simps new_client_def
        connected_def session_def Let_def)
qed

text \<open>At the end of the stream the client is closed although bytes of it are still in the buffer.\<close>

lemma eof_drops_pending:
  assumes "client_ok c s" "pending c \<noteq> []" "sz c < CLIENT_BUF_SIZE"
  shows "\<exists>w'. handle_client_io 2 (connected c s (Read [] # rs) ws) = Ok w' \<and> socks w' 7 = None \<and> outp s \<noteq> inp s"
proof -
  have "outp s \<noteq> inp s" using assms(1,2) by (simp add: client_ok_def)
  with assms(3) show ?thesis
    by (simp add: handle_client_io_def read_part_def read_loop.simps connected_def session_def Let_def close_client_def
        del_epoll_ctx_def epoll_ctl_def)
qed

end
