(* ===== verification/Wohn_Core.thy ===== *)
theory Wohn_Core
  imports Prelude "HOL-Library.Multiset" "HOL-Library.Monad_Syntax"
begin

text \<open>
  \<^verbatim>\<open>cpp/wohn/WohnCore.cpp\<close>: the wireless hosted network and internet connection sharing (ICS). The globals are a
  record, with the resources the program owns at the moment: memory and handles of the WLAN service, references to COM
  objects, connection properties. What Windows answers is a record of functions of all calls made so far. Using an object
  the program does not own, a \<^verbatim>\<open>NULL\<close> pointer, or memory outside a buffer has no result (\<open>None\<close>).
\<close>

section \<open>Definitions\<close>

type_synonym pointer = nat \<comment> \<open>0 is \<^verbatim>\<open>NULL\<close>\<close>
type_synonym wchar = "16 word"
type_synonym octet = "8 word"

datatype hn_state = hn_unavailable | hn_idle | hn_active

datatype cor_notify_type =
    notify_unavailable | notify_available | notify_started | notify_stoped | notify_join | notify_leave | notify_change | notify_count

datatype sharing = ICSSHARINGTYPE_PUBLIC | ICSSHARINGTYPE_PRIVATE | Sharing_other

datatype media = NCM_LAN | NCM_other
datatype nc_status = NCS_DISCONNECTED | NCS_other

record netcon_properties =
  np_block :: pointer
  guidId :: nat
  pszwName :: "wchar list"
  MediaType :: media
  Status :: nc_status

record dot11_ssid =
  uSSIDLength :: "32 word"
  ucSSID :: "octet list"

record hn_status =
  HostedNetworkState :: hn_state
  IPDeviceID :: nat

text \<open>The calls that leave the program; the ones that only ask are told apart by their name.\<close>

datatype call =
    Service string
  | Set_connection_settings dot11_ssid
  | Set_secondary_key "octet list"
  | Start_using
  | Stop_using
  | Force_stop
  | Enable_sharing pointer sharing
  | Disable_sharing pointer

record 'cb wohn =
  calls :: "call list"
  gInitialized :: bool
  gNotifications :: int
  section_ready :: bool \<comment> \<open>\<^verbatim>\<open>gCriticalSection\<close> is initialised\<close>
  gWlanClient :: pointer
  pHNConnSettings :: "(pointer \<times> dot11_ssid) option"
  pHNSecSettings :: pointer
  pHNStatus :: "(pointer \<times> hn_status) option"
  pHNEnabled :: pointer
  gNotifyCallBack :: "cor_notify_type \<Rightarrow> 'cb option"
  gCoInitialized :: bool
  gICSEnabled :: bool
  pNSM :: pointer
  pNCPublic :: pointer
  pNCPrivate :: pointer
  NetconPropsFree :: bool \<comment> \<open>the function was found\<close>
  wlan_blocks :: "pointer multiset"
  wlan_handles :: "pointer multiset"
  com_refs :: "pointer multiset"
  props_blocks :: "pointer multiset"
  com_inits :: nat

datatype variant = VT_UNKNOWN pointer | VT_other

datatype hresult = S_OK | S_FALSE | E_FAIL

text \<open>
  What Windows answers. A query of the WLAN service gives size and memory block, or fails and leaves the output variables
  as they are. The conversions of the ANSI code page give the converted text (\<open>to_wide_strict\<close> fails for invalid bytes;
  \<open>to_octets\<close> also says whether a character was unknown).
\<close>

record world =
  AllocateAndInitializeSid :: "call list \<Rightarrow> bool"
  CheckTokenMembership :: "call list \<Rightarrow> bool option"
  RegOpenKeyEx :: "call list \<Rightarrow> bool"
  RegGetValue :: "call list \<Rightarrow> 32 word option"
  LoadLibrary :: "call list \<Rightarrow> bool"
  GetProcAddress :: "call list \<Rightarrow> bool"
  CoInitialize :: "call list \<Rightarrow> hresult"
  CoCreateInstance :: "call list \<Rightarrow> pointer"
  get_SharingInstalled :: "call list \<Rightarrow> bool"
  get_EnumEveryConnection :: "call list \<Rightarrow> pointer"
  get_NewEnum :: "call list \<Rightarrow> pointer"
  QueryEnum :: "call list \<Rightarrow> pointer"
  connections :: "call list \<Rightarrow> variant list"
  QueryConnection :: "call list \<Rightarrow> pointer \<Rightarrow> pointer"
  GetProperties :: "call list \<Rightarrow> pointer \<Rightarrow> netcon_properties option"
  get_Configuration :: "call list \<Rightarrow> pointer \<Rightarrow> pointer"
  get_SharingEnabled :: "call list \<Rightarrow> pointer \<Rightarrow> bool"
  get_SharingConnectionType :: "call list \<Rightarrow> pointer \<Rightarrow> sharing"
  EnableSharing :: "call list \<Rightarrow> pointer \<Rightarrow> sharing \<Rightarrow> bool"
  WlanOpenHandle :: "call list \<Rightarrow> pointer option"
  InitSettings :: "call list \<Rightarrow> bool"
  QueryEnable :: "call list \<Rightarrow> (32 word \<times> pointer) option"
  QueryStatus :: "call list \<Rightarrow> (pointer \<times> hn_status) option option"
  QueryConnSettings :: "call list \<Rightarrow> (32 word \<times> (pointer \<times> dot11_ssid) option) option"
  QuerySecSettings :: "call list \<Rightarrow> (32 word \<times> pointer) option"
  QuerySecondaryKey :: "call list \<Rightarrow> (pointer \<times> octet list \<times> bool) option"
  RegisterNotification :: "call list \<Rightarrow> bool"
  SetProperty :: "call list \<Rightarrow> bool"
  SetSecondaryKey :: "call list \<Rightarrow> bool"
  StartUsing :: "call list \<Rightarrow> bool"
  StopUsing :: "call list \<Rightarrow> bool"
  ForceStop :: "call list \<Rightarrow> bool"
  to_wide :: "octet list \<Rightarrow> wchar list"
  to_wide_strict :: "octet list \<Rightarrow> wchar list option"
  to_octets :: "wchar list \<Rightarrow> octet list \<times> bool"

abbreviation (input) DOT11_SSID_MAX_LENGTH :: nat where "DOT11_SSID_MAX_LENGTH \<equiv> 32"
abbreviation (input) WLAN_MAX_NAME_LENGTH :: nat where "WLAN_MAX_NAME_LENGTH \<equiv> 256"

definition called :: "call \<Rightarrow> ('cb, 'a) wohn_scheme \<Rightarrow> ('cb, 'a) wohn_scheme" where
  "called c s = s\<lparr>calls := calls s @ [c]\<rparr>"

text \<open>COM objects: a call that gives a reference, a method call, \<^verbatim>\<open>Release\<close> and \<^verbatim>\<open>RELEASE_S\<close>\<close>

definition acquired :: "pointer \<Rightarrow> ('cb, 'a) wohn_scheme \<Rightarrow> ('cb, 'a) wohn_scheme" where
  "acquired p s = (if p \<noteq> 0 then s\<lparr>com_refs := com_refs s + {#p#}\<rparr> else s)"

definition on_object :: "pointer \<Rightarrow> call \<Rightarrow> ('cb, 'a) wohn_scheme \<Rightarrow> ('cb, 'a) wohn_scheme option" where
  "on_object p c s = (if p \<in># com_refs s then Some (called c s) else None)"

definition Release :: "pointer \<Rightarrow> ('cb, 'a) wohn_scheme \<Rightarrow> ('cb, 'a) wohn_scheme option" where
  "Release p s = (if p \<in># com_refs s then Some (s\<lparr>com_refs := com_refs s - {#p#}\<rparr>) else None)"

definition RELEASE_S :: "pointer \<Rightarrow> ('cb, 'a) wohn_scheme \<Rightarrow> ('cb, 'a) wohn_scheme option" where
  "RELEASE_S p s = (if p \<noteq> 0 then Release p s else Some s)"

text \<open>Memory of the WLAN service: a block that a query gives, and \<^verbatim>\<open>WlanFreeMemory\<close> behind its test for \<^verbatim>\<open>NULL\<close>\<close>

definition allocated :: "pointer \<Rightarrow> ('cb, 'a) wohn_scheme \<Rightarrow> ('cb, 'a) wohn_scheme" where
  "allocated p s = (if p \<noteq> 0 then s\<lparr>wlan_blocks := wlan_blocks s + {#p#}\<rparr> else s)"

definition WLFREE_S :: "pointer \<Rightarrow> ('cb, 'a) wohn_scheme \<Rightarrow> ('cb, 'a) wohn_scheme option" where
  "WLFREE_S p s =
     (if p \<noteq> 0 then if p \<in># wlan_blocks s then Some (s\<lparr>wlan_blocks := wlan_blocks s - {#p#}\<rparr>) else None else Some s)"

definition WLCLOSE_S :: "pointer \<Rightarrow> ('cb, 'a) wohn_scheme \<Rightarrow> ('cb, 'a) wohn_scheme option" where
  "WLCLOSE_S h s =
     (if h \<noteq> 0 then if h \<in># wlan_handles s then Some (s\<lparr>wlan_handles := wlan_handles s - {#h#}\<rparr>) else None else Some s)"

abbreviation block_of :: "(pointer \<times> 'x) option \<Rightarrow> pointer" where
  "block_of x \<equiv> (case x of None \<Rightarrow> 0 | Some (p, _) \<Rightarrow> p)"

subsection \<open>Notifications\<close>

text \<open>
  A notification with its data: pointer and size for a change of the network's state (old and new state) and for a change
  of a peer (address and new authentication state).
\<close>

datatype notification =
    State_change "(hn_state \<times> hn_state) option" "32 word"
  | Peer_state_change "(octet list \<times> 32 word) option" "32 word"
  | Other_code

record notify_data =
  from_hosted_network :: bool
  code :: notification

datatype cb_arg = Context | Mac "octet list" | Peer_change

abbreviation (input) "sizeof_STATE_CHANGE \<equiv> 12 :: 32 word"
abbreviation (input) "sizeof_PEER_STATE_CHANGE \<equiv> 28 :: 32 word"
abbreviation (input) "peer_state_invalid \<equiv> 0 :: 32 word"
abbreviation (input) "peer_state_authenticated \<equiv> 1 :: 32 word"
abbreviation (input) "peer_state_change_code \<equiv> 0x1001 :: 32 word"

definition CALL_S :: "cor_notify_type \<Rightarrow> cb_arg \<Rightarrow> ('cb, 'a) wohn_scheme \<Rightarrow> ('cb \<times> cb_arg) list" where
  "CALL_S t x s = (case gNotifyCallBack s t of None \<Rightarrow> [] | Some f \<Rightarrow> [(f, x)])"

text \<open>The result is the list of the callbacks that are called, in order. The handler changes no global.\<close>

definition cor_wlan_notification :: "notify_data option \<Rightarrow> ('cb, 'a) wohn_scheme \<Rightarrow> ('cb \<times> cb_arg) list option" where
  "cor_wlan_notification pNotifyData s =
     (if \<not> gInitialized s then Some []
      else if gNotifications s \<le> 0 then Some []
      else if \<not> section_ready s then None
      else case pNotifyData of
        None \<Rightarrow> Some []
      | Some d \<Rightarrow>
          if from_hosted_network d then
            case code d of
              State_change pData dwDataSize \<Rightarrow>
                (case pData of
                   None \<Rightarrow> Some []
                 | Some (OldState, NewState) \<Rightarrow>
                     if dwDataSize = sizeof_STATE_CHANGE then
                       case NewState of
                         hn_active \<Rightarrow> Some (CALL_S notify_started Context s)
                       | hn_idle \<Rightarrow>
                           if OldState = hn_active then Some (CALL_S notify_stoped Context s)
                           else Some (CALL_S notify_available Context s)
                       | hn_unavailable \<Rightarrow>
                           Some ((if OldState = hn_active then CALL_S notify_stoped Context s else []) @
                             (if OldState \<noteq> hn_unavailable then CALL_S notify_unavailable Context s else []))
                     else Some [])
            | Peer_state_change pData dwDataSize \<Rightarrow>
                (case pData of
                   None \<Rightarrow> Some []
                 | Some (PeerMacAddress, PeerAuthState) \<Rightarrow>
                     if dwDataSize = sizeof_PEER_STATE_CHANGE then
                       if PeerAuthState = peer_state_authenticated then Some (CALL_S notify_join (Mac PeerMacAddress) s)
                       else if PeerAuthState = peer_state_invalid then Some (CALL_S notify_leave (Mac PeerMacAddress) s)
                       else if PeerAuthState = peer_state_change_code then Some (CALL_S notify_change Peer_change s)
                       else Some []
                     else Some [])
            | Other_code \<Rightarrow> Some []
          else Some [])"

definition cor_register_notify :: "cor_notify_type \<Rightarrow> 'cb option \<Rightarrow> ('cb, 'a) wohn_scheme \<Rightarrow> bool \<times> ('cb, 'a) wohn_scheme" where
  "cor_register_notify WlanState pNotifyCallback s =
     (if \<not> gInitialized s then (False, s)
      else if WlanState = notify_count then (False, s)
      else if gNotifyCallBack s WlanState \<noteq> None then (False, s)
      else (True, s\<lparr>gNotifications := gNotifications s + 1,
               gNotifyCallBack := (gNotifyCallBack s)(WlanState := pNotifyCallback)\<rparr>))"

definition cor_unregister_notify :: "cor_notify_type \<Rightarrow> ('cb, 'a) wohn_scheme \<Rightarrow> ('cb, 'a) wohn_scheme" where
  "cor_unregister_notify WlanState s =
     (if \<not> gInitialized s then s
      else if WlanState = notify_count \<or> gNotifications s \<le> 0 then s
      else if gNotifyCallBack s WlanState \<noteq> None then
        s\<lparr>gNotifications := gNotifications s - 1, gNotifyCallBack := (gNotifyCallBack s)(WlanState := None)\<rparr>
      else s)"

subsection \<open>The hosted network\<close>

definition notify_types :: "cor_notify_type list" where
  "notify_types = [notify_unavailable, notify_available, notify_started, notify_stoped, notify_join, notify_leave, notify_change]"

definition cor_wlan_deinitialize :: "('cb, 'a) wohn_scheme \<Rightarrow> ('cb, 'a) wohn_scheme option" where
  "cor_wlan_deinitialize s =
     (if \<not> gInitialized s then Some s
      else do {
        let s = (if gNotifications s \<noteq> 0 then
            fold (\<lambda>i s. s\<lparr>gNotifyCallBack := (gNotifyCallBack s)(i := None)\<rparr>) notify_types (s\<lparr>gNotifications := 0\<rparr>)
          else s);
        s \<leftarrow> WLFREE_S (pHNEnabled s) s;
        let s = s\<lparr>pHNEnabled := 0\<rparr>;
        s \<leftarrow> WLFREE_S (block_of (pHNConnSettings s)) s;
        let s = s\<lparr>pHNConnSettings := None\<rparr>;
        s \<leftarrow> WLFREE_S (pHNSecSettings s) s;
        let s = s\<lparr>pHNSecSettings := 0\<rparr>;
        s \<leftarrow> WLFREE_S (block_of (pHNStatus s)) s;
        let s = s\<lparr>pHNStatus := None\<rparr>;
        s \<leftarrow> WLCLOSE_S (gWlanClient s) s;
        let s = s\<lparr>gWlanClient := 0\<rparr>;
        if section_ready s then Some (s\<lparr>section_ready := False\<rparr>) else None
      })"

text \<open>The queries of \<^verbatim>\<open>cor_wlan_initialize\<close>, each with the value it gives \<^verbatim>\<open>bResult\<close>\<close>

definition query_enable :: "world \<Rightarrow> ('cb, 'a) wohn_scheme \<Rightarrow> bool \<times> ('cb, 'a) wohn_scheme" where
  "query_enable w s =
     (let init = InitSettings w (calls s); s = called (Service ''WlanHostedNetworkInitSettings'') s in
      if init then
        let s = s\<lparr>pHNEnabled := 0\<rparr>;
            answer = QueryEnable w (calls s);
            s = called (Service ''WlanHostedNetworkQueryProperty enable'') s
        in case answer of
             None \<Rightarrow> (False, s)
           | Some (dwSize, p) \<Rightarrow> (p \<noteq> 0 \<and> dwSize = 4, allocated p (s\<lparr>pHNEnabled := p\<rparr>))
      else (False, s))"

definition query_status :: "world \<Rightarrow> ('cb, 'a) wohn_scheme \<Rightarrow> bool \<times> ('cb, 'a) wohn_scheme" where
  "query_status w s =
     (let s = s\<lparr>pHNStatus := None\<rparr>;
          answer = QueryStatus w (calls s);
          s = called (Service ''WlanHostedNetworkQueryStatus'') s
      in case answer of
           None \<Rightarrow> (False, s)
         | Some p \<Rightarrow> (p \<noteq> None, allocated (block_of p) (s\<lparr>pHNStatus := p\<rparr>)))"

definition query_connection_settings :: "world \<Rightarrow> ('cb, 'a) wohn_scheme \<Rightarrow> bool \<times> ('cb, 'a) wohn_scheme" where
  "query_connection_settings w s =
     (let s = s\<lparr>pHNConnSettings := None\<rparr>;
          answer = QueryConnSettings w (calls s);
          s = called (Service ''WlanHostedNetworkQueryProperty connection_settings'') s
      in case answer of
           None \<Rightarrow> (False, s)
         | Some (dwSize, p) \<Rightarrow> (p \<noteq> None \<and> \<not> dwSize < 40, allocated (block_of p) (s\<lparr>pHNConnSettings := p\<rparr>)))"

definition query_security_settings :: "world \<Rightarrow> ('cb, 'a) wohn_scheme \<Rightarrow> bool \<times> ('cb, 'a) wohn_scheme" where
  "query_security_settings w s =
     (let s = s\<lparr>pHNSecSettings := 0\<rparr>;
          answer = QuerySecSettings w (calls s);
          s = called (Service ''WlanHostedNetworkQueryProperty security_settings'') s
      in case answer of
           None \<Rightarrow> (False, s)
         | Some (dwSize, p) \<Rightarrow> (p \<noteq> 0 \<and> \<not> dwSize < 8, allocated p (s\<lparr>pHNSecSettings := p\<rparr>)))"

definition cor_wlan_initialize :: "world \<Rightarrow> ('cb, 'a) wohn_scheme \<Rightarrow> (bool \<times> ('cb, 'a) wohn_scheme) option" where
  "cor_wlan_initialize w s =
     (if gInitialized s then Some (False, s)
      else
        let s = s\<lparr>section_ready := True, gNotifications := 0, gWlanClient := 0, pHNConnSettings := None, pHNSecSettings := 0,
              pHNStatus := None, pHNEnabled := 0\<rparr>;
            handle = WlanOpenHandle w (calls s);
            s = called (Service ''WlanOpenHandle'') s
        in case handle of
             None \<Rightarrow> Some (False, s)
           | Some h \<Rightarrow>
               let s = s\<lparr>gWlanClient := h, wlan_handles := wlan_handles s + {#h#}\<rparr>;
                   (bResult, s) = query_enable w s;
                   (bResult, s) = (if bResult then query_status w s else (bResult, s));
                   (bResult, s) = (if bResult then query_connection_settings w s else (bResult, s));
                   (bResult, s) = (if bResult then query_security_settings w s else (bResult, s));
                   (bResult, s) = (if bResult then (RegisterNotification w (calls s), called (Service ''WlanRegisterNotification'') s)
                     else (bResult, s))
               in if bResult then Some (True, s) else map_option (Pair False) (cor_wlan_deinitialize s))"

definition cor_wlan_get_state :: "world \<Rightarrow> ('cb, 'a) wohn_scheme \<Rightarrow> (hn_state \<times> ('cb, 'a) wohn_scheme) option" where
  "cor_wlan_get_state w s =
     (if \<not> gInitialized s then Some (hn_unavailable, s)
      else
        let answer = QueryStatus w (calls s);
            s = called (Service ''WlanHostedNetworkQueryStatus'') s
        in case answer of
             None \<Rightarrow> Some (hn_unavailable, s)
           | Some p \<Rightarrow>
               let s = allocated (block_of p) (s\<lparr>pHNStatus := p\<rparr>) in
               (case p of None \<Rightarrow> None | Some (_, st) \<Rightarrow> Some (HostedNetworkState st, s)))"

definition cor_wlan_is_started :: "world \<Rightarrow> ('cb, 'a) wohn_scheme \<Rightarrow> (bool \<times> ('cb, 'a) wohn_scheme) option" where
  "cor_wlan_is_started w s =
     (if \<not> gInitialized s then Some (False, s)
      else do { (st, s) \<leftarrow> cor_wlan_get_state w s; Some (st = hn_active, s) })"

text \<open>
  Texts: \<^verbatim>\<open>lstrcpy\<close>, which needs a terminated source and room in the destination, and the conversion functions, which
  only measure when the buffer has size 0 and fail (0) when the result does not fit.
\<close>

definition wstr :: "wchar list \<Rightarrow> wchar list" where
  "wstr t = takeWhile (\<lambda>c. c \<noteq> 0) t"

definition lstrcpy :: "wchar list \<Rightarrow> wchar list \<Rightarrow> wchar list option" where
  "lstrcpy dest src =
     (if 0 \<in> set src \<and> length (wstr src) < length dest
      then Some (wstr src @ 0 # drop (Suc (length (wstr src))) dest) else None)"

definition converted :: "'x list \<Rightarrow> nat \<Rightarrow> nat" where
  "converted t cch = (if cch = 0 \<or> length t \<le> cch then length t else 0)"

definition cor_wlan_get_ssid :: "world \<Rightarrow> wchar list \<Rightarrow> ('cb, 'a) wohn_scheme \<Rightarrow> (int \<times> wchar list) option" where
  "cor_wlan_get_ssid w sSSID s =
     (if \<not> gInitialized s then Some (0, sSSID)
      else case pHNConnSettings s of
        None \<Rightarrow> None
      | Some (_, ssid) \<Rightarrow>
          let dwSSIDLen = uSSIDLength ssid in
          if dwSSIDLen > 32 then Some (- 1, sSSID)
          else
            let text = to_wide w (take (unat dwSSIDLen) (ucSSID ssid));
                dwBufferLen = (if dwSSIDLen > 0 then converted text 0 else 0);
                (dwBufferLen, sBuffer) =
                  (if dwBufferLen > 0 \<and> dwBufferLen + 1 \<le> DOT11_SSID_MAX_LENGTH then
                     let dwBufferLen = converted text dwBufferLen in
                     if dwBufferLen > 0 then (dwBufferLen + 1, text @ [0]) else (dwBufferLen, [0])
                   else (dwBufferLen, [0]))
            in do { sSSID \<leftarrow> lstrcpy sSSID sBuffer; Some (int dwBufferLen, sSSID) })"

definition cor_wlan_set_ssid :: "world \<Rightarrow> wchar list \<Rightarrow> ('cb, 'a) wohn_scheme \<Rightarrow> (bool \<times> ('cb, 'a) wohn_scheme) option" where
  "cor_wlan_set_ssid w sSSID s =
     (if \<not> gInitialized s then Some (False, s)
      else
        let bBuffer = fst (to_octets w (wstr sSSID)) @ [0];
            dwBytes = converted bBuffer DOT11_SSID_MAX_LENGTH
        in if dwBytes > 1 then
             case pHNConnSettings s of
               None \<Rightarrow> None
             | Some (p, tSSID) \<Rightarrow>
                 let new = \<lparr>uSSIDLength = of_nat (dwBytes - 1), ucSSID = take (dwBytes - 1) bBuffer @ drop (dwBytes - 1) (ucSSID tSSID)\<rparr>;
                     s = s\<lparr>pHNConnSettings := Some (p, new)\<rparr>;
                     ok = SetProperty w (calls s);
                     s = called (Set_connection_settings new) s
                 in if ok then Some (True, s) else Some (False, s\<lparr>pHNConnSettings := Some (p, tSSID)\<rparr>)
           else Some (False, s))"

definition cor_wlan_get_key :: "world \<Rightarrow> wchar list \<Rightarrow> wchar list \<Rightarrow> ('cb, 'a) wohn_scheme \<Rightarrow> (int \<times> wchar list \<times> ('cb, 'a) wohn_scheme) option" where
  \<comment> \<open>the second argument is what the uninitialised \<^verbatim>\<open>sBuffer\<close> contains\<close>
  "cor_wlan_get_key w sBuffer sKey s =
     (if \<not> gInitialized s then Some (0, sKey, s)
      else
        let answer = QuerySecondaryKey w (calls s);
            s = called (Service ''WlanHostedNetworkQuerySecondaryKey'') s
        in case answer of
             None \<Rightarrow> Some (- 1, sKey, s)
           | Some (p, key, bIsPassPhrase) \<Rightarrow> do {
               let s = allocated p s;
               (dwBufferLen, sKey) \<leftarrow>
                 (if length key > 0 \<and> bIsPassPhrase then
                    let text = (case to_wide_strict w key of None \<Rightarrow> [] | Some t \<Rightarrow> t);
                        dwBufferLen = converted text WLAN_MAX_NAME_LENGTH
                    in if dwBufferLen \<ge> 8 \<and> dwBufferLen \<le> 63 then do {
                         sKey \<leftarrow> lstrcpy sKey (text @ drop (length text) sBuffer);
                         Some (int dwBufferLen, sKey)
                       }
                       else Some (- 1, sKey)
                  else Some (- 1, sKey));
               s \<leftarrow> WLFREE_S p s;
               Some (dwBufferLen, sKey, s)
             })"

definition cor_wlan_set_key :: "world \<Rightarrow> wchar list \<Rightarrow> ('cb, 'a) wohn_scheme \<Rightarrow> (bool \<times> ('cb, 'a) wohn_scheme) option" where
  "cor_wlan_set_key w sKey s =
     (if \<not> gInitialized s then Some (False, s)
      else
        let dwKeyLen = length (wstr sKey) in
        if dwKeyLen < 8 \<or> dwKeyLen > 63 then Some (False, s)
        else
          let (bBuffer, bUnknownChar) = to_octets w (wstr sKey);
              dwBufferLen = converted bBuffer 64
          in if dwBufferLen > 0 \<and> \<not> bUnknownChar then
               if dwBufferLen < 64 then
                 Some (SetSecondaryKey w (calls s), called (Set_secondary_key (bBuffer @ [0])) s)
               else None
             else Some (False, s))"

definition cor_wlan_start :: "world \<Rightarrow> ('cb, 'a) wohn_scheme \<Rightarrow> (bool \<times> ('cb, 'a) wohn_scheme) option" where
  "cor_wlan_start w s =
     (if \<not> gInitialized s then Some (False, s)
      else
        let ok = StartUsing w (calls s);
            s = called Start_using s
        in if ok then cor_wlan_is_started w s else Some (False, s))"

definition cor_wlan_stop :: "world \<Rightarrow> bool \<Rightarrow> ('cb, 'a) wohn_scheme \<Rightarrow> (bool \<times> ('cb, 'a) wohn_scheme) option" where
  "cor_wlan_stop w bForce s =
     (if \<not> gInitialized s then Some (False, s)
      else
        let ok = StopUsing w (calls s);
            s = called Stop_using s;
            (ok, s) = (if \<not> ok \<and> bForce then (ForceStop w (calls s), called Force_stop s) else (ok, s))
        in if ok then do { (b, s) \<leftarrow> cor_wlan_is_started w s; Some (\<not> b, s) } else Some (False, s))"

subsection \<open>Connection sharing\<close>

definition cor_ics_deinitialize :: "('cb, 'a) wohn_scheme \<Rightarrow> ('cb, 'a) wohn_scheme option" where
  "cor_ics_deinitialize s =
     (if \<not> gInitialized s then Some s
      else do {
        let s = s\<lparr>gICSEnabled := False\<rparr>;
        s \<leftarrow> RELEASE_S (pNSM s) s;
        let s = s\<lparr>pNSM := 0\<rparr>;
        s \<leftarrow> RELEASE_S (pNCPublic s) s;
        let s = s\<lparr>pNCPublic := 0\<rparr>;
        s \<leftarrow> RELEASE_S (pNCPrivate s) s;
        let s = s\<lparr>pNCPrivate := 0\<rparr>;
        Some (if gCoInitialized s then s\<lparr>com_inits := com_inits s - 1, gCoInitialized := False\<rparr> else s)
      })"

text \<open>
  The three functions that go over the connections share their frame: the collection, its enumerator, the loop over
  the variants, the connection of a variant with its properties, and the releases. \<open>body\<close> is what a function does with
  the properties of a connection; it says whether the reference is kept. \<open>r\<close> is what the loop carries, \<open>stop\<close> its exit.
\<close>

type_synonym ('s, 'r) visitor = "netcon_properties \<Rightarrow> pointer \<Rightarrow> 'r \<Rightarrow> 's \<Rightarrow> (bool \<times> 'r \<times> 's) option"

definition visit_props :: "world \<Rightarrow> (('cb, 'a) wohn_scheme, 'r) visitor \<Rightarrow> pointer \<Rightarrow> 'r \<Rightarrow> ('cb, 'a) wohn_scheme \<Rightarrow> (bool \<times> 'r \<times> ('cb, 'a) wohn_scheme) option" where
  "visit_props w body pNC r s =
     do {
       let answer = GetProperties w (calls s) pNC;
       s \<leftarrow> on_object pNC (Service ''GetProperties'') s;
       case answer of
         None \<Rightarrow> Some (False, r, s)
       | Some pNP \<Rightarrow> do {
           (keep, r, s) \<leftarrow> body pNP pNC r (s\<lparr>props_blocks := props_blocks s + {#np_block pNP#}\<rparr>);
           if NetconPropsFree s \<and> np_block pNP \<in># props_blocks s
           then Some (keep, r, s\<lparr>props_blocks := props_blocks s - {#np_block pNP#}\<rparr>) else None
         }
     }"

definition visit_connection :: "world \<Rightarrow> (('cb, 'a) wohn_scheme, 'r) visitor \<Rightarrow> pointer \<Rightarrow> 'r \<Rightarrow> ('cb, 'a) wohn_scheme \<Rightarrow> ('r \<times> ('cb, 'a) wohn_scheme) option" where
  "visit_connection w body u r s =
     do {
       let pNC = QueryConnection w (calls s) u;
       s \<leftarrow> on_object u (Service ''QueryInterface INetConnection'') s;
       let s = acquired pNC s;
       if pNC \<noteq> 0 then do {
         (keep, r, s) \<leftarrow> visit_props w body pNC r s;
         s \<leftarrow> (if \<not> keep then Release pNC s else Some s);
         Some (r, s)
       } else Some (r, s)
     }"

definition visit :: "world \<Rightarrow> (('cb, 'a) wohn_scheme, 'r) visitor \<Rightarrow> variant \<Rightarrow> 'r \<Rightarrow> ('cb, 'a) wohn_scheme \<Rightarrow> ('r \<times> ('cb, 'a) wohn_scheme) option" where
  \<comment> \<open>from \<^verbatim>\<open>Next\<close>, which gives the variant a reference, to \<^verbatim>\<open>VariantClear\<close>, which gives it back\<close>
  "visit w body v r s =
     (case v of
        VT_other \<Rightarrow> Some (r, s)
      | VT_UNKNOWN u \<Rightarrow> do {
          (r, s) \<leftarrow> visit_connection w body u r (acquired u s);
          s \<leftarrow> Release u s;
          Some (r, s)
        })"

fun enum_loop :: "world \<Rightarrow> (('cb, 'a) wohn_scheme, 'r) visitor \<Rightarrow> ('r \<Rightarrow> ('cb, 'a) wohn_scheme \<Rightarrow> bool) \<Rightarrow> variant list \<Rightarrow> 'r \<Rightarrow> ('cb, 'a) wohn_scheme \<Rightarrow> ('r \<times> ('cb, 'a) wohn_scheme) option" where
  "enum_loop w body stop [] r s = Some (r, s)"
| "enum_loop w body stop (v # vs) r s =
     do {
       (r, s) \<leftarrow> visit w body v r s;
       if stop r s then Some (r, s) else enum_loop w body stop vs r s
     }"

definition get_enumerator :: "world \<Rightarrow> pointer \<Rightarrow> ('cb, 'a) wohn_scheme \<Rightarrow> (pointer \<times> ('cb, 'a) wohn_scheme) option" where
  "get_enumerator w pNSECC s =
     do {
       let pUnk = get_NewEnum w (calls s);
       s \<leftarrow> on_object pNSECC (Service ''get__NewEnum'') s;
       let s = acquired pUnk s;
       if pUnk \<noteq> 0 then do {
         let pEV = QueryEnum w (calls s);
         s \<leftarrow> on_object pUnk (Service ''QueryInterface IEnumVARIANT'') s;
         s \<leftarrow> Release pUnk (acquired pEV s);
         Some (pEV, s)
       } else Some (0, s)
     }"

definition walk_enumerator :: "world \<Rightarrow> (('cb, 'a) wohn_scheme, 'r) visitor \<Rightarrow> ('r \<Rightarrow> ('cb, 'a) wohn_scheme \<Rightarrow> bool) \<Rightarrow> pointer \<Rightarrow> 'r \<Rightarrow> ('cb, 'a) wohn_scheme \<Rightarrow> ('r \<times> ('cb, 'a) wohn_scheme) option" where
  "walk_enumerator w body stop pEV r s =
     (if pEV \<noteq> 0 then do {
        let vs = connections w (calls s);
        s \<leftarrow> on_object pEV (Service ''Next'') s;
        (r, s) \<leftarrow> enum_loop w body stop vs r s;
        s \<leftarrow> Release pEV s;
        Some (r, s)
      } else Some (r, s))"

definition each_connection :: "world \<Rightarrow> (('cb, 'a) wohn_scheme, 'r) visitor \<Rightarrow> ('r \<Rightarrow> ('cb, 'a) wohn_scheme \<Rightarrow> bool) \<Rightarrow> 'r \<Rightarrow> ('cb, 'a) wohn_scheme \<Rightarrow> ('r \<times> ('cb, 'a) wohn_scheme) option" where
  "each_connection w body stop r s =
     do {
       let pNSECC = get_EnumEveryConnection w (calls s);
       s \<leftarrow> on_object (pNSM s) (Service ''get_EnumEveryConnection'') s;
       let s = acquired pNSECC s;
       if pNSECC \<noteq> 0 then do {
         (pEV, s) \<leftarrow> get_enumerator w pNSECC s;
         (r, s) \<leftarrow> walk_enumerator w body stop pEV r s;
         s \<leftarrow> Release pNSECC s;
         Some (r, s)
       } else Some (r, s)
     }"

definition NC_SUPPORT :: "netcon_properties \<Rightarrow> bool" where
  "NC_SUPPORT np \<longleftrightarrow> MediaType np = NCM_LAN \<and> Status np \<noteq> NCS_DISCONNECTED"

definition both_shared :: "('cb, 'a) wohn_scheme \<Rightarrow> bool" where
  "both_shared s \<longleftrightarrow> pNCPrivate s \<noteq> 0 \<and> pNCPublic s \<noteq> 0"

definition keep_shared :: "world \<Rightarrow> (('cb, 'a) wohn_scheme, unit) visitor" where
  \<comment> \<open>the body of the loop of \<^verbatim>\<open>cor_ics_initialize\<close>\<close>
  "keep_shared w pNP pNC r s =
     (if NC_SUPPORT pNP then do {
        let pNSC = get_Configuration w (calls s) pNC;
        s \<leftarrow> on_object (pNSM s) (Service ''get_INetSharingConfigurationForINetConnection'') s;
        let s = acquired pNSC s;
        if pNSC \<noteq> 0 then do {
          let bEnabled = get_SharingEnabled w (calls s) pNSC;
          s \<leftarrow> on_object pNSC (Service ''get_SharingEnabled'') s;
          (keep, s) \<leftarrow>
            (if bEnabled then do {
               let SharingType = get_SharingConnectionType w (calls s) pNSC;
               s \<leftarrow> on_object pNSC (Service ''get_SharingConnectionType'') s;
               Some (True,
                 if SharingType = ICSSHARINGTYPE_PRIVATE then s\<lparr>pNCPrivate := pNC\<rparr>
                 else if SharingType = ICSSHARINGTYPE_PUBLIC then s\<lparr>pNCPublic := pNC\<rparr>
                 else s)
             } else Some (False, s));
          s \<leftarrow> Release pNSC s;
          Some (keep, r, s)
        } else Some (False, r, s)
      } else Some (False, r, s))"

definition start_com :: "world \<Rightarrow> ('cb, 'a) wohn_scheme \<Rightarrow> ('cb, 'a) wohn_scheme" where
  \<comment> \<open>\<^verbatim>\<open>cor_ics_initialize\<close> from its variables to \<^verbatim>\<open>CoCreateInstance\<close>\<close>
  "start_com w s =
     (let s = s\<lparr>gCoInitialized := False, pNSM := 0, pNCPublic := 0, pNCPrivate := 0\<rparr>;
          r = CoInitialize w (calls s);
          s = called (Service ''CoInitialize'') s;
          s = (if r \<noteq> E_FAIL then s\<lparr>com_inits := com_inits s + 1\<rparr> else s);
          s = (if r = S_FALSE then s\<lparr>gCoInitialized := True\<rparr> else s);
          s = called (Service ''CoInitializeSecurity'') s;
          p = CoCreateInstance w (calls s)
      in acquired p (called (Service ''CoCreateInstance'') (s\<lparr>pNSM := p\<rparr>)))"

definition cor_ics_initialize :: "world \<Rightarrow> ('cb, 'a) wohn_scheme \<Rightarrow> (bool \<times> ('cb, 'a) wohn_scheme) option" where
  "cor_ics_initialize w s =
     (if gInitialized s then Some (False, s)
      else
        let s = (if LoadLibrary w (calls s) then s\<lparr>NetconPropsFree := GetProcAddress w (calls s)\<rparr> else s);
            s = called (Service ''LoadLibrary'') s
        in if \<not> NetconPropsFree s then Some (False, s)
           else
             let s = start_com w s in
             if pNSM s \<noteq> 0 then do {
               let bInstalled = get_SharingInstalled w (calls s);
               s \<leftarrow> on_object (pNSM s) (Service ''get_SharingInstalled'') s;
               if bInstalled then do {
                 (_, s) \<leftarrow> each_connection w (keep_shared w) (\<lambda>_. both_shared) () s;
                 Some (True, s)
               } else map_option (Pair False) (cor_ics_deinitialize s)
             } else map_option (Pair False) (cor_ics_deinitialize s))"

definition disable_sharing :: "world \<Rightarrow> pointer \<Rightarrow> ('cb, 'a) wohn_scheme \<Rightarrow> ('cb, 'a) wohn_scheme option" where
  \<comment> \<open>the two halves of \<^verbatim>\<open>cor_ics_disable\<close>\<close>
  "disable_sharing w pNC s =
     do {
       let pNSC = get_Configuration w (calls s) pNC;
       s \<leftarrow> on_object (pNSM s) (Service ''get_INetSharingConfigurationForINetConnection'') s;
       let s = acquired pNSC s;
       s \<leftarrow> (if pNSC \<noteq> 0 then do { s \<leftarrow> on_object pNSC (Disable_sharing pNC) s; Release pNSC s } else Some s);
       Release pNC s
     }"

definition cor_ics_disable :: "world \<Rightarrow> ('cb, 'a) wohn_scheme \<Rightarrow> ('cb, 'a) wohn_scheme option" where
  "cor_ics_disable w s =
     (if \<not> gInitialized s then Some s
      else do {
        s \<leftarrow> (if pNCPrivate s \<noteq> 0 then do { s \<leftarrow> disable_sharing w (pNCPrivate s) s; Some (s\<lparr>pNCPrivate := 0\<rparr>) } else Some s);
        if pNCPublic s \<noteq> 0 then do { s \<leftarrow> disable_sharing w (pNCPublic s) s; Some (s\<lparr>pNCPublic := 0\<rparr>) } else Some s
      })"

definition cor_ics_is_enabled :: "('cb, 'a) wohn_scheme \<Rightarrow> bool" where
  "cor_ics_is_enabled s \<longleftrightarrow> pNCPublic s \<noteq> 0 \<and> pNCPrivate s \<noteq> 0"

definition enable_as :: "world \<Rightarrow> sharing \<Rightarrow> pointer \<Rightarrow> ('cb, 'a) wohn_scheme \<Rightarrow> (bool \<times> ('cb, 'a) wohn_scheme) option" where
  \<comment> \<open>sharing of one connection in the body of the loop of \<^verbatim>\<open>cor_ics_enable\<close>; \<^verbatim>\<open>bFound\<close> is the result\<close>
  "enable_as w type pNC s =
     do {
       let pNSC = get_Configuration w (calls s) pNC;
       s \<leftarrow> on_object (pNSM s) (Service ''get_INetSharingConfigurationForINetConnection'') s;
       let s = acquired pNSC s;
       if pNSC \<noteq> 0 then do {
         let bFound = EnableSharing w (calls s) pNSC type;
         s \<leftarrow> on_object pNSC (Enable_sharing pNC type) s;
         s \<leftarrow> Release pNSC s;
         Some (bFound, s)
       } else Some (False, s)
     }"

definition share_connection :: "world \<Rightarrow> wchar list \<Rightarrow> (('cb, 'a) wohn_scheme, unit) visitor" where
  \<comment> \<open>the body of the loop of \<^verbatim>\<open>cor_ics_enable\<close>\<close>
  "share_connection w sPublicConnection pNP pNC r s =
     (if NC_SUPPORT pNP then
        case pHNStatus s of
          None \<Rightarrow> if pNCPrivate s = 0 then None
            else if pNCPublic s = 0 \<and> wstr (pszwName pNP) = wstr sPublicConnection then do {
              (bFound, s) \<leftarrow> enable_as w ICSSHARINGTYPE_PUBLIC pNC s;
              Some (bFound, r, if bFound then s\<lparr>pNCPublic := pNC\<rparr> else s)
            } else Some (False, r, s)
        | Some (_, status) \<Rightarrow>
            if pNCPrivate s = 0 \<and> guidId pNP = IPDeviceID status then do {
              (bFound, s) \<leftarrow> enable_as w ICSSHARINGTYPE_PRIVATE pNC s;
              Some (bFound, r, if bFound then s\<lparr>pNCPrivate := pNC\<rparr> else s)
            }
            else if pNCPublic s = 0 \<and> wstr (pszwName pNP) = wstr sPublicConnection then do {
              (bFound, s) \<leftarrow> enable_as w ICSSHARINGTYPE_PUBLIC pNC s;
              Some (bFound, r, if bFound then s\<lparr>pNCPublic := pNC\<rparr> else s)
            } else Some (False, r, s)
      else Some (False, r, s))"

definition cor_ics_enable :: "world \<Rightarrow> wchar list \<Rightarrow> ('cb, 'a) wohn_scheme \<Rightarrow> (bool \<times> ('cb, 'a) wohn_scheme) option" where
  "cor_ics_enable w sPublicConnection s =
     (if \<not> gInitialized s then Some (False, s)
      else do {
        (st, s) \<leftarrow> cor_wlan_get_state w s;
        if st = hn_unavailable then Some (False, s)
        else do {
          s \<leftarrow> cor_ics_disable w s;
          (_, s) \<leftarrow> each_connection w (share_connection w sPublicConnection) (\<lambda>_. both_shared) () s;
          let bFound = cor_ics_is_enabled s;
          s \<leftarrow> (if \<not> bFound then cor_ics_disable w s else Some s);
          Some (bFound, s)
        }
      })"

definition offer_connection :: "(netcon_properties \<Rightarrow> 'c \<Rightarrow> int \<times> 'c) \<Rightarrow> (('cb, 'a) wohn_scheme, int \<times> 'c) visitor" where
  \<comment> \<open>the body of the loop of \<^verbatim>\<open>cor_ics_enum\<close>\<close>
  "offer_connection cor_enum_conn pNP pNC r s =
     (if NC_SUPPORT pNP then
        case pHNStatus s of
          None \<Rightarrow> None
        | Some (_, status) \<Rightarrow> Some (False, if guidId pNP \<noteq> IPDeviceID status then cor_enum_conn pNP (snd r) else r, s)
      else Some (False, r, s))"

definition cor_ics_enum :: "world \<Rightarrow> (netcon_properties \<Rightarrow> 'c \<Rightarrow> int \<times> 'c) \<Rightarrow> 'c \<Rightarrow> ('cb, 'a) wohn_scheme \<Rightarrow> (bool \<times> 'c \<times> ('cb, 'a) wohn_scheme) option" where
  \<comment> \<open>\<^verbatim>\<open>lpContext\<close> as the value the callback works on\<close>
  "cor_ics_enum w cor_enum_conn c s =
     (if \<not> gInitialized s then Some (False, c, s)
      else do {
        ((r, c), s) \<leftarrow> each_connection w (offer_connection cor_enum_conn) (\<lambda>(r, _) _. r > 0) (- 1, c) s;
        Some (r \<ge> 0, c, s)
      })"

subsection \<open>Initialisation\<close>

definition cor_is_administrator :: "world \<Rightarrow> ('cb, 'a) wohn_scheme \<Rightarrow> bool" where
  "cor_is_administrator w s =
     (if AllocateAndInitializeSid w (calls s) then
        case CheckTokenMembership w (calls s) of None \<Rightarrow> False | Some b \<Rightarrow> b
      else False)"

definition cor_is_ics_allowed :: "world \<Rightarrow> ('cb, 'a) wohn_scheme \<Rightarrow> bool" where
  "cor_is_ics_allowed w s =
     (let dwICSAllowed = (if RegOpenKeyEx w (calls s) then
            case RegGetValue w (calls s) of None \<Rightarrow> 1 | Some v \<Rightarrow> v
          else 1)
      in dwICSAllowed = 1)"

definition cor_initialize :: "world \<Rightarrow> ('cb, 'a) wohn_scheme \<Rightarrow> (int \<times> ('cb, 'a) wohn_scheme) option" where
  "cor_initialize w s =
     (if gInitialized s then Some (- 1, s)
      else
        let s = s\<lparr>gInitialized := False\<rparr> in
        if \<not> cor_is_administrator w s then Some (1, s)
        else if \<not> cor_is_ics_allowed w s then Some (2, s)
        else do {
          (ok, s) \<leftarrow> cor_ics_initialize w s;
          if \<not> ok then Some (3, s)
          else do {
            (ok, s) \<leftarrow> cor_wlan_initialize w s;
            if \<not> ok then Some (4, s) else Some (0, s\<lparr>gInitialized := True\<rparr>)
          }
        })"

definition cor_deinitialize :: "('cb, 'a) wohn_scheme \<Rightarrow> ('cb, 'a) wohn_scheme option" where
  "cor_deinitialize s =
     do {
       s \<leftarrow> cor_ics_deinitialize s;
       s \<leftarrow> cor_wlan_deinitialize s;
       Some (s\<lparr>gInitialized := False\<rparr>)
     }"

end
