(* ===== verification/Wohn_Sharing.thy ===== *)
theory Wohn_Sharing
  imports Wohn_Core
begin

text \<open>
  The references that the walks over the connections take and give back: a contract for what a walk does with a connection
  (locale \<open>connection_visitor\<close>), the result of a walk for every visitor that keeps it, and its three visitors in
  \<^verbatim>\<open>WohnCore.cpp\<close>.
\<close>

section \<open>References\<close>

abbreviation ref_of :: "pointer \<Rightarrow> pointer multiset" where
  "ref_of p \<equiv> (if p = 0 then {#} else {#p#})"

definition owned :: "('cb, 'a) wohn_scheme \<Rightarrow> pointer multiset" where
  "owned s = ref_of (pNSM s) + ref_of (pNCPublic s) + ref_of (pNCPrivate s)"

text \<open>The references of the program are the ones in its globals and those in \<open>E\<close>.\<close>

definition holds :: "pointer multiset \<Rightarrow> ('cb, 'a) wohn_scheme \<Rightarrow> bool" where
  "holds E s \<longleftrightarrow> pNSM s \<noteq> 0 \<and> NetconPropsFree s \<and> com_refs s = owned s + E"

text \<open>
  Calls, references and property blocks come and go (\<open>quiet\<close>); a walk over the connections may also change the two
  shared connections (\<open>ics_frame\<close>).
\<close>

definition quiet :: "('cb, 'a) wohn_scheme \<Rightarrow> ('cb, 'a) wohn_scheme \<Rightarrow> bool" where
  "quiet s s' \<longleftrightarrow> (\<exists>cs m b. s' = s\<lparr>calls := calls s @ cs, com_refs := m, props_blocks := b\<rparr>)"

definition ics_frame :: "('cb, 'a) wohn_scheme \<Rightarrow> ('cb, 'a) wohn_scheme \<Rightarrow> bool" where
  "ics_frame s s' \<longleftrightarrow>
     (\<exists>cs pub priv m b. s' = s\<lparr>calls := calls s @ cs, pNCPublic := pub, pNCPrivate := priv, com_refs := m, props_blocks := b\<rparr>)"

lemma quietI: "s' = s\<lparr>calls := calls s @ cs, com_refs := m, props_blocks := b\<rparr> \<Longrightarrow> quiet s s'"
  unfolding quiet_def by blast

lemma ics_frameI:
  "s' = s\<lparr>calls := calls s @ cs, pNCPublic := pub, pNCPrivate := priv, com_refs := m, props_blocks := b\<rparr> \<Longrightarrow> ics_frame s s'"
  unfolding ics_frame_def by blast

lemma quiet_frame: "quiet s s' \<Longrightarrow> ics_frame s s'"
proof -
  assume "quiet s s'"
  then obtain cs m b where "s' = s\<lparr>calls := calls s @ cs, com_refs := m, props_blocks := b\<rparr>" unfolding quiet_def by blast
  then show ?thesis by (intro ics_frameI[where cs = cs and pub = "pNCPublic s" and priv = "pNCPrivate s" and m = m and b = b]) (cases s, simp)
qed

lemma quiet_refl [simp]: "quiet s s"
  by (rule quietI[where cs = "[]" and m = "com_refs s" and b = "props_blocks s"]) (cases s, simp)

lemma ics_frame_refl [simp]: "ics_frame s s"
  by (simp add: quiet_frame)

lemma ics_frame_trans [trans]: "ics_frame s t \<Longrightarrow> ics_frame t u \<Longrightarrow> ics_frame s u"
  unfolding ics_frame_def by (elim exE) (simp, blast)

lemma quiet_trans [trans]: "quiet s t \<Longrightarrow> quiet t u \<Longrightarrow> quiet s u"
  unfolding quiet_def by (elim exE) (simp, blast)

lemma quiet_called [simp]: "quiet s (called c s)"
  by (rule quietI[where cs = "[c]" and m = "com_refs s" and b = "props_blocks s"]) (cases s, simp add: called_def)

lemma quiet_acquired [simp]: "quiet s (acquired p s)"
  by (rule quietI[where cs = "[]" and m = "com_refs (acquired p s)" and b = "props_blocks s"]) (cases s, simp add: acquired_def)

lemma quiet_props [simp]: "quiet s (s\<lparr>props_blocks := b\<rparr>)"
  by (rule quietI[where cs = "[]" and m = "com_refs s" and b = b]) (cases s, simp)

lemma holds_calls [simp]: "holds E (called c s) = holds E s" "holds E (s\<lparr>props_blocks := b\<rparr>) = holds E s"
  by (simp_all add: holds_def owned_def called_def)

lemma fields_called [simp]:
  "pNSM (called c s) = pNSM s" "props_blocks (called c s) = props_blocks s" "com_refs (called c s) = com_refs s"
  "NetconPropsFree (called c s) = NetconPropsFree s" "pNSM (acquired p s) = pNSM s" "props_blocks (acquired p s) = props_blocks s"
  "calls (acquired p s) = calls s"
  by (simp_all add: called_def acquired_def)

lemma acquired_holds: "holds E s \<Longrightarrow> holds (if p = 0 then E else add_mset p E) (acquired p s)"
  by (auto simp: holds_def owned_def acquired_def)

lemma acquired_0 [simp]: "acquired 0 s = s"
  by (simp add: acquired_def)

lemma on_object_holds [simp]: "holds E s \<Longrightarrow> p = pNSM s \<or> p \<in># E \<Longrightarrow> on_object p c s = Some (called c s)"
  by (auto simp: on_object_def holds_def owned_def)

lemma Release_holds:
  assumes "holds (add_mset p E) s"
  obtains s' where "Release p s = Some s'" "holds E s'" "quiet s s'" "props_blocks s' = props_blocks s"
proof
  show "Release p s = Some (s\<lparr>com_refs := com_refs s - {#p#}\<rparr>)" using assms by (simp add: Release_def holds_def)
  show "holds E (s\<lparr>com_refs := com_refs s - {#p#}\<rparr>)" using assms by (auto simp: holds_def owned_def)
  show "quiet s (s\<lparr>com_refs := com_refs s - {#p#}\<rparr>)"
    by (rule quietI[where cs = "[]" and m = "com_refs s - {#p#}" and b = "props_blocks s"]) (cases s, simp)
qed simp

section \<open>Walks over the connections\<close>

text \<open>Objects that Windows gives through the enumerator are not \<^verbatim>\<open>NULL\<close>.\<close>

definition objects_given :: "world \<Rightarrow> bool" where
  "objects_given w \<longleftrightarrow> (\<forall>h. VT_UNKNOWN 0 \<notin> set (connections w h))"

text \<open>
  From \<open>s\<close> the program came to \<open>t\<close>, where it holds the references \<open>E\<close> besides its globals (and others it has lost, if
  it is \<open>leaky\<close>), \<open>P\<close> is true, and nothing but the shared connections has changed.
\<close>

definition settled :: "(('cb, 'a) wohn_scheme \<Rightarrow> bool) \<Rightarrow> bool \<Rightarrow> pointer multiset \<Rightarrow> ('cb, 'a) wohn_scheme \<Rightarrow> ('cb, 'a) wohn_scheme \<Rightarrow> bool" where
  "settled P leaky E s t \<longleftrightarrow>
     (\<exists>D. (D = {#} \<or> leaky) \<and> holds (D + E) t) \<and> P t \<and> ics_frame s t \<and> props_blocks t = props_blocks s"

lemma settled_refl: "holds E s \<Longrightarrow> P s \<Longrightarrow> settled P leaky E s s"
  unfolding settled_def by (metis add.left_neutral ics_frame_refl)

lemma settled_trans:
  assumes "settled P leaky E s t" "\<And>D. holds (D + E) t \<Longrightarrow> settled P leaky (D + F) t u"
  shows "settled P leaky F s u"
proof -
  obtain D where D: "D = {#} \<or> leaky" "holds (D + E) t" using assms(1) unfolding settled_def by blast
  with assms(2) obtain D' where "D' = {#} \<or> leaky" "holds (D' + (D + F)) u" "P u" "ics_frame t u" "props_blocks u = props_blocks t"
    unfolding settled_def by blast
  with D assms(1) ics_frame_trans show ?thesis
    unfolding settled_def by (metis add.assoc add.left_neutral)
qed

lemma settled_run:
  assumes "settled P leaky E s t" "\<And>D. holds (D + E) t \<Longrightarrow> P t \<Longrightarrow> \<exists>y. run = Some y \<and> settled P leaky (D + F y) t (st y)"
  obtains y where "run = Some y" "settled P leaky (F y) s (st y)"
proof -
  obtain D where D: "holds (D + E) t" "P t" using assms(1) unfolding settled_def by blast
  then obtain y where run: "run = Some y" using assms(2) by blast
  have "settled P leaky (F y) s (st y)"
    using settled_trans[OF assms(1), of "F y" "st y"] assms(2) D(2) run by force
  with run that show ?thesis by blast
qed

text \<open>
  The contract of a visitor: from a state in which the program holds the connection, it returns, and gives the reference
  back or keeps it.
\<close>

locale connection_visitor =
  fixes w :: world and body :: "(('cb, 'a) wohn_scheme, 'r) visitor" and P :: "('cb, 'a) wohn_scheme \<Rightarrow> bool" and leaky :: bool
  assumes P_quiet: "P s \<Longrightarrow> quiet s s' \<Longrightarrow> P s'"
    and body: "holds (add_mset pNC E) s \<Longrightarrow> P s \<Longrightarrow> pNC \<noteq> 0 \<Longrightarrow> GetProperties w h pNC = Some np \<Longrightarrow>
      \<exists>keep r' s'. body np pNC r s = Some (keep, r', s') \<and> settled P leaky (if keep then E else add_mset pNC E) s s'"
begin

lemma settled_quiet:
  assumes "settled P leaky E s t" "quiet t u" "\<And>D. holds (D + E) t \<Longrightarrow> holds (D + F) u" "props_blocks u = props_blocks t"
  shows "settled P leaky F s u"
  using assms P_quiet[OF _ assms(2)] ics_frame_trans[OF _ quiet_frame[OF assms(2)]] unfolding settled_def by metis

lemma settled_called: "settled P leaky E s t \<Longrightarrow> settled P leaky E s (called c t)"
  by (rule settled_quiet[of E s t]) simp_all

lemma settled_acquired: "settled P leaky E s t \<Longrightarrow> p \<noteq> 0 \<Longrightarrow> settled P leaky (add_mset p E) s (acquired p t)"
proof (rule settled_quiet[of E s t])
  show "p \<noteq> 0 \<Longrightarrow> holds (D + E) t \<Longrightarrow> holds (D + add_mset p E) (acquired p t)" for D
    using acquired_holds[of "D + E" t p] by simp
qed simp_all

lemma settled_object: "settled P leaky E s t \<Longrightarrow> p = pNSM t \<or> p \<in># E \<Longrightarrow> on_object p c t = Some (called c t)"
  unfolding settled_def by auto

lemma settled_Release: "settled P leaky (add_mset p E) s t \<Longrightarrow> \<exists>u. Release p t = Some u \<and> settled P leaky E s u"
proof -
  assume t: "settled P leaky (add_mset p E) s t"
  then obtain D where "holds (add_mset p (D + E)) t" unfolding settled_def by auto
  from Release_holds[OF this] obtain u where u: "Release p t = Some u" "quiet t u" "props_blocks u = props_blocks t" by metis
  have "holds (D + E) u" if "holds (D + add_mset p E) t" for D
    using that Release_holds[of p "D + E" t] u(1) by auto
  with settled_quiet[OF t u(2) _ u(3)] u(1) show ?thesis by blast
qed

lemma visit_props_ok:
  assumes "holds (add_mset pNC E) s" "P s" "pNC \<noteq> 0"
  shows "\<exists>keep r' s'. visit_props w body pNC r s = Some (keep, r', s') \<and> settled P leaky (if keep then E else add_mset pNC E) s s'"
proof (cases "GetProperties w (calls s) pNC")
  case None
  with assms settled_called[OF settled_refl[of _ s P leaky]] show ?thesis
    by (intro exI[of _ False] exI[of _ r] exI[of _ "called (Service ''GetProperties'') s"]) (simp add: visit_props_def)
next
  case (Some np)
  let ?t = "called (Service ''GetProperties'') s" let ?u = "?t\<lparr>props_blocks := props_blocks ?t + {#np_block np#}\<rparr>"
  have q: "quiet s ?u" by (rule quiet_trans[OF quiet_called quiet_props])
  have "holds (add_mset pNC E) ?u" using assms(1) by simp
  with body[OF this P_quiet[OF assms(2) q] assms(3) Some] obtain keep r' s' where
    b: "body np pNC r ?u = Some (keep, r', s')" "settled P leaky (if keep then E else add_mset pNC E) ?u s'"
    by blast
  then have p: "props_blocks s' = props_blocks ?u" and n: "NetconPropsFree s'" unfolding settled_def holds_def by auto
  let ?v = "s'\<lparr>props_blocks := props_blocks s' - {#np_block np#}\<rparr>"
  have "visit_props w body pNC r s = Some (keep, r', ?v)"
    using assms(1) Some b(1) p n by (simp add: visit_props_def)
  moreover have "settled P leaky (if keep then E else add_mset pNC E) s ?v"
    using b(2) p P_quiet[OF _ quiet_props[of s']] ics_frame_trans[OF ics_frame_trans[OF quiet_frame[OF q]] quiet_frame[OF quiet_props]]
    unfolding settled_def by auto
  ultimately show ?thesis by blast
qed

lemma visit_connection_ok:
  assumes "holds (add_mset u E) s" "P s" "u \<noteq> 0"
  shows "\<exists>r' s'. visit_connection w body u r s = Some (r', s') \<and> settled P leaky (add_mset u E) s s'"
proof -
  let ?c = "called (Service ''QueryInterface INetConnection'') s" and ?p = "QueryConnection w (calls s) u"
  have c: "settled P leaky (add_mset u E) s ?c" using settled_called[OF settled_refl[of _ s P leaky]] assms by blast
  show ?thesis
  proof (cases "?p = 0")
    case True
    with assms c show ?thesis by (simp add: visit_connection_def)
  next
    case False
    have a: "settled P leaky (add_mset ?p (add_mset u E)) s (acquired ?p ?c)" using settled_acquired[OF c False] .
    obtain y where y: "visit_props w body ?p r (acquired ?p ?c) = Some y"
      "settled P leaky (if fst y then add_mset u E else add_mset ?p (add_mset u E)) s (snd (snd y))"
    proof (rule settled_run[OF a, where F = "\<lambda>y. if fst y then add_mset u E else add_mset ?p (add_mset u E)" and st = "\<lambda>y. snd (snd y)"])
      fix D assume "holds (D + add_mset ?p (add_mset u E)) (acquired ?p ?c)" "P (acquired ?p ?c)"
      with visit_props_ok[of ?p "D + add_mset u E" "acquired ?p ?c" r] False obtain keep r' v where
        "visit_props w body ?p r (acquired ?p ?c) = Some (keep, r', v)"
        "settled P leaky (if keep then D + add_mset u E else add_mset ?p (D + add_mset u E)) (acquired ?p ?c) v"
        by auto
      then show "\<exists>y. visit_props w body ?p r (acquired ?p ?c) = Some y \<and>
          settled P leaky (D + (if fst y then add_mset u E else add_mset ?p (add_mset u E))) (acquired ?p ?c) (snd (snd y))"
        by (cases keep) simp_all
    qed
    obtain keep r' v where k: "y = (keep, r', v)" by (cases y)
    obtain v' where "(if \<not> keep then Release ?p v else Some v) = Some v'" "settled P leaky (add_mset u E) s v'"
      using y(2) settled_Release[of ?p "add_mset u E" s v] unfolding k by (cases keep) auto
    with assms False y(1) k show ?thesis by (simp add: visit_connection_def)
  qed
qed

lemma visit_ok:
  assumes "holds E s" "P s" "v \<noteq> VT_UNKNOWN 0"
  shows "\<exists>r' s'. visit w body v r s = Some (r', s') \<and> settled P leaky E s s'"
proof (cases v)
  case VT_other
  with assms settled_refl show ?thesis by (fastforce simp: visit_def)
next
  case (VT_UNKNOWN u)
  then have u: "u \<noteq> 0" using assms(3) by simp
  have a: "settled P leaky (add_mset u E) s (acquired u s)" using settled_acquired[OF settled_refl[of E s P leaky, OF assms(1,2)] u] .
  obtain y where y: "visit_connection w body u r (acquired u s) = Some y" "settled P leaky (add_mset u E) s (snd y)"
  proof (rule settled_run[OF a, where F = "\<lambda>_. add_mset u E" and st = snd])
    fix D assume "holds (D + add_mset u E) (acquired u s)" "P (acquired u s)"
    with visit_connection_ok[of u "D + E" _ r] u
    show "\<exists>y. visit_connection w body u r (acquired u s) = Some y \<and> settled P leaky (D + add_mset u E) (acquired u s) (snd y)"
      by fastforce
  qed
  with settled_Release[of u E s "snd y"] VT_UNKNOWN show ?thesis by (cases y) (auto simp: visit_def)
qed

lemma enum_loop_ok:
  "holds E s \<Longrightarrow> P s \<Longrightarrow> VT_UNKNOWN 0 \<notin> set vs \<Longrightarrow> \<exists>r' s'. enum_loop w body stop vs r s = Some (r', s') \<and> settled P leaky E s s'"
proof (induction vs arbitrary: E r s)
  case Nil
  then show ?case by (simp add: settled_refl)
next
  case (Cons v vs)
  then obtain r1 s1 where 1: "visit w body v r s = Some (r1, s1)" "settled P leaky E s s1"
    using visit_ok[of E s v r] by auto
  show ?case
  proof (cases "stop r1 s1")
    case True
    with 1 show ?thesis by simp
  next
    case False
    obtain y where "enum_loop w body stop vs r1 s1 = Some y" "settled P leaky E s (snd y)"
    proof (rule settled_run[OF 1(2), where F = "\<lambda>_. E" and st = snd])
      fix D assume "holds (D + E) s1" "P s1"
      with Cons.IH[of "D + E" s1 r1] Cons.prems(3)
      show "\<exists>y. enum_loop w body stop vs r1 s1 = Some y \<and> settled P leaky (D + E) s1 (snd y)" by fastforce
    qed
    with False 1(1) show ?thesis by (cases y) simp
  qed
qed

lemma enum_loop_settled:
  assumes "settled P leaky E s t" "VT_UNKNOWN 0 \<notin> set vs"
  shows "\<exists>r' u. enum_loop w body stop vs r t = Some (r', u) \<and> settled P leaky E s u"
proof -
  obtain y where "enum_loop w body stop vs r t = Some y" "settled P leaky E s (snd y)"
  proof (rule settled_run[OF assms(1), where F = "\<lambda>_. E" and st = snd])
    fix D assume "holds (D + E) t" "P t"
    with enum_loop_ok[of "D + E" t vs stop r] assms(2)
    show "\<exists>y. enum_loop w body stop vs r t = Some y \<and> settled P leaky (D + E) t (snd y)" by fastforce
  qed
  then show ?thesis by (cases y) simp
qed

lemma get_enumerator_ok:
  assumes t: "settled P leaky E s t" and pNSECC: "pNSECC \<in># E"
  shows "\<exists>pEV u. get_enumerator w pNSECC t = Some (pEV, u) \<and> settled P leaky (ref_of pEV + E) s u"
proof -
  let ?c = "called (Service ''get__NewEnum'') t" and ?p = "get_NewEnum w (calls t)"
  have c: "on_object pNSECC (Service ''get__NewEnum'') t = Some ?c" "settled P leaky E s ?c"
    using settled_object[OF t] settled_called[OF t] pNSECC by simp_all
  show ?thesis
  proof (cases "?p = 0")
    case True
    with c show ?thesis by (simp add: get_enumerator_def)
  next
    case False
    let ?d = "called (Service ''QueryInterface IEnumVARIANT'') (acquired ?p ?c)" and ?q = "QueryEnum w (calls ?c)"
    have a: "settled P leaky (add_mset ?p E) s (acquired ?p ?c)" using settled_acquired[OF c(2) False] .
    have d: "on_object ?p (Service ''QueryInterface IEnumVARIANT'') (acquired ?p ?c) = Some ?d" "settled P leaky (add_mset ?p E) s ?d"
      using settled_object[OF a] settled_called[OF a] by simp_all
    have "settled P leaky (add_mset ?p (ref_of ?q + E)) s (acquired ?q ?d)"
    proof (cases "?q = 0")
      case False
      then have "add_mset ?p (ref_of ?q + E) = add_mset ?q (add_mset ?p E)" by (simp add: add_mset_commute)
      with settled_acquired[OF d(2) False] show ?thesis by (simp only:)
    qed (use d in simp)
    from settled_Release[OF this] obtain u where "Release ?p (acquired ?q ?d) = Some u" "settled P leaky (ref_of ?q + E) s u" by blast
    with c(1) d(1) False show ?thesis by (simp add: get_enumerator_def)
  qed
qed

lemma walk_enumerator_ok:
  assumes t: "settled P leaky (ref_of pEV + E) s t" and "objects_given w"
  shows "\<exists>r' u. walk_enumerator w body stop pEV r t = Some (r', u) \<and> settled P leaky E s u"
proof (cases "pEV = 0")
  case False
  let ?c = "called (Service ''Next'') t" and ?vs = "connections w (calls t)"
  have c: "on_object pEV (Service ''Next'') t = Some ?c" "settled P leaky (ref_of pEV + E) s ?c"
    using settled_object[OF t] settled_called[OF t] False by simp_all
  obtain r' u where u: "enum_loop w body stop ?vs r ?c = Some (r', u)" "settled P leaky (ref_of pEV + E) s u"
    using enum_loop_settled[OF c(2), of ?vs] assms(2) unfolding objects_given_def by blast
  then obtain v where "Release pEV u = Some v" "settled P leaky E s v"
    using settled_Release[of pEV E s u] False by auto
  with c(1) u(1) False show ?thesis by (simp add: walk_enumerator_def)
qed (use t in \<open>simp add: walk_enumerator_def\<close>)

lemma each_connection_ok:
  assumes "holds E s" "P s" "objects_given w"
  shows "\<exists>r' s'. each_connection w body stop r s = Some (r', s') \<and> settled P leaky E s s'"
proof -
  let ?c = "called (Service ''get_EnumEveryConnection'') s" and ?p = "get_EnumEveryConnection w (calls s)"
  have s: "settled P leaky E s s" using settled_refl[of E s P leaky] assms by simp
  have c: "on_object (pNSM s) (Service ''get_EnumEveryConnection'') s = Some ?c" "settled P leaky E s ?c"
    using settled_object[OF s] settled_called[OF s] by simp_all
  show ?thesis
  proof (cases "?p = 0")
    case True
    with c show ?thesis by (simp add: each_connection_def)
  next
    case False
    have a: "settled P leaky (add_mset ?p E) s (acquired ?p ?c)" using settled_acquired[OF c(2) False] .
    obtain pEV u where u: "get_enumerator w ?p (acquired ?p ?c) = Some (pEV, u)" "settled P leaky (ref_of pEV + add_mset ?p E) s u"
      using get_enumerator_ok[OF a, of ?p] by auto
    obtain r' v where v: "walk_enumerator w body stop pEV r u = Some (r', v)" "settled P leaky (add_mset ?p E) s v"
      using walk_enumerator_ok[OF u(2) assms(3), of stop r] by blast
    obtain x where x: "Release ?p v = Some x" "settled P leaky E s x" using settled_Release[OF v(2)] by blast
    have "each_connection w body stop r s = Some (r', x)"
      using False c(1) u(1) v(1) x(1) by (simp add: each_connection_def)
    with x(2) show ?thesis by blast
  qed
qed

end


section \<open>The visitors\<close>

text \<open>An object that is taken, used for some calls and released again.\<close>

lemma borrowed:
  assumes "holds E s" "p \<noteq> 0"
  obtains t u where "on_object p c (acquired p s) = Some t" "t = called c (acquired p s)" "Release p t = Some u" "holds E u" "quiet s u"
    "props_blocks u = props_blocks s" "calls u = calls s @ [c]" "pNSM u = pNSM s"
proof -
  let ?t = "called c (acquired p s)"
  have h: "holds (add_mset p E) (acquired p s)" using acquired_holds[OF assms(1), of p] assms(2) by simp
  then have t: "on_object p c (acquired p s) = Some ?t" "holds (add_mset p E) ?t" by simp_all
  have "Release p ?t = Some (called c s)"
    using t(2) assms(2) by (cases s) (simp add: Release_def holds_def called_def acquired_def)
  with t(1) assms(1) show ?thesis by (intro that[of ?t "called c s"]) (simp_all, simp add: called_def)
qed

lemma enable_as_ok:
  assumes "holds E s"
  shows "\<exists>b t. enable_as w ty pNC s = Some (b, t) \<and> holds E t \<and> quiet s t \<and> props_blocks t = props_blocks s \<and>
    (b \<longrightarrow> Enable_sharing pNC ty \<in> set (calls t))"
proof -
  let ?c = "called (Service ''get_INetSharingConfigurationForINetConnection'') s" and ?p = "get_Configuration w (calls s) pNC"
  have c: "on_object (pNSM s) (Service ''get_INetSharingConfigurationForINetConnection'') s = Some ?c" "holds E ?c" "quiet s ?c"
    using assms by simp_all
  show ?thesis
  proof (cases "?p = 0")
    case True
    with c show ?thesis by (auto simp: enable_as_def)
  next
    case False
    obtain t u where t: "on_object ?p (Enable_sharing pNC ty) (acquired ?p ?c) = Some t" "Release ?p t = Some u" "holds E u" "quiet ?c u"
      "props_blocks u = props_blocks s" "calls u = calls ?c @ [Enable_sharing pNC ty]"
      using borrowed[OF c(2) False, of "Enable_sharing pNC ty"] unfolding fields_called(2) by blast
    with quiet_trans[OF c(3) t(4)] c(1) False show ?thesis by (simp add: enable_as_def)
  qed
qed

text \<open>What \<^verbatim>\<open>cor_ics_enable\<close> makes sure of for the two connections it keeps.\<close>

definition shared_as :: "world \<Rightarrow> (netcon_properties \<Rightarrow> bool) \<Rightarrow> sharing \<Rightarrow> pointer \<Rightarrow> ('cb, 'a) wohn_scheme \<Rightarrow> bool" where
  "shared_as w Q ty p s \<longleftrightarrow>
     (\<exists>h np. GetProperties w h p = Some np \<and> NC_SUPPORT np \<and> Q np) \<and> Enable_sharing p ty \<in> set (calls s)"

definition shares_right :: "world \<Rightarrow> wchar list \<Rightarrow> ('cb, 'a) wohn_scheme \<Rightarrow> bool" where
  "shares_right w name s \<longleftrightarrow>
     (\<exists>p st. pHNStatus s = Some (p, st) \<and>
        (pNCPrivate s \<noteq> 0 \<longrightarrow> shared_as w (\<lambda>np. guidId np = IPDeviceID st) ICSSHARINGTYPE_PRIVATE (pNCPrivate s) s)) \<and>
     (pNCPublic s \<noteq> 0 \<longrightarrow> shared_as w (\<lambda>np. wstr (pszwName np) = wstr name) ICSSHARINGTYPE_PUBLIC (pNCPublic s) s)"

lemma quiet_fields:
  "quiet s t \<Longrightarrow> pHNStatus t = pHNStatus s" "quiet s t \<Longrightarrow> pNCPublic t = pNCPublic s" "quiet s t \<Longrightarrow> pNCPrivate t = pNCPrivate s"
  "quiet s t \<Longrightarrow> set (calls s) \<subseteq> set (calls t)" "quiet s t \<Longrightarrow> pNSM t = pNSM s" "quiet s t \<Longrightarrow> NetconPropsFree t = NetconPropsFree s"
  unfolding quiet_def by auto

lemma shares_right_quiet: "shares_right w name s \<Longrightarrow> quiet s t \<Longrightarrow> shares_right w name t"
  using quiet_fields[of s t] unfolding shares_right_def shared_as_def by auto

lemma ics_frame_shared: "ics_frame s (s\<lparr>pNCPublic := p\<rparr>)" "ics_frame s (s\<lparr>pNCPrivate := p\<rparr>)"
  by (rule ics_frameI[where cs = "[]" and pub = p and priv = "pNCPrivate s" and m = "com_refs s" and b = "props_blocks s"], cases s, simp)
    (rule ics_frameI[where cs = "[]" and pub = "pNCPublic s" and priv = p and m = "com_refs s" and b = "props_blocks s"], cases s, simp)

lemma enable_as_public:
  assumes "holds (add_mset pNC E) s" "shares_right w name s" "GetProperties w h pNC = Some np" "NC_SUPPORT np"
    "wstr (pszwName np) = wstr name" "pNCPublic s = 0" "pNC \<noteq> 0"
  shows "\<exists>b t. enable_as w ICSSHARINGTYPE_PUBLIC pNC s = Some (b, t) \<and>
    settled (shares_right w name) False (if b then E else add_mset pNC E) s (if b then t\<lparr>pNCPublic := pNC\<rparr> else t)"
proof -
  obtain b t where t: "enable_as w ICSSHARINGTYPE_PUBLIC pNC s = Some (b, t)" "holds (add_mset pNC E) t" "quiet s t"
    "props_blocks t = props_blocks s" "b \<longrightarrow> Enable_sharing pNC ICSSHARINGTYPE_PUBLIC \<in> set (calls t)"
    using enable_as_ok[OF assms(1)] by blast
  have r: "shares_right w name t" using shares_right_quiet[OF assms(2) t(3)] .
  have "settled (shares_right w name) False (if b then E else add_mset pNC E) s (if b then t\<lparr>pNCPublic := pNC\<rparr> else t)"
  proof (cases b)
    case True
    have "holds E (t\<lparr>pNCPublic := pNC\<rparr>)"
      using t(2) assms(6,7) quiet_fields(2)[OF t(3)] by (auto simp: holds_def owned_def)
    moreover have "shares_right w name (t\<lparr>pNCPublic := pNC\<rparr>)"
      using r True t(5) assms(3-5) unfolding shares_right_def shared_as_def by auto
    ultimately show ?thesis using True t(4) ics_frame_trans[OF quiet_frame[OF t(3)] ics_frame_shared(1)] unfolding settled_def by auto
  qed (use t r quiet_frame in \<open>auto simp: settled_def\<close>)
  with t(1) show ?thesis by blast
qed

lemma enable_as_private:
  assumes "holds (add_mset pNC E) s" "shares_right w name s" "GetProperties w h pNC = Some np" "NC_SUPPORT np"
    "pHNStatus s = Some (q, st)" "guidId np = IPDeviceID st" "pNCPrivate s = 0" "pNC \<noteq> 0"
  shows "\<exists>b t. enable_as w ICSSHARINGTYPE_PRIVATE pNC s = Some (b, t) \<and>
    settled (shares_right w name) False (if b then E else add_mset pNC E) s (if b then t\<lparr>pNCPrivate := pNC\<rparr> else t)"
proof -
  obtain b t where t: "enable_as w ICSSHARINGTYPE_PRIVATE pNC s = Some (b, t)" "holds (add_mset pNC E) t" "quiet s t"
    "props_blocks t = props_blocks s" "b \<longrightarrow> Enable_sharing pNC ICSSHARINGTYPE_PRIVATE \<in> set (calls t)"
    using enable_as_ok[OF assms(1)] by blast
  have r: "shares_right w name t" using shares_right_quiet[OF assms(2) t(3)] .
  have "settled (shares_right w name) False (if b then E else add_mset pNC E) s (if b then t\<lparr>pNCPrivate := pNC\<rparr> else t)"
  proof (cases b)
    case True
    have "holds E (t\<lparr>pNCPrivate := pNC\<rparr>)"
      using t(2) assms(7,8) quiet_fields(3)[OF t(3)] by (auto simp: holds_def owned_def)
    moreover have "shares_right w name (t\<lparr>pNCPrivate := pNC\<rparr>)"
      using r True t(5) assms(3-6) quiet_fields(1)[OF t(3)] unfolding shares_right_def shared_as_def by auto
    ultimately show ?thesis using True t(4) ics_frame_trans[OF quiet_frame[OF t(3)] ics_frame_shared(2)] unfolding settled_def by auto
  qed (use t r quiet_frame in \<open>auto simp: settled_def\<close>)
  with t(1) show ?thesis by blast
qed

interpretation share: connection_visitor w "share_connection w name :: (('cb, 'a) wohn_scheme, unit) visitor" "shares_right w name" False
proof unfold_locales
  show "shares_right w name s \<Longrightarrow> quiet s s' \<Longrightarrow> shares_right w name s'" for s s' :: "('cb, 'a) wohn_scheme"
    by (rule shares_right_quiet)
next
  fix pNC E h np and s :: "('cb, 'a) wohn_scheme" and r
  assume s: "holds (add_mset pNC E) s" "shares_right w name s" "pNC \<noteq> 0" "GetProperties w h pNC = Some np"
  then obtain q st where st: "pHNStatus s = Some (q, st)" unfolding shares_right_def by blast
  have none: "settled (shares_right w name) False (add_mset pNC E) s s" using settled_refl[OF s(1)] s(2) by blast
  show "\<exists>keep r' s'. share_connection w name np pNC r s = Some (keep, r', s') \<and>
      settled (shares_right w name) False (if keep then E else add_mset pNC E) s s'"
  proof (cases "NC_SUPPORT np")
    case True
    note pub = enable_as_public[OF s(1,2,4) True _ _ s(3)] and priv = enable_as_private[OF s(1,2,4) True st _ _ s(3)]
    consider "pNCPrivate s = 0 \<and> guidId np = IPDeviceID st"
      | "\<not> (pNCPrivate s = 0 \<and> guidId np = IPDeviceID st)" "pNCPublic s = 0 \<and> wstr (pszwName np) = wstr name"
      | "\<not> (pNCPrivate s = 0 \<and> guidId np = IPDeviceID st)" "\<not> (pNCPublic s = 0 \<and> wstr (pszwName np) = wstr name)" by blast
    then show ?thesis
    proof cases
      case 1
      then obtain b t where "enable_as w ICSSHARINGTYPE_PRIVATE pNC s = Some (b, t)"
        "settled (shares_right w name) False (if b then E else add_mset pNC E) s (if b then t\<lparr>pNCPrivate := pNC\<rparr> else t)"
        using priv by blast
      then show ?thesis using 1 True st by (simp add: share_connection_def)
    next
      case 2
      then obtain b t where "enable_as w ICSSHARINGTYPE_PUBLIC pNC s = Some (b, t)"
        "settled (shares_right w name) False (if b then E else add_mset pNC E) s (if b then t\<lparr>pNCPublic := pNC\<rparr> else t)"
        using pub by blast
      then show ?thesis using 2 True st by (cases "pNCPrivate s = 0") (simp_all add: share_connection_def)
    next
      case 3
      then have "share_connection w name np pNC r s = Some (False, r, s)"
        using True st by (cases "pNCPrivate s = 0"; cases "pNCPublic s = 0") (simp_all add: share_connection_def)
      then show ?thesis using none by auto
    qed
  qed (use none in \<open>auto simp: share_connection_def\<close>)
qed

interpretation offer: connection_visitor w "offer_connection f :: (('cb, 'a) wohn_scheme, int \<times> 'c) visitor" "\<lambda>s. pHNStatus s \<noteq> None" False
proof unfold_locales
  show "pHNStatus s \<noteq> None \<Longrightarrow> quiet s s' \<Longrightarrow> pHNStatus s' \<noteq> None" for s s' :: "('cb, 'a) wohn_scheme"
    using quiet_fields(1) by metis
next
  fix pNC E h np r and s :: "('cb, 'a) wohn_scheme"
  assume s: "holds (add_mset pNC E) s" "pHNStatus s \<noteq> None"
  then have none: "settled (\<lambda>s. pHNStatus s \<noteq> None) False (add_mset pNC E) s s" by (intro settled_refl s)
  obtain q st where "pHNStatus s = Some (q, st)" using s(2) by auto
  then have "offer_connection f np pNC r s =
      Some (False, if NC_SUPPORT np \<and> guidId np \<noteq> IPDeviceID st then f np (snd r) else r, s)"
    by (simp add: offer_connection_def)
  with none show "\<exists>keep r' s'. offer_connection f np pNC r s = Some (keep, r', s') \<and>
      settled (\<lambda>s. pHNStatus s \<noteq> None) False (if keep then E else add_mset pNC E) s s'"
    by auto
qed

lemma keep_shared_cases:
  fixes s :: "('cb, 'a) wohn_scheme"
  assumes "holds E s"
  obtains b cs pub priv where
    "keep_shared w np pNC r s = Some (b, r, s\<lparr>calls := calls s @ cs, pNCPublic := pub, pNCPrivate := priv\<rparr>)"
    "pub = pNCPublic s \<and> priv = pNCPrivate s \<or> b \<and> pub = pNC \<and> priv = pNCPrivate s \<or> b \<and> pub = pNCPublic s \<and> priv = pNC"
    "b \<Longrightarrow> \<exists>h p. get_SharingEnabled w h p"
proof -
  let ?c = "called (Service ''get_INetSharingConfigurationForINetConnection'') s" and ?p = "get_Configuration w (calls s) pNC"
  let ?d = "called (Service ''get_SharingEnabled'') (acquired ?p ?c)" and ?e = "get_SharingEnabled w (calls ?c) ?p"
  let ?f = "called (Service ''get_SharingConnectionType'') ?d" and ?ty = "get_SharingConnectionType w (calls ?d) ?p"
  have c: "on_object (pNSM s) (Service ''get_INetSharingConfigurationForINetConnection'') s = Some ?c" using assms by simp
  have on: "on_object ?p x (called y (acquired ?p z)) = Some (called x (called y (acquired ?p z)))"
    "on_object ?p x (acquired ?p z) = Some (called x (acquired ?p z))" if "?p \<noteq> 0" for x y and z :: "('cb, 'a) wohn_scheme"
    using that by (simp_all add: on_object_def acquired_def)
  consider "\<not> NC_SUPPORT np" | "NC_SUPPORT np" "?p = 0" | "NC_SUPPORT np" "?p \<noteq> 0" "\<not> ?e" | "NC_SUPPORT np" "?p \<noteq> 0" ?e by blast
  then show thesis
  proof cases
    case 1
    then have "keep_shared w np pNC r s = Some (False, r, s\<lparr>calls := calls s @ [], pNCPublic := pNCPublic s, pNCPrivate := pNCPrivate s\<rparr>)"
      by (cases s) (simp add: keep_shared_def)
    then show thesis by (rule that) simp_all
  next
    case 2
    then have "keep_shared w np pNC r s = Some (False, r, s\<lparr>calls := calls s @ [Service ''get_INetSharingConfigurationForINetConnection''],
        pNCPublic := pNCPublic s, pNCPrivate := pNCPrivate s\<rparr>)"
      using c by (cases s) (simp add: keep_shared_def called_def)
    then show thesis by (rule that) simp_all
  next
    case 3
    have "Release ?p ?d = Some (s\<lparr>calls := calls s @ [Service ''get_INetSharingConfigurationForINetConnection'', Service ''get_SharingEnabled''],
        pNCPublic := pNCPublic s, pNCPrivate := pNCPrivate s\<rparr>)"
      using 3(2) by (cases s) (simp add: Release_def called_def acquired_def)
    with 3 c on have "keep_shared w np pNC r s = Some (False, r, s\<lparr>calls := calls s @
        [Service ''get_INetSharingConfigurationForINetConnection'', Service ''get_SharingEnabled''], pNCPublic := pNCPublic s, pNCPrivate := pNCPrivate s\<rparr>)"
      by (simp add: keep_shared_def Let_def)
    then show thesis by (rule that) simp_all
  next
    case 4
    define pub where "pub = (if ?ty = ICSSHARINGTYPE_PUBLIC then pNC else pNCPublic s)"
    define priv where "priv = (if ?ty = ICSSHARINGTYPE_PRIVATE then pNC else pNCPrivate s)"
    let ?cs = "[Service ''get_INetSharingConfigurationForINetConnection'', Service ''get_SharingEnabled'', Service ''get_SharingConnectionType'']"
    have "Release ?p (if ?ty = ICSSHARINGTYPE_PRIVATE then ?f\<lparr>pNCPrivate := pNC\<rparr> else if ?ty = ICSSHARINGTYPE_PUBLIC then ?f\<lparr>pNCPublic := pNC\<rparr> else ?f) =
        Some (s\<lparr>calls := calls s @ ?cs, pNCPublic := pub, pNCPrivate := priv\<rparr>)"
      using 4(2) unfolding pub_def priv_def by (cases s; cases ?ty) (simp_all add: Release_def called_def acquired_def)
    with 4 c on have "keep_shared w np pNC r s = Some (True, r, s\<lparr>calls := calls s @ ?cs, pNCPublic := pub, pNCPrivate := priv\<rparr>)"
      by (simp add: keep_shared_def Let_def)
    then show thesis by (rule that) (use 4(3) in \<open>auto simp: pub_def priv_def\<close>)
  qed
qed

lemma keep_shared_settled:
  assumes "holds (add_mset pNC E) s" "pNC \<noteq> 0"
  shows "\<exists>b t. keep_shared w np pNC r s = Some (b, r, t) \<and> settled (\<lambda>_. True) True (if b then E else add_mset pNC E) s t"
proof -
  from keep_shared_cases[OF assms(1)] obtain b cs pub priv where
    k: "keep_shared w np pNC r s = Some (b, r, s\<lparr>calls := calls s @ cs, pNCPublic := pub, pNCPrivate := priv\<rparr>)"
      "pub = pNCPublic s \<and> priv = pNCPrivate s \<or> b \<and> pub = pNC \<and> priv = pNCPrivate s \<or> b \<and> pub = pNCPublic s \<and> priv = pNC"
    by metis
  let ?t = "s\<lparr>calls := calls s @ cs, pNCPublic := pub, pNCPrivate := priv\<rparr>"
  have "\<exists>D. holds (D + (if b then E else add_mset pNC E)) ?t"
    using k(2)
  proof (elim disjE)
    assume "pub = pNCPublic s \<and> priv = pNCPrivate s"
    with assms show ?thesis by (intro exI[of _ "if b then {#pNC#} else {#}"]) (auto simp: holds_def owned_def)
  next
    assume "b \<and> pub = pNC \<and> priv = pNCPrivate s"
    with assms show ?thesis by (intro exI[of _ "ref_of (pNCPublic s)"]) (auto simp: holds_def owned_def)
  next
    assume "b \<and> pub = pNCPublic s \<and> priv = pNC"
    with assms show ?thesis by (intro exI[of _ "ref_of (pNCPrivate s)"]) (auto simp: holds_def owned_def)
  qed
  moreover have "ics_frame s ?t"
    by (rule ics_frameI[where cs = cs and pub = pub and priv = priv and m = "com_refs s" and b = "props_blocks s"]) (cases s, simp)
  ultimately have "settled (\<lambda>_. True) True (if b then E else add_mset pNC E) s ?t" by (simp add: settled_def)
  with k(1) show ?thesis by blast
qed

interpretation keep: connection_visitor w "keep_shared w :: (('cb, 'a) wohn_scheme, unit) visitor" "\<lambda>_. True" True
  by unfold_locales (use keep_shared_settled in \<open>blast+\<close>)

text \<open>While no connection is shared, the walk of \<^verbatim>\<open>cor_ics_initialize\<close> loses no reference.\<close>

definition nothing_shared :: "('cb, 'a) wohn_scheme \<Rightarrow> bool" where
  "nothing_shared s \<longleftrightarrow> pNCPublic s = 0 \<and> pNCPrivate s = 0"

lemma keep_unshared:
  assumes "\<And>h p. \<not> get_SharingEnabled w h p"
  shows "connection_visitor w (keep_shared w :: (('cb, 'a) wohn_scheme, unit) visitor) nothing_shared False"
proof unfold_locales
  show "nothing_shared s \<Longrightarrow> quiet s s' \<Longrightarrow> nothing_shared s'" for s s' :: "('cb, 'a) wohn_scheme"
    by (simp add: nothing_shared_def quiet_fields)
next
  fix pNC E h np r and s :: "('cb, 'a) wohn_scheme"
  assume s: "holds (add_mset pNC E) s" "nothing_shared s"
  from keep_shared_cases[OF s(1)] assms obtain b cs where
    k: "keep_shared w np pNC r s = Some (b, r, s\<lparr>calls := calls s @ cs, pNCPublic := pNCPublic s, pNCPrivate := pNCPrivate s\<rparr>)" "\<not> b"
    by metis
  let ?t = "s\<lparr>calls := calls s @ cs, pNCPublic := pNCPublic s, pNCPrivate := pNCPrivate s\<rparr>"
  have "ics_frame s ?t"
    by (rule ics_frameI[where cs = cs and pub = "pNCPublic s" and priv = "pNCPrivate s" and m = "com_refs s" and b = "props_blocks s"]) (cases s, simp)
  with s k(2) have "settled nothing_shared False (if b then E else add_mset pNC E) s ?t"
    by (simp add: settled_def holds_def owned_def nothing_shared_def)
  with k(1) show "\<exists>keep r' s'. keep_shared w np pNC r s = Some (keep, r', s') \<and> settled nothing_shared False (if keep then E else add_mset pNC E) s s'"
    by blast
qed

end
