(* ===== verification/Wohn_Life.thy ===== *)
theory Wohn_Life
  imports Wohn_Sharing
begin

text \<open>
  The life of the core of \<^verbatim>\<open>wohn\<close>: the invariant between \<^verbatim>\<open>cor_initialize\<close> and \<^verbatim>\<open>cor_deinitialize\<close>, every
  operation under it, and whole sessions.
\<close>

section \<open>The life of the core\<close>

text \<open>
  What Windows documents of its answers: objects and memory that a successful call gives are not \<^verbatim>\<open>NULL\<close>, an SSID has
  32 bytes, and a stored pass phrase comes with its terminator. Of the code page only that it turns no text into no bytes.
\<close>

definition windows_ok :: "world \<Rightarrow> bool" where
  "windows_ok w \<longleftrightarrow> objects_given w \<and>
     (\<forall>h. WlanOpenHandle w h \<noteq> Some 0) \<and>
     (\<forall>h x. QueryStatus w h = Some x \<longrightarrow> block_of x \<noteq> 0) \<and>
     (\<forall>h n p x. QueryConnSettings w h = Some (n, Some (p, x)) \<longrightarrow> p \<noteq> 0 \<and> length (ucSSID x) = 32) \<and>
     (\<forall>h p key b t. QuerySecondaryKey w h = Some (p, key, b) \<longrightarrow> to_wide_strict w key = Some t \<longrightarrow> 0 \<in> set t) \<and>
     fst (to_octets w []) = []"

text \<open>
  The invariant of the initialised core: the service is open, the settings are in blocks the program owns, the callbacks
  are counted, and it holds the references in its globals and those it lost before (\<open>E\<close>).
\<close>

definition registered :: "('cb, 'a) wohn_scheme \<Rightarrow> cor_notify_type list" where
  "registered s = filter (\<lambda>t. gNotifyCallBack s t \<noteq> None) notify_types"

definition settings_blocks :: "('cb, 'a) wohn_scheme \<Rightarrow> pointer multiset" where
  "settings_blocks s = {#pHNEnabled s, block_of (pHNConnSettings s), pHNSecSettings s, block_of (pHNStatus s)#}"

definition wlan_ready :: "('cb, 'a) wohn_scheme \<Rightarrow> bool" where
  "wlan_ready s \<longleftrightarrow> section_ready s \<and> gWlanClient s \<noteq> 0 \<and> wlan_handles s = {#gWlanClient s#} \<and>
     0 \<notin># settings_blocks s \<and> settings_blocks s \<subseteq># wlan_blocks s \<and>
     (\<forall>p x. pHNConnSettings s = Some (p, x) \<longrightarrow> length (ucSSID x) = 32)"

definition core_inv :: "pointer multiset \<Rightarrow> ('cb, 'a) wohn_scheme \<Rightarrow> bool" where
  "core_inv E s \<longleftrightarrow> gInitialized s \<and> holds E s \<and> props_blocks s = {#} \<and> wlan_ready s \<and>
     gNotifications s = int (length (registered s))"

lemma core_inv_settings:
  assumes "core_inv E s"
  obtains p x q st where "pHNConnSettings s = Some (p, x)" "p \<noteq> 0" "length (ucSSID x) = 32" "pHNStatus s = Some (q, st)" "q \<noteq> 0"
  using assms unfolding core_inv_def wlan_ready_def settings_blocks_def by (auto split: option.splits)

text \<open>What no operation but the registration touches: the callbacks, and whatever a client keeps beside the core.\<close>

definition keeps :: "('cb, 'a) wohn_scheme \<Rightarrow> ('cb, 'a) wohn_scheme \<Rightarrow> bool" where
  "keeps s t \<longleftrightarrow> gNotifyCallBack t = gNotifyCallBack s \<and> wohn.more t = wohn.more s"

lemma frame_refl [simp]: "keeps s s"
  by (simp add: keeps_def)

lemma frame_trans [trans]: "keeps s t \<Longrightarrow> keeps t u \<Longrightarrow> keeps s u"
  by (simp add: keeps_def)

lemma keeps_frame: "ics_frame s t \<Longrightarrow> keeps s t"
  by (auto simp: ics_frame_def keeps_def)

text \<open>Calls and lost blocks do not disturb the invariant.\<close>

lemma core_inv_called [simp]: "core_inv E (called c s) = core_inv E s"
  by (simp add: core_inv_def wlan_ready_def settings_blocks_def registered_def holds_def owned_def called_def)

lemma get_state_ok:
  assumes "core_inv E s" "windows_ok w"
  shows "\<exists>st t. cor_wlan_get_state w s = Some (st, t) \<and> core_inv E t"
proof (cases "QueryStatus w (calls s)")
  case None
  with assms show ?thesis by (simp add: cor_wlan_get_state_def core_inv_def[of E s])
next
  case (Some x)
  with assms(2) have "block_of x \<noteq> 0" unfolding windows_ok_def by blast
  then obtain q st where x: "x = Some (q, st)" "q \<noteq> 0" by (cases x) auto
  let ?u = "called (Service ''WlanHostedNetworkQueryStatus'') s"
  let ?t = "allocated q (?u\<lparr>pHNStatus := x\<rparr>)"
  have "settings_blocks ?t \<subseteq># wlan_blocks ?t"
  proof -
    have "{#pHNEnabled s, block_of (pHNConnSettings s), pHNSecSettings s, block_of (pHNStatus s)#} \<subseteq># wlan_blocks s"
      using assms(1) by (simp add: core_inv_def wlan_ready_def settings_blocks_def)
    then have "{#pHNEnabled s, block_of (pHNConnSettings s), pHNSecSettings s#} \<subseteq># wlan_blocks s"
      by (metis add_mset_commute mset_subset_eq_insertD subset_mset.less_imp_le)
    then show ?thesis using x by (simp add: settings_blocks_def allocated_def called_def add_mset_commute)
  qed
  moreover have "0 \<notin># settings_blocks ?t"
    using assms(1) x by (auto simp: core_inv_def wlan_ready_def settings_blocks_def allocated_def called_def)
  ultimately have "core_inv E ?t"
    using assms(1) x(2) by (simp add: core_inv_def wlan_ready_def registered_def holds_def owned_def allocated_def called_def)
  moreover have "cor_wlan_get_state w s = Some (HostedNetworkState st, ?t)"
    using assms(1) Some x by (simp add: cor_wlan_get_state_def core_inv_def[of E s])
  ultimately show ?thesis by blast
qed

lemma get_state_keeps: "cor_wlan_get_state w s = Some (st, t) \<Longrightarrow> keeps s t"
  by (auto simp: cor_wlan_get_state_def keeps_def called_def allocated_def Let_def split: if_splits option.splits)

lemma is_started_keeps: "cor_wlan_is_started w s = Some (b, t) \<Longrightarrow> keeps s t"
  using get_state_keeps by (auto simp: cor_wlan_is_started_def bind_eq_Some_conv split: if_splits)

lemma keeps_called [simp]: "keeps (called c s) t = keeps s t" "keeps s (called c t) = keeps s t"
  by (simp_all add: keeps_def called_def)

lemma start_keeps: "cor_wlan_start w s = Some (b, t) \<Longrightarrow> keeps s t"
  using is_started_keeps[of w "called Start_using s"] by (auto simp: cor_wlan_start_def Let_def split: if_splits)

lemma stop_keeps: "cor_wlan_stop w f s = Some (b, t) \<Longrightarrow> keeps s t"
  using is_started_keeps[of w "called Stop_using s"] is_started_keeps[of w "called Force_stop (called Stop_using s)"]
  by (auto simp: cor_wlan_stop_def Let_def bind_eq_Some_conv split: if_splits)

lemma set_ssid_keeps: "cor_wlan_set_ssid w n s = Some (b, t) \<Longrightarrow> keeps s t"
  by (auto simp: cor_wlan_set_ssid_def keeps_def called_def Let_def split: if_splits option.splits)

lemma get_key_keeps: "cor_wlan_get_key w g k s = Some (n, k', t) \<Longrightarrow> keeps s t"
  by (auto simp: cor_wlan_get_key_def keeps_def called_def allocated_def WLFREE_S_def Let_def bind_eq_Some_conv split: if_splits option.splits)

lemma is_started_ok: "core_inv E s \<Longrightarrow> windows_ok w \<Longrightarrow> \<exists>b t. cor_wlan_is_started w s = Some (b, t) \<and> core_inv E t"
  using get_state_ok[of E s w] by (auto simp: cor_wlan_is_started_def)

lemma start_ok: "core_inv E s \<Longrightarrow> windows_ok w \<Longrightarrow> \<exists>b t. cor_wlan_start w s = Some (b, t) \<and> core_inv E t"
  using is_started_ok[of E "called Start_using s" w] by (auto simp: cor_wlan_start_def Let_def core_inv_def[of E s])

lemma stop_ok: "core_inv E s \<Longrightarrow> windows_ok w \<Longrightarrow> \<exists>b t. cor_wlan_stop w f s = Some (b, t) \<and> core_inv E t"
  using is_started_ok[of E "called Stop_using s" w] is_started_ok[of E "called Force_stop (called Stop_using s)" w]
  by (auto simp: cor_wlan_stop_def Let_def core_inv_def[of E s])

text \<open>The settings with another network name: the bytes behind the name stay.\<close>

definition renamed :: "octet list \<Rightarrow> dot11_ssid \<Rightarrow> dot11_ssid" where
  "renamed bs x = \<lparr>uSSIDLength = of_nat (length bs), ucSSID = bs @ drop (length bs) (ucSSID x)\<rparr>"

lemma set_ssid_eq:
  assumes "gInitialized s" "pHNConnSettings s = Some (p, x)" "fst (to_octets w (wstr t)) = bs"
  shows "cor_wlan_set_ssid w t s = Some
    (if 0 < length bs \<and> length bs < 32 then
       (SetProperty w (calls s), called (Set_connection_settings (renamed bs x))
          (if SetProperty w (calls s) then s\<lparr>pHNConnSettings := Some (p, renamed bs x)\<rparr> else s))
     else (False, s))"
proof -
  have undo: "called c (s\<lparr>pHNConnSettings := y\<rparr>)\<lparr>pHNConnSettings := Some (p, x)\<rparr> = called c s" for c y
    using assms(2) by (cases s) (simp add: called_def)
  have "converted (bs @ [0]) 32 = (if length bs < 32 then Suc (length bs) else 0)" by (simp add: converted_def)
  then show ?thesis using assms undo by (simp add: cor_wlan_set_ssid_def Let_def renamed_def)
qed

lemma set_ssid_ok: "core_inv E s \<Longrightarrow> \<exists>b t. cor_wlan_set_ssid w t0 s = Some (b, t) \<and> core_inv E t"
proof -
  assume inv: "core_inv E s"
  then obtain p x where x: "pHNConnSettings s = Some (p, x)" "length (ucSSID x) = 32" by (metis core_inv_settings)
  let ?b = "fst (to_octets w (wstr t0))"
  have "core_inv E (s\<lparr>pHNConnSettings := Some (p, renamed ?b x)\<rparr>)" if "length ?b < 32"
    using inv x that by (simp add: core_inv_def wlan_ready_def settings_blocks_def registered_def holds_def owned_def renamed_def)
  with inv set_ssid_eq[of s p x w t0 ?b] x(1) show ?thesis by (auto simp: core_inv_def[of E s])
qed

lemma get_ssid_ok:
  assumes "core_inv E s" "33 \<le> length sSSID"
  shows "\<exists>r. cor_wlan_get_ssid w sSSID s = Some r"
proof -
  have len: "length (wstr x) \<le> length x" for x by (simp add: wstr_def length_takeWhile_le)
  obtain p x where x: "pHNConnSettings s = Some (p, x)" using assms(1) by (metis core_inv_settings)
  let ?t = "to_wide w (take (unat (uSSIDLength x)) (ucSSID x))"
  have copy: "\<exists>d. lstrcpy sSSID (u @ [0]) = Some d" if "length u \<le> 31" for u
    using that assms(2) len[of "u @ [0]"] by (auto simp: lstrcpy_def)
  from copy[of "[]"] copy[of ?t] show ?thesis
    using assms(1) x by (auto simp: cor_wlan_get_ssid_def core_inv_def converted_def Let_def)
qed

lemma get_key_ok:
  assumes "core_inv E s" "windows_ok w" "64 \<le> length sKey"
  shows "\<exists>n k t. cor_wlan_get_key w g sKey s = Some (n, k, t) \<and> core_inv E t"
proof (cases "QuerySecondaryKey w (calls s)")
  case None
  with assms show ?thesis by (simp add: cor_wlan_get_key_def core_inv_def[of E s])
next
  case (Some a)
  then obtain p key b where a: "QuerySecondaryKey w (calls s) = Some (p, key, b)" by (cases a) simp
  let ?t = "case to_wide_strict w key of None \<Rightarrow> [] | Some t \<Rightarrow> t" and ?c = "called (Service ''WlanHostedNetworkQuerySecondaryKey'') s"
  have copy: "\<exists>d. lstrcpy sKey (?t @ drop (length ?t) g) = Some d" if "length ?t \<le> 63" "length ?t > 0"
  proof -
    from that(2) obtain t where t: "to_wide_strict w key = Some t" "0 \<in> set t" using a assms(2) unfolding windows_ok_def by (cases "to_wide_strict w key") auto
    then have "wstr (t @ drop (length t) g) = wstr t" by (auto simp: wstr_def takeWhile_append1)
    moreover have "length t \<le> 63" using that(1) t(1) by simp
    then have "length (wstr t) < length sKey" using assms(3) length_takeWhile_le[of "\<lambda>c. c \<noteq> 0" t] unfolding wstr_def by linarith
    ultimately show ?thesis using t by (simp add: lstrcpy_def)
  qed
  have free: "WLFREE_S p (allocated p ?c) = Some ?c"
    by (cases s) (simp add: WLFREE_S_def allocated_def called_def)
  show ?thesis
  proof (cases "key \<noteq> [] \<and> b \<and> 8 \<le> length ?t \<and> length ?t \<le> 63")
    case True
    then obtain d where "lstrcpy sKey (?t @ drop (length ?t) g) = Some d" using copy by force
    with True assms(1) a free show ?thesis by (simp add: cor_wlan_get_key_def core_inv_def[of E s] converted_def)
  next
    case False
    then have "cor_wlan_get_key w g sKey s = Some (- 1, sKey, ?c)"
      using assms(1) a free by (auto simp: cor_wlan_get_key_def core_inv_def[of E s] converted_def Let_def)
    with assms(1) show ?thesis by simp
  qed
qed

text \<open>A key that the code page turns into exactly 64 bytes, as many as the buffer has.\<close>

definition key_overruns :: "world \<Rightarrow> wchar list \<Rightarrow> bool" where
  "key_overruns w k \<longleftrightarrow> 8 \<le> length (wstr k) \<and> length (wstr k) \<le> 63 \<and>
     (case to_octets w (wstr k) of (bs, unknown) \<Rightarrow> length bs = 64 \<and> \<not> unknown)"

lemma set_key_ok:
  assumes "core_inv E s"
  shows "if key_overruns w k then cor_wlan_set_key w k s = None else \<exists>b t. cor_wlan_set_key w k s = Some (b, t) \<and> core_inv E t"
proof -
  obtain bs u where o: "to_octets w (wstr k) = (bs, u)" by (cases "to_octets w (wstr k)")
  with assms show ?thesis
    by (auto simp: cor_wlan_set_key_def key_overruns_def core_inv_def[of E s] converted_def Let_def)
qed

lemma register_ok:
  assumes "core_inv E s"
  shows "core_inv E (snd (cor_register_notify ty (Some f) s))"
proof (cases "ty = notify_count \<or> gNotifyCallBack s ty \<noteq> None")
  case True
  with assms show ?thesis by (auto simp: cor_register_notify_def)
next
  case False
  then have "length (filter (\<lambda>t. ((gNotifyCallBack s)(ty \<mapsto> f)) t \<noteq> None) notify_types) = Suc (length (registered s))"
    by (cases ty) (auto simp: registered_def notify_types_def)
  with False assms show ?thesis
    by (simp add: cor_register_notify_def core_inv_def wlan_ready_def settings_blocks_def holds_def owned_def registered_def)
qed

lemma unregister_ok:
  assumes "core_inv E s"
  shows "core_inv E (cor_unregister_notify ty s)"
proof (cases "ty \<noteq> notify_count \<and> gNotifications s > 0 \<and> gNotifyCallBack s ty \<noteq> None")
  case True
  then have "length (registered s) = Suc (length (filter (\<lambda>t. ((gNotifyCallBack s)(ty := None)) t \<noteq> None) notify_types))"
    by (cases ty) (auto simp: registered_def notify_types_def)
  with True assms show ?thesis
    by (auto simp: cor_unregister_notify_def core_inv_def wlan_ready_def settings_blocks_def holds_def owned_def registered_def)
next
  case False
  with assms show ?thesis by (auto simp: cor_unregister_notify_def)
qed

lemma core_inv_frame:
  assumes "core_inv E s" "ics_frame s t" "holds F t" "props_blocks t = {#}"
  shows "core_inv F t"
  using assms unfolding core_inv_def ics_frame_def
  by (auto simp: wlan_ready_def settings_blocks_def registered_def)

lemma disable_sharing_ok:
  assumes "pNSM s \<in># com_refs s" "p \<in># com_refs s"
  shows "\<exists>t. disable_sharing w p s = Some t \<and> quiet s t \<and> com_refs t = com_refs s - {#p#} \<and> props_blocks t = props_blocks s \<and>
    (get_Configuration w (calls s) p \<noteq> 0 \<longrightarrow> Disable_sharing p \<in> set (calls t))"
proof -
  let ?c = "called (Service ''get_INetSharingConfigurationForINetConnection'') s" and ?q = "get_Configuration w (calls s) p"
  let ?d = "called (Disable_sharing p) ?c" and ?m = "com_refs s - {#p#}"
  have c: "on_object (pNSM s) (Service ''get_INetSharingConfigurationForINetConnection'') s = Some ?c"
    using assms(1) by (simp add: on_object_def)
  show ?thesis
  proof (cases "?q = 0")
    case True
    have "quiet s (?c\<lparr>com_refs := ?m\<rparr>)"
      by (rule quietI[where cs = "[Service ''get_INetSharingConfigurationForINetConnection'']" and m = ?m and b = "props_blocks s"])
        (cases s, simp add: called_def)
    with True c assms(2) show ?thesis by (simp add: disable_sharing_def Release_def)
  next
    case False
    have "on_object ?q (Disable_sharing p) (acquired ?q ?c) = Some (called (Disable_sharing p) (acquired ?q ?c))"
      using False by (simp add: on_object_def acquired_def)
    moreover have "Release ?q (called (Disable_sharing p) (acquired ?q ?c)) = Some ?d"
      using False by (cases s) (simp add: Release_def acquired_def called_def)
    moreover have "quiet s (?d\<lparr>com_refs := ?m\<rparr>)"
      by (rule quietI[where cs = "[Service ''get_INetSharingConfigurationForINetConnection'', Disable_sharing p]" and m = ?m and b = "props_blocks s"])
        (cases s, simp add: called_def)
    moreover have "Disable_sharing p \<in> set (calls (?d\<lparr>com_refs := ?m\<rparr>))" by (simp add: called_def)
    ultimately show ?thesis using False c assms(2) by (simp add: disable_sharing_def Release_def)
  qed
qed

lemma ics_disable_ok:
  assumes "core_inv E s"
  shows "\<exists>t. cor_ics_disable w s = Some t \<and> core_inv E t \<and> nothing_shared t \<and> ics_frame s t"
proof -
  have h: "holds E s" "props_blocks s = {#}" "gInitialized s" using assms by (simp_all add: core_inv_def)
  define first where "first = (if pNCPrivate s \<noteq> 0 then do { s \<leftarrow> disable_sharing w (pNCPrivate s) s; Some (s\<lparr>pNCPrivate := 0\<rparr>) } else Some s)"
  have "\<exists>t. first = Some t \<and> holds E t \<and> props_blocks t = {#} \<and> ics_frame s t \<and> pNCPrivate t = 0"
  proof (cases "pNCPrivate s = 0")
    case False
    then obtain t where t: "disable_sharing w (pNCPrivate s) s = Some t" "quiet s t" "com_refs t = com_refs s - {#pNCPrivate s#}" "props_blocks t = {#}"
      using disable_sharing_ok[of s "pNCPrivate s" w] h by (auto simp: holds_def owned_def)
    have "holds E (t\<lparr>pNCPrivate := 0\<rparr>)"
      using h(1) t(3) False quiet_fields[OF t(2)] by (simp add: holds_def owned_def)
    moreover have "ics_frame s (t\<lparr>pNCPrivate := 0\<rparr>)" using ics_frame_trans[OF quiet_frame[OF t(2)] ics_frame_shared(2)] .
    ultimately show ?thesis using False t by (simp add: first_def)
  qed (use h in \<open>simp add: first_def\<close>)
  then obtain t where t: "first = Some t" "holds E t" "props_blocks t = {#}" "ics_frame s t" "pNCPrivate t = 0" by blast
  have "\<exists>u. (if pNCPublic t \<noteq> 0 then do { s \<leftarrow> disable_sharing w (pNCPublic t) t; Some (s\<lparr>pNCPublic := 0\<rparr>) } else Some t) = Some u \<and>
    holds E u \<and> props_blocks u = {#} \<and> ics_frame t u \<and> nothing_shared u"
  proof (cases "pNCPublic t = 0")
    case False
    then obtain u where u: "disable_sharing w (pNCPublic t) t = Some u" "quiet t u" "com_refs u = com_refs t - {#pNCPublic t#}" "props_blocks u = {#}"
      using disable_sharing_ok[of t "pNCPublic t" w] t(2,3) by (auto simp: holds_def owned_def)
    have "holds E (u\<lparr>pNCPublic := 0\<rparr>)"
      using t(2) u(3) False quiet_fields[OF u(2)] by (simp add: holds_def owned_def)
    moreover have "ics_frame t (u\<lparr>pNCPublic := 0\<rparr>)" using ics_frame_trans[OF quiet_frame[OF u(2)] ics_frame_shared(1)] .
    ultimately show ?thesis using False u t(5) quiet_fields[OF u(2)] by (simp add: nothing_shared_def)
  qed (use t in \<open>simp add: nothing_shared_def\<close>)
  then obtain u where u: "(if pNCPublic t \<noteq> 0 then do { s \<leftarrow> disable_sharing w (pNCPublic t) t; Some (s\<lparr>pNCPublic := 0\<rparr>) } else Some t) = Some u"
    "holds E u" "props_blocks u = {#}" "ics_frame t u" "nothing_shared u" by blast
  have "cor_ics_disable w s = Some u" using h(3) t(1) u(1) unfolding cor_ics_disable_def first_def by simp
  with u(5) core_inv_frame[OF assms ics_frame_trans[OF t(4) u(4)] u(2,3)] ics_frame_trans[OF t(4) u(4)] show ?thesis by blast
qed

lemma settled_strict: "settled P False F s t \<Longrightarrow> holds F t \<and> P t \<and> ics_frame s t \<and> props_blocks t = props_blocks s"
  by (simp add: settled_def)

lemma ics_enable_ok:
  assumes "core_inv E s" "windows_ok w"
  shows "\<exists>b t. cor_ics_enable w name s = Some (b, t) \<and> core_inv E t \<and> keeps s t \<and> (b \<longrightarrow> both_shared t \<and> shares_right w name t) \<and>
    (\<not> b \<longrightarrow> nothing_shared t \<or> cor_wlan_get_state w s = Some (hn_unavailable, t))"
proof -
  have init: "gInitialized s" using assms(1) by (simp add: core_inv_def)
  obtain st s1 where s1: "cor_wlan_get_state w s = Some (st, s1)" "core_inv E s1" using get_state_ok[OF assms] by blast
  note k1 = get_state_keeps[OF s1(1)]
  show ?thesis
  proof (cases "st = hn_unavailable")
    case True
    with init s1 k1 show ?thesis by (auto simp: cor_ics_enable_def)
  next
    case False
    obtain s2 where s2: "cor_ics_disable w s1 = Some s2" "core_inv E s2" "nothing_shared s2" "ics_frame s1 s2" using ics_disable_ok[OF s1(2)] by blast
    then have "shares_right w name s2" using core_inv_settings[OF s2(2)] unfolding shares_right_def nothing_shared_def by metis
    then obtain s3 where s3: "each_connection w (share_connection w name) (\<lambda>_. both_shared) () s2 = Some ((), s3)"
        "settled (shares_right w name) False E s2 s3"
      using share.each_connection_ok[of E s2 w name "\<lambda>_. both_shared" "()"] s2(2) assms(2) unfolding core_inv_def windows_ok_def by auto
    have inv3: "core_inv E s3" "shares_right w name s3"
      using core_inv_frame[OF s2(2), of s3 E] settled_strict[OF s3(2)] s2(2) by (simp_all add: core_inv_def)
    have k3: "keeps s s3" using frame_trans[OF k1 frame_trans[OF keeps_frame[OF s2(4)]]] keeps_frame settled_strict[OF s3(2)] by blast
    show ?thesis
    proof (cases "both_shared s3")
      case True
      then have "cor_ics_enable w name s = Some (True, s3)"
        using init s1(1) False s2(1) s3(1) by (simp add: cor_ics_enable_def cor_ics_is_enabled_def both_shared_def)
      with True inv3 k3 show ?thesis by auto
    next
      case ns: False
      obtain s4 where s4: "cor_ics_disable w s3 = Some s4" "core_inv E s4" "nothing_shared s4" "ics_frame s3 s4" using ics_disable_ok[OF inv3(1)] by blast
      have "\<not> cor_ics_is_enabled s3" using ns by (auto simp: cor_ics_is_enabled_def both_shared_def)
      then have "cor_ics_enable w name s = Some (False, s4)"
        using init s1(1) False s2(1) s3(1) s4(1) by (simp add: cor_ics_enable_def)
      with s4 frame_trans[OF k3 keeps_frame[OF s4(4)]] show ?thesis by auto
    qed
  qed
qed

lemma ics_enum_ok:
  assumes "core_inv E s" "windows_ok w"
  shows "\<exists>b c' t. cor_ics_enum w f c s = Some (b, c', t) \<and> core_inv E t \<and> keeps s t"
proof -
  have "pHNStatus s \<noteq> None" using core_inv_settings[OF assms(1)] by (metis option.distinct(1))
  then obtain r t where t: "each_connection w (offer_connection f) (\<lambda>(r, _) _. r > 0) (- 1, c) s = Some (r, t)"
      "settled (\<lambda>s. pHNStatus s \<noteq> None) False E s t"
    using offer.each_connection_ok[of E s w f "\<lambda>(r, _) _. r > 0" "(- 1, c)"] assms unfolding core_inv_def windows_ok_def by auto
  have "core_inv E t" using core_inv_frame[OF assms(1), of t E] settled_strict[OF t(2)] assms(1) by (simp add: core_inv_def)
  with t(1) assms(1) keeps_frame[of s t] settled_strict[OF t(2)] show ?thesis by (cases r) (simp add: cor_ics_enum_def core_inv_def[of E s])
qed

lemma reset_callbacks:
  "fold (\<lambda>i s. s\<lparr>gNotifyCallBack := (gNotifyCallBack s)(i := None)\<rparr>) ts s =
     s\<lparr>gNotifyCallBack := (\<lambda>t. if t \<in> set ts then None else gNotifyCallBack s t)\<rparr>"
proof (induction ts arbitrary: s)
  case Nil
  then show ?case by (cases s) simp
next
  case (Cons a ts)
  then show ?case by (cases s) (auto simp: fun_eq_iff)
qed

lemma free_blocks:
  assumes "{#p, q, r, x#} \<subseteq># M"
  shows "p \<in># M" "q \<in># M - {#p#}" "r \<in># M - {#p#} - {#q#}" "x \<in># M - {#p#} - {#q#} - {#r#}"
    "M - {#p#} - {#q#} - {#r#} - {#x#} = M - {#p, q, r, x#}"
proof -
  show "p \<in># M" "q \<in># M - {#p#}" "r \<in># M - {#p#} - {#q#}" "x \<in># M - {#p#} - {#q#} - {#r#}"
    using assms by (auto simp: insert_subset_eq_iff ac_simps)
  show "M - {#p#} - {#q#} - {#r#} - {#x#} = M - {#p, q, r, x#}" by (simp add: multiset_eq_iff)
qed

lemma wlan_deinitialize_ok:
  assumes "wlan_ready s" "gInitialized s"
  shows "\<exists>t. cor_wlan_deinitialize s = Some t \<and> com_refs t = com_refs s \<and> props_blocks t = props_blocks s \<and> wlan_handles t = {#} \<and>
    wlan_blocks t = wlan_blocks s - settings_blocks s \<and> \<not> section_ready t"
proof -
  obtain p x q st where st: "pHNConnSettings s = Some (p, x)" "pHNStatus s = Some (q, st)" and nz: "p \<noteq> 0" "q \<noteq> 0" "pHNEnabled s \<noteq> 0" "pHNSecSettings s \<noteq> 0"
    using assms(1) unfolding wlan_ready_def settings_blocks_def by (auto split: option.splits)
  have sub: "{#pHNEnabled s, p, pHNSecSettings s, q#} \<subseteq># wlan_blocks s" using assms(1) st by (simp add: wlan_ready_def settings_blocks_def)
  note fb = free_blocks[OF sub]
  show ?thesis
    using assms st nz fb(1-4) fb(5)[symmetric]
    by (simp add: cor_wlan_deinitialize_def reset_callbacks WLFREE_S_def WLCLOSE_S_def wlan_ready_def settings_blocks_def)
qed

lemma ics_deinitialize_ok:
  assumes "core_inv E s"
  shows "\<exists>t. cor_ics_deinitialize s = Some t \<and> com_refs t = E \<and> props_blocks t = {#} \<and> wlan_ready t \<and> gInitialized t \<and>
    settings_blocks t = settings_blocks s \<and> wlan_blocks t = wlan_blocks s"
  using assms
  by (auto simp: core_inv_def cor_ics_deinitialize_def holds_def owned_def RELEASE_S_def Release_def wlan_ready_def settings_blocks_def Let_def)

lemma deinitialize_ok:
  assumes "core_inv E s"
  shows "\<exists>t. cor_deinitialize s = Some t \<and> com_refs t = E \<and> props_blocks t = {#} \<and> wlan_handles t = {#} \<and>
    wlan_blocks t = wlan_blocks s - settings_blocks s \<and> \<not> section_ready t \<and> \<not> gInitialized t"
proof -
  obtain t where t: "cor_ics_deinitialize s = Some t" "com_refs t = E" "props_blocks t = {#}" "wlan_ready t" "gInitialized t"
    "settings_blocks t = settings_blocks s" "wlan_blocks t = wlan_blocks s" using ics_deinitialize_ok[OF assms] by blast
  with wlan_deinitialize_ok[of t] show ?thesis by (auto simp: cor_deinitialize_def)
qed

section \<open>Initialisation\<close>

text \<open>The globals of a program that starts.\<close>

definition fresh :: "('cb, 'a) wohn_scheme \<Rightarrow> bool" where
  "fresh s \<longleftrightarrow> \<not> gInitialized s \<and> com_refs s = {#} \<and> props_blocks s = {#} \<and> wlan_handles s = {#} \<and> wlan_blocks s = {#} \<and>
     (\<forall>t. gNotifyCallBack s t = None)"

definition unshared :: "world \<Rightarrow> bool" where
  "unshared w \<longleftrightarrow> (\<forall>h p. \<not> get_SharingEnabled w h p)"

text \<open>What the sharing part leaves for the rest: the fields of the hosted network are untouched.\<close>

definition wlan_fresh :: "('cb, 'a) wohn_scheme \<Rightarrow> bool" where
  "wlan_fresh s \<longleftrightarrow> \<not> gInitialized s \<and> props_blocks s = {#} \<and> wlan_handles s = {#} \<and> wlan_blocks s = {#} \<and>
     (\<forall>t. gNotifyCallBack s t = None)"

lemma start_com_fields:
  "gInitialized (start_com w s) = gInitialized s" "props_blocks (start_com w s) = props_blocks s" "wlan_handles (start_com w s) = wlan_handles s"
  "wlan_blocks (start_com w s) = wlan_blocks s" "gNotifyCallBack (start_com w s) = gNotifyCallBack s"
  "NetconPropsFree (start_com w s) = NetconPropsFree s" "com_refs (start_com w s) = com_refs s + ref_of (pNSM (start_com w s))"
  "nothing_shared (start_com w s)" "wohn.more (start_com w s) = wohn.more s"
  by (simp_all add: start_com_def Let_def called_def acquired_def nothing_shared_def)

lemma keep_walk_ok:
  assumes "holds E s" "nothing_shared s" "windows_ok w"
  shows "\<exists>t. each_connection w (keep_shared w) (\<lambda>_. both_shared) () s = Some ((), t) \<and> ics_frame s t \<and> props_blocks t = props_blocks s \<and>
    (\<exists>D. holds (D + E) t \<and> (unshared w \<longrightarrow> D = {#} \<and> nothing_shared t))"
proof -
  have og: "objects_given w" using assms(3) by (simp add: windows_ok_def)
  obtain t where t: "each_connection w (keep_shared w) (\<lambda>_. both_shared) () s = Some ((), t)" "settled (\<lambda>_. True) True E s t"
    using keep.each_connection_ok[OF assms(1) _ og, of "\<lambda>_. both_shared" "()"] by auto
  have "settled nothing_shared False E s t" if "unshared w"
    using connection_visitor.each_connection_ok[OF keep_unshared assms(1,2) og, of "\<lambda>_. both_shared" "()"] that t(1)
    unfolding unshared_def by auto
  then have "unshared w \<Longrightarrow> holds E t \<and> nothing_shared t" by (simp add: settled_strict)
  with t show ?thesis unfolding settled_def by (metis add.left_neutral)
qed

lemma ics_initialize_ok:
  assumes "fresh s" "windows_ok w"
  shows "\<exists>b t. cor_ics_initialize w s = Some (b, t) \<and> \<not> gInitialized t \<and> keeps s t \<and>
    (b \<longrightarrow> wlan_fresh t \<and> (\<exists>E. holds E t \<and> (unshared w \<longrightarrow> E = {#} \<and> nothing_shared t)))"
proof -
  define s1 where "s1 = called (Service ''LoadLibrary'') (if LoadLibrary w (calls s) then s\<lparr>NetconPropsFree := GetProcAddress w (calls s)\<rparr> else s)"
  have s1: "wlan_fresh s1" "com_refs s1 = {#}" "keeps s s1" using assms(1) by (simp_all add: s1_def fresh_def wlan_fresh_def called_def keeps_def)
  let ?s = "start_com w s1" let ?t = "called (Service ''get_SharingInstalled'') ?s"
  have ni: "\<not> gInitialized ?s" "\<not> gInitialized ?t" using s1(1) by (simp_all add: start_com_fields wlan_fresh_def called_def)
  have k: "keeps s ?s" "keeps s ?t" using s1(3) by (simp_all add: keeps_def start_com_fields called_def)
  have eq: "cor_ics_initialize w s = (if \<not> NetconPropsFree s1 then Some (False, s1)
      else if pNSM ?s = 0 then Some (False, ?s)
      else do {
        s \<leftarrow> on_object (pNSM ?s) (Service ''get_SharingInstalled'') ?s;
        if get_SharingInstalled w (calls ?s) then do { (_, t) \<leftarrow> each_connection w (keep_shared w) (\<lambda>_. both_shared) () s; Some (True, t) }
        else map_option (Pair False) (cor_ics_deinitialize s) })"
    using assms(1) ni(1) unfolding cor_ics_initialize_def Let_def s1_def[symmetric]
    by (simp add: fresh_def cor_ics_deinitialize_def)
  show ?thesis
  proof (cases "NetconPropsFree s1 \<and> pNSM ?s \<noteq> 0")
    case False
    with ni(1) s1(1,3) eq k show ?thesis by (auto simp: wlan_fresh_def)
  next
    case True
    then have h: "holds {#} ?t" "nothing_shared ?t"
      using s1(2) start_com_fields(6,7,8)[of w s1] by (simp_all add: holds_def owned_def nothing_shared_def called_def)
    have on: "on_object (pNSM ?s) (Service ''get_SharingInstalled'') ?s = Some ?t"
      using h(1) True by (simp add: on_object_def holds_def owned_def)
    obtain t E where t: "each_connection w (keep_shared w) (\<lambda>_. both_shared) () ?t = Some ((), t)" "ics_frame ?t t"
      "props_blocks t = props_blocks ?t" "holds E t" "unshared w \<longrightarrow> E = {#} \<and> nothing_shared t"
      using keep_walk_ok[OF h assms(2)] by auto
    have "wlan_fresh ?t" using s1(1) by (simp add: wlan_fresh_def start_com_fields called_def)
    then have "wlan_fresh t" using t(2,3) unfolding ics_frame_def wlan_fresh_def by auto
    then show ?thesis
      using True eq on t ni(2) k(2) frame_trans[OF k(2) keeps_frame[OF t(2)]] by (auto simp: cor_ics_deinitialize_def wlan_fresh_def)
  qed
qed

text \<open>The queries of the hosted network: what they leave alone, and what the globals hold when one succeeds.\<close>

definition others :: "('cb, 'a) wohn_scheme \<Rightarrow> _" where
  "others s = (gInitialized s, com_refs s, pNSM s, pNCPublic s, pNCPrivate s, NetconPropsFree s, props_blocks s, gNotifyCallBack s,
     gNotifications s, section_ready s, gWlanClient s, wlan_handles s, wohn.more s)"

lemma query_enable_ok:
  "query_enable w s = (b, t) \<Longrightarrow> others t = others s \<and> pHNConnSettings t = pHNConnSettings s \<and> pHNSecSettings t = pHNSecSettings s \<and>
     pHNStatus t = pHNStatus s \<and> (b \<longrightarrow> pHNEnabled t \<noteq> 0 \<and> wlan_blocks t = add_mset (pHNEnabled t) (wlan_blocks s))"
  by (auto simp: query_enable_def Let_def called_def allocated_def others_def split: if_splits option.splits)

lemma query_status_ok:
  "query_status w s = (b, t) \<Longrightarrow> windows_ok w \<Longrightarrow> others t = others s \<and> pHNConnSettings t = pHNConnSettings s \<and>
     pHNSecSettings t = pHNSecSettings s \<and> pHNEnabled t = pHNEnabled s \<and>
     (b \<longrightarrow> block_of (pHNStatus t) \<noteq> 0 \<and> wlan_blocks t = add_mset (block_of (pHNStatus t)) (wlan_blocks s))"
proof (cases "QueryStatus w (calls s)")
  case (Some x)
  assume q: "query_status w s = (b, t)" and "windows_ok w"
  with Some have "block_of x \<noteq> 0" unfolding windows_ok_def by blast
  then obtain p st where "x = Some (p, st)" "p \<noteq> 0" by (cases x) auto
  with Some q show ?thesis by (auto simp: query_status_def called_def allocated_def others_def)
qed (auto simp: query_status_def called_def others_def)

lemma query_connection_settings_ok:
  "query_connection_settings w s = (b, t) \<Longrightarrow> windows_ok w \<Longrightarrow> others t = others s \<and> pHNStatus t = pHNStatus s \<and>
     pHNSecSettings t = pHNSecSettings s \<and> pHNEnabled t = pHNEnabled s \<and>
     (b \<longrightarrow> (\<exists>p x. pHNConnSettings t = Some (p, x) \<and> p \<noteq> 0 \<and> length (ucSSID x) = 32 \<and> wlan_blocks t = add_mset p (wlan_blocks s)))"
proof (cases "QueryConnSettings w (calls s)")
  case (Some a)
  assume q: "query_connection_settings w s = (b, t)" and w: "windows_ok w"
  obtain n y where a: "a = (n, y)" by fastforce
  show ?thesis
  proof (cases y)
    case None
    with Some q a show ?thesis by (auto simp: query_connection_settings_def called_def allocated_def others_def)
  next
    case y: (Some z)
    then obtain p x where z: "z = (p, x)" by fastforce
    with Some a y w have "p \<noteq> 0" "length (ucSSID x) = 32" unfolding windows_ok_def by blast+
    with Some q a y z show ?thesis by (auto simp: query_connection_settings_def called_def allocated_def others_def)
  qed
qed (auto simp: query_connection_settings_def called_def others_def)

lemma query_security_settings_ok:
  "query_security_settings w s = (b, t) \<Longrightarrow> others t = others s \<and> pHNConnSettings t = pHNConnSettings s \<and> pHNEnabled t = pHNEnabled s \<and>
     pHNStatus t = pHNStatus s \<and> (b \<longrightarrow> pHNSecSettings t \<noteq> 0 \<and> wlan_blocks t = add_mset (pHNSecSettings t) (wlan_blocks s))"
  by (auto simp: query_security_settings_def Let_def called_def allocated_def others_def split: if_splits option.splits)

lemma wlan_initialize_ok:
  assumes "wlan_fresh s" "windows_ok w" "holds E s"
  shows "\<exists>b t. cor_wlan_initialize w s = Some (b, t) \<and> \<not> gInitialized t \<and> keeps s t \<and>
    (b \<longrightarrow> wlan_ready t \<and> holds E t \<and> props_blocks t = {#} \<and> gNotifications t = 0 \<and> registered t = [])"
proof -
  define s1 where "s1 = called (Service ''WlanOpenHandle'') (s\<lparr>section_ready := True, gNotifications := 0, gWlanClient := 0, pHNConnSettings := None,
    pHNSecSettings := 0, pHNStatus := None, pHNEnabled := 0\<rparr>)"
  have ni: "\<not> gInitialized s" using assms(1) by (simp add: wlan_fresh_def)
  show ?thesis
  proof (cases "WlanOpenHandle w (calls s)")
    case None
    with ni show ?thesis by (auto simp: cor_wlan_initialize_def called_def keeps_def)
  next
    case (Some h)
    with assms(2) have h: "h \<noteq> 0" unfolding windows_ok_def by metis
    define s2 where "s2 = s1\<lparr>gWlanClient := h, wlan_handles := wlan_handles s1 + {#h#}\<rparr>"
    obtain b1 t1 where q1: "query_enable w s2 = (b1, t1)" by fastforce
    obtain b2 t2 where q2: "query_status w t1 = (b2, t2)" by fastforce
    obtain b3 t3 where q3: "query_connection_settings w t2 = (b3, t3)" by fastforce
    obtain b4 t4 where q4: "query_security_settings w t3 = (b4, t4)" by fastforce
    let ?b5 = "RegisterNotification w (calls t4)" and ?t5 = "called (Service ''WlanRegisterNotification'') t4"
    note ok = query_enable_ok[OF q1] query_status_ok[OF q2 assms(2)] query_connection_settings_ok[OF q3 assms(2)] query_security_settings_ok[OF q4]
    have o: "others t1 = others s2" "others t2 = others s2" "others t3 = others s2" "others t4 = others s2" using ok by simp_all
    have n: "\<not> gInitialized t1" "\<not> gInitialized t2" "\<not> gInitialized t3" "\<not> gInitialized t4" "\<not> gInitialized ?t5"
      using o ni by (simp_all add: others_def s2_def s1_def called_def)
    have p: "keeps s x" if "x \<in> {t1, t2, t3, t4, ?t5}" for x
      using that o by (auto simp: others_def s2_def s1_def called_def keeps_def)
    define last where "last = (if b1 then if b2 then if b3 then if b4 then ?t5 else t4 else t3 else t2 else t1)"
    have "cor_wlan_initialize w s = (if b1 \<and> b2 \<and> b3 \<and> b4 \<and> ?b5 then Some (True, ?t5) else Some (False, last))"
      using ni Some n unfolding cor_wlan_initialize_def Let_def s1_def[symmetric]
      by (simp add: q1[unfolded s2_def, simplified] q2 q3 q4 cor_wlan_deinitialize_def last_def)
    moreover have "\<not> gInitialized last \<and> keeps s last"
      using n p by (auto simp: last_def)
    moreover have "wlan_ready ?t5 \<and> holds E ?t5 \<and> props_blocks ?t5 = {#} \<and> gNotifications ?t5 = 0 \<and> registered ?t5 = []"
      if b: "b1 \<and> b2 \<and> b3 \<and> b4"
    proof -
      obtain q x where q: "pHNConnSettings t4 = Some (q, x)" "q \<noteq> 0" "length (ucSSID x) = 32" "wlan_blocks t3 = add_mset q (wlan_blocks t2)"
          "pHNConnSettings t3 = Some (q, x)"
        using ok b by auto
      have blocks: "wlan_blocks ?t5 = settings_blocks ?t5" "0 \<notin># settings_blocks ?t5"
        using ok b q assms(1) by (simp_all add: settings_blocks_def called_def s2_def s1_def wlan_fresh_def add_mset_commute)
      have f: "others ?t5 = others s2" using o(4) by (simp add: others_def called_def)
      have "wlan_ready ?t5"
        using f blocks q(1,3) h assms(1) by (simp add: wlan_ready_def others_def s2_def s1_def called_def wlan_fresh_def)
      moreover have "holds E ?t5" using f assms(3) by (simp add: others_def s2_def s1_def called_def holds_def owned_def)
      moreover have "props_blocks ?t5 = {#} \<and> gNotifications ?t5 = 0 \<and> registered ?t5 = []"
        using f assms(1) by (simp add: others_def s2_def s1_def called_def wlan_fresh_def registered_def)
      ultimately show ?thesis by blast
    qed
    ultimately show ?thesis using n(5) p[of ?t5] by (cases "b1 \<and> b2 \<and> b3 \<and> b4 \<and> ?b5") auto
  qed
qed

lemma initialize_ok:
  assumes "fresh s" "windows_ok w"
  shows "\<exists>r t. cor_initialize w s = Some (r, t) \<and> keeps s t \<and> (r \<noteq> 0 \<longrightarrow> \<not> gInitialized t) \<and>
    (r = 0 \<longrightarrow> (\<exists>E. core_inv E t \<and> (unshared w \<longrightarrow> E = {#}) \<and> registered t = []))"
proof -
  have s: "fresh (s\<lparr>gInitialized := False\<rparr>)" "\<not> gInitialized s" using assms(1) by (simp_all add: fresh_def)
  have k: "keeps (s\<lparr>gInitialized := False\<rparr>) x = keeps s x" "keeps s (x\<lparr>gInitialized := y\<rparr>) = keeps s x" for x y by (simp_all add: keeps_def)
  obtain b t where t: "cor_ics_initialize w (s\<lparr>gInitialized := False\<rparr>) = Some (b, t)" "\<not> gInitialized t"
    "b \<longrightarrow> wlan_fresh t \<and> (\<exists>E. holds E t \<and> (unshared w \<longrightarrow> E = {#} \<and> nothing_shared t))" "keeps s t"
    unfolding k(1)[symmetric] using ics_initialize_ok[OF s(1) assms(2)] by blast
  show ?thesis
  proof (cases b)
    case False
    with s(2) t k show ?thesis by (auto simp: cor_initialize_def Let_def)
  next
    case True
    then obtain E where E: "wlan_fresh t" "holds E t" "unshared w \<longrightarrow> E = {#}" using t(3) by blast
    obtain b' u where u: "cor_wlan_initialize w t = Some (b', u)" "\<not> gInitialized u"
      "b' \<longrightarrow> wlan_ready u \<and> holds E u \<and> props_blocks u = {#} \<and> gNotifications u = 0 \<and> registered u = []" "keeps t u"
      using wlan_initialize_ok[OF E(1) assms(2) E(2)] by blast
    have "b' \<Longrightarrow> core_inv E (u\<lparr>gInitialized := True\<rparr>) \<and> registered (u\<lparr>gInitialized := True\<rparr>) = []"
      using u(3) by (simp add: core_inv_def wlan_ready_def settings_blocks_def holds_def owned_def registered_def)
    with s(2) t(1,2) True u E(3) frame_trans[OF t(4) u(4)] k show ?thesis by (cases b') (auto simp: cor_initialize_def Let_def)
  qed
qed

section \<open>Sessions\<close>

text \<open>What a client does with the core between \<^verbatim>\<open>cor_initialize\<close> and \<^verbatim>\<open>cor_deinitialize\<close>.\<close>

datatype 'cb core_op =
    Get_state | Is_started | Start | Stop bool
  | Get_ssid "wchar list" | Set_ssid "wchar list" | Get_key "wchar list" "wchar list" | Set_key "wchar list"
  | Register cor_notify_type 'cb | Unregister cor_notify_type
  | Ics_enable "wchar list" | Ics_disable | Ics_enum "netcon_properties \<Rightarrow> int"

fun core_step :: "world \<Rightarrow> 'cb core_op \<Rightarrow> ('cb, 'a) wohn_scheme \<Rightarrow> ('cb, 'a) wohn_scheme option" where
  "core_step w Get_state s = map_option snd (cor_wlan_get_state w s)"
| "core_step w Is_started s = map_option snd (cor_wlan_is_started w s)"
| "core_step w Start s = map_option snd (cor_wlan_start w s)"
| "core_step w (Stop f) s = map_option snd (cor_wlan_stop w f s)"
| "core_step w (Get_ssid b) s = map_option (\<lambda>_. s) (cor_wlan_get_ssid w b s)"
| "core_step w (Set_ssid t) s = map_option snd (cor_wlan_set_ssid w t s)"
| "core_step w (Get_key g b) s = map_option (\<lambda>(_, _, s). s) (cor_wlan_get_key w g b s)"
| "core_step w (Set_key t) s = map_option snd (cor_wlan_set_key w t s)"
| "core_step w (Register t f) s = Some (snd (cor_register_notify t (Some f) s))"
| "core_step w (Unregister t) s = Some (cor_unregister_notify t s)"
| "core_step w (Ics_enable n) s = map_option snd (cor_ics_enable w n s)"
| "core_step w Ics_disable s = cor_ics_disable w s"
| "core_step w (Ics_enum f) s = map_option (\<lambda>(_, _, s). s) (cor_ics_enum w (\<lambda>np c. (f np, c)) () s)"

fun core_run :: "world \<Rightarrow> 'cb core_op list \<Rightarrow> ('cb, 'a) wohn_scheme \<Rightarrow> ('cb, 'a) wohn_scheme option" where
  "core_run w [] s = Some s"
| "core_run w (x # xs) s = do { s \<leftarrow> core_step w x s; core_run w xs s }"

text \<open>The buffers of the client are as large as its declarations in \<^verbatim>\<open>WohnUI.cpp\<close>.\<close>

fun buffers_ok :: "'cb core_op \<Rightarrow> bool" where
  "buffers_ok (Get_ssid b) = (33 \<le> length b)"
| "buffers_ok (Get_key _ b) = (64 \<le> length b)"
| "buffers_ok _ = True"

fun overruns :: "world \<Rightarrow> 'cb core_op \<Rightarrow> bool" where
  "overruns w (Set_key k) = key_overruns w k"
| "overruns w _ = False"

lemma core_step_overruns: "core_inv E s \<Longrightarrow> overruns w x \<Longrightarrow> core_step w x s = None"
  using set_key_ok[of E s w] by (cases x) auto

lemma core_step_ok:
  assumes "core_inv E s" "windows_ok w" "buffers_ok x" "\<not> overruns w x"
  shows "\<exists>t. core_step w x s = Some t \<and> core_inv E t"
proof (cases x)
  case Get_state
  with get_state_ok[OF assms(1,2)] show ?thesis by auto
next
  case Is_started
  with is_started_ok[OF assms(1,2)] show ?thesis by auto
next
  case Start
  with start_ok[OF assms(1,2)] show ?thesis by auto
next
  case (Stop f)
  with stop_ok[OF assms(1,2), of f] show ?thesis by auto
next
  case (Get_ssid b)
  with get_ssid_ok[OF assms(1), of b w] assms show ?thesis by auto
next
  case (Set_ssid t)
  with set_ssid_ok[OF assms(1), of w t] show ?thesis by auto
next
  case (Get_key g b)
  with get_key_ok[OF assms(1,2), of b g] assms(3) show ?thesis by auto
next
  case (Set_key t)
  with set_key_ok[OF assms(1), of w t] assms(4) show ?thesis by auto
next
  case (Register t f)
  with register_ok[OF assms(1)] show ?thesis by simp
next
  case (Unregister t)
  with unregister_ok[OF assms(1)] show ?thesis by simp
next
  case (Ics_enable n)
  with ics_enable_ok[OF assms(1,2), of n] show ?thesis by auto
next
  case Ics_disable
  with ics_disable_ok[OF assms(1), of w] show ?thesis by auto
next
  case (Ics_enum f)
  with ics_enum_ok[OF assms(1,2), of "\<lambda>np c. (f np, c)" "()"] show ?thesis by auto
qed

lemma core_run_ok:
  "core_inv E s \<Longrightarrow> windows_ok w \<Longrightarrow> list_all buffers_ok xs \<Longrightarrow> list_ex (overruns w) xs \<and> core_run w xs s = None \<or>
    \<not> list_ex (overruns w) xs \<and> (\<exists>t. core_run w xs s = Some t \<and> core_inv E t)"
proof (induction xs arbitrary: s)
  case (Cons x xs)
  then show ?case using core_step_ok[of E s w x] core_step_overruns[of E s w x] by (cases "overruns w x") fastforce+
qed simp

text \<open>
  C35. A session with the core has one fault and leaks nothing that it owns at its end: after a successful initialisation
  any list of operations runs to its end, unless one of them sets a key that the code page turns into exactly 64 bytes,
  whose terminator \<^verbatim>\<open>cor_wlan_set_key\<close> writes behind its buffer. At the end \<^verbatim>\<open>cor_deinitialize\<close> returns and the program
  holds no handle, no properties, no critical section and, if nothing was shared when it started, no reference to any
  object; this holds for all answers of Windows that its documentation allows, and for every code page, also one with several bytes for a character.
\<close>

theorem core_session_releases:
  assumes "fresh s" "windows_ok w" "cor_initialize w s = Some (0, t)" "list_all buffers_ok xs"
  shows "(core_run w xs t = None \<longleftrightarrow> list_ex (overruns w) xs) \<and>
    (\<not> list_ex (overruns w) xs \<longrightarrow>
      (\<exists>u v. core_run w xs t = Some u \<and> cor_deinitialize u = Some v \<and>
        wlan_handles v = {#} \<and> props_blocks v = {#} \<and> \<not> section_ready v \<and> \<not> gInitialized v \<and> (unshared w \<longrightarrow> com_refs v = {#})))"
proof -
  obtain E where E: "core_inv E t" "unshared w \<longrightarrow> E = {#}" using initialize_ok[OF assms(1,2)] assms(3) by auto
  from core_run_ok[OF E(1) assms(2,4)] show ?thesis
  proof (elim disjE conjE exE)
    fix u assume u: "\<not> list_ex (overruns w) xs" "core_run w xs t = Some u" "core_inv E u"
    with deinitialize_ok[OF u(3)] E(2) show ?thesis by auto
  qed simp
qed

text \<open>
  C36. Sharing is all or nothing, and right: when \<^verbatim>\<open>cor_ics_enable\<close> says yes, the private connection is a connected
  LAN device with the identifier of the hosted network, the public one a connected LAN device of the chosen name, and
  sharing was enabled on both in their roles; when it says no, either the hosted network is unavailable or no connection is
  kept. In both cases the invariant holds, with the same lost references as before.
\<close>

theorem ics_enable_shares:
  assumes "core_inv E s" "windows_ok w"
  shows "\<exists>b t. cor_ics_enable w name s = Some (b, t) \<and> core_inv E t \<and>
    (b \<longrightarrow> (\<exists>p st h np h' np'. pHNStatus t = Some (p, st) \<and>
       GetProperties w h (pNCPrivate t) = Some np \<and> NC_SUPPORT np \<and> guidId np = IPDeviceID st \<and>
       Enable_sharing (pNCPrivate t) ICSSHARINGTYPE_PRIVATE \<in> set (calls t) \<and>
       GetProperties w h' (pNCPublic t) = Some np' \<and> NC_SUPPORT np' \<and> wstr (pszwName np') = wstr name \<and>
       Enable_sharing (pNCPublic t) ICSSHARINGTYPE_PUBLIC \<in> set (calls t))) \<and>
    (\<not> b \<longrightarrow> pNCPublic t = 0 \<and> pNCPrivate t = 0 \<or> cor_wlan_get_state w s = Some (hn_unavailable, t))"
proof -
  obtain b t where t: "cor_ics_enable w name s = Some (b, t)" "core_inv E t" "b \<longrightarrow> both_shared t \<and> shares_right w name t"
    "\<not> b \<longrightarrow> nothing_shared t \<or> cor_wlan_get_state w s = Some (hn_unavailable, t)"
    using ics_enable_ok[OF assms, of name] by blast
  show ?thesis
    by (rule exI[of _ b], rule exI[of _ t])
      (use t in \<open>auto simp: both_shared_def nothing_shared_def shares_right_def shared_as_def\<close>)
qed

text \<open>
  C37. A network name that was accepted is read back: after \<^verbatim>\<open>cor_wlan_set_ssid\<close> has succeeded for a name that survives
  the code page, \<^verbatim>\<open>cor_wlan_get_ssid\<close> writes that name, with its terminator, and leaves the rest of the buffer alone.
\<close>

theorem ssid_roundtrip:
  assumes "core_inv E s" "windows_ok w" "cor_wlan_set_ssid w name s = Some (True, t)"
    "to_wide w (fst (to_octets w (wstr name))) = wstr name" "33 \<le> length buf"
    "length (wstr name) < 32"
  shows "cor_wlan_get_ssid w buf t =
    Some (int (length (wstr name)) + 1, wstr name @ 0 # drop (Suc (length (wstr name))) buf)"
proof -
  let ?b = "fst (to_octets w (wstr name))"
  obtain p x where x: "pHNConnSettings s = Some (p, x)" "length (ucSSID x) = 32" using assms(1) by (metis core_inv_settings)
  have init: "gInitialized s" using assms(1) by (simp add: core_inv_def)
  have len: "0 < length ?b" "length ?b < 32" and t: "gInitialized t" "pHNConnSettings t = Some (p, renamed ?b x)"
    using assms(3) set_ssid_eq[OF init x(1), of w name ?b] init by (auto simp: called_def split: if_splits)
  have n: "unat (of_nat (length ?b) :: 32 word) = length ?b" using len(2) by (simp add: unat_of_nat)
  have "x \<noteq> 0" if "x \<in> set (wstr name)" for x using that by (auto simp: wstr_def dest: set_takeWhileD)
  then have w0: "wstr (wstr name @ [0]) = wstr name" unfolding wstr_def[of "_ @ _"] by (subst takeWhile_append2) auto
  have lt: "\<not> (32 :: 32 word) < of_nat (length ?b)" "(0 :: 32 word) < of_nat (length ?b)"
    using len n by (simp_all add: word_less_nat_alt)
  have "wstr name \<noteq> []" using assms(2) len(1) by (auto simp: windows_ok_def)
  then show ?thesis
    using t lt len n assms(4,5,6) w0
    by (simp add: cor_wlan_get_ssid_def renamed_def converted_def lstrcpy_def Let_def)
qed

section \<open>A machine\<close>

text \<open>
  A machine with two connections: the hosted network's own adapter (11) and the one to the outside (12); one byte for a
  character; the network is active after it was started.
\<close>

definition lab_props :: "pointer \<Rightarrow> netcon_properties option" where
  "lab_props p = (if p = 11 then Some \<lparr>np_block = 31, guidId = 7, pszwName = [0x68, 0x6E], MediaType = NCM_LAN, Status = NCS_other\<rparr>
     else if p = 12 then Some \<lparr>np_block = 32, guidId = 8, pszwName = [0x6C, 0x61, 0x6E], MediaType = NCM_LAN, Status = NCS_other\<rparr>
     else None)"

definition lab_world :: world where
  "lab_world =
     \<lparr>AllocateAndInitializeSid = \<lambda>_. True, CheckTokenMembership = \<lambda>_. Some True, RegOpenKeyEx = \<lambda>_. False, RegGetValue = \<lambda>_. None,
      LoadLibrary = \<lambda>_. True, GetProcAddress = \<lambda>_. True, CoInitialize = \<lambda>_. S_FALSE, CoCreateInstance = \<lambda>_. 1,
      get_SharingInstalled = \<lambda>_. True, get_EnumEveryConnection = \<lambda>_. 2, get_NewEnum = \<lambda>_. 3, QueryEnum = \<lambda>_. 4,
      connections = \<lambda>_. [VT_UNKNOWN 21, VT_other, VT_UNKNOWN 22], QueryConnection = \<lambda>_ u. u - 10, GetProperties = \<lambda>_. lab_props,
      get_Configuration = \<lambda>_ p. p + 30, get_SharingEnabled = \<lambda>_ _. False, get_SharingConnectionType = \<lambda>_ _. Sharing_other,
      EnableSharing = \<lambda>_ _ _. True, WlanOpenHandle = \<lambda>_. Some 51, InitSettings = \<lambda>_. True, QueryEnable = \<lambda>_. Some (4, 61),
      QueryStatus = \<lambda>h. Some (Some (62, \<lparr>HostedNetworkState = if Start_using \<in> set h then hn_active else hn_idle, IPDeviceID = 7\<rparr>)),
      QueryConnSettings = \<lambda>_. Some (40, Some (63, \<lparr>uSSIDLength = 0, ucSSID = replicate 32 0\<rparr>)),
      QuerySecSettings = \<lambda>_. Some (8, 64), QuerySecondaryKey = \<lambda>_. None, RegisterNotification = \<lambda>_. True, SetProperty = \<lambda>_. True,
      SetSecondaryKey = \<lambda>_. True, StartUsing = \<lambda>_. True, StopUsing = \<lambda>_. True, ForceStop = \<lambda>_. True,
      to_wide = map ucast, to_wide_strict = \<lambda>bs. Some (map ucast bs), to_octets = \<lambda>t. (map ucast t, False)\<rparr>"

definition lab_core :: "nat wohn" where
  "lab_core =
     \<lparr>calls = [], gInitialized = False, gNotifications = 0, section_ready = False, gWlanClient = 0, pHNConnSettings = None,
      pHNSecSettings = 0, pHNStatus = None, pHNEnabled = 0, gNotifyCallBack = \<lambda>_. None, gCoInitialized = False, gICSEnabled = False,
      pNSM = 0, pNCPublic = 0, pNCPrivate = 0, NetconPropsFree = False, wlan_blocks = {#}, wlan_handles = {#}, com_refs = {#},
      props_blocks = {#}, com_inits = 0\<rparr>"

lemma lab_world_ok: "windows_ok lab_world"
  by (simp add: windows_ok_def objects_given_def lab_world_def)

lemma lab_unshared: "unshared lab_world"
  by (simp add: unshared_def lab_world_def)

lemma lab_fresh: "fresh lab_core"
  by (simp add: fresh_def lab_core_def)

lemma lab_started: "map_option fst (cor_initialize lab_world lab_core) = Some 0"
  by code_simp

lemma lab_initialized:
  obtains t where "cor_initialize lab_world lab_core = Some (0, t)" "core_inv {#} t"
proof -
  obtain t where t: "cor_initialize lab_world lab_core = Some (0, t)"
    using lab_started by (cases "cor_initialize lab_world lab_core") auto
  with initialize_ok[OF lab_fresh lab_world_ok] lab_unshared that show thesis by auto
qed

theorem core_session_releases_witness:
  "\<exists>t u v. cor_initialize lab_world lab_core = Some (0, t) \<and>
     core_run lab_world [Set_ssid [0x61], Set_key (replicate 8 0x62), Start, Register notify_started 1, Ics_enable [0x6C, 0x61, 0x6E], Stop True] t = Some u \<and>
     cor_deinitialize u = Some v \<and> com_refs v = {#} \<and> wlan_handles v = {#}"
proof -
  obtain t where "cor_initialize lab_world lab_core = Some (0, t)" using lab_initialized by blast
  moreover have "\<not> key_overruns lab_world (replicate 8 0x62)" by (simp add: key_overruns_def lab_world_def wstr_def)
  ultimately show ?thesis using lab_unshared core_session_releases[OF lab_fresh lab_world_ok,
      of _ "[Set_ssid [0x61], Set_key (replicate 8 0x62), Start, Register notify_started 1, Ics_enable [0x6C, 0x61, 0x6E], Stop True]"]
    by auto
qed

lemma lab_shares:
  "(case cor_initialize lab_world lab_core of
      None \<Rightarrow> None
    | Some (_, s) \<Rightarrow> map_option (\<lambda>(b, t). (b, pNCPrivate t, pNCPublic t)) (cor_ics_enable lab_world [0x6C, 0x61, 0x6E] s)) = Some (True, 11, 12)"
  by code_simp

theorem ics_enable_shares_witness:
  "\<exists>(s :: nat wohn) t. core_inv {#} s \<and> cor_ics_enable lab_world [0x6C, 0x61, 0x6E] s = Some (True, t) \<and> core_inv {#} t \<and>
     Enable_sharing 11 ICSSHARINGTYPE_PRIVATE \<in> set (calls t) \<and> Enable_sharing 12 ICSSHARINGTYPE_PUBLIC \<in> set (calls t)"
proof -
  obtain s where s: "cor_initialize lab_world lab_core = Some (0, s)" "core_inv {#} s" using lab_initialized by blast
  obtain t where t: "cor_ics_enable lab_world [0x6C, 0x61, 0x6E] s = Some (True, t)" "pNCPrivate t = 11" "pNCPublic t = 12"
    using lab_shares s(1) by auto
  with ics_enable_shares[OF s(2) lab_world_ok, of "[0x6C, 0x61, 0x6E]"] s(2) show ?thesis by auto
qed

theorem ssid_roundtrip_witness:
  "\<exists>(s :: nat wohn) t. cor_wlan_set_ssid lab_world [0x61, 0x62] s = Some (True, t) \<and>
     cor_wlan_get_ssid lab_world (replicate 33 0) t = Some (3, [0x61, 0x62, 0] @ replicate 30 0)"
proof -
  obtain s :: "nat wohn" where s: "core_inv {#} s" using lab_initialized by blast
  then obtain p x where x: "pHNConnSettings s = Some (p, x)" by (metis core_inv_settings)
  have o: "wstr [0x61, 0x62] = [0x61, 0x62]" "fst (to_octets lab_world [0x61, 0x62]) = [0x61, 0x62]" "to_wide lab_world [0x61, 0x62] = [0x61, 0x62]"
    "SetProperty lab_world (calls s)"
    by (simp_all add: wstr_def lab_world_def)
  obtain t where t: "cor_wlan_set_ssid lab_world [0x61, 0x62] s = Some (True, t)"
    using set_ssid_eq[OF _ x, of lab_world "[0x61, 0x62]" "[0x61, 0x62]"] s o by (simp add: core_inv_def)
  then show ?thesis using ssid_roundtrip[OF s lab_world_ok t, of "replicate 33 0"] o by auto
qed

section \<open>What goes wrong\<close>

text \<open>
  An initialisation that fails is not undone: \<^verbatim>\<open>cor_ics_deinitialize\<close> and \<^verbatim>\<open>cor_wlan_deinitialize\<close> return at once as
  long as \<^verbatim>\<open>gInitialized\<close> is not set, so the references, blocks and handles taken so far stay, also after \<^verbatim>\<open>cor_deinitialize\<close>.
\<close>

lemma failed_initialize_keeps: "cor_initialize w s = Some (r, t) \<Longrightarrow> fresh s \<Longrightarrow> windows_ok w \<Longrightarrow> r \<noteq> 0 \<Longrightarrow> cor_deinitialize t = Some t"
  using initialize_ok[of s w] by (cases t) (auto simp: cor_deinitialize_def cor_ics_deinitialize_def cor_wlan_deinitialize_def)

definition poor_world :: world where
  "poor_world = lab_world\<lparr>RegisterNotification := \<lambda>_. False\<rparr>"

lemma poor_world_leaks:
  "map_option (\<lambda>(r, t). (r, com_refs t, wlan_handles t, size (wlan_blocks t))) (cor_initialize poor_world lab_core) = Some (4, {#1#}, {#51#}, 4)"
  by code_simp

theorem failed_initialize_leaks:
  "\<exists>t. cor_initialize poor_world lab_core = Some (4, t) \<and> cor_deinitialize t = Some t \<and>
     com_refs t = {#1#} \<and> wlan_handles t = {#51#} \<and> size (wlan_blocks t) = 4"
proof -
  have "windows_ok poor_world" using lab_world_ok by (simp add: windows_ok_def objects_given_def poor_world_def)
  then show ?thesis using poor_world_leaks failed_initialize_keeps[of poor_world lab_core] lab_fresh by auto
qed

text \<open>Every question for the state takes a block that replaces, without freeing it, the one of the answer before.\<close>

theorem get_state_leaks:
  assumes "gInitialized s" "QueryStatus w (calls s) = Some (Some (p, st))" "p \<noteq> 0"
  shows "\<exists>t. cor_wlan_get_state w s = Some (HostedNetworkState st, t) \<and> wlan_blocks t = add_mset p (wlan_blocks s) \<and> pHNStatus t = Some (p, st)"
  using assms by (simp add: cor_wlan_get_state_def called_def allocated_def)

text \<open>A key whose conversion fills the 64 bytes of the buffer is terminated behind it.\<close>

theorem set_key_overruns:
  assumes "gInitialized s" "8 \<le> length (wstr k)" "length (wstr k) \<le> 63" "to_octets w (wstr k) = (bs, False)" "length bs = 64"
  shows "cor_wlan_set_key w k s = None"
  using assms by (simp add: cor_wlan_set_key_def converted_def)

text \<open>A pass phrase of 63 characters is not read back: with its terminator it counts 64.\<close>

theorem longest_key_unreadable:
  assumes "gInitialized s" "QuerySecondaryKey w (calls s) = Some (p, key, True)" "to_wide_strict w key = Some t" "length t = 64" "key \<noteq> []"
  shows "\<exists>u. cor_wlan_get_key w g buf s = Some (- 1, buf, u)"
  using assms by (simp add: cor_wlan_get_key_def converted_def WLFREE_S_def allocated_def Let_def)

text \<open>A name of 32 characters is read as the empty text, and one of 32 bytes cannot be set.\<close>

theorem longest_ssid_lost:
  assumes "gInitialized s" "pHNConnSettings s = Some (p, x)" "uSSIDLength x = 32" "length (to_wide w (take 32 (ucSSID x))) = 32" "buf \<noteq> []"
  shows "cor_wlan_get_ssid w buf s = Some (32, 0 # tl buf)"
  using assms by (cases buf) (simp_all add: cor_wlan_get_ssid_def converted_def lstrcpy_def wstr_def)

text \<open>A second private connection replaces the first, whose reference is lost.\<close>

definition twice_world :: world where
  "twice_world = lab_world\<lparr>get_SharingEnabled := \<lambda>_ _. True, get_SharingConnectionType := \<lambda>_ _. ICSSHARINGTYPE_PRIVATE\<rparr>"

theorem second_private_loses:
  "(case cor_initialize twice_world lab_core of
      None \<Rightarrow> None
    | Some (_, s) \<Rightarrow> map_option (\<lambda>t. (pNCPrivate s, com_refs t)) (cor_deinitialize s)) = Some (12, {#11#})"
  by code_simp

end
