(* ===== verification/Wohn_UI.thy ===== *)
theory Wohn_UI
  imports Wohn_Life
begin

text \<open>
  The dialog of \<^verbatim>\<open>wohn\<close> (\<^verbatim>\<open>cpp/wohn/WohnUI.cpp\<close>, \<^verbatim>\<open>WohnText.h\<close>) on top of the core: its controls, the callbacks for
  notifications, the handlers and the dialog procedure.
\<close>

section \<open>Definitions\<close>

text \<open>\<^verbatim>\<open>WohnText.h\<close>\<close>

definition SLOG_UNKNOWN :: string where "SLOG_UNKNOWN = ''Unknown error!''"
definition SLOG_ICSENABED :: string where "SLOG_ICSENABED = ''ICS has already been enabled.''"
definition SLOG_HNSTARTED :: string where "SLOG_HNSTARTED = ''Wireless hosted network has already started''"
definition SLOG_INITSUCC :: string where "SLOG_INITSUCC = ''Initialize successfully''"
definition SLOG_ENABLICS :: string where "SLOG_ENABLICS = ''Enable ICS successfully''"
definition SLOG_ENABLICSF :: string where "SLOG_ENABLICSF = ''Failed to enable ICS''"
definition SLOG_DISABLICS :: string where "SLOG_DISABLICS = ''ICS is disabled''"
definition SLOG_STARTWLAN :: string where "SLOG_STARTWLAN = ''Started using hosted Network.''"
definition SLOG_STOPWLAN :: string where "SLOG_STOPWLAN = ''Stopped using hosted network.''"
definition SLOG_WLANUNAVL :: string where "SLOG_WLANUNAVL = ''Hosted network is not available on current NIC(s).''"
definition SLOG_WLANACTED :: string where "SLOG_WLANACTED = ''Hosted network is available on current NIC(s).''"
definition SABOUT_TITLE :: string where "SABOUT_TITLE = ''Wohn - vizee''"
definition SMB_INITFAIL :: string where "SMB_INITFAIL = ''Initialize failed''"
definition SMB_REQADMIN :: string where "SMB_REQADMIN = ''Missing administrator privilege''"
definition SMB_SSID_LEN :: string where "SMB_SSID_LEN = ''SSID contains 1 ~ 32 case-sensitive characters.''"
definition SMB_PWD_LEN :: string where "SMB_PWD_LEN = ''Password contains 8 ~ 63 case-sensitive characters.''"
definition SMB_CMB_INV :: string where "SMB_CMB_INV = ''Choose a connection which connects network''"
definition SMB_SSID_NOUPD :: string where "SMB_SSID_NOUPD = ''SSID cannot be updates''"
definition SMB_PWD_NOUPD :: string where "SMB_PWD_NOUPD = ''Password cannot be updates''"
definition SMB_HN_STARTF :: string where "SMB_HN_STARTF = ''Failed to start wlan''"
definition SMB_DEFAULT :: string where "SMB_DEFAULT = ''Wohn''"
definition SMB_ERROR :: string where "SMB_ERROR = ''Error''"
definition SMB_WARNING :: string where "SMB_WARNING = ''Warning''"
definition SMB_INFORMATION :: string where "SMB_INFORMATION = ''Information''"
definition SCB_FIRST :: string where "SCB_FIRST = ''Choose a connection''"
definition SBTN_START :: string where "SBTN_START = ''Start''"
definition SBTN_STOP :: string where "SBTN_STOP = ''Stop''"
definition SBTN_ENABLE :: string where "SBTN_ENABLE = ''Enable''"
definition SBTN_DISABLE :: string where "SBTN_DISABLE = ''Disable''"

definition SABOUT_TEXT :: string where
  "SABOUT_TEXT = ''WiFi on Hosted Network(build:1211)'' @ [CHR 0x0A, CHR 0x0A] @ ''OS Request() {'' @ [CHR 0x0A, CHR 0x09] @
     ''Version'' @ [CHR 0x09, CHR 0x09] @ ''= Windows 7 or later;'' @ [CHR 0x0A, CHR 0x09] @ ''WirelessNIC'' @ CHR 0x09 # ''= exist;'' @
     [CHR 0x0A, CHR 0x09] @ ''ICS'' @ [CHR 0x09, CHR 0x09] @ ''= enable;'' @ [CHR 0x0A, CHR 0x09] @ ''HostedNetwork'' @ CHR 0x09 # ''= enable;'' @
     [CHR 0x0A, CHR 0x09] @ ''return;'' @ CHR 0x0A # ''}''"

definition SMB_HN_UNAVL :: string where
  "SMB_HN_UNAVL = ''Wireless hosted network has been unavailabled'' @ CHR 0x0A # ''Run '' @ CHR 0x22 # ''netsh'' @ CHR 0x22 #
     '' to enable it if needed, Command:'' @ [CHR 0x0A, CHR 0x09, CHR 0x22] @ ''netsh wlan set hostednetwork mode=allow'' @ [CHR 0x22]"

text \<open>\<^verbatim>\<open>resource.h\<close>\<close>

definition IDC_BTN_HN :: "16 word" where "IDC_BTN_HN = 1013"
definition IDC_BTN_ICS :: "16 word" where "IDC_BTN_ICS = 1015"
definition IDC_LST_LOG :: "16 word" where "IDC_LST_LOG = 1016"
definition IDC_BTN_CLR :: "16 word" where "IDC_BTN_CLR = 1019"

definition MAX_KEY_LEN :: nat where "MAX_KEY_LEN = 63"
definition MIN_KEY_LEN :: nat where "MIN_KEY_LEN = 8"
definition MAX_SSID_LEN :: nat where "MAX_SSID_LEN = 32"
definition IDM_ABOUT :: "16 word" where "IDM_ABOUT = 100"

datatype msg_type = MT_ERROR | MT_WARNING | MT_INFORMATION | MT_other

text \<open>The callbacks the dialog registers, by their functions.\<close>

datatype hn_callback = Ui_on_hn_unavailable | Ui_on_hn_active | Ui_on_hn_started | Ui_on_hn_stoped | Ui_on_hn_join

datatype control = Edit_ssid | Edit_passwd

text \<open>
  The dialog: its globals, which controls are enabled, their texts and contents, the selections, the message boxes that
  were shown (text, title, icon), the control with the focus, and whether the dialog was ended.
\<close>

record wohn_ui = "hn_callback wohn" +
  gHNStarted :: bool
  gNCShared :: bool
  sWlanSSID :: "wchar list"
  sWlanPasswd :: "wchar list"
  ssid_enabled :: bool
  passwd_enabled :: bool
  hn_enabled :: bool
  conn_enabled :: bool
  hn_text :: string
  ics_text :: string
  ssid_text :: "wchar list"
  passwd_text :: "wchar list"
  log :: "string list"
  log_sel :: int
  combo :: "wchar list list"
  combo_sel :: int
  boxes :: "(string \<times> string \<times> nat) list"
  focus :: "control option"
  about_item :: bool
  ended :: bool

text \<open>What the dialog asks of Windows besides: the time, where the sorted log puts a line, the system menu, and what the stack holds before \<^verbatim>\<open>cor_wlan_get_key\<close>.\<close>

record ui_world = world +
  GetLocalTime :: "call list \<Rightarrow> nat \<times> nat \<times> nat \<times> nat \<times> nat \<times> nat"
  LB_ADDSTRING :: "string list \<Rightarrow> string \<Rightarrow> nat"
  GetSystemMenu :: bool
  stack_cells :: "wchar list"

abbreviation core_world :: "ui_world \<Rightarrow> world" where "core_world w \<equiv> world.truncate w"

fun clear_loop :: "nat \<Rightarrow> 'x list \<Rightarrow> 'x list" where
  "clear_loop 0 xs = xs"
| "clear_loop (Suc n) xs = clear_loop n (take n xs @ drop (Suc n) xs)"

definition ui_log_clear :: "wohn_ui \<Rightarrow> wohn_ui" where
  "ui_log_clear s = s\<lparr>log := clear_loop (length (log s)) (log s)\<rparr>"

text \<open>\<^verbatim>\<open>%0kd\<close> and \<^verbatim>\<open>%02X\<close> in the formats, and \<^verbatim>\<open>SLOG_FORMAT\<close>\<close>

fun decimal :: "nat \<Rightarrow> string" where
  "decimal n = (if n < 10 then [char_of (48 + n)] else decimal (n div 10) @ [char_of (48 + n mod 10)])"

definition padded :: "nat \<Rightarrow> nat \<Rightarrow> string" where
  "padded k n = (let d = decimal n in replicate (k - length d) (CHR ''0'') @ d)"

definition hex_digit :: "nat \<Rightarrow> char" where
  "hex_digit n = char_of (if n < 10 then 48 + n else 55 + n)"

definition hex2 :: "octet \<Rightarrow> string" where
  "hex2 b = [hex_digit (unat b div 16), hex_digit (unat b mod 16)]"

definition log_format :: "nat \<times> nat \<times> nat \<times> nat \<times> nat \<times> nat \<Rightarrow> string \<Rightarrow> string" where
  "log_format t sLog =
     (case t of (y, mo, d, h, mi, sec) \<Rightarrow>
        ''['' @ padded 4 y @ ''/'' @ padded 2 mo @ ''/'' @ padded 2 d @ '' '' @ padded 2 h @ '':'' @ padded 2 mi @ '':'' @ padded 2 sec @ '']'' @ sLog)"

definition ui_log_add :: "ui_world \<Rightarrow> string \<Rightarrow> wohn_ui \<Rightarrow> wohn_ui" where
  "ui_log_add w sLog s =
     (if length sLog > 160 then s
      else
        let sText = take 254 (log_format (GetLocalTime w (calls s)) sLog);
            i = LB_ADDSTRING w (log s) sText
        in s\<lparr>log := take i (log s) @ sText # drop i (log s)\<rparr>)"

definition ui_msgbox :: "string \<Rightarrow> msg_type \<Rightarrow> wohn_ui \<Rightarrow> wohn_ui" where
  "ui_msgbox sText dwType s =
     (let (uIcon, sTitle) = (case dwType of
            MT_ERROR \<Rightarrow> (0x10, SMB_ERROR)
          | MT_WARNING \<Rightarrow> (0x30, SMB_WARNING)
          | MT_INFORMATION \<Rightarrow> (0x40, SMB_INFORMATION)
          | MT_other \<Rightarrow> (0, SMB_DEFAULT))
      in s\<lparr>boxes := boxes s @ [(sText, sTitle, uIcon)]\<rparr>)"

definition ui_enum_conn :: "netcon_properties \<Rightarrow> wchar list list \<Rightarrow> int \<times> wchar list list" where
  \<comment> \<open>on the strings of the combo box\<close>
  "ui_enum_conn np c = (0, c @ [wstr (pszwName np)])"

definition ui_on_hn_unavailable :: "ui_world \<Rightarrow> wohn_ui \<Rightarrow> wohn_ui" where
  "ui_on_hn_unavailable w s =
     (ui_log_add w SLOG_WLANUNAVL (s\<lparr>ssid_enabled := False, passwd_enabled := False, hn_enabled := False\<rparr>))\<lparr>gHNStarted := False\<rparr>"

definition ui_on_hn_active :: "ui_world \<Rightarrow> wohn_ui \<Rightarrow> wohn_ui" where
  "ui_on_hn_active w s =
     (ui_log_add w SLOG_WLANACTED (s\<lparr>ssid_enabled := True, passwd_enabled := True, hn_enabled := True\<rparr>))\<lparr>gHNStarted := False\<rparr>"

definition ui_on_hn_started :: "ui_world \<Rightarrow> wohn_ui \<Rightarrow> wohn_ui" where
  "ui_on_hn_started w s =
     (ui_log_add w SLOG_WLANACTED (s\<lparr>ssid_enabled := False, passwd_enabled := False, hn_text := SBTN_STOP\<rparr>))\<lparr>gHNStarted := True\<rparr>"

definition ui_on_hn_stoped :: "wohn_ui \<Rightarrow> wohn_ui" where
  "ui_on_hn_stoped s = s\<lparr>ssid_enabled := True, passwd_enabled := True, hn_text := SBTN_START, gHNStarted := False\<rparr>"

definition ui_on_hn_join :: "ui_world \<Rightarrow> octet list \<Rightarrow> wohn_ui \<Rightarrow> wohn_ui option" where
  "ui_on_hn_join w m s =
     (if length m < 6 then None
      else
        let szJoinLog = ''New device join:'' @ CHR 0x22 # hex2 (m ! 0) @ '':'' @ hex2 (m ! 1) @ '':'' @ hex2 (m ! 2) @ '':'' @
              hex2 (m ! 3) @ '':'' @ hex2 (m ! 4) @ '':'' @ hex2 (m ! 5) @ [CHR 0x22]
        in Some (ui_log_add w (take 198 szJoinLog) s))"

text \<open>A callback that the core calls. \<^verbatim>\<open>ui_on_hn_join\<close> reads an address through its argument.\<close>

definition run_callback :: "ui_world \<Rightarrow> hn_callback \<times> cb_arg \<Rightarrow> wohn_ui \<Rightarrow> wohn_ui option" where
  "run_callback w c s =
     (case fst c of
        Ui_on_hn_unavailable \<Rightarrow> Some (ui_on_hn_unavailable w s)
      | Ui_on_hn_active \<Rightarrow> Some (ui_on_hn_active w s)
      | Ui_on_hn_started \<Rightarrow> Some (ui_on_hn_started w s)
      | Ui_on_hn_stoped \<Rightarrow> Some (ui_on_hn_stoped s)
      | Ui_on_hn_join \<Rightarrow> (case snd c of Mac m \<Rightarrow> ui_on_hn_join w m s | _ \<Rightarrow> None))"

fun run_callbacks :: "ui_world \<Rightarrow> (hn_callback \<times> cb_arg) list \<Rightarrow> wohn_ui \<Rightarrow> wohn_ui option" where
  "run_callbacks w [] s = Some s"
| "run_callbacks w (c # cs) s = do { s \<leftarrow> run_callback w c s; run_callbacks w cs s }"

definition deliver :: "ui_world \<Rightarrow> notify_data \<Rightarrow> wohn_ui \<Rightarrow> wohn_ui option" where
  \<comment> \<open>the WLAN service calls \<^verbatim>\<open>cor_wlan_notification\<close>, which runs through undisturbed\<close>
  "deliver w d s = do { cs \<leftarrow> cor_wlan_notification (Some d) s; run_callbacks w cs s }"

subsection \<open>Handlers\<close>

definition ui_on_lst_log_dblclick :: "wohn_ui \<Rightarrow> wohn_ui option" where
  \<comment> \<open>an index without a line gives \<^verbatim>\<open>LB_ERR\<close>, a large \<^verbatim>\<open>DWORD\<close>\<close>
  "ui_on_lst_log_dblclick s =
     (if log_sel s \<ge> 0 \<and> nat (log_sel s) < length (log s) then
        let sText = log s ! nat (log_sel s) in
        if length sText \<ge> 256 then None
        else if length sText > 0 \<and> length sText \<le> 255 then Some (ui_msgbox sText MT_INFORMATION s)
        else Some s
      else Some s)"

definition update_ssid :: "ui_world \<Rightarrow> wohn_ui \<Rightarrow> (bool \<times> wohn_ui) option" where
  \<comment> \<open>the first part of \<^verbatim>\<open>ui_on_btn_hn_click\<close>; the result says whether the handler goes on\<close>
  "update_ssid w s =
     (let sSSID = ssid_text s in
      if length sSSID = 0 \<or> length sSSID > MAX_SSID_LEN then Some (False, (ui_msgbox SMB_SSID_LEN MT_ERROR s)\<lparr>focus := Some Edit_ssid\<rparr>)
      else if wstr sSSID \<noteq> wstr (sWlanSSID s) then do {
        (ok, s) \<leftarrow> cor_wlan_set_ssid (core_world w) sSSID s;
        if ok then do { t \<leftarrow> lstrcpy (sWlanSSID s) (sSSID @ [0]); Some (True, s\<lparr>sWlanSSID := t\<rparr>) }
        else Some (False, (ui_msgbox SMB_SSID_NOUPD MT_ERROR s)\<lparr>focus := Some Edit_ssid\<rparr>)
      }
      else Some (True, s))"

definition update_passwd :: "ui_world \<Rightarrow> wohn_ui \<Rightarrow> (bool \<times> wohn_ui) option" where
  \<comment> \<open>the second part\<close>
  "update_passwd w s =
     (let sPasswd = passwd_text s in
      if length sPasswd < MIN_KEY_LEN \<or> length sPasswd > MAX_KEY_LEN then Some (False, (ui_msgbox SMB_PWD_LEN MT_ERROR s)\<lparr>focus := Some Edit_passwd\<rparr>)
      else if wstr sPasswd \<noteq> wstr (sWlanPasswd s) then do {
        (ok, s) \<leftarrow> cor_wlan_set_ssid (core_world w) sPasswd s;
        if ok then do { t \<leftarrow> lstrcpy (sWlanPasswd s) (sPasswd @ [0]); Some (True, s\<lparr>sWlanPasswd := t\<rparr>) }
        else Some (False, (ui_msgbox SMB_PWD_NOUPD MT_ERROR s)\<lparr>focus := Some Edit_passwd\<rparr>)
      }
      else Some (True, s))"

definition ui_on_btn_hn_click :: "ui_world \<Rightarrow> wohn_ui \<Rightarrow> wohn_ui option" where
  "ui_on_btn_hn_click w s =
     (if \<not> gHNStarted s then do {
        (ok, s) \<leftarrow> update_ssid w s;
        if \<not> ok then Some s
        else do {
          (ok, s) \<leftarrow> update_passwd w s;
          if \<not> ok then Some s
          else do {
            (ok, s) \<leftarrow> cor_wlan_start (core_world w) s;
            if ok then
              Some ((ui_log_add w SLOG_STARTWLAN (s\<lparr>ssid_enabled := False, passwd_enabled := False, hn_text := SBTN_STOP\<rparr>))\<lparr>gHNStarted := True\<rparr>)
            else Some (ui_msgbox SMB_HN_STARTF MT_ERROR s)
          }
        }
      }
      else do {
        (ok, s) \<leftarrow> cor_wlan_stop (core_world w) True s;
        if ok then
          Some ((ui_log_add w SLOG_STOPWLAN (s\<lparr>ssid_enabled := True, passwd_enabled := True, hn_text := SBTN_START\<rparr>))\<lparr>gHNStarted := False\<rparr>)
        else Some s
      })"

definition ui_on_btn_ics_click :: "ui_world \<Rightarrow> wohn_ui \<Rightarrow> wohn_ui option" where
  \<comment> \<open>\<^verbatim>\<open>CB_GETLBTEXT\<close> gives \<^verbatim>\<open>CB_ERR\<close> for an index without a string, and copies before the length is tested\<close>
  "ui_on_btn_ics_click w s =
     (if \<not> gNCShared s then
        if combo_sel s = 0 then Some (ui_msgbox SMB_CMB_INV MT_ERROR s)
        else if combo_sel s < 0 \<or> nat (combo_sel s) \<ge> length (combo s) then Some (ui_log_add w SLOG_UNKNOWN s)
        else
          let sPublicName = combo s ! nat (combo_sel s) in
          if length sPublicName > 255 then None
          else if length sPublicName = 0 then Some (ui_log_add w SLOG_UNKNOWN s)
          else do {
            (_, s) \<leftarrow> cor_ics_enable (core_world w) sPublicName s;
            if cor_ics_is_enabled s then
              Some ((ui_log_add w SLOG_ENABLICS (s\<lparr>conn_enabled := False, ics_text := SBTN_DISABLE\<rparr>))\<lparr>gNCShared := True\<rparr>)
            else Some (ui_log_add w SLOG_ENABLICSF s)
          }
      else do {
        s \<leftarrow> cor_ics_disable (core_world w) s;
        if \<not> cor_ics_is_enabled s then
          Some ((ui_log_add w SLOG_DISABLICS (s\<lparr>conn_enabled := True, ics_text := SBTN_ENABLE\<rparr>))\<lparr>gNCShared := False\<rparr>)
        else Some s
      })"

definition ui_on_btn_clr_click :: "wohn_ui \<Rightarrow> wohn_ui" where
  "ui_on_btn_clr_click s = ui_log_clear s"

text \<open>\<^verbatim>\<open>ui_on_initdialog\<close> in its parts: the settings, the list of connections, the state of the network, the callbacks\<close>

definition show_settings :: "ui_world \<Rightarrow> wohn_ui \<Rightarrow> wohn_ui option" where
  "show_settings w s =
     do {
       (_, t) \<leftarrow> cor_wlan_get_ssid (core_world w) (sWlanSSID s) s;
       let s = s\<lparr>sWlanSSID := t, ssid_text := wstr t\<rparr>;
       (_, t, s) \<leftarrow> cor_wlan_get_key (core_world w) (stack_cells w) (sWlanPasswd s) s;
       Some (s\<lparr>sWlanPasswd := t, passwd_text := wstr t\<rparr>)
     }"

definition ascii :: "string \<Rightarrow> wchar list" where
  "ascii t = map of_char t"

definition show_connections :: "ui_world \<Rightarrow> wohn_ui \<Rightarrow> wohn_ui option" where
  "show_connections w s =
     do {
       let s = s\<lparr>combo := clear_loop (length (combo s)) (combo s)\<rparr>;
       let s = s\<lparr>combo := combo s @ [ascii SCB_FIRST], combo_sel := 0\<rparr>;
       (_, c, s) \<leftarrow> cor_ics_enum (core_world w) ui_enum_conn (combo s) s;
       let s = s\<lparr>combo := c, gNCShared := cor_ics_is_enabled s\<rparr>;
       Some (if gNCShared s then ui_log_add w SLOG_ICSENABED (s\<lparr>conn_enabled := False, ics_text := SBTN_DISABLE\<rparr>) else s)
     }"

definition show_state :: "ui_world \<Rightarrow> wohn_ui \<Rightarrow> wohn_ui option" where
  "show_state w s =
     do {
       (st, s) \<leftarrow> cor_wlan_get_state (core_world w) s;
       Some (case st of
           hn_active \<Rightarrow> ui_log_add w SLOG_HNSTARTED (ui_on_hn_started w s)
         | hn_unavailable \<Rightarrow> ui_msgbox SMB_HN_UNAVL MT_INFORMATION (ui_on_hn_unavailable w s)
         | hn_idle \<Rightarrow> ui_on_hn_stoped s)
     }"

definition register_callbacks :: "wohn_ui \<Rightarrow> wohn_ui" where
  "register_callbacks s =
     (let s = snd (cor_register_notify notify_available (Some Ui_on_hn_active) s);
          s = snd (cor_register_notify notify_unavailable (Some Ui_on_hn_unavailable) s);
          s = snd (cor_register_notify notify_started (Some Ui_on_hn_started) s);
          s = snd (cor_register_notify notify_stoped (Some Ui_on_hn_stoped) s)
      in snd (cor_register_notify notify_join (Some Ui_on_hn_join) s))"

definition ui_on_initdialog :: "ui_world \<Rightarrow> wohn_ui \<Rightarrow> (bool \<times> wohn_ui) option" where
  "ui_on_initdialog w s =
     do {
       (r, s) \<leftarrow> cor_initialize (core_world w) (s\<lparr>gHNStarted := False, gNCShared := False\<rparr>);
       if r \<noteq> 0 then
         Some (False, if r \<in> {1, 2, 3, 4} then ui_msgbox SMB_REQADMIN MT_ERROR s else ui_msgbox SMB_INITFAIL MT_ERROR s)
       else do {
         let s = (if GetSystemMenu w then s\<lparr>about_item := True\<rparr> else s);
         s \<leftarrow> show_settings w s;
         s \<leftarrow> show_connections w s;
         s \<leftarrow> show_state w s;
         Some (True, ui_log_add w SLOG_INITSUCC (register_callbacks s))
       }
     }"

definition ui_on_close :: "wohn_ui \<Rightarrow> wohn_ui option" where
  "ui_on_close s = cor_deinitialize s"

datatype dialog_message =
    WM_COMMAND "16 word" "16 word" \<comment> \<open>\<^verbatim>\<open>LOWORD\<close> and \<^verbatim>\<open>HIWORD\<close> of \<^verbatim>\<open>wParam\<close>\<close>
  | WM_INITDIALOG
  | WM_CLOSE
  | WM_SYSCOMMAND "16 word"
  | WM_other

definition close_dialog :: "wohn_ui \<Rightarrow> wohn_ui option" where
  "close_dialog s = do { s \<leftarrow> ui_on_close s; Some (s\<lparr>ended := True\<rparr>) }"

definition ui_dialogproc :: "ui_world \<Rightarrow> dialog_message \<Rightarrow> wohn_ui \<Rightarrow> (bool \<times> wohn_ui) option" where
  "ui_dialogproc w uMsg s =
     (case uMsg of
        WM_COMMAND ctl hi \<Rightarrow>
          if ctl = IDC_BTN_HN then map_option (Pair True) (ui_on_btn_hn_click w s)
          else if ctl = IDC_BTN_ICS then map_option (Pair True) (ui_on_btn_ics_click w s)
          else if ctl = IDC_LST_LOG then
            if hi \<noteq> 2 then Some (False, s) else map_option (Pair True) (ui_on_lst_log_dblclick s)
          else if ctl = IDC_BTN_CLR then Some (True, ui_on_btn_clr_click s)
          else Some (False, s)
      | WM_INITDIALOG \<Rightarrow> do {
          (ok, s) \<leftarrow> ui_on_initdialog w s;
          if ok then Some (True, s) else map_option (Pair True) (close_dialog s)
        }
      | WM_CLOSE \<Rightarrow> map_option (Pair True) (close_dialog s)
      | WM_SYSCOMMAND item \<Rightarrow>
          if item = IDM_ABOUT then Some (True, s\<lparr>boxes := boxes s @ [(SABOUT_TEXT, SABOUT_TITLE, 0x40)]\<rparr>) else Some (False, s)
      | WM_other \<Rightarrow> Some (False, s))"

text \<open>
  What the user and the system do to the dialog: messages, and what the user types (edit controls take at most the number
  of characters they are limited to) and selects.
\<close>

datatype ui_event =
    Message dialog_message
  | Type_ssid "wchar list"
  | Type_passwd "wchar list"
  | Select_connection int
  | Select_log int

definition ui_event_step :: "ui_world \<Rightarrow> ui_event \<Rightarrow> wohn_ui \<Rightarrow> wohn_ui option" where
  "ui_event_step w e s =
     (case e of
        Message m \<Rightarrow> map_option snd (ui_dialogproc w m s)
      | Type_ssid t \<Rightarrow> Some (s\<lparr>ssid_text := take MAX_SSID_LEN (wstr t)\<rparr>)
      | Type_passwd t \<Rightarrow> Some (s\<lparr>passwd_text := take MAX_KEY_LEN (wstr t)\<rparr>)
      | Select_connection i \<Rightarrow> Some (s\<lparr>combo_sel := i\<rparr>)
      | Select_log i \<Rightarrow> Some (s\<lparr>log_sel := i\<rparr>))"

section \<open>The core under the dialog\<close>

lemma core_inv_cong: "wohn.truncate s = wohn.truncate t \<Longrightarrow> core_inv E s \<longleftrightarrow> core_inv E t"
  by (simp add: wohn.truncate_def core_inv_def wlan_ready_def settings_blocks_def registered_def holds_def owned_def)

text \<open>The controls are not part of the core.\<close>

lemma core_inv_controls [simp]:
  "core_inv E (s\<lparr>gHNStarted := x1\<rparr>) = core_inv E s" "core_inv E (s\<lparr>gNCShared := x1\<rparr>) = core_inv E s"
  "core_inv E (s\<lparr>sWlanSSID := x2\<rparr>) = core_inv E s" "core_inv E (s\<lparr>sWlanPasswd := x2\<rparr>) = core_inv E s"
  "core_inv E (s\<lparr>ssid_enabled := x1\<rparr>) = core_inv E s" "core_inv E (s\<lparr>passwd_enabled := x1\<rparr>) = core_inv E s"
  "core_inv E (s\<lparr>hn_enabled := x1\<rparr>) = core_inv E s" "core_inv E (s\<lparr>conn_enabled := x1\<rparr>) = core_inv E s"
  "core_inv E (s\<lparr>hn_text := x3\<rparr>) = core_inv E s" "core_inv E (s\<lparr>ics_text := x3\<rparr>) = core_inv E s"
  "core_inv E (s\<lparr>ssid_text := x2\<rparr>) = core_inv E s" "core_inv E (s\<lparr>passwd_text := x2\<rparr>) = core_inv E s"
  "core_inv E (s\<lparr>log := x4\<rparr>) = core_inv E s" "core_inv E (s\<lparr>log_sel := x5\<rparr>) = core_inv E s"
  "core_inv E (s\<lparr>combo := x6\<rparr>) = core_inv E s" "core_inv E (s\<lparr>combo_sel := x5\<rparr>) = core_inv E s"
  "core_inv E (s\<lparr>boxes := x7\<rparr>) = core_inv E s" "core_inv E (s\<lparr>focus := x8\<rparr>) = core_inv E s"
  "core_inv E (s\<lparr>about_item := x1\<rparr>) = core_inv E s" "core_inv E (s\<lparr>ended := x1\<rparr>) = core_inv E s"
  by (auto intro!: core_inv_cong simp: wohn.truncate_def)

lemma clear_loop_all: "clear_loop (length xs) xs = []"
proof (induction "length xs" arbitrary: xs)
  case (Suc n)
  then have "take n xs @ drop (Suc n) xs = take n xs" "length (take n xs) = n" by simp_all
  with Suc(1)[of "take n xs"] Suc(2) show ?case by (metis clear_loop.simps(2))
qed simp

text \<open>
  The invariant of the dialog: the core's, the buffers with their sizes, texts that fit the buffers of the handlers, and
  each callback where it belongs.
\<close>

definition ui_inv :: "pointer multiset \<Rightarrow> wohn_ui \<Rightarrow> bool" where
  "ui_inv E s \<longleftrightarrow> core_inv E s \<and> \<not> ended s \<and> length (sWlanSSID s) = 33 \<and> length (sWlanPasswd s) = 64 \<and>
     (\<forall>x\<in>set (combo s). length x \<le> 255) \<and> (\<forall>l\<in>set (log s). length l \<le> 255) \<and>
     (\<forall>t f. gNotifyCallBack s t = Some f \<longrightarrow> (f = Ui_on_hn_join \<longleftrightarrow> t = notify_join))"

lemma ui_more:
  assumes "wohn.more t = wohn.more (s :: wohn_ui)"
  shows "log t = log s" "combo t = combo s" "sWlanSSID t = sWlanSSID s" "sWlanPasswd t = sWlanPasswd s" "ended t = ended s"
    "ssid_enabled t = ssid_enabled s" "passwd_enabled t = passwd_enabled s" "hn_enabled t = hn_enabled s" "hn_text t = hn_text s"
  using assms by (cases s; cases t; simp)+

lemma ui_inv_core:
  assumes "ui_inv E s" "core_inv E t" "keeps s t"
  shows "ui_inv E t"
  using assms ui_more[of t s] by (simp add: ui_inv_def keeps_def)

lemma ui_inv_controls [simp]:
  "ui_inv E (s\<lparr>gHNStarted := x1\<rparr>) = ui_inv E s" "ui_inv E (s\<lparr>gNCShared := x1\<rparr>) = ui_inv E s"
  "ui_inv E (s\<lparr>ssid_enabled := x1\<rparr>) = ui_inv E s" "ui_inv E (s\<lparr>passwd_enabled := x1\<rparr>) = ui_inv E s"
  "ui_inv E (s\<lparr>hn_enabled := x1\<rparr>) = ui_inv E s" "ui_inv E (s\<lparr>conn_enabled := x1\<rparr>) = ui_inv E s"
  "ui_inv E (s\<lparr>hn_text := x3\<rparr>) = ui_inv E s" "ui_inv E (s\<lparr>ics_text := x3\<rparr>) = ui_inv E s"
  "ui_inv E (s\<lparr>ssid_text := x2\<rparr>) = ui_inv E s" "ui_inv E (s\<lparr>passwd_text := x2\<rparr>) = ui_inv E s"
  "ui_inv E (s\<lparr>log_sel := x5\<rparr>) = ui_inv E s" "ui_inv E (s\<lparr>combo_sel := x5\<rparr>) = ui_inv E s"
  "ui_inv E (s\<lparr>boxes := x7\<rparr>) = ui_inv E s" "ui_inv E (s\<lparr>focus := x8\<rparr>) = ui_inv E s"
  "ui_inv E (s\<lparr>about_item := x1\<rparr>) = ui_inv E s"
  by (simp_all add: ui_inv_def)

lemma ui_inv_log [simp]: "ui_inv E s \<Longrightarrow> ui_inv E (ui_log_add w t s)"
  by (auto simp: ui_inv_def ui_log_add_def Let_def dest: in_set_takeD in_set_dropD)

lemma ui_inv_box [simp]: "ui_inv E (ui_msgbox t ty s) = ui_inv E s"
  by (cases ty) (simp_all add: ui_msgbox_def)

lemma ui_inv_clear [simp]: "ui_inv E s \<Longrightarrow> ui_inv E (ui_log_clear s)"
  by (simp add: ui_log_clear_def clear_loop_all ui_inv_def)

text \<open>The world of the dialog: the core's, and names of connections that fit their buffer.\<close>

definition ui_windows_ok :: "ui_world \<Rightarrow> bool" where
  "ui_windows_ok w \<longleftrightarrow> windows_ok (core_world w) \<and>
     (\<forall>h p np. GetProperties (core_world w) h p = Some np \<longrightarrow> length (wstr (pszwName np)) \<le> 255)"

lemma ui_inv_coreD: "ui_inv E s \<Longrightarrow> core_inv E s"
  by (simp add: ui_inv_def)

lemma lstrcpy_text:
  assumes "length t < length d"
  shows "\<exists>d'. lstrcpy d (t @ [0]) = Some d' \<and> length d' = length d"
proof -
  have "length (wstr (t @ [0])) \<le> length t" by (induction t) (simp_all add: wstr_def)
  with assms show ?thesis by (simp add: lstrcpy_def)
qed

lemma update_ssid_ok:
  assumes "ui_inv E s"
  shows "\<exists>b t. update_ssid w s = Some (b, t) \<and> ui_inv E t"
proof -
  obtain b t where t: "cor_wlan_set_ssid (core_world w) (ssid_text s) s = Some (b, t)" "core_inv E t"
    using set_ssid_ok[OF ui_inv_coreD[OF assms]] by blast
  note k = ui_inv_core[OF assms t(2) set_ssid_keeps[OF t(1)]]
  have m: "wohn.more t = wohn.more s" using set_ssid_keeps[OF t(1)] by (simp add: keeps_def)
  have "\<exists>d. lstrcpy (sWlanSSID t) (ssid_text s @ [0]) = Some d \<and> length d = 33" if "length (ssid_text s) \<le> 32"
    using lstrcpy_text[of "ssid_text s" "sWlanSSID t"] that ui_more(3)[OF m] assms by (simp add: ui_inv_def)
  with t(1) k assms show ?thesis
    by (cases b) (auto simp: update_ssid_def Let_def MAX_SSID_LEN_def ex_bool_eq ui_inv_def[of E "s\<lparr>sWlanSSID := x\<rparr>" for s x] ui_inv_def[of E t])
qed

lemma update_passwd_ok:
  assumes "ui_inv E s"
  shows "\<exists>b t. update_passwd w s = Some (b, t) \<and> ui_inv E t"
proof -
  obtain b t where t: "cor_wlan_set_ssid (core_world w) (passwd_text s) s = Some (b, t)" "core_inv E t"
    using set_ssid_ok[OF ui_inv_coreD[OF assms]] by blast
  note k = ui_inv_core[OF assms t(2) set_ssid_keeps[OF t(1)]]
  have m: "wohn.more t = wohn.more s" using set_ssid_keeps[OF t(1)] by (simp add: keeps_def)
  have "\<exists>d. lstrcpy (sWlanPasswd t) (passwd_text s @ [0]) = Some d \<and> length d = 64" if "length (passwd_text s) \<le> 63"
    using lstrcpy_text[of "passwd_text s" "sWlanPasswd t"] that ui_more(4)[OF m] assms by (simp add: ui_inv_def)
  with t(1) k assms show ?thesis
    by (cases b) (auto simp: update_passwd_def Let_def MAX_KEY_LEN_def ex_bool_eq ui_inv_def[of E "s\<lparr>sWlanPasswd := x\<rparr>" for s x] ui_inv_def[of E t])
qed

lemma hn_click_ok:
  assumes "ui_inv E s" "ui_windows_ok w"
  shows "\<exists>t. ui_on_btn_hn_click w s = Some t \<and> ui_inv E t"
proof -
  have w: "windows_ok (core_world w)" using assms(2) by (simp add: ui_windows_ok_def)
  show ?thesis
  proof (cases "gHNStarted s")
    case True
    obtain b t where t: "cor_wlan_stop (core_world w) True s = Some (b, t)" "core_inv E t"
      using stop_ok[OF ui_inv_coreD[OF assms(1)] w] by blast
    from ui_inv_core[OF assms(1) t(2) stop_keeps[OF t(1)]] True t(1) show ?thesis by (simp add: ui_on_btn_hn_click_def)
  next
    case False
    obtain b1 s1 where 1: "update_ssid w s = Some (b1, s1)" "ui_inv E s1" using update_ssid_ok[OF assms(1)] by blast
    obtain b2 s2 where 2: "update_passwd w s1 = Some (b2, s2)" "ui_inv E s2" using update_passwd_ok[OF 1(2)] by blast
    obtain b3 s3 where 3: "cor_wlan_start (core_world w) s2 = Some (b3, s3)" "core_inv E s3"
      using start_ok[OF ui_inv_coreD[OF 2(2)] w] by blast
    from ui_inv_core[OF 2(2) 3(2) start_keeps[OF 3(1)]] False 1 2 3(1) show ?thesis
      by (simp add: ui_on_btn_hn_click_def)
  qed
qed

lemma ics_click_ok:
  assumes "ui_inv E s" "ui_windows_ok w"
  shows "\<exists>t. ui_on_btn_ics_click w s = Some t \<and> ui_inv E t"
proof -
  have w: "windows_ok (core_world w)" "core_inv E s" using assms by (simp_all add: ui_windows_ok_def ui_inv_def)
  have en: "\<exists>b t. cor_ics_enable (core_world w) n s = Some (b, t) \<and> ui_inv E t" for n
    using ics_enable_ok[OF w(2,1), of n] ui_inv_core[OF assms(1)] by blast
  have dis: "\<exists>t. cor_ics_disable (core_world w) s = Some t \<and> ui_inv E t"
    using ics_disable_ok[OF w(2)] ui_inv_core[OF assms(1)] keeps_frame by blast
  have small: "length (combo s ! i) \<le> 255" if "i < length (combo s)" for i using assms(1) that by (simp add: ui_inv_def)
  from en[of "combo s ! nat (combo_sel s)"] dis small[of "nat (combo_sel s)"] assms(1) show ?thesis
    by (auto simp: ui_on_btn_ics_click_def Let_def)
qed

lemma dblclick_ok: "ui_inv E s \<Longrightarrow> \<exists>t. ui_on_lst_log_dblclick s = Some t \<and> ui_inv E t"
proof -
  assume inv: "ui_inv E s"
  then have "length (log s ! i) \<le> 255" if "i < length (log s)" for i using that by (simp add: ui_inv_def)
  with inv show ?thesis by (force simp: ui_on_lst_log_dblclick_def Let_def)
qed

section \<open>Notifications\<close>

lemma callback_ok:
  assumes "ui_inv E s" "fst c = Ui_on_hn_join \<longrightarrow> (\<exists>m. snd c = Mac m \<and> 6 \<le> length m)"
  shows "\<exists>t. run_callback w c s = Some t \<and> ui_inv E t"
  using assms
  by (cases "fst c") (auto simp: run_callback_def ui_on_hn_unavailable_def ui_on_hn_active_def ui_on_hn_started_def ui_on_hn_stoped_def
      ui_on_hn_join_def Let_def)

lemma callbacks_ok:
  "ui_inv E s \<Longrightarrow> \<forall>c\<in>set cs. fst c = Ui_on_hn_join \<longrightarrow> (\<exists>m. snd c = Mac m \<and> 6 \<le> length m) \<Longrightarrow>
    \<exists>t. run_callbacks w cs s = Some t \<and> ui_inv E t"
proof (induction cs arbitrary: s)
  case (Cons c cs)
  then obtain t where "run_callback w c s = Some t" "ui_inv E t" using callback_ok[of E s c w] by auto
  with Cons show ?case by auto
qed simp

text \<open>A peer notification brings the six bytes of an address.\<close>

definition notify_ok :: "notify_data \<Rightarrow> bool" where
  "notify_ok d \<longleftrightarrow> (\<forall>m a n. code d = Peer_state_change (Some (m, a)) n \<longrightarrow> 6 \<le> length m)"

lemma call_joins:
  "ui_inv E s \<Longrightarrow> c \<in> set (CALL_S t x s) \<Longrightarrow> fst c = Ui_on_hn_join \<Longrightarrow> t = notify_join \<and> snd c = x"
  by (auto simp: CALL_S_def ui_inv_def split: option.splits)

lemma deliver_ok:
  assumes "ui_inv E s" "notify_ok d"
  shows "\<exists>t. deliver w d s = Some t \<and> ui_inv E t"
proof -
  have "section_ready s" "gInitialized s" using assms(1) by (simp_all add: ui_inv_def core_inv_def wlan_ready_def)
  then have "cor_wlan_notification (Some d) s \<noteq> None"
    by (auto simp: cor_wlan_notification_def split: notification.splits option.splits hn_state.splits prod.splits)
  then obtain cs where cs: "cor_wlan_notification (Some d) s = Some cs" by blast
  have "fst c = Ui_on_hn_join \<longrightarrow> (\<exists>m. snd c = Mac m \<and> 6 \<le> length m)" if "c \<in> set cs" for c
    using that cs call_joins[OF assms(1), of c] call_joins[OF assms(1), of c notify_stoped Context]
      call_joins[OF assms(1), of c notify_unavailable Context] assms(2)
    by (auto simp: cor_wlan_notification_def notify_ok_def split: if_splits notification.splits option.splits hn_state.splits prod.splits)
  with callbacks_ok[OF assms(1), of cs w] cs show ?thesis by (auto simp: deliver_def)
qed

section \<open>Creation\<close>

text \<open>What a walk over the connections carries along keeps a property that its visitor keeps.\<close>

lemma enum_loop_carries:
  assumes "\<forall>np pNC h r s k r' s'. GetProperties w h pNC = Some np \<longrightarrow> body np pNC r s = Some (k, r', s') \<longrightarrow> R r \<longrightarrow> R r'"
  shows "R r \<Longrightarrow> enum_loop w body stop vs r s = Some (r', t) \<Longrightarrow> R r'"
proof (induction vs arbitrary: r s)
  case (Cons v vs)
  from Cons.prems(2) obtain r1 s1 where v: "visit w body v r s = Some (r1, s1)"
    and rest: "(if stop r1 s1 then Some (r1, s1) else enum_loop w body stop vs r1 s1) = Some (r', t)"
    by (auto simp: bind_eq_Some_conv)
  have "r1 = r \<or> (\<exists>np pNC h s k s'. GetProperties w h pNC = Some np \<and> body np pNC r s = Some (k, r1, s'))"
    using v by (auto simp: visit_def visit_connection_def visit_props_def Let_def bind_eq_Some_conv split: variant.splits if_splits option.splits) blast+
  then have "R r1" using Cons.prems(1) assms by blast
  with Cons.IH rest show ?case by (auto split: if_splits)
qed simp

lemma each_connection_carries:
  assumes "\<forall>np pNC h r s k r' s'. GetProperties w h pNC = Some np \<longrightarrow> body np pNC r s = Some (k, r', s') \<longrightarrow> R r \<longrightarrow> R r'"
    "R r" "each_connection w body stop r s = Some (r', t)"
  shows "R r'"
proof -
  from assms(3) have "r' = r \<or> (\<exists>vs s1 t1. enum_loop w body stop vs r s1 = Some (r', t1))"
    by (auto simp: each_connection_def walk_enumerator_def Let_def bind_eq_Some_conv split: if_splits)
  then show ?thesis using enum_loop_carries[of w body R, OF assms(1,2)] assms(2) by blast
qed

lemma enum_names:
  fixes s :: wohn_ui
  assumes "ui_windows_ok w" "\<forall>x\<in>set c. length x \<le> 255" "cor_ics_enum (core_world w) ui_enum_conn c s = Some (b, c', t)"
  shows "\<forall>x\<in>set c'. length x \<le> 255"
proof -
  let ?R = "\<lambda>r :: int \<times> wchar list list. \<forall>x\<in>set (snd r). length x \<le> 255"
  show ?thesis
  proof (cases "gInitialized s")
    case True
    then obtain r where e: "each_connection (core_world w) (offer_connection ui_enum_conn) (\<lambda>(r, _) _. r > 0) (- 1, c) s = Some ((r, c'), t)"
      using assms(3) by (auto simp: cor_ics_enum_def bind_eq_Some_conv)
    have "?R r'" if np: "GetProperties (core_world w) h pNC = Some np" and b: "offer_connection ui_enum_conn np pNC r s = Some (k, r', s')" "?R r"
      for np pNC h r k r' and s s' :: wohn_ui
    proof -
      have "length (wstr (pszwName np)) \<le> 255" using assms(1) np unfolding ui_windows_ok_def by blast
      with b show "?R r'" by (auto simp: offer_connection_def ui_enum_conn_def split: if_splits option.splits)
    qed
    then have "\<forall>np pNC h r s k r' s'. GetProperties (core_world w) h pNC = Some np \<longrightarrow>
        offer_connection ui_enum_conn np pNC r (s :: wohn_ui) = Some (k, r', s') \<longrightarrow> ?R r \<longrightarrow> ?R r'" by blast
    from each_connection_carries[where R = ?R, OF this _ e] assms(2) show ?thesis by simp
  qed (use assms in \<open>simp add: cor_ics_enum_def\<close>)
qed

lemma show_settings_ok:
  assumes "ui_inv E s" "ui_windows_ok w"
  shows "\<exists>t. show_settings w s = Some t \<and> ui_inv E t"
proof -
  have w: "windows_ok (core_world w)" using assms(2) by (simp add: ui_windows_ok_def)
  obtain n d where d: "cor_wlan_get_ssid (core_world w) (sWlanSSID s) s = Some (n, d)"
    using get_ssid_ok[OF ui_inv_coreD[OF assms(1)], of "sWlanSSID s"] assms(1) by (fastforce simp: ui_inv_def)
  have ld: "length d = 33" using d assms(1)
    by (auto simp: cor_wlan_get_ssid_def lstrcpy_def ui_inv_def Let_def bind_eq_Some_conv split: if_splits option.splits prod.splits)
  let ?s = "s\<lparr>sWlanSSID := d, ssid_text := wstr d\<rparr>"
  have s: "ui_inv E ?s" using assms(1) ld by (simp add: ui_inv_def)
  obtain m k t where k: "cor_wlan_get_key (core_world w) (stack_cells w) (sWlanPasswd ?s) ?s = Some (m, k, t)" "core_inv E t"
    using get_key_ok[OF ui_inv_coreD[OF s] w, of "sWlanPasswd ?s"] s unfolding ui_inv_def by (metis order_refl)
  have lk: "length k = 64" using k(1) s
    by (auto simp: cor_wlan_get_key_def lstrcpy_def ui_inv_def Let_def bind_eq_Some_conv split: if_splits option.splits prod.splits)
  from ui_inv_core[OF s k(2) get_key_keeps[OF k(1)]] lk have "ui_inv E (t\<lparr>sWlanPasswd := k, passwd_text := wstr k\<rparr>)"
    by (simp add: ui_inv_def)
  with d k(1) show ?thesis by (simp add: show_settings_def)
qed

lemma show_connections_ok:
  assumes "ui_inv E s" "ui_windows_ok w"
  shows "\<exists>t. show_connections w s = Some t \<and> ui_inv E t"
proof -
  have w: "windows_ok (core_world w)" using assms(2) by (simp add: ui_windows_ok_def)
  let ?s = "s\<lparr>combo := [ascii SCB_FIRST], combo_sel := 0\<rparr>"
  have s: "ui_inv E ?s" using assms(1) by (simp add: ui_inv_def ascii_def SCB_FIRST_def)
  obtain b c t where t: "cor_ics_enum (core_world w) ui_enum_conn (combo ?s) ?s = Some (b, c, t)" "core_inv E t" "keeps ?s t"
    using ics_enum_ok[OF ui_inv_coreD[OF s] w, of ui_enum_conn "combo ?s"] by blast
  have "\<forall>x\<in>set c. length x \<le> 255" using enum_names[OF assms(2) _ t(1)] s by (simp add: ui_inv_def)
  then have "ui_inv E (t\<lparr>combo := c, gNCShared := x\<rparr>)" for x using ui_inv_core[OF s t(2,3)] by (simp add: ui_inv_def)
  moreover have "show_connections w s = Some (let s = t\<lparr>combo := c, gNCShared := cor_ics_is_enabled t\<rparr> in
      if gNCShared s then ui_log_add w SLOG_ICSENABED (s\<lparr>conn_enabled := False, ics_text := SBTN_DISABLE\<rparr>) else s)"
    using t(1) by (simp add: show_connections_def clear_loop_all Let_def)
  ultimately show ?thesis by (simp add: Let_def)
qed

lemma show_state_ok:
  assumes "ui_inv E s" "ui_windows_ok w"
  shows "\<exists>t. show_state w s = Some t \<and> ui_inv E t"
proof -
  have w: "windows_ok (core_world w)" using assms(2) by (simp add: ui_windows_ok_def)
  obtain st t where t: "cor_wlan_get_state (core_world w) s = Some (st, t)" "core_inv E t"
    using get_state_ok[OF ui_inv_coreD[OF assms(1)] w] by blast
  from ui_inv_core[OF assms(1) t(2) get_state_keeps[OF t(1)]] t(1) show ?thesis
    by (cases st) (simp_all add: show_state_def ui_on_hn_started_def ui_on_hn_unavailable_def ui_on_hn_stoped_def)
qed

lemma register_more: "wohn.more (snd (cor_register_notify ty f s)) = wohn.more s"
  by (simp add: cor_register_notify_def)

lemma register_one:
  assumes "ui_inv E s" "f = Ui_on_hn_join \<longleftrightarrow> ty = notify_join"
  shows "ui_inv E (snd (cor_register_notify ty (Some f) s))"
  using register_ok[OF ui_inv_coreD[OF assms(1)], of ty f] assms
  by (auto simp: ui_inv_def cor_register_notify_def split: if_splits)

lemma register_callbacks_ok: "ui_inv E s \<Longrightarrow> ui_inv E (register_callbacks s)"
  by (simp add: register_callbacks_def register_one)

text \<open>The dialog as its template and the start of the program leave it.\<close>

definition ui_fresh :: "wohn_ui \<Rightarrow> bool" where
  "ui_fresh s \<longleftrightarrow> fresh s \<and> length (sWlanSSID s) = 33 \<and> length (sWlanPasswd s) = 64 \<and> combo s = [] \<and> log s = [] \<and> \<not> ended s \<and>
     ssid_enabled s \<and> passwd_enabled s \<and> hn_enabled s \<and> conn_enabled s \<and> hn_text s = SBTN_START \<and> ics_text s = SBTN_ENABLE"

lemma initdialog_ok:
  assumes "ui_fresh s" "ui_windows_ok w"
  shows "\<exists>b t. ui_on_initdialog w s = Some (b, t) \<and> (\<not> b \<longrightarrow> \<not> gInitialized t) \<and>
    (b \<longrightarrow> (\<exists>E. ui_inv E t \<and> (unshared (core_world w) \<longrightarrow> E = {#})))"
proof -
  have w: "windows_ok (core_world w)" using assms(2) by (simp add: ui_windows_ok_def)
  let ?s = "s\<lparr>gHNStarted := False, gNCShared := False\<rparr>"
  have "fresh ?s" using assms(1) by (simp add: ui_fresh_def fresh_def)
  then obtain r t where t: "cor_initialize (core_world w) ?s = Some (r, t)" "keeps ?s t" "r \<noteq> 0 \<longrightarrow> \<not> gInitialized t"
    "r = 0 \<longrightarrow> (\<exists>E. core_inv E t \<and> (unshared (core_world w) \<longrightarrow> E = {#}) \<and> registered t = [])"
    using initialize_ok[OF _ w] by blast
  show ?thesis
  proof (cases "r = 0")
    case False
    then have "ui_on_initdialog w s = Some (False, if r \<in> {1, 2, 3, 4} then ui_msgbox SMB_REQADMIN MT_ERROR t else ui_msgbox SMB_INITFAIL MT_ERROR t)"
      using t(1) by (simp add: ui_on_initdialog_def)
    with t(3) False show ?thesis by (auto simp: ui_msgbox_def ex_bool_eq)
  next
    case True
    then obtain E where E: "core_inv E t" "unshared (core_world w) \<longrightarrow> E = {#}" using t(4) by blast
    have f: "log t = []" "combo t = []" "\<not> ended t" "length (sWlanSSID t) = 33" "length (sWlanPasswd t) = 64" "\<forall>ty. gNotifyCallBack t ty = None"
      using t(2) assms(1) ui_more[of t ?s] by (simp_all add: keeps_def ui_fresh_def fresh_def)
    then have "ui_inv E t" using E(1) by (simp add: ui_inv_def)
    then have "ui_inv E (if GetSystemMenu w then t\<lparr>about_item := True\<rparr> else t)" by simp
    from show_settings_ok[OF this assms(2)] obtain t1 where 1: "show_settings w (if GetSystemMenu w then t\<lparr>about_item := True\<rparr> else t) = Some t1" "ui_inv E t1" by blast
    from show_connections_ok[OF 1(2) assms(2)] obtain t2 where 2: "show_connections w t1 = Some t2" "ui_inv E t2" by blast
    from show_state_ok[OF 2(2) assms(2)] obtain t3 where 3: "show_state w t2 = Some t3" "ui_inv E t3" by blast
    have "ui_on_initdialog w s = Some (True, ui_log_add w SLOG_INITSUCC (register_callbacks t3))"
      using True t(1) 1(1) 2(1) 3(1) by (simp add: ui_on_initdialog_def)
    moreover have "ui_inv E (ui_log_add w SLOG_INITSUCC (register_callbacks t3))" using register_callbacks_ok[OF 3(2)] by simp
    ultimately show ?thesis using E(2) by blast
  qed
qed

section \<open>Messages\<close>

definition released :: "pointer multiset \<Rightarrow> ('cb, 'a) wohn_scheme \<Rightarrow> bool" where
  "released E s \<longleftrightarrow> com_refs s = E \<and> wlan_handles s = {#} \<and> props_blocks s = {#} \<and> \<not> section_ready s \<and> \<not> gInitialized s"

lemma close_ok:
  assumes "ui_inv E s"
  shows "\<exists>t. close_dialog s = Some t \<and> ended t \<and> released E t"
proof -
  obtain t where "cor_deinitialize s = Some t" "released E t"
    using deinitialize_ok[OF ui_inv_coreD[OF assms]] unfolding released_def by blast
  then show ?thesis by (simp add: close_dialog_def ui_on_close_def released_def)
qed

lemma command_ok:
  assumes "ui_inv E s" "ui_windows_ok w"
  shows "\<exists>b t. ui_dialogproc w (WM_COMMAND ctl hi) s = Some (b, t) \<and> ui_inv E t"
proof -
  obtain t1 where 1: "ui_on_btn_hn_click w s = Some t1" "ui_inv E t1" using hn_click_ok[OF assms] by blast
  obtain t2 where 2: "ui_on_btn_ics_click w s = Some t2" "ui_inv E t2" using ics_click_ok[OF assms] by blast
  obtain t3 where 3: "ui_on_lst_log_dblclick s = Some t3" "ui_inv E t3" using dblclick_ok[OF assms(1)] by blast
  from 1 2 3 assms(1) show ?thesis by (auto simp: ui_dialogproc_def ui_on_btn_clr_click_def ex_bool_eq)
qed

lemma dialogproc_ok:
  assumes "ui_inv E s" "ui_windows_ok w"
  shows "\<exists>b t. ui_dialogproc w m s = Some (b, t) \<and> (ui_inv E t \<or> ended t \<and> released E t)"
proof (cases m)
  case (WM_COMMAND ctl hi)
  with command_ok[OF assms, of ctl hi] show ?thesis by blast
next
  case WM_INITDIALOG
  let ?s = "s\<lparr>gHNStarted := False, gNCShared := False\<rparr>"
  have "gInitialized ?s" using assms(1) by (simp add: ui_inv_def core_inv_def)
  then have "ui_on_initdialog w s = Some (False, ui_msgbox SMB_INITFAIL MT_ERROR ?s)"
    by (simp add: ui_on_initdialog_def cor_initialize_def)
  with close_ok[of E "ui_msgbox SMB_INITFAIL MT_ERROR ?s"] assms(1) WM_INITDIALOG show ?thesis by (auto simp: ui_dialogproc_def)
next
  case WM_CLOSE
  with close_ok[OF assms(1)] show ?thesis by (auto simp: ui_dialogproc_def)
qed (use assms in \<open>auto simp: ui_dialogproc_def\<close>)

lemma event_step_ok:
  assumes "ui_inv E s" "ui_windows_ok w"
  shows "\<exists>t. ui_event_step w e s = Some t \<and> (ui_inv E t \<or> ended t \<and> released E t)"
proof (cases e)
  case (Message m)
  with dialogproc_ok[OF assms(1,2), of m] show ?thesis by (auto simp: ui_event_step_def)
qed (use assms in \<open>simp_all add: ui_event_step_def\<close>)

section \<open>What the dialog shows\<close>

text \<open>
  The dialog shows a state of the network: the settings can be edited exactly when it is idle, the button works unless the
  network is unavailable, and it stops the network exactly when it is active.
\<close>

definition settings_show :: "hn_state \<Rightarrow> wohn_ui \<Rightarrow> bool" where
  \<comment> \<open>all of it but whether the button works\<close>
  "settings_show st s \<longleftrightarrow> (gHNStarted s \<longleftrightarrow> st = hn_active) \<and> (ssid_enabled s \<longleftrightarrow> st = hn_idle) \<and> (passwd_enabled s \<longleftrightarrow> st = hn_idle) \<and>
     hn_text s = (if st = hn_active then SBTN_STOP else SBTN_START)"

definition displays :: "hn_state \<Rightarrow> wohn_ui \<Rightarrow> bool" where
  "displays st s \<longleftrightarrow> settings_show st s \<and> (hn_enabled s \<longleftrightarrow> st \<noteq> hn_unavailable)"

lemmas shown_defs = displays_def settings_show_def

definition listening :: "wohn_ui \<Rightarrow> bool" where
  "listening s \<longleftrightarrow> gInitialized s \<and> gNotifications s > 0 \<and> section_ready s \<and>
     gNotifyCallBack s notify_available = Some Ui_on_hn_active \<and> gNotifyCallBack s notify_unavailable = Some Ui_on_hn_unavailable \<and>
     gNotifyCallBack s notify_started = Some Ui_on_hn_started \<and> gNotifyCallBack s notify_stoped = Some Ui_on_hn_stoped"

definition change :: "hn_state \<Rightarrow> hn_state \<Rightarrow> notify_data" where
  "change old new = \<lparr>from_hosted_network = True, code = State_change (Some (old, new)) sizeof_STATE_CHANGE\<rparr>"

fun follow :: "ui_world \<Rightarrow> hn_state \<Rightarrow> hn_state list \<Rightarrow> wohn_ui \<Rightarrow> wohn_ui option" where
  "follow w st [] s = Some s"
| "follow w st (st' # sts) s = do { s \<leftarrow> deliver w (change st st') s; follow w st' sts s }"

text \<open>The network becomes idle before it becomes active.\<close>

fun path_ok :: "hn_state \<Rightarrow> hn_state list \<Rightarrow> bool" where
  "path_ok st [] = True"
| "path_ok st (st' # sts) = (\<not> (st = hn_unavailable \<and> st' = hn_active) \<and> path_ok st' sts)"

lemma log_add_fields [simp]:
  "gHNStarted (ui_log_add w t s) = gHNStarted s" "ssid_enabled (ui_log_add w t s) = ssid_enabled s"
  "passwd_enabled (ui_log_add w t s) = passwd_enabled s" "hn_enabled (ui_log_add w t s) = hn_enabled s" "hn_text (ui_log_add w t s) = hn_text s"
  "listening (ui_log_add w t s) = listening s"
  by (simp_all add: ui_log_add_def listening_def Let_def)

lemma listening_controls [simp]:
  "listening (s\<lparr>gHNStarted := x\<rparr>) = listening s" "listening (s\<lparr>ssid_enabled := x\<rparr>) = listening s" "listening (s\<lparr>passwd_enabled := x\<rparr>) = listening s"
  "listening (s\<lparr>hn_enabled := x\<rparr>) = listening s" "listening (s\<lparr>hn_text := y\<rparr>) = listening s"
  by (simp_all add: listening_def)

lemmas ui_callback_defs = run_callback_def ui_on_hn_unavailable_def ui_on_hn_active_def ui_on_hn_started_def ui_on_hn_stoped_def

lemma deliver_shows:
  assumes "listening s" "displays old s" "\<not> (old = hn_unavailable \<and> new = hn_active)"
  shows "\<exists>t. deliver w (change old new) s = Some t \<and> listening t \<and> displays new t"
  using assms
  by (cases old; cases new)
    (simp_all add: deliver_def change_def cor_wlan_notification_def CALL_S_def listening_def[of s] ui_callback_defs shown_defs)

text \<open>Whatever the change, only the button can be wrong afterwards, and only by not working.\<close>

lemma deliver_settings:
  assumes "listening s" "settings_show old s" "old = hn_unavailable \<longrightarrow> \<not> hn_enabled s"
  shows "\<exists>t. deliver w (change old new) s = Some t \<and> listening t \<and> settings_show new t \<and> (new = hn_unavailable \<longrightarrow> \<not> hn_enabled t)"
  using assms
  by (cases old; cases new)
    (simp_all add: deliver_def change_def cor_wlan_notification_def CALL_S_def listening_def[of s] ui_callback_defs settings_show_def)

lemma follow_shows:
  "listening s \<Longrightarrow> displays st s \<Longrightarrow> path_ok st sts \<Longrightarrow> \<exists>t. follow w st sts s = Some t \<and> displays (last (st # sts)) t"
proof (induction sts arbitrary: st s)
  case (Cons st' sts)
  then obtain t where "deliver w (change st st') s = Some t" "listening t" "displays st' t" using deliver_shows[of s st st' w] by auto
  with Cons show ?case by auto
qed simp

lemma follow_settings:
  "listening s \<Longrightarrow> settings_show st s \<Longrightarrow> (st = hn_unavailable \<longrightarrow> \<not> hn_enabled s) \<Longrightarrow>
    \<exists>t. follow w st sts s = Some t \<and> settings_show (last (st # sts)) t \<and> (last (st # sts) = hn_unavailable \<longrightarrow> \<not> hn_enabled t)"
proof (induction sts arbitrary: st s)
  case (Cons st' sts)
  then obtain t where "deliver w (change st st') s = Some t" "listening t" "settings_show st' t" "st' = hn_unavailable \<longrightarrow> \<not> hn_enabled t"
    using deliver_settings[of s st w st'] by auto
  with Cons show ?case by auto
qed simp

lemma settings_controls:
  assumes "show_settings w s = Some t"
  shows "hn_enabled t = hn_enabled s \<and> hn_text t = hn_text s \<and> gNotifyCallBack t = gNotifyCallBack s"
proof -
  obtain n d m k u where u: "cor_wlan_get_key (core_world w) (stack_cells w) (sWlanPasswd (s\<lparr>sWlanSSID := d, ssid_text := wstr d\<rparr>))
      (s\<lparr>sWlanSSID := d, ssid_text := wstr d\<rparr>) = Some (m, k, u)" "t = u\<lparr>sWlanPasswd := k, passwd_text := wstr k\<rparr>"
    using assms by (auto simp: show_settings_def bind_eq_Some_conv Let_def)
  from get_key_keeps[OF u(1)] u(2) ui_more[of u "s\<lparr>sWlanSSID := d, ssid_text := wstr d\<rparr>"] show ?thesis by (simp add: keeps_def)
qed

lemma connections_controls:
  assumes "show_connections w s = Some t" "ui_inv E s" "ui_windows_ok w"
  shows "hn_enabled t = hn_enabled s \<and> hn_text t = hn_text s \<and> gNotifyCallBack t = gNotifyCallBack s"
proof -
  have w: "windows_ok (core_world w)" using assms(3) by (simp add: ui_windows_ok_def)
  let ?s = "s\<lparr>combo := [ascii SCB_FIRST], combo_sel := 0\<rparr>"
  have "core_inv E ?s" using assms(2) by (simp add: ui_inv_def)
  from ics_enum_ok[OF this w, of ui_enum_conn "[ascii SCB_FIRST]"] obtain b c u where
    u: "cor_ics_enum (core_world w) ui_enum_conn [ascii SCB_FIRST] ?s = Some (b, c, u)" "keeps ?s u" by blast
  from assms(1) u(1) have "t = (let s = u\<lparr>combo := c, gNCShared := cor_ics_is_enabled u\<rparr> in
      if gNCShared s then ui_log_add w SLOG_ICSENABED (s\<lparr>conn_enabled := False, ics_text := SBTN_DISABLE\<rparr>) else s)"
    by (simp add: show_connections_def clear_loop_all Let_def)
  moreover have "gNotifyCallBack (ui_log_add w x y) = gNotifyCallBack y" for x y by (simp add: ui_log_add_def Let_def)
  ultimately show ?thesis using u(2) ui_more[of u ?s] by (auto simp: keeps_def Let_def)
qed

lemma register_listening:
  assumes "ui_inv E s" "\<forall>ty. gNotifyCallBack s ty = None"
  shows "listening (register_callbacks s)" "displays st (register_callbacks s) = displays st s"
proof -
  have "registered s = []" "gInitialized s" "section_ready s" "gNotifications s = int (length (registered s))"
    using assms by (simp_all add: ui_inv_def core_inv_def wlan_ready_def registered_def)
  with assms(2) show "listening (register_callbacks s)" by (simp add: register_callbacks_def cor_register_notify_def listening_def)
  show "displays st (register_callbacks s) = displays st s" by (simp add: register_callbacks_def cor_register_notify_def shown_defs)
qed

text \<open>What the service said when it was asked for the state.\<close>

definition reported :: "world \<Rightarrow> hn_state \<Rightarrow> bool" where
  "reported w st \<longleftrightarrow> (\<exists>h. QueryStatus w h = None \<and> st = hn_unavailable \<or> (\<exists>p x. QueryStatus w h = Some (Some (p, x)) \<and> st = HostedNetworkState x))"

lemma show_state_shows:
  assumes "show_state w s = Some t" "ui_inv E s" "hn_enabled s" "hn_text s = SBTN_START"
  shows "\<exists>st. displays st t \<and> reported (core_world w) st \<and> gNotifyCallBack t = gNotifyCallBack s"
proof -
  obtain st u where u: "cor_wlan_get_state (core_world w) s = Some (st, u)" using assms(1) by (auto simp: show_state_def bind_eq_Some_conv)
  have "gInitialized s" using assms(2) by (simp add: ui_inv_def core_inv_def)
  with u have r: "reported (core_world w) st"
    unfolding reported_def by (auto simp: cor_wlan_get_state_def Let_def split: option.splits)
  have f: "hn_enabled u" "hn_text u = SBTN_START" "gNotifyCallBack u = gNotifyCallBack s"
    using get_state_keeps[OF u] ui_more[of u s] assms(3,4) by (simp_all add: keeps_def)
  have "gNotifyCallBack (ui_log_add w x y) = gNotifyCallBack y" for x y by (simp add: ui_log_add_def Let_def)
  with assms(1) u f have "displays st t \<and> gNotifyCallBack t = gNotifyCallBack s"
    by (cases st) (auto simp: show_state_def shown_defs ui_msgbox_def ui_on_hn_started_def ui_on_hn_unavailable_def ui_on_hn_stoped_def)
  with r show ?thesis by blast
qed

text \<open>
  C39. The dialog follows the hosted network: after it was created it shows what the service reported. After any further
  changes of the network, each handled before the next arrives, its flag, its edit controls and the text of its button
  show the last state, and the button does not work when that is unavailable. If the network never went from unavailable
  straight to active, the button works in every other state.
\<close>

theorem dialog_follows:
  assumes "ui_fresh s" "ui_windows_ok w" "ui_on_initdialog w s = Some (True, t)"
  shows "\<exists>st. reported (core_world w) st \<and> displays st t \<and>
    (\<forall>sts. \<exists>u. follow w st sts t = Some u \<and> settings_show (last (st # sts)) u \<and>
      (last (st # sts) = hn_unavailable \<longrightarrow> \<not> hn_enabled u) \<and> (path_ok st sts \<longrightarrow> displays (last (st # sts)) u))"
proof -
  have w: "windows_ok (core_world w)" using assms(2) by (simp add: ui_windows_ok_def)
  let ?s = "s\<lparr>gHNStarted := False, gNCShared := False\<rparr>"
  obtain t0 t1 t2 t3 where init: "cor_initialize (core_world w) ?s = Some (0, t0)"
    and 1: "show_settings w (if GetSystemMenu w then t0\<lparr>about_item := True\<rparr> else t0) = Some t1" and 2: "show_connections w t1 = Some t2"
    and 3: "show_state w t2 = Some t3" and t: "t = ui_log_add w SLOG_INITSUCC (register_callbacks t3)"
    using assms(3) by (auto simp: ui_on_initdialog_def bind_eq_Some_conv Let_def split: if_splits)
  have "fresh ?s" using assms(1) by (simp add: ui_fresh_def fresh_def)
  from initialize_ok[OF this w] init obtain E where E: "core_inv E t0" "keeps ?s t0" by auto
  have f: "hn_enabled t0" "hn_text t0 = SBTN_START" "\<forall>ty. gNotifyCallBack t0 ty = None" and inv0: "ui_inv E t0"
    using E assms(1) ui_more[of t0 ?s] by (simp_all add: keeps_def ui_fresh_def fresh_def ui_inv_def)
  let ?t0 = "if GetSystemMenu w then t0\<lparr>about_item := True\<rparr> else t0"
  have i0: "ui_inv E ?t0" using inv0 by simp
  have i1: "ui_inv E t1" using show_settings_ok[OF i0 assms(2)] 1 by auto
  have i2: "ui_inv E t2" using show_connections_ok[OF i1 assms(2)] 2 by auto
  have i3: "ui_inv E t3" using show_state_ok[OF i2 assms(2)] 3 by auto
  have g: "hn_enabled t2" "hn_text t2 = SBTN_START" "\<forall>ty. gNotifyCallBack t2 ty = None"
    using f settings_controls[OF 1] connections_controls[OF 2 i1 assms(2)] by auto
  from show_state_shows[OF 3 i2 g(1,2)] obtain st where st: "displays st t3" "reported (core_world w) st" "gNotifyCallBack t3 = gNotifyCallBack t2" by blast
  have "listening t" "displays st t"
    using register_listening[OF i3] st(1,3) g(3) unfolding t by (simp_all add: shown_defs)
  then have s: "settings_show st t" "st = hn_unavailable \<longrightarrow> \<not> hn_enabled t" by (simp_all add: displays_def)
  have "\<exists>u. follow w st sts t = Some u \<and> settings_show (last (st # sts)) u \<and>
      (last (st # sts) = hn_unavailable \<longrightarrow> \<not> hn_enabled u) \<and> (path_ok st sts \<longrightarrow> displays (last (st # sts)) u)" for sts
    using follow_settings[OF \<open>listening t\<close> s, of w sts] follow_shows[OF \<open>listening t\<close> \<open>displays st t\<close>, of sts w] by force
  with st(2) \<open>displays st t\<close> show ?thesis by blast
qed

text \<open>From unavailable straight to active the dialog would not follow: the button stays disabled.\<close>

lemma button_stays_disabled:
  assumes "listening s" "displays hn_unavailable s"
  shows "\<exists>t. deliver w (change hn_unavailable hn_active) s = Some t \<and> gHNStarted t \<and> \<not> hn_enabled t"
  using assms by (simp add: deliver_def change_def cor_wlan_notification_def CALL_S_def listening_def ui_callback_defs shown_defs)

text \<open>
  The password is never stored: \<^verbatim>\<open>ui_on_btn_hn_click\<close> passes it to \<^verbatim>\<open>cor_wlan_set_ssid\<close>, so that a new password becomes
  the name the network broadcasts, and the key of the network stays as it was.
\<close>

theorem password_becomes_name:
  assumes "update_passwd w s = Some (True, t)" "wstr (passwd_text s) \<noteq> wstr (sWlanPasswd s)" "ui_inv E s"
  shows "\<exists>p x. pHNConnSettings t = Some (p, renamed (fst (to_octets (core_world w) (wstr (passwd_text s)))) x) \<and>
    calls t = calls s @ [Set_connection_settings (renamed (fst (to_octets (core_world w) (wstr (passwd_text s)))) x)]"
proof -
  obtain p x where x: "pHNConnSettings s = Some (p, x)" using core_inv_settings[OF ui_inv_coreD[OF assms(3)]] by metis
  have "gInitialized s" using assms(3) by (simp add: ui_inv_def core_inv_def)
  from set_ssid_eq[OF this x refl, of "core_world w" "passwd_text s"] assms(1,2) show ?thesis
    by (auto simp: update_passwd_def Let_def bind_eq_Some_conv called_def split: if_splits)
qed

section \<open>A dialog\<close>

definition lab_ui_world :: ui_world where
  "lab_ui_world = world.extend lab_world
     (ui_world.fields (\<lambda>_. (0, 1, 1, 0, 0, 0)) (\<lambda>ls _. length ls) True (replicate 256 0))"

lemma lab_core_world: "core_world lab_ui_world = lab_world"
  by (simp add: lab_ui_world_def world.extend_def world.truncate_def)

definition lab_dialog :: wohn_ui where
  "lab_dialog =
     \<lparr>calls = [], gInitialized = False, gNotifications = 0, section_ready = False, gWlanClient = 0, pHNConnSettings = None,
      pHNSecSettings = 0, pHNStatus = None, pHNEnabled = 0, gNotifyCallBack = \<lambda>_. None, gCoInitialized = False, gICSEnabled = False,
      pNSM = 0, pNCPublic = 0, pNCPrivate = 0, NetconPropsFree = False, wlan_blocks = {#}, wlan_handles = {#}, com_refs = {#},
      props_blocks = {#}, com_inits = 0, gHNStarted = False, gNCShared = False, sWlanSSID = replicate 33 0, sWlanPasswd = replicate 64 0,
      ssid_enabled = True, passwd_enabled = True, hn_enabled = True, conn_enabled = True, hn_text = SBTN_START, ics_text = SBTN_ENABLE,
      ssid_text = [], passwd_text = [], log = [], log_sel = - 1, combo = [], combo_sel = - 1, boxes = [], focus = None,
      about_item = False, ended = False\<rparr>"

lemma lab_ui_ok: "ui_windows_ok lab_ui_world"
  using lab_world_ok by (auto simp: ui_windows_ok_def lab_core_world) (auto simp: lab_world_def lab_props_def wstr_def split: if_splits)

lemma lab_dialog_fresh: "ui_fresh lab_dialog"
  by (simp add: ui_fresh_def fresh_def lab_dialog_def)

lemma lab_dialog_created: "\<exists>u. ui_on_initdialog lab_ui_world lab_dialog = Some (True, u)"
proof -
  have "map_option fst (ui_on_initdialog lab_ui_world lab_dialog) = Some True" by code_simp
  then show ?thesis by auto
qed

theorem dialog_follows_witness:
  "\<exists>t st. ui_on_initdialog lab_ui_world lab_dialog = Some (True, t) \<and> displays st t \<and>
     (\<exists>u. follow lab_ui_world st [hn_idle, hn_active] t = Some u \<and> displays hn_active u) \<and>
     (\<exists>u. follow lab_ui_world st [hn_unavailable, hn_active] t = Some u \<and> settings_show hn_active u)"
proof -
  obtain t where t: "ui_on_initdialog lab_ui_world lab_dialog = Some (True, t)" using lab_dialog_created by blast
  from dialog_follows[OF lab_dialog_fresh lab_ui_ok t] obtain st where st: "displays st t"
    "\<forall>sts. \<exists>u. follow lab_ui_world st sts t = Some u \<and> settings_show (last (st # sts)) u \<and>
      (last (st # sts) = hn_unavailable \<longrightarrow> \<not> hn_enabled u) \<and> (path_ok st sts \<longrightarrow> displays (last (st # sts)) u)" by blast
  from st(2)[rule_format, of "[hn_idle, hn_active]"] have "\<exists>u. follow lab_ui_world st [hn_idle, hn_active] t = Some u \<and> displays hn_active u"
    by force
  moreover from st(2)[rule_format, of "[hn_unavailable, hn_active]"]
  have "\<exists>u. follow lab_ui_world st [hn_unavailable, hn_active] t = Some u \<and> settings_show hn_active u" by force
  ultimately show ?thesis using t st(1) by blast
qed

end
