(* ===== verification/Wohn_Session.thy ===== *)
theory Wohn_Session
  imports Wohn_UI
begin

text \<open>
  Sessions with the dialog of \<^verbatim>\<open>wohn\<close>. The WLAN service calls \<^verbatim>\<open>cor_wlan_notification\<close> on threads of its own, beside the
  thread of the dialog: a session is a sequence of steps of all of them, in any order. A thread of the service tests,
  enters the critical section, reads each callback twice and leaves in separate steps; the dialog closes in separate
  steps. A handler of a message is one step, and so is the creation of the dialog: the callbacks touch only the controls,
  the log and the flag, and they touch them while the thread of the dialog takes messages. Windows documents that
  \<^verbatim>\<open>WlanCloseHandle\<close> waits for the notifications that are being handled; closing a handle and deleting the section are
  one step therefore. A dialog whose creation fails ends itself and keeps what \<open>failed_initialize_leaks\<close> says.
\<close>

section \<open>Definitions\<close>

text \<open>The callbacks that a notification calls, in order, if they are registered when their turn comes.\<close>

definition pending :: "notify_data \<Rightarrow> (cor_notify_type \<times> cb_arg) list" where
  "pending d =
     (if from_hosted_network d then
        case code d of
          State_change (Some (OldState, NewState)) dwDataSize \<Rightarrow>
            if dwDataSize = sizeof_STATE_CHANGE then
              case NewState of
                hn_active \<Rightarrow> [(notify_started, Context)]
              | hn_idle \<Rightarrow> [(if OldState = hn_active then notify_stoped else notify_available, Context)]
              | hn_unavailable \<Rightarrow>
                  (if OldState = hn_active then [(notify_stoped, Context)] else []) @
                  (if OldState \<noteq> hn_unavailable then [(notify_unavailable, Context)] else [])
            else []
        | Peer_state_change (Some (PeerMacAddress, PeerAuthState)) dwDataSize \<Rightarrow>
            if dwDataSize = sizeof_PEER_STATE_CHANGE then
              if PeerAuthState = peer_state_authenticated then [(notify_join, Mac PeerMacAddress)]
              else if PeerAuthState = peer_state_invalid then [(notify_leave, Mac PeerMacAddress)]
              else if PeerAuthState = peer_state_change_code then [(notify_change, Peer_change)]
              else []
            else []
        | _ \<Rightarrow> []
      else [])"

text \<open>
  Where a thread of the service is in \<^verbatim>\<open>cor_wlan_notification\<close>: before its tests, before the critical section, in the
  section with the callbacks that are left, between the two times that \<^verbatim>\<open>CALL_S\<close> reads a callback, in a callback, and
  behind it all.
\<close>

datatype service_thread =
    Arrived notify_data
  | Entering notify_data
  | Calling "(cor_notify_type \<times> cb_arg) list"
  | Tested cor_notify_type cb_arg "(cor_notify_type \<times> cb_arg) list"
  | Inside hn_callback cb_arg "(cor_notify_type \<times> cb_arg) list"
  | Done

fun in_section :: "service_thread \<Rightarrow> bool" where
  "in_section (Arrived _) = False"
| "in_section (Entering _) = False"
| "in_section Done = False"
| "in_section _ = True"

text \<open>
  A step of such a thread. \<open>serves\<close> says whether the thread of the dialog takes messages, \<open>free\<close> whether the critical
  section is free. The callbacks work on the controls, so they wait until the thread of the dialog takes messages and
  act there. Entering or leaving a critical section that was deleted is a fault, and so is calling a callback that was
  removed after it was tested.
\<close>

fun thread_step :: "ui_world \<Rightarrow> bool \<Rightarrow> bool \<Rightarrow> service_thread \<Rightarrow> wohn_ui \<Rightarrow> (service_thread \<times> wohn_ui) option" where
  "thread_step w serves free (Arrived d) s =
     Some (if gInitialized s \<and> gNotifications s > 0 then Entering d else Done, s)"
| "thread_step w serves free (Entering d) s =
     (if \<not> section_ready s then None else Some (if free then Calling (pending d) else Entering d, s))"
| "thread_step w serves free (Calling []) s = (if \<not> section_ready s then None else Some (Done, s))"
| "thread_step w serves free (Calling ((t, x) # cs)) s =
     Some (if gNotifyCallBack s t = None then Calling cs else Tested t x cs, s)"
| "thread_step w serves free (Tested t x cs) s =
     (case gNotifyCallBack s t of None \<Rightarrow> None | Some f \<Rightarrow> Some (Inside f x cs, s))"
| "thread_step w serves free (Inside f x cs) s =
     (if serves then map_option (Pair (Calling cs)) (run_callback w (f, x) s) else Some (Inside f x cs, s))"
| "thread_step w serves free Done s = Some (Done, s)"

text \<open>
  The thread of the dialog takes messages, or is in \<^verbatim>\<open>ui_on_close\<close>: it removes the callbacks that are left, one by one
  and outside the critical section, and then is in \<^verbatim>\<open>WlanCloseHandle\<close>, which waits for the notifications that are being
  handled, before it deletes the section and ends the dialog.
\<close>

datatype gui_thread = Serving | Unregistering "cor_notify_type list" | Closing

type_synonym session = "gui_thread \<times> service_thread list \<times> wohn_ui"

definition begin_close :: "service_thread list \<Rightarrow> wohn_ui \<Rightarrow> session option" where
  "begin_close ts s =
     do {
       s \<leftarrow> cor_ics_deinitialize s;
       if gInitialized s \<and> gNotifications s \<noteq> 0 then Some (Unregistering notify_types, ts, s\<lparr>gNotifications := 0\<rparr>)
       else Some (Closing, ts, s)
     }"

definition close_end :: "wohn_ui \<Rightarrow> wohn_ui option" where
  "close_end s = do { s \<leftarrow> cor_wlan_deinitialize s; Some (s\<lparr>gInitialized := False, ended := True\<rparr>) }"

datatype session_event =
    User ui_event
  | Notify notify_data \<comment> \<open>the service starts a thread, as long as the handle is open\<close>
  | Service nat \<comment> \<open>a thread of the service goes on\<close>
  | Dialog \<comment> \<open>the thread of the dialog goes on with closing\<close>

fun session_step :: "ui_world \<Rightarrow> session_event \<Rightarrow> session \<Rightarrow> session option" where
  "session_step w (User e) (g, ts, s) =
     (if ended s \<or> g \<noteq> Serving then Some (g, ts, s)
      else if e = Message WM_CLOSE then begin_close ts s
      else if e = Message WM_INITDIALOG then do {
        (ok, s) \<leftarrow> ui_on_initdialog w s;
        if ok then Some (g, ts, s) else begin_close ts s
      }
      else do { s \<leftarrow> ui_event_step w e s; Some (g, ts, s) })"
| "session_step w (Notify d) (g, ts, s) =
     Some (g, if wlan_handles s \<noteq> {#} \<and> g \<noteq> Closing \<and> \<not> ended s then ts @ [Arrived d] else ts, s)"
| "session_step w (Service i) (g, ts, s) =
     (if i < length ts then do {
        (t, s) \<leftarrow> thread_step w (g = Serving \<and> \<not> ended s) (\<not> list_ex in_section ts) (ts ! i) s;
        Some (g, ts[i := t], s)
      } else Some (g, ts, s))"
| "session_step w Dialog (g, ts, s) =
     (if ended s then Some (g, ts, s)
      else case g of
        Serving \<Rightarrow> Some (g, ts, s)
      | Unregistering [] \<Rightarrow> Some (Closing, ts, s)
      | Unregistering (i # is) \<Rightarrow> Some (Unregistering is, ts, s\<lparr>gNotifyCallBack := (gNotifyCallBack s)(i := None)\<rparr>)
      | Closing \<Rightarrow>
          if gInitialized s \<longrightarrow> list_all (\<lambda>t. t = Done) ts then do { s \<leftarrow> close_end s; Some (g, ts, s) }
          else Some (g, ts, s))"

fun session_run :: "ui_world \<Rightarrow> session_event list \<Rightarrow> session \<Rightarrow> session option" where
  "session_run w [] x = Some x"
| "session_run w (e # es) x = do { x \<leftarrow> session_step w e x; session_run w es x }"

text \<open>\<^verbatim>\<open>DialogBoxParam\<close>: the dialog is created and then serves messages.\<close>

definition ui_build :: "ui_world \<Rightarrow> session_event list \<Rightarrow> wohn_ui \<Rightarrow> session option" where
  "ui_build w es s = session_run w (User (Message WM_INITDIALOG) # es) (Serving, [], s)"

section \<open>Undisturbed runs\<close>

lemma session_run_append: "session_run w (xs @ ys) x = Option.bind (session_run w xs x) (session_run w ys)"
  by (induction xs arbitrary: x) (auto split: Option.bind_splits)

text \<open>Without other threads the parts of closing make \<^verbatim>\<open>ui_on_close\<close>.\<close>

lemma unregister_run:
  "\<not> ended s \<Longrightarrow> session_run w (replicate (length is) Dialog) (Unregistering is, ts, s) =
    Some (Unregistering [], ts, fold (\<lambda>i s. s\<lparr>gNotifyCallBack := (gNotifyCallBack s)(i := None)\<rparr>) is s)"
  by (induction "is" arbitrary: s) simp_all

lemma ended_unregistered: "ended (fold (\<lambda>i s. s\<lparr>gNotifyCallBack := (gNotifyCallBack s)(i := None)\<rparr>) is s) = ended s"
  by (induction "is" arbitrary: s) simp_all

lemma ended_ics: "cor_ics_deinitialize s = Some t \<Longrightarrow> ended t = ended (s :: wohn_ui)"
  by (auto simp: cor_ics_deinitialize_def RELEASE_S_def Release_def Let_def bind_eq_Some_conv split: if_splits)

lemma close_end_run: "\<not> ended s \<Longrightarrow> session_run w [Dialog] (Closing, [], s) = map_option (\<lambda>t. (Closing, [], t)) (close_end s)"
  by (cases "close_end s") simp_all

lemma close_alone:
  assumes "\<not> ended s"
  shows "\<exists>n. Option.bind (begin_close [] s) (session_run w (replicate n Dialog)) = map_option (\<lambda>t. (Closing, [], t)) (close_dialog s)"
proof (cases "cor_ics_deinitialize s")
  case None
  then show ?thesis by (simp add: begin_close_def close_dialog_def ui_on_close_def cor_deinitialize_def)
next
  case (Some t)
  with assms have t: "\<not> ended t" using ended_ics by blast
  have c: "close_dialog s = close_end t"
    using Some by (simp add: close_dialog_def ui_on_close_def cor_deinitialize_def close_end_def)
  show ?thesis
  proof (cases "gInitialized t \<and> gNotifications t \<noteq> 0")
    case True
    let ?u = "fold (\<lambda>i s. s\<lparr>gNotifyCallBack := (gNotifyCallBack s)(i := None)\<rparr>) notify_types (t\<lparr>gNotifications := 0\<rparr>)"
    have u: "\<not> ended ?u" using t by (simp only: ended_unregistered) simp
    have d: "close_end ?u = close_end t" using True by (simp add: close_end_def cor_wlan_deinitialize_def notify_types_def)
    have "session_run w (replicate (length notify_types) Dialog @ [Dialog] @ [Dialog]) (Unregistering notify_types, [], t\<lparr>gNotifications := 0\<rparr>) =
        map_option (\<lambda>t. (Closing, [], t)) (close_end t)"
      unfolding session_run_append unregister_run[of "t\<lparr>gNotifications := 0\<rparr>", simplified, OF t] d[symmetric] close_end_run[OF u, symmetric]
      using u by (cases "close_end ?u") simp_all
    moreover have "replicate (length notify_types) Dialog @ [Dialog] @ [Dialog] = replicate (length notify_types + 2) Dialog"
      by (simp add: replicate_app_Cons_same replicate_append_same)
    ultimately have "session_run w (replicate (length notify_types + 2) Dialog) (Unregistering notify_types, [], t\<lparr>gNotifications := 0\<rparr>) =
        map_option (\<lambda>t. (Closing, [], t)) (close_end t)" by argo
    then show ?thesis unfolding c using Some True by (intro exI[of _ "length notify_types + 2"]) (simp add: begin_close_def)
  next
    case False
    have "replicate 1 Dialog = [Dialog]" by simp
    with close_end_run[OF t] Some False show ?thesis unfolding c by (intro exI[of _ 1]) (auto simp: begin_close_def)
  qed
qed

text \<open>A notification that runs through undisturbed calls what \<^verbatim>\<open>cor_wlan_notification\<close> calls, so it is delivered as a whole.\<close>

lemma notification_pending:
  assumes "gInitialized s" "gNotifications s > 0" "section_ready s"
  shows "cor_wlan_notification (Some d) s = Some (concat (map (\<lambda>(t, x). CALL_S t x s) (pending d)))"
  using assms by (auto simp: cor_wlan_notification_def pending_def split: notification.splits option.splits hn_state.splits)

lemma run_callback_keeps:
  assumes "run_callback w c s = Some t"
  shows "gNotifyCallBack t = gNotifyCallBack s" "section_ready t = section_ready s" "ended t = ended s"
  using assms
  by (cases "fst c"; auto simp: run_callback_def ui_on_hn_unavailable_def ui_on_hn_active_def ui_on_hn_started_def ui_on_hn_stoped_def
      ui_on_hn_join_def ui_log_add_def Let_def split: cb_arg.splits if_splits)+

lemma calls_alone:
  "run_callbacks w (concat (map (\<lambda>(t, x). CALL_S t x s0) cs)) s = Some u \<Longrightarrow> section_ready s \<Longrightarrow> \<not> ended s \<Longrightarrow>
    gNotifyCallBack s = gNotifyCallBack s0 \<Longrightarrow> \<exists>n. session_run w (replicate n (Service 0)) (Serving, [Calling cs], s) = Some (Serving, [Done], u)"
proof (induction cs arbitrary: s)
  case Nil
  then have "session_run w (replicate 1 (Service 0)) (Serving, [Calling []], s) = Some (Serving, [Done], u)" by simp
  then show ?case by blast
next
  case (Cons c cs)
  obtain t x where c: "c = (t, x)" by (cases c)
  show ?case
  proof (cases "gNotifyCallBack s t")
    case None
    with Cons.prems c have "run_callbacks w (concat (map (\<lambda>(t, x). CALL_S t x s0) cs)) s = Some u" by (simp add: CALL_S_def)
    from Cons.IH[OF this Cons.prems(2-)] obtain n where
      "session_run w (replicate n (Service 0)) (Serving, [Calling cs], s) = Some (Serving, [Done], u)" by blast
    then have "session_run w (replicate (Suc n) (Service 0)) (Serving, [Calling (c # cs)], s) = Some (Serving, [Done], u)" using None c by simp
    then show ?thesis by blast
  next
    case (Some f)
    with Cons.prems c obtain s1 where s1: "run_callback w (f, x) s = Some s1"
      "run_callbacks w (concat (map (\<lambda>(t, x). CALL_S t x s0) cs)) s1 = Some u" by (auto simp: CALL_S_def bind_eq_Some_conv)
    from Cons.IH[OF s1(2)] run_callback_keeps[OF s1(1)] Cons.prems obtain n where
      "session_run w (replicate n (Service 0)) (Serving, [Calling cs], s1) = Some (Serving, [Done], u)" by auto
    then have "session_run w (replicate (3 + n) (Service 0)) (Serving, [Calling (c # cs)], s) = Some (Serving, [Done], u)"
      using Some c s1(1) Cons.prems(3) by (simp add: numeral_eq_Suc)
    then show ?thesis by blast
  qed
qed

lemma deliver_alone:
  assumes "gInitialized s" "gNotifications s > 0" "section_ready s" "wlan_handles s \<noteq> {#}" "\<not> ended s" "deliver w d s = Some u"
  shows "\<exists>n. session_run w (Notify d # replicate n (Service 0)) (Serving, [], s) = Some (Serving, [Done], u)"
proof -
  have "run_callbacks w (concat (map (\<lambda>(t, x). CALL_S t x s) (pending d))) s = Some u"
    using assms(6) notification_pending[OF assms(1-3)] by (simp add: deliver_def)
  from calls_alone[OF this assms(3,5)] obtain n where
    "session_run w (replicate n (Service 0)) (Serving, [Calling (pending d)], s) = Some (Serving, [Done], u)" by blast
  then have "session_run w (Notify d # replicate (2 + n) (Service 0)) (Serving, [], s) = Some (Serving, [Done], u)"
    using assms by (simp add: numeral_eq_Suc)
  then show ?thesis by blast
qed

section \<open>The invariant of a session\<close>

definition call_ok :: "cor_notify_type \<times> cb_arg \<Rightarrow> bool" where
  "call_ok c \<longleftrightarrow> fst c \<in> set notify_types \<and> (fst c = notify_join \<longrightarrow> (\<exists>m. snd c = Mac m \<and> 6 \<le> length m))"

fun thread_ok :: "service_thread \<Rightarrow> bool" where
  "thread_ok (Arrived d) = notify_ok d"
| "thread_ok (Entering d) = notify_ok d"
| "thread_ok (Calling cs) = list_all call_ok cs"
| "thread_ok (Tested t x cs) = list_all call_ok ((t, x) # cs)"
| "thread_ok (Inside f x cs) = ((f = Ui_on_hn_join \<longrightarrow> (\<exists>m. x = Mac m \<and> 6 \<le> length m)) \<and> list_all call_ok cs)"
| "thread_ok Done = True"

text \<open>While the dialog serves, a callback that was tested is still there when it is called.\<close>

fun still_there :: "(cor_notify_type \<Rightarrow> hn_callback option) \<Rightarrow> service_thread \<Rightarrow> bool" where
  "still_there cb (Tested t x cs) \<longleftrightarrow> cb t \<noteq> None"
| "still_there cb _ \<longleftrightarrow> True"

definition joins_right :: "wohn_ui \<Rightarrow> bool" where
  "joins_right s \<longleftrightarrow> (\<forall>t f. gNotifyCallBack s t = Some f \<longrightarrow> (f = Ui_on_hn_join \<longleftrightarrow> t = notify_join))"

definition closable :: "pointer multiset \<Rightarrow> wohn_ui \<Rightarrow> bool" where
  "closable E s \<longleftrightarrow> gInitialized s \<and> wlan_ready s \<and> com_refs s = E \<and> props_blocks s = {#} \<and> gNotifications s = 0 \<and> joins_right s"

fun left :: "gui_thread \<Rightarrow> cor_notify_type list" where
  "left Serving = notify_types"
| "left (Unregistering is) = is"
| "left Closing = []"

definition session_inv :: "pointer multiset \<Rightarrow> session \<Rightarrow> bool" where
  "session_inv E x \<longleftrightarrow>
     (case x of (g, ts, s) \<Rightarrow> list_all thread_ok ts \<and>
        (if ended s then released E s \<and> list_all (\<lambda>t. t = Done) ts
         else if g = Serving then ui_inv E s \<and> list_all (still_there (gNotifyCallBack s)) ts
         else closable E s \<and> (\<forall>t\<in>set notify_types. t \<notin> set (left g) \<longrightarrow> gNotifyCallBack s t = None)))"

lemma pending_ok: "notify_ok d \<Longrightarrow> list_all call_ok (pending d)"
  by (auto simp: pending_def call_ok_def notify_ok_def notify_types_def split: notification.splits option.splits hn_state.splits)

lemma wlan_ready_callbacks [simp]:
  "wlan_ready (s\<lparr>gNotifyCallBack := c\<rparr>) = wlan_ready s" "wlan_ready (s\<lparr>gNotifications := n\<rparr>) = wlan_ready s"
  by (simp_all add: wlan_ready_def settings_blocks_def)

lemma close_end_ok: "closable E s \<Longrightarrow> \<exists>t. close_end s = Some t \<and> ended t \<and> released E t"
  using wlan_deinitialize_ok[of s] by (auto simp: closable_def close_end_def released_def)

lemma begin_close_ok:
  assumes "ui_inv E s" "list_all thread_ok ts"
  shows "\<exists>x. begin_close ts s = Some x \<and> session_inv E x \<and> fst x \<noteq> Serving \<and> fst (snd x) = ts"
proof -
  obtain t where t: "cor_ics_deinitialize s = Some t" "com_refs t = E" "props_blocks t = {#}" "wlan_ready t" "gInitialized t"
    using ics_deinitialize_ok[OF ui_inv_coreD[OF assms(1)]] by blast
  have k: "gNotifyCallBack t = gNotifyCallBack s" "gNotifications t = gNotifications s"
    using t(1) by (auto simp: cor_ics_deinitialize_def RELEASE_S_def Release_def Let_def bind_eq_Some_conv split: if_splits)
  have n: "\<not> ended t" "joins_right t" "gNotifications s = int (length (registered s))"
    using ended_ics[OF t(1)] assms(1) k by (simp_all add: ui_inv_def core_inv_def joins_right_def)
  then have "gNotifications s = 0 \<Longrightarrow> \<forall>i\<in>set notify_types. gNotifyCallBack t i = None"
    by (simp add: k registered_def filter_empty_conv)
  with t n k assms(2) show ?thesis
    by (auto simp: begin_close_def session_inv_def closable_def joins_right_def)
qed

text \<open>Messages besides those two keep the dialog and its callbacks.\<close>

lemma event_serves:
  assumes "ui_inv E s" "ui_windows_ok w" "e \<noteq> Message WM_CLOSE" "e \<noteq> Message WM_INITDIALOG"
  shows "\<exists>t. ui_event_step w e s = Some t \<and> ui_inv E t"
proof (cases e)
  case (Message m)
  with assms command_ok[OF assms(1,2)] show ?thesis
    by (cases m) (fastforce simp: ui_event_step_def, auto simp: ui_event_step_def ui_dialogproc_def)
qed (use assms in \<open>simp_all add: ui_event_step_def\<close>)

lemma callbacks_stay:
  assumes "ui_event_step w e s = Some t" "e \<noteq> Message WM_CLOSE" "e \<noteq> Message WM_INITDIALOG" "ui_inv E s" "ui_windows_ok w"
  shows "gNotifyCallBack t = gNotifyCallBack s"
proof -
  have w: "windows_ok (core_world w)" "core_inv E s" using assms(4,5) by (simp_all add: ui_windows_ok_def ui_inv_def)
  have log: "gNotifyCallBack (ui_log_add w x y) = gNotifyCallBack y" for x y by (simp add: ui_log_add_def Let_def)
  have box: "gNotifyCallBack (ui_msgbox x ty y) = gNotifyCallBack y" for x ty y by (cases ty) (simp_all add: ui_msgbox_def)
  have set: "gNotifyCallBack u = gNotifyCallBack y" if "cor_wlan_set_ssid (core_world w) n y = Some (b, u)" for n b u and y :: wohn_ui
    using set_ssid_keeps[OF that] by (simp add: keeps_def)
  have hn: "gNotifyCallBack u = gNotifyCallBack s" if "ui_on_btn_hn_click w s = Some u" for u
    using that
    by (auto simp: ui_on_btn_hn_click_def update_ssid_def update_passwd_def Let_def bind_eq_Some_conv log box keeps_def
        dest!: set start_keeps stop_keeps split: if_splits)
  have "\<exists>b v. cor_ics_enable (core_world w) n s = Some (b, v) \<and> gNotifyCallBack v = gNotifyCallBack s" for n
    using ics_enable_ok[OF w(2,1), of n] by (auto simp: keeps_def)
  then have en: "gNotifyCallBack v = gNotifyCallBack s" if "cor_ics_enable (core_world w) n s = Some (b, v)" for n b v
    using that by (metis option.inject prod.inject)
  have dis: "gNotifyCallBack v = gNotifyCallBack s" if "cor_ics_disable (core_world w) s = Some v" for v
    using ics_disable_ok[OF w(2), of "core_world w"] keeps_frame[of s v] that by (auto simp: keeps_def)
  have ics: "gNotifyCallBack u = gNotifyCallBack s" if "ui_on_btn_ics_click w s = Some u" for u
    using that by (auto simp: ui_on_btn_ics_click_def Let_def bind_eq_Some_conv log box dest!: en dis split: if_splits)
  have dbl: "gNotifyCallBack u = gNotifyCallBack s" if "ui_on_lst_log_dblclick s = Some u" for u
    using that by (auto simp: ui_on_lst_log_dblclick_def Let_def box split: if_splits)
  show ?thesis
  proof (cases e)
    case (Message m)
    then show ?thesis
      using assms(1-3) hn ics dbl
      by (cases m) (auto simp: ui_event_step_def ui_dialogproc_def ui_on_btn_clr_click_def ui_log_clear_def bind_eq_Some_conv split: if_splits)
  qed (use assms(1) in \<open>auto simp: ui_event_step_def\<close>)
qed

text \<open>The step at which a thread calls a callback that was removed after it was tested.\<close>

fun null_call :: "session \<Rightarrow> session_event \<Rightarrow> bool" where
  "null_call (g, ts, s) (Service i) \<longleftrightarrow>
     i < length ts \<and> (case ts ! i of Tested t x cs \<Rightarrow> gNotifyCallBack s t = None | _ \<Rightarrow> False)"
| "null_call _ _ \<longleftrightarrow> False"

fun session_event_ok :: "session_event \<Rightarrow> bool" where
  "session_event_ok (Notify d) = notify_ok d"
| "session_event_ok _ = True"

lemma serving_inv: "session_inv E (Serving, ts, s) \<Longrightarrow> \<not> ended s \<Longrightarrow> ui_inv E s \<and> list_all thread_ok ts \<and> list_all (still_there (gNotifyCallBack s)) ts"
  by (simp add: session_inv_def)

lemma closing_inv:
  "session_inv E (g, ts, s) \<Longrightarrow> \<not> ended s \<Longrightarrow> g \<noteq> Serving \<Longrightarrow>
    closable E s \<and> list_all thread_ok ts \<and> (\<forall>t\<in>set notify_types. t \<notin> set (left g) \<longrightarrow> gNotifyCallBack s t = None)"
  by (simp add: session_inv_def)

lemma user_step_ok:
  assumes "session_inv E (g, ts, s)" "ui_windows_ok w"
  shows "\<exists>y. session_step w (User e) (g, ts, s) = Some y \<and> session_inv E y"
proof (cases "ended s \<or> g \<noteq> Serving")
  case False
  then have g: "g = Serving" and i: "ui_inv E s" "list_all thread_ok ts" "list_all (still_there (gNotifyCallBack s)) ts" "\<not> ended s"
    using assms(1) serving_inv by auto
  consider "e = Message WM_CLOSE" | "e = Message WM_INITDIALOG" | "e \<noteq> Message WM_CLOSE" "e \<noteq> Message WM_INITDIALOG" by blast
  then show ?thesis
  proof cases
    case 1
    with begin_close_ok[OF i(1,2)] g i(4) show ?thesis by auto
  next
    case 2
    let ?s = "s\<lparr>gHNStarted := False, gNCShared := False\<rparr>"
    have "gInitialized ?s" using i(1) by (simp add: ui_inv_def core_inv_def)
    then have "ui_on_initdialog w s = Some (False, ui_msgbox SMB_INITFAIL MT_ERROR ?s)"
      by (simp add: ui_on_initdialog_def cor_initialize_def)
    with begin_close_ok[of E "ui_msgbox SMB_INITFAIL MT_ERROR ?s" ts] g i 2 show ?thesis by auto
  next
    case 3
    have "\<not> ended t" if "ui_inv E t" for t using that by (simp add: ui_inv_def)
    moreover obtain t where t: "ui_event_step w e s = Some t" "ui_inv E t"
      using event_serves[OF i(1) assms(2) 3] by blast
    ultimately show ?thesis using 3 g i callbacks_stay[OF t(1) 3 i(1) assms(2)] by (auto simp: session_inv_def)
  qed
qed (use assms in auto)

lemma notify_step_ok:
  assumes "session_inv E (g, ts, s)" "notify_ok d"
  shows "\<exists>y. session_step w (Notify d) (g, ts, s) = Some y \<and> session_inv E y"
  using assms by (auto simp: session_inv_def)

lemma dialog_step_ok:
  assumes "session_inv E (g, ts, s)"
  shows "\<exists>y. session_step w Dialog (g, ts, s) = Some y \<and> session_inv E y"
proof (cases "ended s \<or> g = Serving")
  case False
  note i = closing_inv[OF assms]
  show ?thesis
  proof (cases g)
    case (Unregistering js)
    have "closable E (s\<lparr>gNotifyCallBack := (gNotifyCallBack s)(t := None)\<rparr>)" for t
      using i False by (auto simp: closable_def joins_right_def)
    with Unregistering i False show ?thesis by (cases js) (auto simp: session_inv_def)
  next
    case Closing
    have "gInitialized s" using i Closing False by (simp add: closable_def)
    show ?thesis
    proof (cases "list_all (\<lambda>t. t = Done) ts")
      case True
      obtain t where t: "close_end s = Some t" "ended t" "released E t" using close_end_ok[of E s] Closing i False by auto
      with True Closing False have "session_step w Dialog (g, ts, s) = Some (Closing, ts, t)" by simp
      moreover have "session_inv E (Closing, ts, t)" using t True i Closing False by (simp add: session_inv_def)
      ultimately show ?thesis by blast
    qed (use \<open>gInitialized s\<close> Closing assms in simp)
  qed (use False in simp)
qed (use assms in auto)

lemma thread_kept:
  assumes "session_inv E (g, ts, s)" "thread_ok t" "still_there (gNotifyCallBack s) t" "\<not> ended s"
  shows "session_inv E (g, ts[i := t], s)"
  using assms by (auto simp: session_inv_def list_all_iff dest!: set_update_subset_insert[THEN subsetD])

lemma service_step_ok:
  assumes "session_inv E (g, ts, s)" "ui_windows_ok w"
  shows "if null_call (g, ts, s) (Service i) then session_step w (Service i) (g, ts, s) = None
    else \<exists>y. session_step w (Service i) (g, ts, s) = Some y \<and> session_inv E y"
proof (cases "i < length ts")
  case True
  have ok: "thread_ok (ts ! i)" using assms(1) True by (simp add: session_inv_def list_all_length)
  show ?thesis
  proof (cases "ended s")
    case e: True
    then have "ts ! i = Done" using assms(1) True by (simp add: session_inv_def list_all_length)
    then have "ts[i := Done] = ts" using list_update_id[of ts i] by simp
    with assms True e \<open>ts ! i = Done\<close> show ?thesis by simp
  next
    case False
    have r: "section_ready s"
      using assms(1) False by (auto simp: session_inv_def ui_inv_def core_inv_def closable_def wlan_ready_def split: if_splits)
    have j: "joins_right s"
      using assms(1) False by (auto simp: session_inv_def ui_inv_def joins_right_def closable_def split: if_splits)
    note keep = thread_kept[OF assms(1) _ _ False, of _ i]
    show ?thesis
    proof (cases "ts ! i")
      case (Inside f x cs)
      show ?thesis
      proof (cases "g = Serving")
        case g: True
        with assms(1) False have u: "ui_inv E s" by (simp add: session_inv_def)
        obtain t where t: "run_callback w (f, x) s = Some t" "ui_inv E t"
          using callback_ok[OF u, of "(f, x)" w] ok Inside by auto
        have "session_inv E (g, ts[i := Calling cs], t)"
          using keep[of "Calling cs"] ok Inside t run_callback_keeps[OF t(1)] False g by (auto simp: session_inv_def)
        with t True Inside g False show ?thesis by simp
      next
        case False
        moreover have "ts[i := Inside f x cs] = ts" using list_update_id[of ts i] Inside by simp
        ultimately show ?thesis using True Inside assms(1) by simp
      qed
    next
      case (Calling cs)
      with keep ok r True show ?thesis by (cases cs) auto
    next
      case (Tested t x cs)
      with keep[of "Inside f x cs" for f] ok r True j show ?thesis
        by (cases "gNotifyCallBack s t") (auto simp: joins_right_def call_ok_def)
    qed (use keep ok r True pending_ok in auto)
  qed
qed (use assms in simp)

lemma step_ok:
  assumes "session_inv E x" "ui_windows_ok w" "session_event_ok e"
  shows "if null_call x e then session_step w e x = None else \<exists>y. session_step w e x = Some y \<and> session_inv E y"
proof -
  obtain g ts s where x: "x = (g, ts, s)" by (cases x)
  show ?thesis
  proof (cases e)
    case (User e)
    with x assms user_step_ok[of E g ts s w e] show ?thesis by (auto simp del: session_step.simps)
  next
    case (Notify d)
    with x assms notify_step_ok[of E g ts s d w] show ?thesis by (auto simp del: session_step.simps)
  next
    case (Service i)
    from service_step_ok[OF assms(1)[unfolded x] assms(2), of i] show ?thesis unfolding x Service .
  next
    case Dialog
    with x assms dialog_step_ok[of E g ts s w] show ?thesis by (auto simp del: session_step.simps)
  qed
qed

lemma run_ok:
  "session_inv E x \<Longrightarrow> ui_windows_ok w \<Longrightarrow> list_all session_event_ok es \<Longrightarrow>
    (\<exists>y. session_run w es x = Some y \<and> session_inv E y) \<or>
    session_run w es x = None \<and> (\<exists>es1 e es2 y. es = es1 @ e # es2 \<and> session_run w es1 x = Some y \<and> session_inv E y \<and> null_call y e)"
proof (induction es arbitrary: x)
  case (Cons e es)
  show ?case
  proof (cases "null_call x e")
    case True
    with step_ok[OF Cons.prems(1,2), of e] Cons.prems have "session_run w (e # es) x = None" by simp
    with True Cons.prems(1) show ?thesis by (metis append_Nil session_run.simps(1))
  next
    case False
    then obtain y where y: "session_step w e x = Some y" "session_inv E y"
      using step_ok[OF Cons.prems(1,2), of e] Cons.prems(3) by auto
    from Cons.IH[OF y(2) Cons.prems(2)] Cons.prems(3) consider z where "session_run w es y = Some z" "session_inv E z"
      | es1 f es2 z where "session_run w es y = None" "es = es1 @ f # es2" "session_run w es1 y = Some z" "session_inv E z" "null_call z f"
      by auto
    then show ?thesis
    proof cases
      case 2
      then have "e # es = (e # es1) @ f # es2" "session_run w (e # es1) x = Some z" "session_run w (e # es) x = None" using y by simp_all
      with 2 show ?thesis by blast
    qed (use y in simp)
  qed
qed simp

lemma null_call_faults: "null_call x e \<Longrightarrow> session_step w e x = None"
  by (cases "(x, e)" rule: null_call.cases) (auto split: service_thread.splits)

lemma null_call_closing: "session_inv E (g, ts, s) \<Longrightarrow> null_call (g, ts, s) e \<Longrightarrow> g \<noteq> Serving \<and> \<not> ended s"
  by (cases e; cases "ended s"; cases "g = Serving"; fastforce simp: session_inv_def list_all_length split: service_thread.splits)

section \<open>Reaching the end\<close>

text \<open>A thread that tested a callback or is in one when the dialog is being closed does not come out again.\<close>

fun committed :: "service_thread \<Rightarrow> bool" where
  "committed (Tested _ _ _) = True"
| "committed (Inside _ _ _) = True"
| "committed _ = False"

lemma thread_committed:
  "thread_step w False free t s = Some (t', s') \<Longrightarrow> s' = s \<and> (committed t \<longrightarrow> committed t')"
  by (cases "(w, False, free, t, s)" rule: thread_step.cases) (auto split: if_splits option.splits)

lemma committed_step:
  assumes "session_step w e (g, ts, s) = Some (g', ts', s')" "list_ex committed ts" "g \<noteq> Serving" "\<not> ended s" "gInitialized s"
  shows "list_ex committed ts' \<and> g' \<noteq> Serving \<and> \<not> ended s' \<and> gInitialized s'"
proof (cases e)
  case (Notify d)
  with assms show ?thesis by (auto split: if_splits)
next
  case (Service i)
  show ?thesis
  proof (cases "i < length ts")
    case True
    with assms(1,3) Service obtain t where t: "thread_step w False (\<not> list_ex in_section ts) (ts ! i) s = Some (t, s')"
      "ts' = ts[i := t]" "g' = g" by (auto simp: bind_eq_Some_conv)
    from assms(2) obtain k where k: "k < length ts" "committed (ts ! k)" by (auto simp: list_ex_length)
    from thread_committed[OF t(1)] k t(2) True have "committed (ts' ! k)" "s' = s" by (cases "k = i"; auto)+
    with assms k(1) t(2,3) show ?thesis by (auto simp: list_ex_length)
  qed (use assms Service in auto)
next
  case Dialog
  have "\<not> list_all (\<lambda>t. t = Done) ts" using assms(2) by (induction ts) auto
  with assms Dialog show ?thesis
    by (cases g; cases "left g") auto
qed (use assms in auto)

lemma committed_stuck:
  "session_run w es (g, ts, s) = Some (g', ts', s') \<Longrightarrow> list_ex committed ts \<Longrightarrow> g \<noteq> Serving \<Longrightarrow> \<not> ended s \<Longrightarrow> gInitialized s \<Longrightarrow> \<not> ended s'"
proof (induction es arbitrary: g ts s)
  case (Cons e es)
  then obtain g1 ts1 s1 where 1: "session_step w e (g, ts, s) = Some (g1, ts1, s1)" "session_run w es (g1, ts1, s1) = Some (g', ts', s')"
    by (auto simp: bind_eq_Some_conv simp del: session_step.simps)
  from committed_step[OF 1(1) Cons.prems(2-5)] Cons.IH[OF 1(2)] show ?case by blast
qed simp

text \<open>The other threads leave, whoever holds the section first.\<close>

fun way_left :: "service_thread \<Rightarrow> nat" where
  "way_left (Arrived d) = 3 + 3 * length (pending d)"
| "way_left (Entering d) = 2 + 3 * length (pending d)"
| "way_left (Calling cs) = 1 + 3 * length cs"
| "way_left (Tested t x cs) = 3 + 3 * length cs"
| "way_left (Inside f x cs) = 2 + 3 * length cs"
| "way_left Done = 0"

lemma thread_advances:
  "thread_step w serves free t s = Some (t', s') \<Longrightarrow> t \<noteq> Done \<Longrightarrow> free \<or> in_section t \<Longrightarrow> serves \<or> \<not> committed t \<Longrightarrow>
    way_left t' < way_left t \<and> ended s' = ended s"
  by (cases "(w, serves, free, t, s)" rule: thread_step.cases) (auto split: if_splits option.splits dest: run_callback_keeps)

definition drains :: "session \<Rightarrow> bool" where
  "drains x \<longleftrightarrow> (case x of (g, ts, s) \<Rightarrow> \<not> ended s \<and> (g = Serving \<or> g = Closing \<and> \<not> list_ex committed ts))"

lemma closing_thread:
  "thread_step w serves free t s = Some (t', s') \<Longrightarrow> thread_ok t \<Longrightarrow> \<forall>i\<in>set notify_types. gNotifyCallBack s i = None \<Longrightarrow>
    \<not> committed t \<Longrightarrow> \<not> committed t'"
  by (cases "(w, serves, free, t, s)" rule: thread_step.cases) (auto simp: call_ok_def split: if_splits)

lemma some_thread:
  assumes "\<not> list_all (\<lambda>t. t = Done) ts"
  shows "\<exists>i < length ts. ts ! i \<noteq> Done \<and> (\<not> list_ex in_section ts \<or> in_section (ts ! i))"
proof (cases "list_ex in_section ts")
  case True
  then obtain i where "i < length ts" "in_section (ts ! i)" by (auto simp: list_ex_length)
  moreover from this(2) have "ts ! i \<noteq> Done" by auto
  ultimately show ?thesis by blast
qed (use assms in \<open>auto simp: list_all_length\<close>)

lemma drains_step:
  assumes "session_inv E (g, ts, s)" "ui_windows_ok w" "drains (g, ts, s)" "\<not> list_all (\<lambda>t. t = Done) ts"
  shows "\<exists>i ts' s'. session_step w (Service i) (g, ts, s) = Some (g, ts', s') \<and> session_inv E (g, ts', s') \<and> drains (g, ts', s') \<and>
    length ts' = length ts \<and> sum_list (map way_left ts') < sum_list (map way_left ts)"
proof -
  obtain i where i: "i < length ts" "ts ! i \<noteq> Done" "\<not> list_ex in_section ts \<or> in_section (ts ! i)"
    using some_thread[OF assms(4)] by blast
  have nc: "g = Serving \<or> g = Closing \<and> \<not> committed (ts ! i)"
    using assms(3) i(1) by (auto simp: drains_def list_ex_length)
  have "\<not> null_call (g, ts, s) (Service i)"
  proof
    assume n: "null_call (g, ts, s) (Service i)"
    from null_call_closing[OF assms(1) n] nc have "\<not> committed (ts ! i)" by simp
    with n show False by (auto split: service_thread.splits)
  qed
  then obtain y where y: "session_step w (Service i) (g, ts, s) = Some y" "session_inv E y"
    using service_step_ok[OF assms(1,2), of i] by (auto simp del: session_step.simps null_call.simps)
  from y(1) i(1) obtain t s' where t: "thread_step w (g = Serving \<and> \<not> ended s) (\<not> list_ex in_section ts) (ts ! i) s = Some (t, s')"
    "y = (g, ts[i := t], s')" by (auto simp: bind_eq_Some_conv)
  have e: "\<not> ended s" using assms(3) by (simp add: drains_def)
  have a: "way_left t < way_left (ts ! i)" "\<not> ended s'" using thread_advances[OF t(1) i(2,3)] nc e by auto
  have "\<not> committed t" if "g = Closing"
  proof -
    have c: "thread_ok (ts ! i)" "\<forall>t\<in>set notify_types. gNotifyCallBack s t = None" "\<not> committed (ts ! i)"
      using assms(1) e that nc i(1) by (auto simp: session_inv_def list_all_length)
    with closing_thread[OF t(1)] show ?thesis by blast
  qed
  then have "drains y"
    using assms(3) a t(2) by (auto simp: drains_def list_ex_iff dest!: set_update_subset_insert[THEN subsetD])
  moreover have "sum_list (map way_left (ts[i := t])) < sum_list (map way_left ts)"
    using a(1) i(1) elem_le_sum_list[of i "map way_left ts"] by (simp add: map_update sum_list_update)
  ultimately show ?thesis using y unfolding t(2) by (metis length_list_update)
qed

lemma drain:
  "session_inv E (g, ts, s) \<Longrightarrow> ui_windows_ok w \<Longrightarrow> drains (g, ts, s) \<Longrightarrow>
    \<exists>is ts' s'. session_run w (map Service is) (g, ts, s) = Some (g, ts', s') \<and> session_inv E (g, ts', s') \<and> drains (g, ts', s') \<and>
      list_all (\<lambda>t. t = Done) ts'"
proof (induction "sum_list (map way_left ts)" arbitrary: ts s rule: less_induct)
  case less
  show ?case
  proof (cases "list_all (\<lambda>t. t = Done) ts")
    case True
    then have "session_run w (map Service []) (g, ts, s) = Some (g, ts, s)" by simp
    with True less.prems show ?thesis by blast
  next
    case False
    obtain i ts1 s1 where 1: "session_step w (Service i) (g, ts, s) = Some (g, ts1, s1)" "session_inv E (g, ts1, s1)" "drains (g, ts1, s1)"
      "sum_list (map way_left ts1) < sum_list (map way_left ts)" using drains_step[OF less.prems False] by blast
    from less.hyps[OF 1(4,2) less.prems(2) 1(3)] obtain js ts' s' where
      "session_run w (map Service js) (g, ts1, s1) = Some (g, ts', s')" "session_inv E (g, ts', s')" "drains (g, ts', s')"
      "list_all (\<lambda>t. t = Done) ts'" by blast
    with 1(1) show ?thesis by (intro exI[of _ "i # js"]) (auto simp del: session_step.simps)
  qed
qed

definition can_end :: "ui_world \<Rightarrow> session \<Rightarrow> bool" where
  "can_end w x \<longleftrightarrow> (\<exists>es g ts s. session_run w es x = Some (g, ts, s) \<and> ended s)"

lemma can_end_run: "session_run w es x = Some y \<Longrightarrow> can_end w y \<Longrightarrow> can_end w x"
  unfolding can_end_def by (metis bind.bind_lunit session_run_append)

lemma closing_ends:
  assumes "session_inv E (Closing, ts, s)" "ui_windows_ok w" "\<not> ended s" "\<not> list_ex committed ts"
  shows "can_end w (Closing, ts, s)"
proof -
  obtain js ts' s' where d: "session_run w (map Service js) (Closing, ts, s) = Some (Closing, ts', s')" "session_inv E (Closing, ts', s')"
    "drains (Closing, ts', s')" "list_all (\<lambda>t. t = Done) ts'"
    using drain[OF assms(1,2)] assms(3,4) by (auto simp: drains_def)
  then obtain t where "close_end s' = Some t" "ended t" using close_end_ok[of E s'] by (auto simp: session_inv_def drains_def)
  with d(3,4) have "session_run w [Dialog] (Closing, ts', s') = Some (Closing, ts', t)" by (simp add: drains_def)
  with \<open>ended t\<close> have "can_end w (Closing, ts', s')" unfolding can_end_def by blast
  with can_end_run[OF d(1)] show ?thesis by simp
qed

lemma unregistering_ends:
  "session_inv E (Unregistering is, ts, s) \<Longrightarrow> ui_windows_ok w \<Longrightarrow> \<not> ended s \<Longrightarrow> \<not> list_ex committed ts \<Longrightarrow>
    can_end w (Unregistering is, ts, s)"
proof (induction "is" arbitrary: s)
  case Nil
  then have "session_run w [Dialog] (Unregistering [], ts, s) = Some (Closing, ts, s)" "session_inv E (Closing, ts, s)"
    by (simp_all add: session_inv_def)
  with closing_ends Nil can_end_run show ?case by metis
next
  case (Cons i js)
  let ?s = "s\<lparr>gNotifyCallBack := (gNotifyCallBack s)(i := None)\<rparr>"
  have run: "session_run w [Dialog] (Unregistering (i # js), ts, s) = Some (Unregistering js, ts, ?s)" using Cons.prems(3) by simp
  have "session_inv E (Unregistering js, ts, ?s)"
    using dialog_step_ok[OF Cons.prems(1), of w] Cons.prems(3) by auto
  then have "can_end w (Unregistering js, ts, ?s)" by (rule Cons.IH) (use Cons.prems in auto)
  with can_end_run[OF run] show ?case by simp
qed

lemma serving_ends:
  assumes "session_inv E (Serving, ts, s)" "ui_windows_ok w" "\<not> ended s"
  shows "can_end w (Serving, ts, s)"
proof -
  obtain js ts' s' where d: "session_run w (map Service js) (Serving, ts, s) = Some (Serving, ts', s')" "session_inv E (Serving, ts', s')"
    "drains (Serving, ts', s')" "list_all (\<lambda>t. t = Done) ts'"
    using drain[OF assms(1,2)] assms(3) by (auto simp: drains_def)
  have e: "\<not> ended s'" using d(3) by (simp add: drains_def)
  obtain x where x: "begin_close ts' s' = Some x" "session_inv E x" "fst x \<noteq> Serving" "fst (snd x) = ts'"
    using begin_close_ok[of E s' ts'] serving_inv[OF d(2) e] by blast
  obtain g u where g: "x = (g, ts', u)" using x(4) by (cases x) auto
  have n: "\<not> list_ex committed ts'" using d(4) by (auto simp: list_all_iff list_ex_iff)
  have "can_end w x"
  proof (cases "ended u")
    case False
    with closing_ends[of E ts' u w] unregistering_ends[of E _ ts' u w] x g n assms(2) show ?thesis by (cases g) auto
  next
    case True
    then have "session_run w [] x = Some (g, ts', u)" using g by simp
    with True show ?thesis unfolding can_end_def by blast
  qed
  moreover have "session_run w [User (Message WM_CLOSE)] (Serving, ts', s') = Some x" using e x(1) by simp
  ultimately show ?thesis using can_end_run d(1) by metis
qed

lemma ends_iff:
  assumes "session_inv E (g, ts, s)" "ui_windows_ok w" "\<not> ended s"
  shows "can_end w (g, ts, s) \<longleftrightarrow> g = Serving \<or> \<not> list_ex committed ts"
proof
  assume "can_end w (g, ts, s)"
  then obtain es g' ts' s' where r: "session_run w es (g, ts, s) = Some (g', ts', s')" "ended s'" by (auto simp: can_end_def)
  show "g = Serving \<or> \<not> list_ex committed ts"
  proof (rule ccontr)
    assume "\<not> (g = Serving \<or> \<not> list_ex committed ts)"
    with committed_stuck[OF r(1)] closing_inv[OF assms(1,3)] assms(3) r(2) show False by (auto simp: closable_def)
  qed
next
  assume "g = Serving \<or> \<not> list_ex committed ts"
  with serving_ends unregistering_ends closing_ends assms show "can_end w (g, ts, s)" by (cases g) blast+
qed

section \<open>Sessions\<close>

lemma build_run:
  assumes "ui_on_initdialog w s = Some (True, u)" "\<not> ended s"
  shows "ui_build w es s = session_run w es (Serving, [], u)"
  using assms by (simp add: ui_build_def)

text \<open>
  C38. The dialog was created and the WLAN service calls \<^verbatim>\<open>cor_wlan_notification\<close> on threads of its own, in whatever
  order their steps and the messages come. The only fault is the call of a callback that was removed between the two times
  that \<^verbatim>\<open>CALL_S\<close> reads it, while the dialog is being closed. Otherwise, once the dialog ended, it released its handle,
  its property blocks, the critical section and (unless a connection was shared before) its references. Until then it can
  still be ended, except when it is being closed and a thread has tested a callback or is in one: then it never ends.
\<close>

theorem dialog_session:
  assumes "ui_fresh s" "ui_windows_ok w" "ui_on_initdialog w s = Some (True, u)" "list_all session_event_ok es"
  shows "(ui_build w es s = None \<longleftrightarrow>
      (\<exists>es1 e es2 g ts t. es = es1 @ e # es2 \<and> ui_build w es1 s = Some (g, ts, t) \<and> g \<noteq> Serving \<and> null_call (g, ts, t) e)) \<and>
    (\<forall>g ts t. ui_build w es s = Some (g, ts, t) \<longrightarrow>
      (if ended t then
         wlan_handles t = {#} \<and> props_blocks t = {#} \<and> \<not> section_ready t \<and> \<not> gInitialized t \<and> (unshared (core_world w) \<longrightarrow> com_refs t = {#})
       else can_end w (g, ts, t) \<longleftrightarrow> g = Serving \<or> \<not> list_ex committed ts))"
proof -
  have s: "\<not> ended s" using assms(1) by (simp add: ui_fresh_def)
  note b = build_run[OF assms(3) s]
  obtain E where E: "ui_inv E u" "unshared (core_world w) \<longrightarrow> E = {#}" using initdialog_ok[OF assms(1,2)] assms(3) by auto
  then have i: "session_inv E (Serving, [], u)" by (simp add: session_inv_def ui_inv_def)
  note r = run_ok[OF i assms(2,4)]
  have faults: "\<exists>es1 e es2 g ts t. es = es1 @ e # es2 \<and> ui_build w es1 s = Some (g, ts, t) \<and> g \<noteq> Serving \<and> null_call (g, ts, t) e"
    if "ui_build w es s = None"
  proof -
    from r that obtain es1 e es2 y where
      "es = es1 @ e # es2" "session_run w es1 (Serving, [], u) = Some y" "session_inv E y" "null_call y e" unfolding b by auto
    moreover obtain g ts t where y: "y = (g, ts, t)" by (cases y)
    ultimately have "es = es1 @ e # es2 \<and> ui_build w es1 s = Some (g, ts, t) \<and> g \<noteq> Serving \<and> null_call (g, ts, t) e"
      using null_call_closing[of E g ts t e] b by simp
    then show ?thesis by fastforce
  qed
  have stops: "ui_build w (es1 @ e # es2) s = None" if "ui_build w es1 s = Some y" "null_call y e" for es1 e es2 y
    using that null_call_faults[OF that(2)] by (simp add: b session_run_append del: session_step.simps null_call.simps)
  have "ui_build w es s = None \<longleftrightarrow>
      (\<exists>es1 e es2 g ts t. es = es1 @ e # es2 \<and> ui_build w es1 s = Some (g, ts, t) \<and> g \<noteq> Serving \<and> null_call (g, ts, t) e)"
  proof (rule iffI, erule faults)
    assume "\<exists>es1 e es2 g ts t. es = es1 @ e # es2 \<and> ui_build w es1 s = Some (g, ts, t) \<and> g \<noteq> Serving \<and> null_call (g, ts, t) e"
    then show "ui_build w es s = None" by (elim exE conjE) (simp only: stops)
  qed
  moreover have "if ended t then
       wlan_handles t = {#} \<and> props_blocks t = {#} \<and> \<not> section_ready t \<and> \<not> gInitialized t \<and> (unshared (core_world w) \<longrightarrow> com_refs t = {#})
     else can_end w (g, ts, t) \<longleftrightarrow> g = Serving \<or> \<not> list_ex committed ts" if "ui_build w es s = Some (g, ts, t)" for g ts t
  proof -
    have v: "session_inv E (g, ts, t)" using r that unfolding b by auto
    show ?thesis
    proof (cases "ended t")
      case True
      with v E(2) show ?thesis by (auto simp: session_inv_def released_def)
    qed (simp add: ends_iff[OF v assms(2)])
  qed
  ultimately show ?thesis by (intro conjI allI impI)
qed

text \<open>
  Both ways in which closing goes wrong happen: a peer joined, its thread entered the callback before the user closes the
  dialog (the callback waits for the dialog, the dialog for the callback), or it only tested the callback.
\<close>

definition lab_join :: session_event where
  "lab_join = Notify \<lparr>from_hosted_network = True, code = Peer_state_change (Some ([1, 2, 3, 4, 5, 6], peer_state_authenticated)) sizeof_PEER_STATE_CHANGE\<rparr>"

definition lab_close :: "session_event list" where
  "lab_close = User (Message WM_CLOSE) # replicate 8 Dialog"

theorem dialog_session_witness:
  "(\<exists>t. ui_build lab_ui_world (lab_join # replicate 6 (Service 0) @ lab_close @ [Dialog]) lab_dialog = Some (Closing, [Done], t) \<and> ended t \<and>
     wlan_handles t = {#} \<and> com_refs t = {#}) \<and>
   (\<exists>f x t. ui_build lab_ui_world (lab_join # replicate 4 (Service 0) @ lab_close) lab_dialog = Some (Closing, [Inside f x []], t) \<and>
     \<not> ended t \<and> \<not> can_end lab_ui_world (Closing, [Inside f x []], t)) \<and>
   ui_build lab_ui_world (lab_join # replicate 3 (Service 0) @ lab_close @ [Service 0]) lab_dialog = None"
proof -
  obtain u where u: "ui_on_initdialog lab_ui_world lab_dialog = Some (True, u)" using lab_dialog_created by blast
  note d = dialog_session[OF lab_dialog_fresh lab_ui_ok u]
  have "map_option (\<lambda>(g, ts, s). (g, ts, ended s)) (ui_build lab_ui_world (lab_join # replicate 6 (Service 0) @ lab_close @ [Dialog]) lab_dialog) = Some (Closing, [Done], True)"
    by code_simp
  then obtain t where 1: "ui_build lab_ui_world (lab_join # replicate 6 (Service 0) @ lab_close @ [Dialog]) lab_dialog = Some (Closing, [Done], t)"
    "ended t" by auto
  have "map_option (\<lambda>(g, ts, s). (g, ts, ended s)) (ui_build lab_ui_world (lab_join # replicate 4 (Service 0) @ lab_close) lab_dialog) =
      Some (Closing, [Inside Ui_on_hn_join (Mac [1, 2, 3, 4, 5, 6]) []], False)"
    by code_simp
  then obtain v where 2: "ui_build lab_ui_world (lab_join # replicate 4 (Service 0) @ lab_close) lab_dialog =
      Some (Closing, [Inside Ui_on_hn_join (Mac [1, 2, 3, 4, 5, 6]) []], v)" "\<not> ended v" by auto
  have "map_option (\<lambda>_. ()) (ui_build lab_ui_world (lab_join # replicate 3 (Service 0) @ lab_close @ [Service 0]) lab_dialog) = None"
    by code_simp
  moreover have "list_all session_event_ok (lab_join # replicate n (Service 0) @ lab_close @ es)" if "list_all session_event_ok es" for n es
    using that by (simp add: lab_join_def lab_close_def notify_ok_def list_all_iff ball_Un)
  note ok = this[of "[]" 4] this[of "[Dialog]" 6]
  from d[of "lab_join # replicate 6 (Service 0) @ lab_close @ [Dialog]"] ok(2) 1 lab_unshared
  have "wlan_handles t = {#} \<and> com_refs t = {#}" by (simp add: lab_core_world)
  moreover from d[of "lab_join # replicate 4 (Service 0) @ lab_close"] ok(1) 2
  have "\<not> can_end lab_ui_world (Closing, [Inside Ui_on_hn_join (Mac [1, 2, 3, 4, 5, 6]) []], v)" by simp
  ultimately show ?thesis using 1 2 by auto
qed

end
