(* ===== verification/Zik_Mem.thy ===== *)
theory Zik_Mem
  imports LDasm
begin

unbundle bit_operations_syntax

text \<open>
  The data of the driver \<^verbatim>\<open>zik\<close>: C structure layouts with packing and alignment, the structures
  of \<^verbatim>\<open>PE.h\<close>, \<^verbatim>\<open>misc.h\<close> and \<^verbatim>\<open>ds.h\<close>, and little-endian access to the 32-bit memory of \<open>LDasm\<close>.
\<close>

section \<open>Structure layout\<close>

text \<open>Scalars are given by their size in bytes; pointers and \<^verbatim>\<open>ULONG\<close>s have four.\<close>

datatype ctype =
    Scalar nat
  | Array nat ctype
  | Struct "(string \<times> ctype) list"
  | Union "(string \<times> ctype) list"

definition align_up :: "nat \<Rightarrow> nat \<Rightarrow> nat" where
  "align_up n a = (if a = 0 then n else (n + a - 1) div a * a)"

text \<open>Alignment and size under \<^verbatim>\<open>#pragma pack(pack)\<close>.\<close>

fun alignof :: "nat \<Rightarrow> ctype \<Rightarrow> nat" and fields_align :: "nat \<Rightarrow> (string \<times> ctype) list \<Rightarrow> nat" where
  "alignof pack (Scalar n) = min n pack"
| "alignof pack (Array k t) = alignof pack t"
| "alignof pack (Struct fs) = fields_align pack fs"
| "alignof pack (Union fs) = fields_align pack fs"
| "fields_align pack [] = 1"
| "fields_align pack ((x, t) # fs) = max (alignof pack t) (fields_align pack fs)"

fun sizeof :: "nat \<Rightarrow> ctype \<Rightarrow> nat"
  and fields_end :: "nat \<Rightarrow> nat \<Rightarrow> (string \<times> ctype) list \<Rightarrow> nat"
  and fields_max :: "nat \<Rightarrow> (string \<times> ctype) list \<Rightarrow> nat" where
  "sizeof pack (Scalar n) = n"
| "sizeof pack (Array k t) = k * sizeof pack t"
| "sizeof pack (Struct fs) = align_up (fields_end pack 0 fs) (fields_align pack fs)"
| "sizeof pack (Union fs) = align_up (fields_max pack fs) (fields_align pack fs)"
| "fields_end pack off [] = off"
| "fields_end pack off ((x, t) # fs) = fields_end pack (align_up off (alignof pack t) + sizeof pack t) fs"
| "fields_max pack [] = 0"
| "fields_max pack ((x, t) # fs) = max (sizeof pack t) (fields_max pack fs)"

text \<open>\<^verbatim>\<open>FIELD_OFFSET\<close>: the fields of a structure with their offsets\<close>

fun layout :: "nat \<Rightarrow> nat \<Rightarrow> (string \<times> ctype) list \<Rightarrow> (string \<times> nat \<times> nat) list" where
  "layout pack off [] = []"
| "layout pack off ((x, t) # fs) =
     (let o1 = align_up off (alignof pack t) in (x, o1, sizeof pack t) # layout pack (o1 + sizeof pack t) fs)"

definition offset_of :: "nat \<Rightarrow> (string \<times> ctype) list \<Rightarrow> string \<Rightarrow> nat option" where
  "offset_of pack fs x = map_option fst (map_of (layout pack 0 fs) x)"

abbreviation UCHAR :: ctype where "UCHAR \<equiv> Scalar 1"
abbreviation USHORT :: ctype where "USHORT \<equiv> Scalar 2"
abbreviation ULONG :: ctype where "ULONG \<equiv> Scalar 4"
abbreviation PTR :: ctype where "PTR \<equiv> Scalar 4"
abbreviation LARGE_INTEGER :: ctype where "LARGE_INTEGER \<equiv> Scalar 8"
abbreviation LIST_ENTRY :: ctype where "LIST_ENTRY \<equiv> Struct [(''Flink'', PTR), (''Blink'', PTR)]"
abbreviation UNICODE_STRING :: ctype where
  "UNICODE_STRING \<equiv> Struct [(''Length'', USHORT), (''MaximumLength'', USHORT), (''Buffer'', PTR)]"

section \<open>The structures of PE.h\<close>

definition IMAGE_SECTION_HEADER :: "(string \<times> ctype) list" where
  "IMAGE_SECTION_HEADER =
     [(''Name'', Array 8 UCHAR),
      (''Misc'', Union [(''PhysicalAddress'', ULONG), (''VirtualSize'', ULONG)]),
      (''VirtualAddress'', ULONG), (''SizeOfRawData'', ULONG), (''PointerToRawData'', ULONG),
      (''PointerToRelocations'', ULONG), (''PointerToLinenumbers'', ULONG),
      (''NumberOfRelocations'', USHORT), (''NumberOfLinenumbers'', USHORT), (''Characteristics'', ULONG)]"

definition IMAGE_DOS_HEADER :: "(string \<times> ctype) list" where
  "IMAGE_DOS_HEADER =
     [(''e_magic'', USHORT), (''e_cblp'', USHORT), (''e_cp'', USHORT), (''e_crlc'', USHORT),
      (''e_cparhdr'', USHORT), (''e_minalloc'', USHORT), (''e_maxalloc'', USHORT), (''e_ss'', USHORT),
      (''e_sp'', USHORT), (''e_csum'', USHORT), (''e_ip'', USHORT), (''e_cs'', USHORT),
      (''e_lfarlc'', USHORT), (''e_ovno'', USHORT), (''e_res'', Array 4 USHORT), (''e_oemid'', USHORT),
      (''e_oeminfo'', USHORT), (''e_res2'', Array 10 USHORT), (''e_lfanew'', ULONG)]"

definition IMAGE_FILE_HEADER :: "(string \<times> ctype) list" where
  "IMAGE_FILE_HEADER =
     [(''Machine'', USHORT), (''NumberOfSections'', USHORT), (''TimeDateStamp'', ULONG),
      (''PointerToSymbolTable'', ULONG), (''NumberOfSymbols'', ULONG), (''SizeOfOptionalHeader'', USHORT),
      (''Characteristics'', USHORT)]"

definition IMAGE_DATA_DIRECTORY :: "(string \<times> ctype) list" where
  "IMAGE_DATA_DIRECTORY = [(''VirtualAddress'', ULONG), (''Size'', ULONG)]"

definition IMAGE_OPTIONAL_HEADER :: "(string \<times> ctype) list" where
  "IMAGE_OPTIONAL_HEADER =
     [(''Magic'', USHORT), (''MajorLinkerVersion'', UCHAR), (''MinorLinkerVersion'', UCHAR),
      (''SizeOfCode'', ULONG), (''SizeOfInitializedData'', ULONG), (''SizeOfUninitializedData'', ULONG),
      (''AddressOfEntryPoint'', ULONG), (''BaseOfCode'', ULONG), (''BaseOfData'', ULONG), (''ImageBase'', ULONG),
      (''SectionAlignment'', ULONG), (''FileAlignment'', ULONG), (''MajorOperatingSystemVersion'', USHORT),
      (''MinorOperatingSystemVersion'', USHORT), (''MajorImageVersion'', USHORT), (''MinorImageVersion'', USHORT),
      (''MajorSubsystemVersion'', USHORT), (''MinorSubsystemVersion'', USHORT), (''Win32VersionValue'', ULONG),
      (''SizeOfImage'', ULONG), (''SizeOfHeaders'', ULONG), (''CheckSum'', ULONG), (''Subsystem'', USHORT),
      (''DllCharacteristics'', USHORT), (''SizeOfStackReserve'', ULONG), (''SizeOfStackCommit'', ULONG),
      (''SizeOfHeapReserve'', ULONG), (''SizeOfHeapCommit'', ULONG), (''LoaderFlags'', ULONG),
      (''NumberOfRvaAndSizes'', ULONG), (''DataDirectory'', Array 16 (Struct IMAGE_DATA_DIRECTORY))]"

definition IMAGE_NT_HEADERS :: "(string \<times> ctype) list" where
  "IMAGE_NT_HEADERS =
     [(''Signature'', ULONG), (''FileHeader'', Struct IMAGE_FILE_HEADER),
      (''OptionalHeader'', Struct IMAGE_OPTIONAL_HEADER)]"

definition PEB_LDR_DATA :: "(string \<times> ctype) list" where
  "PEB_LDR_DATA =
     [(''Length'', ULONG), (''Initialized'', UCHAR), (''SsHandle'', PTR), (''InLoadOrderModuleList'', LIST_ENTRY),
      (''InMemoryOrderModuleList'', LIST_ENTRY), (''InInitializationOrderModuleList'', LIST_ENTRY)]"

definition PEB_ORIG :: "(string \<times> ctype) list" where
  "PEB_ORIG =
     [(''Reserved1'', Array 2 UCHAR), (''BeingDebugged'', UCHAR), (''Reserved2'', Array 229 UCHAR),
      (''Reserved3'', Array 59 PTR), (''SessionId'', ULONG)]"

definition RTL_DRIVE_LETTER_CURDIR :: "(string \<times> ctype) list" where
  "RTL_DRIVE_LETTER_CURDIR =
     [(''Flags'', USHORT), (''Length'', USHORT), (''TimeStamp'', ULONG), (''DosPath'', UNICODE_STRING)]"

definition RTL_USER_PROCESS_PARAMETERS :: "(string \<times> ctype) list" where
  "RTL_USER_PROCESS_PARAMETERS =
     [(''MaximumLength'', ULONG), (''Length'', ULONG), (''Flags'', ULONG), (''DebugFlags'', ULONG),
      (''ConsoleHandle'', PTR), (''ConsoleFlags'', ULONG), (''StdInputHandle'', PTR), (''StdOutputHandle'', PTR),
      (''StdErrorHandle'', PTR), (''CurrentDirectoryPath'', UNICODE_STRING), (''CurrentDirectoryHandle'', PTR),
      (''DllPath'', UNICODE_STRING), (''ImagePathName'', UNICODE_STRING), (''CommandLine'', UNICODE_STRING),
      (''Environment'', PTR), (''StartingPositionLeft'', ULONG), (''StartingPositionTop'', ULONG),
      (''Width'', ULONG), (''Height'', ULONG), (''CharWidth'', ULONG), (''CharHeight'', ULONG),
      (''ConsoleTextAttributes'', ULONG), (''WindowFlags'', ULONG), (''ShowWindowFlags'', ULONG),
      (''WindowTitle'', UNICODE_STRING), (''DesktopName'', UNICODE_STRING), (''ShellInfo'', UNICODE_STRING),
      (''RuntimeData'', UNICODE_STRING), (''DLCurrentDirectory'', Array 0x20 (Struct RTL_DRIVE_LETTER_CURDIR))]"

definition PEB :: "(string \<times> ctype) list" where
  "PEB =
     [(''InheritedAddressSpace'', UCHAR), (''ReadImageFileExecOptions'', UCHAR), (''BeingDebugged'', UCHAR),
      (''Spare'', UCHAR), (''Mutant'', PTR), (''ImageBaseAddress'', PTR), (''LoaderData'', PTR),
      (''ProcessParameters'', PTR), (''SubSystemData'', PTR), (''ProcessHeap'', PTR), (''FastPebLock'', PTR),
      (''FastPebLockRoutine'', PTR), (''FastPebUnlockRoutine'', PTR), (''EnvironmentUpdateCount'', ULONG),
      (''KernelCallbackTable'', PTR), (''EventLogSection'', PTR), (''EventLog'', PTR), (''FreeList'', PTR),
      (''TlsExpansionCounter'', ULONG), (''TlsBitmap'', PTR), (''TlsBitmapBits'', Array 2 ULONG),
      (''ReadOnlySharedMemoryBase'', PTR), (''ReadOnlySharedMemoryHeap'', PTR), (''ReadOnlyStaticServerData'', PTR),
      (''AnsiCodePageData'', PTR), (''OemCodePageData'', PTR), (''UnicodeCaseTableData'', PTR),
      (''NumberOfProcessors'', ULONG), (''NtGlobalFlag'', ULONG), (''Spare2'', Array 4 UCHAR),
      (''CriticalSectionTimeout'', LARGE_INTEGER), (''HeapSegmentReserve'', ULONG), (''HeapSegmentCommit'', ULONG),
      (''HeapDeCommitTotalFreeThreshold'', ULONG), (''HeapDeCommitFreeBlockThreshold'', ULONG),
      (''NumberOfHeaps'', ULONG), (''MaximumNumberOfHeaps'', ULONG), (''ProcessHeaps'', PTR),
      (''GdiSharedHandleTable'', PTR), (''ProcessStarterHelper'', PTR), (''GdiDCAttributeList'', PTR),
      (''LoaderLock'', PTR), (''OSMajorVersion'', ULONG), (''OSMinorVersion'', ULONG), (''OSBuildNumber'', ULONG),
      (''OSPlatformId'', ULONG), (''ImageSubSystem'', ULONG), (''ImageSubSystemMajorVersion'', ULONG),
      (''ImageSubSystemMinorVersion'', ULONG), (''GdiHandleBuffer'', Array 0x22 ULONG),
      (''PostProcessInitRoutine'', ULONG), (''TlsExpansionBitmap'', ULONG),
      (''TlsExpansionBitmapBits'', Array 0x80 UCHAR), (''SessionId'', ULONG)]"

section \<open>The structures of misc.h and ds.h\<close>

definition KSERVICE_TABLE_DESCRIPTOR :: "(string \<times> ctype) list" where
  "KSERVICE_TABLE_DESCRIPTOR = [(''Base'', PTR), (''Count'', PTR), (''Limit'', ULONG), (''Number'', PTR)]"

definition LDR_DATA_TABLE_ENTRY :: "(string \<times> ctype) list" where
  "LDR_DATA_TABLE_ENTRY =
     [(''InLoadOrderLinks'', LIST_ENTRY), (''InMemoryOrderLinks'', LIST_ENTRY),
      (''InInitializationOrderLinks'', LIST_ENTRY), (''DllBase'', PTR), (''EntryPoint'', PTR),
      (''SizeOfImage'', ULONG), (''FullDllName'', UNICODE_STRING), (''BaseDllName'', UNICODE_STRING),
      (''Flags'', ULONG), (''LoadCount'', USHORT), (''TlsIndex'', USHORT),
      (''HashLinks'', Union [(''HashLinks'', LIST_ENTRY),
         (''Section'', Struct [(''SectionPointer'', PTR), (''CheckSum'', ULONG)])]),
      (''TimeDateStamp'', Union [(''TimeDateStamp'', ULONG), (''LoadedImports'', PTR)]),
      (''EntryPointActivationContext'', PTR), (''PatchInformation'', PTR)]"

text \<open>The bit fields of a gate share one byte: type in bits 0 to 3, DPL in bits 5 and 6.\<close>

definition IDTENTRY :: "(string \<times> ctype) list" where
  "IDTENTRY =
     [(''LowOffset'', USHORT), (''selector'', USHORT), (''unused_lo'', UCHAR), (''bits'', UCHAR), (''HiOffset'', USHORT)]"

definition IDTR :: "(string \<times> ctype) list" where
  "IDTR = [(''IDTLimit'', USHORT), (''IDTBase'', PTR)]"

definition SYSTEM_MODULE :: "(string \<times> ctype) list" where
  "SYSTEM_MODULE =
     [(''Reserved1'', ULONG), (''Reserved2'', ULONG), (''Base'', PTR), (''Size'', ULONG), (''Flags'', ULONG),
      (''Index'', USHORT), (''Unknown'', USHORT), (''LoadCount'', USHORT), (''ModuleNameOffset'', USHORT),
      (''ImageName'', Array 256 UCHAR)]"

definition SYSTEM_MODULE_INFORMATION :: "(string \<times> ctype) list" where
  "SYSTEM_MODULE_INFORMATION = [(''ModulesCount'', ULONG), (''Modules'', Array 1 (Struct SYSTEM_MODULE))]"

text \<open>The enumeration of the classes of \<^verbatim>\<open>ZwQuerySystemInformation\<close>: a constant is a position in the list.\<close>

definition SYSTEM_INFORMATION_CLASS :: "string list" where
  "SYSTEM_INFORMATION_CLASS =
     [''SystemBasicInformation'', ''SystemProcessorInformation'', ''SystemPerformanceInformation'',
      ''SystemTimeOfDayInformation'', ''SystemNotImplemented1'', ''SystemProcessesAndThreadsInformation'',
      ''SystemCallCounts'', ''SystemConfigurationInformation'', ''SystemProcessorTimes'', ''SystemGlobalFlag'',
      ''SystemNotImplemented2'', ''SystemModuleInformation'', ''SystemLockInformation'', ''SystemNotImplemented3'',
      ''SystemNotImplemented4'', ''SystemNotImplemented5'', ''SystemHandleInformation'', ''SystemObjectInformation'',
      ''SystemPagefileInformation'', ''SystemInstructionEmulationCounts'', ''SystemInvalidInfoClass1'',
      ''SystemCacheInformation'', ''SystemPoolTagInformation'', ''SystemProcessorStatistics'',
      ''SystemDpcInformation'', ''SystemNotImplemented6'', ''SystemLoadImage'', ''SystemUnloadImage'',
      ''SystemTimeAdjustment'', ''SystemNotImplemented7'', ''SystemNotImplemented8'', ''SystemNotImplemented9'',
      ''SystemCrashDumpInformation'', ''SystemExceptionInformation'', ''SystemCrashDumpStateInformation'',
      ''SystemKernelDebuggerInformation'', ''SystemContextSwitchInformation'', ''SystemRegistryQuotaInformation'',
      ''SystemLoadAndCallImage'', ''SystemPrioritySeparation'', ''SystemNotImplemented10'',
      ''SystemNotImplemented11'', ''SystemInvalidInfoClass2'', ''SystemInvalidInfoClass3'',
      ''SystemTimeZoneInformation'', ''SystemLookasideInformation'', ''SystemSetTimeSlipEvent'',
      ''SystemCreateSession'', ''SystemDeleteSession'', ''SystemInvalidInfoClass4'', ''SystemRangeStartInformation'',
      ''SystemVerifierInformation'', ''SystemAddVerifier'', ''SystemSessionProcessesInformation'']"

definition enum_value :: "string list \<Rightarrow> string \<Rightarrow> nat" where
  "enum_value enum x = length (takeWhile ((\<noteq>) x) enum)"

text \<open>The records that the driver hands to the application.\<close>

record ssdt_item =
  Index :: "32 word"
  OrigAddr :: addr
  CurAddr :: addr

record ssdt_info =
  Count :: "32 word"
  Item :: "ssdt_item list"

record idt_info =
  Type :: "32 word"
  Selector :: "32 word"
  Offset :: addr
  DPL :: "32 word"

record kernel_item =
  Address :: addr
  ByteCount :: "32 word" \<comment> \<open>\<^verbatim>\<open>Length\<close>\<close>
  CurBytes :: "byte list"
  OrigBytes :: "byte list"

record kernel_info =
  KCount :: "32 word"
  KItem :: "(nat \<times> kernel_item) list" \<comment> \<open>the entries that were written, with their index\<close>

section \<open>Memory access\<close>

definition read16 :: "memory \<Rightarrow> addr \<Rightarrow> 16 word option" where
  "read16 mem a = do { b0 \<leftarrow> mem a; b1 \<leftarrow> mem (a + 1); Some (ucast b0 OR push_bit 8 (ucast b1)) }"

definition read32 :: "memory \<Rightarrow> addr \<Rightarrow> 32 word option" where
  "read32 mem a = do { w0 \<leftarrow> read16 mem a; w1 \<leftarrow> read16 mem (a + 2); Some (ucast w0 OR push_bit 16 (ucast w1)) }"

definition byte_of :: "32 word \<Rightarrow> nat \<Rightarrow> byte" where
  "byte_of v k = ucast (drop_bit (8 * k) v)"

text \<open>A store to memory that is not mapped is an exception.\<close>

definition write32 :: "memory \<Rightarrow> addr \<Rightarrow> 32 word \<Rightarrow> memory option" where
  "write32 mem a v =
     (if mem a \<noteq> None \<and> mem (a + 1) \<noteq> None \<and> mem (a + 2) \<noteq> None \<and> mem (a + 3) \<noteq> None then
        Some (mem(a \<mapsto> byte_of v 0, a + 1 \<mapsto> byte_of v 1, a + 2 \<mapsto> byte_of v 2, a + 3 \<mapsto> byte_of v 3))
      else None)"

text \<open>A store to memory that \<open>wr\<close> does not allow to be written is one, too.\<close>

definition store :: "(addr \<Rightarrow> bool) \<Rightarrow> memory \<Rightarrow> addr \<Rightarrow> 32 word \<Rightarrow> memory option" where
  "store wr mem a v = (if wr a \<and> wr (a + 1) \<and> wr (a + 2) \<and> wr (a + 3) then write32 mem a v else None)"

section \<open>Layout lemmas\<close>

lemma align_up_ge: "n \<le> align_up n a"
proof (cases "a = 0")
  case False
  have "n + a - 1 < (n + a - 1) div a * a + a"
    using False dividend_less_div_times[of a "n + a - 1"] by simp
  with False show ?thesis by (simp add: align_up_def)
qed (simp add: align_up_def)

lemma fields_end_ge: "off \<le> fields_end pack off fs"
proof (induction fs arbitrary: off)
  case (Cons f fs)
  obtain x t where "f = (x, t)" by (cases f)
  with Cons[of "align_up off (alignof pack t) + sizeof pack t"] align_up_ge[of off "alignof pack t"]
  show ?case by simp
qed simp

lemma layout_range:
  "(x, o1, n) \<in> set (layout pack off fs) \<Longrightarrow> off \<le> o1 \<and> o1 + n \<le> fields_end pack off fs"
proof (induction fs arbitrary: off)
  case (Cons f fs)
  obtain y t where f: "f = (y, t)" by (cases f)
  let ?o = "align_up off (alignof pack t)"
  have "off \<le> ?o" "?o + sizeof pack t \<le> fields_end pack (?o + sizeof pack t) fs"
    using align_up_ge fields_end_ge by auto
  with Cons f show ?case by (fastforce simp: Let_def)
qed simp

lemma layout_sorted:
  "sorted_wrt (\<lambda>(x, o1, n) (x', o2, n'). o1 + n \<le> o2) (layout pack off fs)"
proof (induction fs arbitrary: off)
  case (Cons f fs)
  obtain y t where f: "f = (y, t)" by (cases f)
  with Cons layout_range show ?case by (fastforce simp: Let_def)
qed simp

lemma length_layout [simp]: "length (layout pack off fs) = length fs"
  by (induction fs arbitrary: off) (auto simp: Let_def)

text \<open>
  Structure layout is sound for every structure and packing: the fields keep their order, do not
  overlap, and lie inside the size of the structure.
\<close>

theorem layout_fields_disjoint:
  assumes "i < j" "j < length fs"
  shows "fst (snd (layout pack 0 fs ! i)) + snd (snd (layout pack 0 fs ! i)) \<le> fst (snd (layout pack 0 fs ! j)) \<and>
    fst (snd (layout pack 0 fs ! j)) + snd (snd (layout pack 0 fs ! j)) \<le> sizeof pack (Struct fs)"
proof -
  have "(\<lambda>(x, o1, n) (x', o2, n'). o1 + n \<le> o2) (layout pack 0 fs ! i) (layout pack 0 fs ! j)"
    using sorted_wrt_nth_less[OF layout_sorted] assms by simp
  moreover have "layout pack 0 fs ! j \<in> set (layout pack 0 fs)"
    using assms by simp
  then have "fst (snd (layout pack 0 fs ! j)) + snd (snd (layout pack 0 fs ! j)) \<le> fields_end pack 0 fs"
    using layout_range by (metis prod.collapse)
  moreover have "fields_end pack 0 fs \<le> sizeof pack (Struct fs)"
    by (simp add: align_up_ge)
  ultimately show ?thesis by (auto split: prod.splits)
qed

theorem layout_fields_disjoint_witness:
  "fst (snd (layout 8 0 IMAGE_FILE_HEADER ! 0)) + snd (snd (layout 8 0 IMAGE_FILE_HEADER ! 0)) \<le> fst (snd (layout 8 0 IMAGE_FILE_HEADER ! 6)) \<and>
   fst (snd (layout 8 0 IMAGE_FILE_HEADER ! 6)) + snd (snd (layout 8 0 IMAGE_FILE_HEADER ! 6)) \<le> sizeof 8 (Struct IMAGE_FILE_HEADER)"
  by (rule layout_fields_disjoint) (simp_all add: IMAGE_FILE_HEADER_def)

lemmas struct_defs = IMAGE_SECTION_HEADER_def IMAGE_DOS_HEADER_def IMAGE_FILE_HEADER_def IMAGE_DATA_DIRECTORY_def
  IMAGE_OPTIONAL_HEADER_def IMAGE_NT_HEADERS_def PEB_LDR_DATA_def PEB_ORIG_def RTL_DRIVE_LETTER_CURDIR_def
  RTL_USER_PROCESS_PARAMETERS_def PEB_def KSERVICE_TABLE_DESCRIPTOR_def LDR_DATA_TABLE_ENTRY_def IDTENTRY_def IDTR_def
  SYSTEM_MODULE_def SYSTEM_MODULE_INFORMATION_def

text \<open>
  The declared structures have the layout that the Windows formats fix: the PE headers (the DOS
  header is 64 bytes with \<^verbatim>\<open>e_lfanew\<close> at 0x3C, the NT headers are 248 bytes with \<^verbatim>\<open>ImageBase\<close> at 0x34, a
  section header is 40 bytes), the loader entry, the interrupt gate (8 bytes), the module record
  (284 bytes), and the head of the process environment block; \<^verbatim>\<open>SystemModuleInformation\<close> is class 11.
\<close>

theorem windows_layouts:
  "sizeof 8 (Struct IMAGE_DOS_HEADER) = 64 \<and> offset_of 8 IMAGE_DOS_HEADER ''e_lfanew'' = Some 0x3C \<and>
   sizeof 8 (Struct IMAGE_FILE_HEADER) = 20 \<and> offset_of 8 IMAGE_FILE_HEADER ''NumberOfSections'' = Some 2 \<and>
   offset_of 8 IMAGE_FILE_HEADER ''SizeOfOptionalHeader'' = Some 16 \<and>
   sizeof 8 (Struct IMAGE_OPTIONAL_HEADER) = 224 \<and> offset_of 8 IMAGE_OPTIONAL_HEADER ''ImageBase'' = Some 28 \<and>
   sizeof 8 (Struct IMAGE_NT_HEADERS) = 248 \<and> offset_of 8 IMAGE_NT_HEADERS ''OptionalHeader'' = Some 24 \<and>
   sizeof 8 (Struct IMAGE_SECTION_HEADER) = 40 \<and> offset_of 8 IMAGE_SECTION_HEADER ''VirtualAddress'' = Some 12 \<and>
   offset_of 8 IMAGE_SECTION_HEADER ''SizeOfRawData'' = Some 16 \<and>
   offset_of 8 IMAGE_SECTION_HEADER ''PointerToRawData'' = Some 20 \<and>
   offset_of 1 LDR_DATA_TABLE_ENTRY ''DllBase'' = Some 0x18 \<and> offset_of 1 LDR_DATA_TABLE_ENTRY ''EntryPoint'' = Some 0x1C \<and>
   offset_of 1 LDR_DATA_TABLE_ENTRY ''FullDllName'' = Some 0x24 \<and>
   sizeof 1 (Struct IDTENTRY) = 8 \<and> offset_of 1 IDTENTRY ''HiOffset'' = Some 6 \<and> sizeof 1 (Struct IDTR) = 6 \<and>
   sizeof 1 (Struct KSERVICE_TABLE_DESCRIPTOR) = 16 \<and> sizeof 1 (Struct SYSTEM_MODULE) = 284 \<and>
   sizeof 1 (Struct SYSTEM_MODULE_INFORMATION) = 288 \<and>
   sizeof 4 (Struct PEB_LDR_DATA) = 36 \<and> offset_of 8 PEB ''LoaderData'' = Some 0x0C \<and>
   offset_of 8 PEB ''ProcessHeap'' = Some 0x18 \<and>
   offset_of 8 RTL_USER_PROCESS_PARAMETERS ''CommandLine'' = Some 0x40 \<and>
   enum_value SYSTEM_INFORMATION_CLASS ''SystemModuleInformation'' = 11 \<and> length SYSTEM_INFORMATION_CLASS = 54 \<and>
   distinct SYSTEM_INFORMATION_CLASS"
  by (intro conjI; code_simp)

text \<open>
  The two declarations of the process environment block disagree: \<^verbatim>\<open>PEB\<close> lacks the field between
  \<^verbatim>\<open>ImageSubSystemMinorVersion\<close> and \<^verbatim>\<open>GdiHandleBuffer\<close>, so everything behind it is four bytes too low.
\<close>

lemma peb_declarations_disagree:
  "offset_of 8 PEB_ORIG ''SessionId'' = Some 0x1D4" "offset_of 8 PEB ''SessionId'' = Some 0x1D0"
  by code_simp+

section \<open>Memory lemmas\<close>

lemma byte_of_join:
  "ucast (ucast (byte_of v 0) OR push_bit 8 (ucast (byte_of v 1)) :: 16 word) OR
   push_bit 16 (ucast (ucast (byte_of v 2) OR push_bit 8 (ucast (byte_of v 3)) :: 16 word)) = (v :: 32 word)"
proof (rule bit_word_eqI)
  fix n assume "n < LENGTH(32)"
  then show "bit (ucast (ucast (byte_of v 0) OR push_bit 8 (ucast (byte_of v 1)) :: 16 word) OR
     push_bit 16 (ucast (ucast (byte_of v 2) OR push_bit 8 (ucast (byte_of v 3)) :: 16 word)) :: 32 word) n = bit v n"
    by (cases "n < 16") (auto simp: byte_of_def bit_simps)
qed

lemma offsets_differ [simp]:
  "a + 1 \<noteq> (a :: addr)" "a + 2 \<noteq> a" "a + 3 \<noteq> a" "a + 2 \<noteq> a + 1" "a + 3 \<noteq> a + 1" "a + 3 \<noteq> a + 2"
  "a \<noteq> a + 1" "a \<noteq> a + 2" "a \<noteq> a + 3" "a + 1 \<noteq> a + 2" "a + 1 \<noteq> a + 3" "a + 2 \<noteq> a + 3"
  by simp_all

lemma read32_write32:
  assumes "write32 mem a v = Some mem'"
  shows "read32 mem' a = Some v"
proof -
  have "mem' = mem(a \<mapsto> byte_of v 0, a + 1 \<mapsto> byte_of v 1, a + 2 \<mapsto> byte_of v 2, a + 3 \<mapsto> byte_of v 3)"
    using assms by (simp add: write32_def split: if_splits)
  then have "mem' a = Some (byte_of v 0)" "mem' (a + 1) = Some (byte_of v 1)"
    "mem' (a + 2) = Some (byte_of v 2)" "mem' (a + 2 + 1) = Some (byte_of v 3)"
    by (simp_all add: add.assoc)
  then show ?thesis
    using byte_of_join[of v] by (simp add: read32_def read16_def)
qed

text \<open>The four bytes of a word.\<close>

definition cell :: "addr \<Rightarrow> addr set" where
  "cell a = {a, a + 1, a + 2, a + 3}"

lemma write32_other: "write32 mem a v = Some mem' \<Longrightarrow> b \<notin> cell a \<Longrightarrow> mem' b = mem b"
  by (auto simp: write32_def cell_def split: if_splits)

lemma write32_dom: "write32 mem a v = Some mem' \<Longrightarrow> mem' b = None \<longleftrightarrow> mem b = None"
  by (auto simp: write32_def split: if_splits)

lemma read32_cong: "(\<And>b. b \<in> cell a \<Longrightarrow> mem' b = mem b) \<Longrightarrow> read32 mem' a = read32 mem a"
  by (simp add: read32_def read16_def cell_def add.assoc)

lemma write32_defined: "read32 mem a = Some x \<Longrightarrow> \<exists>mem'. write32 mem a v = Some mem'"
  by (auto simp: write32_def read32_def read16_def add.assoc split: Option.bind_splits)

lemma read32_write32_other:
  "write32 mem a v = Some mem' \<Longrightarrow> cell a \<inter> cell b = {} \<Longrightarrow> read32 mem' b = read32 mem b"
  by (rule read32_cong) (use write32_other in blast)

section \<open>Words in a row\<close>

abbreviation entry :: "addr \<Rightarrow> nat \<Rightarrow> addr" where
  "entry base i \<equiv> base + of_nat (4 * i)"

lemma of_nat_addr_eq: "x < 2 ^ 32 \<Longrightarrow> y < 2 ^ 32 \<Longrightarrow> (of_nat x :: addr) = of_nat y \<longleftrightarrow> x = y"
  by (simp add: word_of_nat_eq_iff take_bit_nat_eq_self)

lemma ex_less_4: "(\<exists>d<4. P d) \<longleftrightarrow> P 0 \<or> P 1 \<or> P 2 \<or> P (3 :: nat)"
  by (auto simp: numeral_eq_Suc less_Suc_eq)

lemma cell_entry: "b \<in> cell (entry base i) \<longleftrightarrow> (\<exists>d<4. b = base + of_nat (4 * i + d))"
  unfolding ex_less_4 by (simp add: cell_def ac_simps)

lemma cells_disjoint:
  assumes "i \<noteq> j" "4 * i + 4 \<le> 2 ^ 32" "4 * j + 4 \<le> 2 ^ 32"
  shows "cell (entry base i) \<inter> cell (entry base j) = {}"
proof -
  have False if "d < 4" "e < 4" "base + of_nat (4 * i + d) = base + (of_nat (4 * j + e) :: addr)" for d e
  proof -
    from that(3) have "(of_nat (4 * i + d) :: addr) = of_nat (4 * j + e)" by simp
    then have "4 * i + d = 4 * j + e"
      using assms that(1,2) by (subst (asm) of_nat_addr_eq) auto
    with assms(1) that(1,2) show False by presburger
  qed
  note no = this
  show ?thesis
  proof (rule equals0I)
    fix b assume "b \<in> cell (entry base i) \<inter> cell (entry base j)"
    then obtain d e where "d < 4" "b = base + of_nat (4 * i + d)" "e < 4" "b = base + of_nat (4 * j + e)"
      unfolding Int_iff cell_entry by blast
    with no[of d e] show False by metis
  qed
qed

lemma cell_offset: "b \<in> cell (entry p q) \<Longrightarrow> \<exists>j<4 * q + 4. b = p + of_nat j"
  unfolding cell_entry by (metis add_less_cancel_left)

lemma offset_unat: "unat p + n \<le> 2 ^ 32 \<Longrightarrow> j < n \<Longrightarrow> unat ((p :: addr) + of_nat j) = unat p + j"
  by (simp add: unat_word_ariths unat_of_nat take_bit_nat_eq_self)

lemma cell_range:
  assumes "b \<in> cell (entry p q)" "4 * q + 4 \<le> n" "unat p + n \<le> 2 ^ 32"
  shows "unat p \<le> unat b \<and> unat b < unat p + n"
proof -
  obtain j where "j < 4 * q + 4" "b = p + of_nat j" using cell_offset[OF assms(1)] by blast
  with assms(2,3) offset_unat[of p n j] show ?thesis by simp
qed

text \<open>Stores one after the other.\<close>

fun stores :: "(addr \<Rightarrow> bool) \<Rightarrow> memory \<Rightarrow> (addr \<times> 32 word) list \<Rightarrow> memory option" where
  "stores wr m [] = Some m"
| "stores wr m ((a, v) # l) = do { m \<leftarrow> store wr m a v; stores wr m l }"

lemma stores_append: "stores wr m (xs @ ys) = Option.bind (stores wr m xs) (\<lambda>m. stores wr m ys)"
  by (induction xs arbitrary: m) (auto split: Option.bind_splits)

lemma store_write32: "store wr m a v = Some m' \<Longrightarrow> write32 m a v = Some m'"
  by (simp add: store_def split: if_splits)

lemmas store_other = store_write32[THEN write32_other]
  and store_dom = store_write32[THEN write32_dom]
  and store_read = store_write32[THEN read32_write32]
  and store_read_other = store_write32[THEN read32_write32_other]

lemma store_defined: "\<forall>b\<in>cell a. wr b \<and> m b \<noteq> None \<Longrightarrow> \<exists>m'. store wr m a v = Some m'"
  by (auto simp: store_def write32_def cell_def)

lemma stores_other: "stores wr m l = Some m' \<Longrightarrow> \<forall>(a, v)\<in>set l. b \<notin> cell a \<Longrightarrow> m' b = m b"
proof (induction l arbitrary: m)
  case (Cons x l)
  obtain a v where x: "x = (a, v)" by (cases x)
  with Cons.prems(1) obtain m1 where "store wr m a v = Some m1" "stores wr m1 l = Some m'" by (auto simp: bind_eq_Some_conv)
  with Cons x store_other[of wr m a v m1 b] show ?case by auto
qed simp

lemma stores_dom: "stores wr m l = Some m' \<Longrightarrow> m' b = None \<longleftrightarrow> m b = None"
proof (induction l arbitrary: m)
  case (Cons x l)
  obtain a v where x: "x = (a, v)" by (cases x)
  with Cons.prems obtain m1 where m1: "store wr m a v = Some m1" "stores wr m1 l = Some m'" by (auto simp: bind_eq_Some_conv)
  show ?case unfolding Cons.IH[OF m1(2)] store_dom[OF m1(1)] by (rule refl)
qed simp

text \<open>Stores to cells that do not overlap can all be read back.\<close>

lemma stores_ok:
  "\<forall>(a, v)\<in>set l. \<forall>b\<in>cell a. wr b \<and> m b \<noteq> None \<Longrightarrow> sorted_wrt (\<lambda>x y. cell (fst x) \<inter> cell (fst y) = {}) l \<Longrightarrow>
    \<exists>m'. stores wr m l = Some m' \<and> (\<forall>(a, v)\<in>set l. read32 m' a = Some v)"
proof (induction l arbitrary: m)
  case (Cons x l)
  obtain a v where x: "x = (a, v)" by (cases x)
  obtain m1 where m1: "store wr m a v = Some m1" using store_defined[of a wr m v] Cons.prems(1) x by auto
  have "\<forall>(a, v)\<in>set l. \<forall>b\<in>cell a. wr b \<and> m1 b \<noteq> None" using Cons.prems(1) store_dom[OF m1] by auto
  with Cons.IH[of m1] Cons.prems(2) obtain m' where m': "stores wr m1 l = Some m'" "\<forall>(a, v)\<in>set l. read32 m' a = Some v" by auto
  have "read32 m' a = read32 m1 a"
    by (rule read32_cong) (use stores_other[OF m'(1)] Cons.prems(2) x in \<open>fastforce\<close>)
  with m' m1 x store_read[OF m1] show ?case by auto
qed simp

text \<open>Words by their index from an address on.\<close>

definition words_at :: "addr \<Rightarrow> (nat \<times> 32 word) list \<Rightarrow> (addr \<times> 32 word) list" where
  "words_at a l = map (\<lambda>(q, v). (entry a q, v)) l"

lemma words_at_append [simp]: "words_at a (xs @ ys) = words_at a xs @ words_at a ys"
  by (simp add: words_at_def)

lemma words_at_separate:
  "distinct (map fst l) \<Longrightarrow> \<forall>q\<in>fst ` set l. 4 * q + 4 \<le> 2 ^ 32 \<Longrightarrow> sorted_wrt (\<lambda>x y. cell (fst x) \<inter> cell (fst y) = {}) (words_at a l)"
proof (induction l)
  case (Cons x l)
  obtain q v where x: "x = (q, v)" by (cases x)
  have "cell (entry a q) \<inter> cell (entry a (fst y)) = {}" if "y \<in> set l" for y
    using that Cons.prems x by (intro cells_disjoint) (auto simp: rev_image_eqI)
  with Cons x show ?case by (fastforce simp: words_at_def)
qed (simp add: words_at_def)

lemma words_ok:
  assumes "distinct (map fst l)" "\<forall>q\<in>fst ` set l. 4 * q + 4 \<le> 2 ^ 32 \<and> (\<forall>b\<in>cell (entry a q). wr b \<and> m b \<noteq> None)"
  shows "\<exists>m'. stores wr m (words_at a l) = Some m' \<and> (\<forall>(q, v)\<in>set l. read32 m' (entry a q) = Some v) \<and>
    (\<forall>b. (\<forall>q\<in>fst ` set l. b \<notin> cell (entry a q)) \<longrightarrow> m' b = m b)"
proof -
  have "\<forall>(c, v)\<in>set (words_at a l). \<forall>b\<in>cell c. wr b \<and> m b \<noteq> None"
    using assms(2) by (fastforce simp: words_at_def)
  from stores_ok[OF this words_at_separate[OF assms(1)]] assms(2) obtain m' where
    m': "stores wr m (words_at a l) = Some m'" "\<forall>(c, v)\<in>set (words_at a l). read32 m' c = Some v" by auto
  have "m' b = m b" if "\<forall>q\<in>fst ` set l. b \<notin> cell (entry a q)" for b
    using that by (intro stores_other[OF m'(1)]) (auto simp: words_at_def)
  with m' show ?thesis by (fastforce simp: words_at_def)
qed

end
