(* ===== verification/Zik_SSDT.thy ===== *)
theory Zik_SSDT
  imports Zik_Mem
begin

unbundle bit_operations_syntax

text \<open>
  \<^verbatim>\<open>ssdt.c\<close> and \<^verbatim>\<open>misc.c\<close> of the driver: finding the shadow table and the two kernel images, translating an
  address into a file offset, and reporting or restoring the system service tables. A function
  that touches unmapped memory, or writes to protected memory, has no result (\<open>None\<close>), as the machine stops. The
  memory is the whole address space, that of the calling process included: a report is written where the caller says.
  The globals of the driver and the block with the original addresses are kept apart from it. What the Windows
  services return is collected in a record of parameters.
\<close>

section \<open>Definitions\<close>

record kstate =
  mem :: memory
  read_only :: "addr set" \<comment> \<open>what the page tables protect\<close>
  cr0 :: "32 word"
  interrupts :: bool
  pool :: "addr set" \<comment> \<open>blocks allocated with \<^verbatim>\<open>ExAllocatePool\<close>\<close>
  handles :: "addr set" \<comment> \<open>open kernel handles\<close>
  KeServiceDescriptorTableShadow :: addr
  pWin32kBase :: addr

record services =
  query_status :: "nat \<Rightarrow> 32 word" \<comment> \<open>\<^verbatim>\<open>ZwQuerySystemInformation\<close> of a class, with room for one module\<close>
  module_base :: addr
  image_name :: string \<comment> \<open>\<^verbatim>\<open>ImageName\<close>\<close>
  name_offset :: nat \<comment> \<open>\<^verbatim>\<open>ModuleNameOffset\<close>\<close>
  block :: addr \<comment> \<open>\<^verbatim>\<open>ExAllocatePool\<close>, 0 for failure\<close>
  open_status :: "32 word" \<comment> \<open>\<^verbatim>\<open>IoCreateFile\<close>\<close>
  file_handle :: addr
  stack_handle :: addr \<comment> \<open>what the uninitialised \<^verbatim>\<open>hFile\<close> contains\<close>
  read_status :: "32 word" \<comment> \<open>\<^verbatim>\<open>ZwReadFile\<close>\<close>
  file_word :: "32 word \<Rightarrow> nat \<Rightarrow> 32 word" \<comment> \<open>the words of the file from an offset on\<close>
  ProbeForWrite :: "addr \<Rightarrow> nat \<Rightarrow> nat \<Rightarrow> bool" \<comment> \<open>of an address, a length and an alignment\<close>

abbreviation (input) STATUS_SUCCESS :: "32 word" where "STATUS_SUCCESS \<equiv> 0"
abbreviation (input) STATUS_UNSUCCESSFUL :: "32 word" where "STATUS_UNSUCCESSFUL \<equiv> 0xC0000001"
abbreviation (input) STATUS_INFO_LENGTH_MISMATCH :: "32 word" where "STATUS_INFO_LENGTH_MISMATCH \<equiv> 0xC0000004"

definition NT_SUCCESS :: "32 word \<Rightarrow> bool" where
  "NT_SUCCESS status \<longleftrightarrow> sint status \<ge> 0"

text \<open>\<^verbatim>\<open>misc.c\<close>\<close>

definition wp_off :: "kstate \<Rightarrow> kstate" where
  "wp_off s = s\<lparr>interrupts := False, cr0 := cr0 s AND 0xFFFEFFFF\<rparr>"

definition wp_on :: "kstate \<Rightarrow> kstate" where
  "wp_on s = s\<lparr>cr0 := cr0 s OR 0x10000, interrupts := True\<rparr>"

text \<open>The kernel can write to protected memory exactly as long as the write-protect bit is off.\<close>

definition may_write :: "kstate \<Rightarrow> addr \<Rightarrow> bool" where
  "may_write s a \<longleftrightarrow> cr0 s AND 0x10000 = 0 \<or> a \<notin> read_only s"

definition check_pae :: "32 word \<Rightarrow> 32 word" where
  \<comment> \<open>of the register CR4\<close>
  "check_pae cr4 = (if cr4 AND 0x20 \<noteq> 0 then 1 else 0)"

text \<open>\<^verbatim>\<open>LocateSSDTShadowBase\<close>: the loop from offset \<open>n\<close> of the function \<open>fn\<close> on; the result is the new value of
  \<^verbatim>\<open>KeServiceDescriptorTableShadow\<close>, if it is set.\<close>

function shadow_loop :: "(addr \<Rightarrow> bool) \<Rightarrow> memory \<Rightarrow> addr \<Rightarrow> nat \<Rightarrow> addr option option" where
  "shadow_loop valid m fn n =
     (if n < 4096 then
        (case SizeOfCode valid m (fn + of_nat n) of
           None \<Rightarrow> None
         | Some (Length, pOpcode) \<Rightarrow>
             if Length = 0 then Some None
             else do {
               w \<leftarrow> read16 m (fn + of_nat n);
               if w = 0x888D then do {
                 v \<leftarrow> read32 m (fn + of_nat n + of_nat (the pOpcode) + 2);
                 Some (Some v)
               } else shadow_loop valid m fn (n + Length)
             })
      else Some None)"
  by pat_completeness auto
termination
  by (relation "measure (\<lambda>(_, _, _, n). 4096 - n)") auto

definition LocateSSDTShadowBase :: "(addr \<Rightarrow> bool) \<Rightarrow> addr \<Rightarrow> kstate \<Rightarrow> kstate option" where
  "LocateSSDTShadowBase valid fn s =
     do {
       r \<leftarrow> shadow_loop valid (mem s) fn 0;
       Some (case r of None \<Rightarrow> s | Some v \<Rightarrow> s\<lparr>KeServiceDescriptorTableShadow := v\<rparr>)
     }"

text \<open>\<^verbatim>\<open>_wcsicmp\<close> of a string in memory with a literal: letters compare without case.\<close>

definition towlower :: "16 word \<Rightarrow> 16 word" where
  "towlower c = (if 0x41 \<le> c \<and> c \<le> 0x5A then c + 0x20 else c)"

fun wcsicmp_eq :: "memory \<Rightarrow> addr \<Rightarrow> 16 word list \<Rightarrow> bool option" where
  "wcsicmp_eq m p [] = map_option (\<lambda>c. c = 0) (read16 m p)"
| "wcsicmp_eq m p (d # ds) =
     do {
       c \<leftarrow> read16 m p;
       if c \<noteq> 0 \<and> towlower c = towlower d then wcsicmp_eq m (p + 2) ds else Some False
     }"

definition wide :: "string \<Rightarrow> 16 word list" where
  "wide cs = map (\<lambda>c. of_char c) cs"

definition win32k_name :: "16 word list" where
  "win32k_name = wide (CHR 0x5C # ''systemroot'' @ CHR 0x5C # ''system32'' @ CHR 0x5C # ''win32k.sys'')"

definition ldr_matches :: "memory \<Rightarrow> addr \<Rightarrow> bool option" where
  \<comment> \<open>the test of the loop body: \<^verbatim>\<open>EntryPoint\<close> at 0x1C, \<^verbatim>\<open>FullDllName.Buffer\<close> at 0x28\<close>
  "ldr_matches m Ldr =
     do {
       e \<leftarrow> read32 m (Ldr + 0x1C);
       if e = 0 then Some False
       else do {
         b \<leftarrow> read32 m (Ldr + 0x28);
         if b = 0 then Some False else wcsicmp_eq m b win32k_name
       }
     }"

text \<open>The list of loaded modules need not be intact, so the loop is partial.\<close>

partial_function (option) win32k_loop :: "memory \<Rightarrow> addr \<Rightarrow> addr \<Rightarrow> addr option option" where
  "win32k_loop m first p =
     do {
       hit \<leftarrow> ldr_matches m p;
       if hit then do { b \<leftarrow> read32 m (p + 0x18); Some (Some b) }
       else do {
         q \<leftarrow> read32 m p;
         if q \<noteq> first then win32k_loop m first q else Some None
       }
     }"

definition LocateWin32kBase :: "addr \<Rightarrow> kstate \<Rightarrow> kstate option" where
  "LocateWin32kBase DriverSection s =
     do {
       first \<leftarrow> read32 (mem s) DriverSection;
       r \<leftarrow> win32k_loop (mem s) first first;
       Some (case r of None \<Rightarrow> s | Some b \<Rightarrow> s\<lparr>pWin32kBase := b\<rparr>)
     }"

text \<open>The base of the kernel image (0 if not found) and its path.\<close>

definition LocateNtKrnlBase :: "services \<Rightarrow> addr \<times> string option" where
  "LocateNtKrnlBase os =
     (let status = query_status os (enum_value SYSTEM_INFORMATION_CLASS ''SystemModuleInformation'') in
      if \<not> NT_SUCCESS status \<or> status = STATUS_INFO_LENGTH_MISMATCH then
        (module_base os,
         Some (CHR 0x5C # ''SystemRoot'' @ CHR 0x5C # ''System32'' @ CHR 0x5C # cstring (drop (name_offset os) (image_name os))))
      else (0, None))"

text \<open>The loop of \<^verbatim>\<open>RVAToRaw\<close>: \<open>k\<close> more sections, the loop counter, \<^verbatim>\<open>pSection\<close> before its update.\<close>

fun section_loop :: "memory \<Rightarrow> nat \<Rightarrow> nat \<Rightarrow> addr \<Rightarrow> 32 word \<Rightarrow> 32 word option" where
  "section_loop m 0 i pSection ulAddress = Some 0"
| "section_loop m (Suc k) i pSection ulAddress =
     (let pSection = pSection + of_nat (40 * i) in
      do {
        va \<leftarrow> read32 m (pSection + 12);
        inside \<leftarrow> (if ulAddress > va then do { size \<leftarrow> read32 m (pSection + 16); Some (ulAddress < va + size) }
                   else Some False);
        if inside then do { raw \<leftarrow> read32 m (pSection + 20); Some (ulAddress - va + raw) }
        else section_loop m k (Suc i) pSection ulAddress
      })"

definition RVAToRaw :: "memory \<Rightarrow> addr \<Rightarrow> 32 word \<Rightarrow> 32 word option" where
  "RVAToRaw m pBase ulAddress =
     do {
       magic \<leftarrow> read16 m pBase;
       if magic \<noteq> 0x5A4D then Some 0
       else do {
         e_lfanew \<leftarrow> read32 m (pBase + 0x3C);
         let pNT = pBase + e_lfanew;
         ulSections \<leftarrow> read16 m (pNT + 4 + 2);
         opt \<leftarrow> read16 m (pNT + 4 + 16);
         section_loop m (unat ulSections) 0 (pNT + 4 + 20 + ucast opt) (ulAddress - pBase)
       }
     }"

text \<open>
  One item of \<^verbatim>\<open>SSDT_INFO\<close>, 12 bytes behind the 4 of \<^verbatim>\<open>Count\<close>. The table is found again at each access: \<open>tab\<close> gives its
  base in the current memory. \<^verbatim>\<open>EnumSSDTShadow\<close> reads the current address \<open>again\<close> after the first two stores.
\<close>

definition report_item :: "(addr \<Rightarrow> bool) \<Rightarrow> bool \<Rightarrow> (memory \<Rightarrow> addr option) \<Rightarrow> addr \<Rightarrow> nat \<Rightarrow> addr \<Rightarrow> addr \<Rightarrow> memory \<Rightarrow> memory option" where
  "report_item wr again tab info i orig cur m =
     (let item = info + 4 + of_nat (12 * i) in
      do {
        m \<leftarrow> store wr m item (of_nat i);
        m \<leftarrow> store wr m (item + 4) orig;
        cur \<leftarrow> (if again then do { base \<leftarrow> tab m; read32 m (base + of_nat (4 * i)) } else Some cur);
        store wr m (item + 8) cur
      })"

text \<open>
  The loop that both table functions share, from entry \<open>i\<close> on: report into \<^verbatim>\<open>SSDTInfo\<close> if it is not
  \<^verbatim>\<open>NULL\<close>, or write the original addresses back.
\<close>

fun table_loop :: "(addr \<Rightarrow> bool) \<Rightarrow> bool \<Rightarrow> nat \<Rightarrow> nat \<Rightarrow> (memory \<Rightarrow> addr option) \<Rightarrow> (nat \<Rightarrow> addr) \<Rightarrow> bool \<Rightarrow> addr \<Rightarrow> memory \<Rightarrow> memory option" where
  "table_loop wr again 0 i tab orig uRestoreAll info m = Some m"
| "table_loop wr again (Suc k) i tab orig uRestoreAll info m =
     do {
       base \<leftarrow> tab m;
       cur \<leftarrow> read32 m (base + of_nat (4 * i));
       m \<leftarrow> (if uRestoreAll then
               if cur \<noteq> orig i then store wr m (base + of_nat (4 * i)) (orig i) else Some m
             else if info \<noteq> 0 then report_item wr again tab info i (orig i) cur m
             else Some m);
       table_loop wr again k (Suc i) tab orig uRestoreAll info m
     }"

definition table_pass :: "bool \<Rightarrow> nat \<Rightarrow> (memory \<Rightarrow> addr option) \<Rightarrow> (nat \<Rightarrow> addr) \<Rightarrow> bool \<Rightarrow> addr \<Rightarrow> kstate \<Rightarrow> kstate option" where
  \<comment> \<open>\<^verbatim>\<open>Count\<close>, and the loop with the switching of write protection around it\<close>
  "table_pass again n tab orig uRestoreAll info s =
     do {
       m \<leftarrow> (if info \<noteq> 0 then store (may_write s) (mem s) info (of_nat n) else Some (mem s));
       let s = s\<lparr>mem := m\<rparr>;
       let s = (if uRestoreAll then wp_off s else s);
       m \<leftarrow> table_loop (may_write s) again n 0 tab orig uRestoreAll info (mem s);
       let s = s\<lparr>mem := m\<rparr>;
       Some (if uRestoreAll then wp_on s else s)
     }"

text \<open>The code behind the label \<^verbatim>\<open>__exit\<close>.\<close>

definition shadow_exit :: "services \<Rightarrow> addr \<Rightarrow> kstate \<Rightarrow> kstate" where
  "shadow_exit os hFile s =
     (let s = s\<lparr>pool := pool s - {block os}\<rparr> in
      if hFile \<noteq> 0 then s\<lparr>handles := handles s - {hFile}\<rparr> else s)"

text \<open>\<open>info\<close> is \<^verbatim>\<open>SSDTInfo\<close>, the address of the report or 0. The result: the status and the new state.\<close>

definition EnumSSDTShadow :: "services \<Rightarrow> bool \<Rightarrow> addr \<Rightarrow> kstate \<Rightarrow> (32 word \<times> kstate) option" where
  "EnumSSDTShadow os uRestoreAll info s =
     (if pWin32kBase s = 0 \<or> KeServiceDescriptorTableShadow s = 0 then Some (STATUS_UNSUCCESSFUL, s)
      else do {
        ulCount \<leftarrow> read32 (mem s) (KeServiceDescriptorTableShadow s + 16 + 8);
        ulShadowBase \<leftarrow> read32 (mem s) (KeServiceDescriptorTableShadow s + 16);
        let ulShadowRaw = ulShadowBase - pWin32kBase s;
        if block os = 0 then Some (STATUS_UNSUCCESSFUL, s)
        else do {
          let s = s\<lparr>pool := insert (block os) (pool s)\<rparr>;
          if \<not> NT_SUCCESS (open_status os) then Some (open_status os, shadow_exit os (stack_handle os) s)
          else do {
            let s = s\<lparr>handles := insert (file_handle os) (handles s)\<rparr>;
            if \<not> NT_SUCCESS (read_status os) then Some (read_status os, shadow_exit os (file_handle os) s)
            else do {
              s \<leftarrow> table_pass True (unat ulCount) (\<lambda>m. read32 m (KeServiceDescriptorTableShadow s + 16))
                (file_word os ulShadowRaw) uRestoreAll info s;
              Some (read_status os, shadow_exit os (file_handle os) s)
            }
          }
        }
      })"

definition EnumSSDT :: "services \<Rightarrow> addr \<Rightarrow> bool \<Rightarrow> addr \<Rightarrow> kstate \<Rightarrow> (32 word \<times> kstate) option" where
  \<comment> \<open>the second argument is \<^verbatim>\<open>KeServiceDescriptorTable\<close>\<close>
  "EnumSSDT os table uRestoreAll info s =
     do {
       let pBase = fst (LocateNtKrnlBase os);
       pSSDTBase \<leftarrow> read32 (mem s) table;
       ulCount \<leftarrow> read32 (mem s) (table + 8);
       ulRaw \<leftarrow> RVAToRaw (mem s) pBase pSSDTBase;
       e_lfanew \<leftarrow> read32 (mem s) (pBase + 0x3C);
       ulImage \<leftarrow> read32 (mem s) (pBase + e_lfanew + 24 + 28);
       if ulRaw = 0 then Some (STATUS_UNSUCCESSFUL, s)
       else do {
         let s = (if block os \<noteq> 0 then s\<lparr>pool := insert (block os) (pool s)\<rparr> else s);
         if NT_SUCCESS (open_status os) then do {
           let s = s\<lparr>handles := insert (file_handle os) (handles s)\<rparr>;
           s \<leftarrow> (if NT_SUCCESS (read_status os) then
               if block os = 0 \<and> ulCount \<noteq> 0 then None
               else table_pass False (unat ulCount) (\<lambda>_. Some pSSDTBase) (\<lambda>i. file_word os ulRaw i - ulImage + pBase) uRestoreAll info s
             else Some s);
           Some (read_status os, s\<lparr>handles := handles s - {file_handle os}\<rparr>)
         } else Some (open_status os, s)
       }
     }"

declare shadow_loop.simps [simp del]

section \<open>Restoring a service table\<close>

lemma table_loop_restore:
  assumes "4 * (i + k) \<le> 2 ^ 32" "\<forall>j\<in>{i..<i + k}. read32 m (entry base j) \<noteq> None" "\<And>b. wr b"
  shows "\<exists>m'. table_loop wr again k i (\<lambda>_. Some base) orig True info m = Some m' \<and>
    (\<forall>j\<in>{i..<i + k}. read32 m' (entry base j) = Some (orig j)) \<and>
    (\<forall>b. (\<forall>j\<in>{i..<i + k}. b \<notin> cell (entry base j)) \<longrightarrow> m' b = m b)"
  using assms(1,2)
proof (induction k arbitrary: i m)
  case (Suc k)
  let ?loop = "\<lambda>k i m. table_loop wr again k i (\<lambda>_. Some base) orig True info m"
  obtain cur where cur: "read32 m (entry base i) = Some cur" using Suc.prems(2) by force
  obtain m1 where m1: "read32 m1 (entry base i) = Some (orig i)" "\<And>b. b \<notin> cell (entry base i) \<Longrightarrow> m1 b = m b"
    "?loop (Suc k) i m = ?loop k (Suc i) m1"
  proof (cases "cur = orig i")
    case True
    with cur that[of m] show ?thesis by simp
  next
    case False
    obtain m1 where "write32 m (entry base i) (orig i) = Some m1" using write32_defined[OF cur] by blast
    with False cur that[of m1] read32_write32 write32_other assms(3) show ?thesis by (simp add: store_def)
  qed
  have out: "read32 m1 (entry base j) = read32 m (entry base j)" if "j \<in> {Suc i..<Suc i + k}" for j
  proof (rule read32_cong)
    fix b assume "b \<in> cell (entry base j)"
    then have "b \<notin> cell (entry base i)"
      using cells_disjoint[of i j base] that Suc.prems(1) by auto
    then show "m1 b = m b" by (rule m1(2))
  qed
  have "\<exists>m'. ?loop k (Suc i) m1 = Some m' \<and>
    (\<forall>j\<in>{Suc i..<Suc i + k}. read32 m' (entry base j) = Some (orig j)) \<and>
    (\<forall>b. (\<forall>j\<in>{Suc i..<Suc i + k}. b \<notin> cell (entry base j)) \<longrightarrow> m' b = m1 b)"
    using Suc.prems out by (intro Suc.IH) auto
  then obtain m' where m': "?loop k (Suc i) m1 = Some m'"
    "\<forall>j\<in>{Suc i..<Suc i + k}. read32 m' (entry base j) = Some (orig j)"
    "\<forall>b. (\<forall>j\<in>{Suc i..<Suc i + k}. b \<notin> cell (entry base j)) \<longrightarrow> m' b = m1 b" by blast
  have "read32 m' (entry base i) = read32 m1 (entry base i)"
  proof (rule read32_cong)
    fix b assume "b \<in> cell (entry base i)"
    then have "b \<notin> cell (entry base j)" if "j \<in> {Suc i..<Suc i + k}" for j
      using cells_disjoint[of i j base] that Suc.prems(1) by auto
    with m'(3) show "m' b = m1 b" by blast
  qed
  then have "read32 m' (entry base j) = Some (orig j)" if "j \<in> {i..<i + Suc k}" for j
    using that m1(1) m'(2) by (cases "j = i") auto
  moreover have "m' b = m b" if "\<forall>j\<in>{i..<i + Suc k}. b \<notin> cell (entry base j)" for b
    using that m'(3) m1(2) by auto
  ultimately show ?case using m1(3) m'(1) by auto
qed simp

lemma wp_restored: "(x AND 0xFFFEFFFF) OR 0x10000 = (x OR 0x10000 :: 32 word)"
proof -
  have "(0xFFFEFFFF :: 32 word) = NOT 0x10000" by simp
  moreover have "(x AND NOT y) OR y = x OR y" for y :: "32 word"
    by (rule bit_word_eqI) (auto simp: bit_simps)
  ultimately show ?thesis by metis
qed

lemma may_write_off: "may_write (wp_off s) a"
proof -
  have "(0xFFFEFFFF :: 32 word) AND 0x10000 = 0" by simp
  then show ?thesis by (simp add: may_write_def wp_off_def and.assoc)
qed

text \<open>
  What \<^verbatim>\<open>EnumSSDT\<close> finds before it opens the file: the table with \<open>n\<close> entries from \<open>base\<close> on, its offset in the file,
  the preferred base of the image.
\<close>

definition located :: "services \<Rightarrow> addr \<Rightarrow> kstate \<Rightarrow> addr \<Rightarrow> nat \<Rightarrow> 32 word \<Rightarrow> 32 word \<Rightarrow> bool" where
  "located os table s base n raw img \<longleftrightarrow>
     read32 (mem s) table = Some base \<and> map_option unat (read32 (mem s) (table + 8)) = Some n \<and>
     RVAToRaw (mem s) (fst (LocateNtKrnlBase os)) base = Some raw \<and> raw \<noteq> 0 \<and>
     Option.bind (read32 (mem s) (fst (LocateNtKrnlBase os) + 0x3C))
       (\<lambda>l. read32 (mem s) (fst (LocateNtKrnlBase os) + l + 24 + 28)) = Some img"

definition readable :: "services \<Rightarrow> bool" where
  "readable os \<longleftrightarrow> NT_SUCCESS (open_status os) \<and> NT_SUCCESS (read_status os) \<and> block os \<noteq> 0"

text \<open>The original addresses: those of the file, moved from the preferred to the actual base.\<close>

definition original :: "services \<Rightarrow> 32 word \<Rightarrow> 32 word \<Rightarrow> nat \<Rightarrow> addr" where
  "original os raw img i = file_word os raw i - img + fst (LocateNtKrnlBase os)"

text \<open>The state in which the table is gone through: the block is allocated and the file is open.\<close>

definition opened_file :: "services \<Rightarrow> kstate \<Rightarrow> kstate" where
  "opened_file os s = s\<lparr>pool := insert (block os) (pool s), handles := insert (file_handle os) (handles s)\<rparr>"

lemma opened_file_fields [simp]:
  "mem (opened_file os s) = mem s" "cr0 (opened_file os s) = cr0 s" "interrupts (opened_file os s) = interrupts s"
  "read_only (opened_file os s) = read_only s" "may_write (opened_file os s) = may_write s"
  by (simp_all add: opened_file_def may_write_def fun_eq_iff)

lemma EnumSSDT_located:
  assumes "located os table s base n raw img" "readable os"
  shows "EnumSSDT os table restore info s =
    Option.bind (table_pass False n (\<lambda>_. Some base) (original os raw img) restore info (opened_file os s))
      (\<lambda>s. Some (read_status os, s\<lparr>handles := handles s - {file_handle os}\<rparr>))"
proof -
  obtain c l where "read32 (mem s) (table + 8) = Some c" "unat c = n"
    "read32 (mem s) (fst (LocateNtKrnlBase os) + 0x3C) = Some l"
    "read32 (mem s) (fst (LocateNtKrnlBase os) + l + 24 + 28) = Some img"
    using assms(1) by (auto simp: located_def bind_eq_Some_conv)
  with assms show ?thesis
    by (simp add: EnumSSDT_def located_def readable_def original_def[abs_def] opened_file_def)
qed

definition entries_mapped :: "memory \<Rightarrow> addr \<Rightarrow> nat \<Rightarrow> bool" where
  "entries_mapped m base n \<longleftrightarrow> 4 * n \<le> 2 ^ 32 \<and> (\<forall>i<n. read32 m (entry base i) \<noteq> None)"

text \<open>The four bytes of \<^verbatim>\<open>Count\<close> can be written, if there is a report.\<close>

definition count_writable :: "addr \<Rightarrow> kstate \<Rightarrow> bool" where
  "count_writable info s \<longleftrightarrow> info = 0 \<or> (\<forall>b\<in>cell info. mem s b \<noteq> None \<and> may_write s b)"

lemma read32_defined: "read32 m a \<noteq> None \<longleftrightarrow> (\<forall>b\<in>cell a. m b \<noteq> None)"
  by (auto simp: read32_def read16_def cell_def add.assoc bind_eq_None_conv)

lemma EnumSSDT_restore_state:
  assumes "located os table s base n raw img" "readable os" "entries_mapped (mem s) base n" "count_writable info s"
  shows "\<exists>s'. EnumSSDT os table True info s = Some (read_status os, s') \<and>
    (\<forall>i<n. read32 (mem s') (entry base i) = Some (original os raw img i)) \<and>
    (\<forall>b. (\<forall>i<n. b \<notin> cell (entry base i)) \<longrightarrow> info = 0 \<or> b \<notin> cell info \<longrightarrow> mem s' b = mem s b) \<and>
    cr0 s' = cr0 s OR 0x10000 \<and> interrupts s' \<and> file_handle os \<notin> handles s' \<and> read_only s' = read_only s"
proof -
  let ?t = "opened_file os s"
  obtain m1 where m1: "(if info \<noteq> 0 then store (may_write ?t) (mem ?t) info (of_nat n) else Some (mem ?t)) = Some m1"
  proof (cases "info = 0")
    case False
    then obtain m1 where "store (may_write s) (mem s) info (of_nat n) = Some m1"
      using assms(4) store_defined[of info "may_write s" "mem s" "of_nat n"] by (auto simp: count_writable_def)
    with False that[of m1] show ?thesis by simp
  qed (use that in simp)
  have out: "m1 b = mem s b" if "info = 0 \<or> b \<notin> cell info" for b
    using m1 that store_other[of "may_write s" "mem s" info "of_nat n" m1 b] by (auto split: if_splits)
  have dom: "m1 b = None \<longleftrightarrow> mem s b = None" for b
    using m1 store_dom[of "may_write s" "mem s" info "of_nat n" m1 b] by (auto split: if_splits)
  have "read32 m1 (entry base i) \<noteq> None" if "i < n" for i
  proof -
    have "read32 (mem s) (entry base i) \<noteq> None" using assms(3) that unfolding entries_mapped_def by blast
    then show ?thesis unfolding read32_defined dom .
  qed
  then obtain m' where m': "table_loop (may_write (wp_off (?t\<lparr>mem := m1\<rparr>))) False n 0 (\<lambda>_. Some base) (original os raw img) True info m1 = Some m'"
    "\<forall>j\<in>{0..<0 + n}. read32 m' (entry base j) = Some (original os raw img j)"
    "\<forall>b. (\<forall>j\<in>{0..<0 + n}. b \<notin> cell (entry base j)) \<longrightarrow> m' b = m1 b"
    using table_loop_restore[of 0 n m1 base "may_write (wp_off (?t\<lparr>mem := m1\<rparr>))" False "original os raw img" info] assms(3) may_write_off
    by (auto simp: entries_mapped_def)
  let ?u = "wp_on ((wp_off (?t\<lparr>mem := m1\<rparr>))\<lparr>mem := m'\<rparr>)"
  have "table_pass False n (\<lambda>_. Some base) (original os raw img) True info ?t = Some ?u"
    using m1 m'(1) by (simp add: table_pass_def wp_off_def)
  then have "EnumSSDT os table True info s = Some (read_status os, ?u\<lparr>handles := handles ?u - {file_handle os}\<rparr>)"
    unfolding EnumSSDT_located[OF assms(1,2)] by simp
  then show ?thesis
    using m'(2,3) out by (auto simp: wp_off_def wp_on_def wp_restored)
qed

text \<open>
  C22. Restoring the service table: with the kernel image located and read, \<^verbatim>\<open>EnumSSDT(TRUE)\<close> returns, every
  entry of the table then is the address that the file gives, moved to the actual base, even if the table is
  protected; no byte outside the table has changed (but \<^verbatim>\<open>Count\<close> of a report, if the caller names one), write
  protection is on, interrupts are enabled and the file is closed.
\<close>

theorem EnumSSDT_restores:
  assumes "located os table s base n raw img" "readable os" "entries_mapped (mem s) base n" "count_writable info s"
  shows "\<exists>s'. EnumSSDT os table True info s = Some (read_status os, s') \<and>
    (\<forall>i<n. read32 (mem s') (base + of_nat (4 * i)) = Some (file_word os raw i - img + fst (LocateNtKrnlBase os))) \<and>
    (\<forall>b. (\<forall>i<n. b \<notin> cell (base + of_nat (4 * i))) \<longrightarrow> info = 0 \<or> b \<notin> cell info \<longrightarrow> mem s' b = mem s b) \<and>
    cr0 s' = cr0 s OR 0x10000 \<and> interrupts s' \<and> file_handle os \<notin> handles s'"
  using EnumSSDT_restore_state[OF assms] by (simp add: original_def) blast

section \<open>Reporting a service table\<close>

text \<open>The bytes of a report with \<open>n\<close> items, and the words that a report writes behind \<^verbatim>\<open>Count\<close>, by their index.\<close>

definition report_area :: "addr \<Rightarrow> nat \<Rightarrow> addr set" where
  "report_area info n = (if info = 0 then {} else \<Union>q\<in>{..<1 + 3 * n}. cell (entry info q))"

definition item_words :: "(nat \<Rightarrow> addr) \<Rightarrow> (nat \<Rightarrow> addr) \<Rightarrow> nat \<Rightarrow> (nat \<times> 32 word) list" where
  "item_words orig cur i = [(1 + 3 * i, of_nat i), (2 + 3 * i, orig i), (3 + 3 * i, cur i)]"

lemma item_addresses:
  "info + 4 + of_nat (12 * i) = entry info (1 + 3 * i)" "entry info (1 + 3 * i) + 4 = entry info (2 + 3 * i)"
  "entry info (1 + 3 * i) + 8 = entry info (3 + 3 * i)"
  by (simp_all add: algebra_simps)

lemma area_field: "info \<noteq> 0 \<Longrightarrow> q < 1 + 3 * n \<Longrightarrow> cell (entry info q) \<subseteq> report_area info n"
  by (auto simp: report_area_def)

text \<open>Whatever the caller gives, the loop that reports writes nowhere else.\<close>

lemma report_item_area:
  assumes "report_item wr again tab info i orig cur m = Some m'" "info \<noteq> 0" "i < n" "b \<notin> report_area info n"
  shows "m' b = m b"
proof -
  have out: "b \<notin> cell (entry info q)" if "q < 1 + 3 * n" for q using area_field[OF assms(2) that] assms(4) by blast
  from assms(1) obtain m1 m2 c where "store wr m (entry info (1 + 3 * i)) (of_nat i) = Some m1"
    "store wr m1 (entry info (2 + 3 * i)) orig = Some m2" "store wr m2 (entry info (3 + 3 * i)) c = Some m'"
    unfolding report_item_def Let_def item_addresses by (auto simp: bind_eq_Some_conv simp del: of_nat_mult of_nat_add)
  from this[THEN store_other, OF out] assms(3) show ?thesis by simp
qed

lemma table_loop_area:
  "table_loop wr again k i tab orig False info m = Some m' \<Longrightarrow> i + k \<le> n \<Longrightarrow> b \<notin> report_area info n \<Longrightarrow> m' b = m b"
proof (induction k arbitrary: i m)
  case (Suc k)
  then obtain cur m1 where m1: "(if info \<noteq> 0 then report_item wr again tab info i (orig i) cur m else Some m) = Some m1"
    "table_loop wr again k (Suc i) tab orig False info m1 = Some m'" by (auto simp: bind_eq_Some_conv)
  have "m1 b = m b"
    using m1(1) report_item_area[of wr again tab info i "orig i" cur m m1 n b] Suc.prems by (auto split: if_splits)
  with Suc.IH[OF m1(2)] Suc.prems show ?case by simp
qed simp

lemma table_pass_effect:
  assumes "table_pass again n tab orig restore info s = Some s'"
  shows "pool s' = pool s \<and> handles s' = handles s \<and> KeServiceDescriptorTableShadow s' = KeServiceDescriptorTableShadow s \<and>
    pWin32kBase s' = pWin32kBase s \<and> read_only s' = read_only s \<and>
    (if restore then cr0 s' = cr0 s OR 0x10000 \<and> interrupts s'
     else cr0 s' = cr0 s \<and> interrupts s' = interrupts s \<and> (\<forall>b. b \<notin> report_area info n \<longrightarrow> mem s' b = mem s b))"
proof -
  obtain m1 where m1: "(if info \<noteq> 0 then store (may_write s) (mem s) info (of_nat n) else Some (mem s)) = Some m1"
    and rest: "(let s = s\<lparr>mem := m1\<rparr>; s = if restore then wp_off s else s
      in Option.bind (table_loop (may_write s) again n 0 tab orig restore info (mem s))
        (\<lambda>m. let s = s\<lparr>mem := m\<rparr> in Some (if restore then wp_on s else s))) = Some s'"
    using assms unfolding table_pass_def bind_eq_Some_conv by blast
  obtain m where m: "table_loop (may_write (if restore then wp_off (s\<lparr>mem := m1\<rparr>) else s\<lparr>mem := m1\<rparr>)) again n 0 tab orig restore info m1 = Some m"
    and s': "s' = (if restore then wp_on ((wp_off (s\<lparr>mem := m1\<rparr>))\<lparr>mem := m\<rparr>) else s\<lparr>mem := m\<rparr>)"
    using rest by (cases restore) (auto simp: Let_def bind_eq_Some_conv wp_off_def)
  have "m b = mem s b" if "\<not> restore" "b \<notin> report_area info n" for b
  proof -
    have "b \<notin> cell info" if "info \<noteq> 0" using area_field[OF that, of 0 n] \<open>b \<notin> report_area info n\<close> by auto
    then have "m1 b = mem s b" using m1 store_other[of "may_write s" "mem s" info "of_nat n" m1 b] by (auto split: if_splits)
    moreover have "m b = m1 b" using m that table_loop_area[of _ again n 0 tab orig info m1 m n b] by simp
    ultimately show ?thesis by simp
  qed
  with s' show ?thesis by (simp add: wp_off_def wp_on_def wp_restored)
qed

text \<open>A buffer that takes the report: it can be written, does not wrap around, and the table is elsewhere.\<close>

definition takes_report :: "addr \<Rightarrow> addr \<Rightarrow> nat \<Rightarrow> kstate \<Rightarrow> bool" where
  "takes_report info base n s \<longleftrightarrow> info \<noteq> 0 \<and> 4 + 12 * n \<le> 2 ^ 32 \<and>
     (\<forall>b\<in>report_area info n. mem s b \<noteq> None \<and> may_write s b) \<and> (\<forall>i<n. cell (entry base i) \<inter> report_area info n = {})"

lemma table_loop_reports:
  assumes "info \<noteq> 0" "\<And>m'. (\<And>b. b \<notin> report_area info n \<Longrightarrow> m' b = mb b) \<Longrightarrow> tab m' = Some base"
    "\<forall>i<n. cell (entry base i) \<inter> report_area info n = {}" "\<forall>i<n. read32 mb (entry base i) = Some (cur i)"
  shows "i + k \<le> n \<Longrightarrow> (\<And>b. b \<notin> report_area info n \<Longrightarrow> m b = mb b) \<Longrightarrow>
    table_loop wr again k i tab orig False info m = stores wr m (words_at info (concat (map (item_words orig cur) [i..<i + k])))"
proof (induction k arbitrary: i m)
  case (Suc k)
  have read: "tab m' = Some base \<and> read32 m' (entry base i) = Some (cur i)" if "\<And>b. b \<notin> report_area info n \<Longrightarrow> m' b = mb b" for m'
  proof -
    have i: "i < n" using Suc.prems(1) by simp
    have "read32 m' (entry base i) = read32 mb (entry base i)"
      by (rule read32_cong, rule that) (use assms(3)[rule_format, OF i] in blast)
    with assms(2)[OF that] assms(4)[rule_format, OF i] show ?thesis by simp
  qed
  have out: "b \<notin> cell (entry info q)" if "q < 1 + 3 * n" "b \<notin> report_area info n" for b q
    using area_field[OF assms(1) that(1)] that(2) by blast
  have item: "report_item wr again tab info i (orig i) (cur i) m = stores wr m (words_at info (item_words orig cur i))"
  proof (cases "store wr m (entry info (1 + 3 * i)) (of_nat i)")
    case (Some m1)
    show ?thesis
    proof (cases "store wr m1 (entry info (2 + 3 * i)) (orig i)")
      case m2: (Some m2)
      have "m2 b = mb b" if "b \<notin> report_area info n" for b
        using store_other[OF Some out, of b] store_other[OF m2 out, of b] that Suc.prems by simp
      from read[OF this] Some m2 show ?thesis
        unfolding report_item_def Let_def item_addresses item_words_def words_at_def by (simp del: of_nat_mult of_nat_add)
    qed (use Some in \<open>unfold report_item_def Let_def item_addresses item_words_def words_at_def, simp del: of_nat_mult of_nat_add\<close>)
  qed (unfold report_item_def Let_def item_addresses item_words_def words_at_def, simp del: of_nat_mult of_nat_add)
  have up: "[i..<i + Suc k] = i # [Suc i..<Suc i + k]" by (simp add: upt_conv_Cons)
  show ?case
  proof (cases "stores wr m (words_at info (item_words orig cur i))")
    case None
    with read[OF Suc.prems(2)] item assms(1) show ?thesis unfolding up by (simp add: stores_append del: of_nat_mult upt_Suc)
  next
    case (Some m1)
    have "m1 b = mb b" if "b \<notin> report_area info n" for b
      using report_item_area[OF item[unfolded Some] assms(1) _ that] Suc.prems that by simp
    from Suc.IH[OF _ this] Suc.prems(1) Some read[OF Suc.prems(2)] item assms(1)
    show ?thesis unfolding up by (simp add: stores_append del: of_nat_mult upt_Suc)
  qed
qed (simp add: words_at_def)

lemma report_words:
  "distinct (map fst ((0, v) # concat (map (item_words orig cur) [0..<n])))"
  "fst ` set (concat (map (item_words orig cur) [0..<n])) \<subseteq> {1..<1 + 3 * n}"
proof -
  show s: "fst ` set (concat (map (item_words orig cur) [0..<n])) \<subseteq> {1..<1 + 3 * n}" for n
    by (auto simp: item_words_def)
  define L where "L n = concat (map (item_words orig cur) [0..<n])" for n
  have no: "q \<notin> fst ` set (L n)" if "q = 0 \<or> 1 + 3 * n \<le> q" for q n
    using s[of n] that unfolding L_def[symmetric] by fastforce
  have "distinct (map fst (L n))" for n
  proof (induction n)
    case (Suc n)
    have "L (Suc n) = L n @ item_words orig cur n" by (simp add: L_def)
    with Suc no[of "1 + 3 * n" n] no[of "2 + 3 * n" n] no[of "3 + 3 * n" n] show ?case by (auto simp: item_words_def)
  qed (simp add: L_def)
  with no[of 0 n] show "distinct (map fst ((0, v) # concat (map (item_words orig cur) [0..<n])))" by (simp add: L_def del: set_concat)
qed

lemma table_pass_reports:
  assumes "takes_report info base n s" "entries_mapped (mem s) base n"
    "\<And>m'. (\<And>b. b \<notin> report_area info n \<Longrightarrow> m' b = mem s b) \<Longrightarrow> tab m' = Some base"
  shows "\<exists>m. table_pass again n tab orig False info s = Some (s\<lparr>mem := m\<rparr>) \<and> read32 m info = Some (of_nat n) \<and>
    (\<forall>i<n. read32 m (entry info (1 + 3 * i)) = Some (of_nat i) \<and> read32 m (entry info (2 + 3 * i)) = Some (orig i) \<and>
       read32 m (entry info (3 + 3 * i)) = read32 (mem s) (entry base i)) \<and>
    (\<forall>b. b \<notin> report_area info n \<longrightarrow> m b = mem s b)"
proof -
  have nz: "info \<noteq> 0" using assms(1) by (simp add: takes_report_def)
  define cur where "cur i = the (read32 (mem s) (entry base i))" for i
  have cur: "\<forall>i<n. read32 (mem s) (entry base i) = Some (cur i)"
    using assms(2) by (auto simp: entries_mapped_def cur_def)
  let ?l = "(0, of_nat n) # concat (map (item_words orig cur) [0..<n])"
  have "\<forall>q\<in>fst ` set ?l. 4 * q + 4 \<le> 2 ^ 32 \<and> (\<forall>b\<in>cell (entry info q). may_write s b \<and> mem s b \<noteq> None)"
  proof
    fix q assume "q \<in> fst ` set ?l"
    then have "q = 0 \<or> q \<in> fst ` set (concat (map (item_words orig cur) [0..<n]))" by force
    with subsetD[OF report_words(2), of q orig cur n] have "q < 1 + 3 * n" by auto
    with area_field[OF nz, of q n] assms(1)
    show "4 * q + 4 \<le> 2 ^ 32 \<and> (\<forall>b\<in>cell (entry info q). may_write s b \<and> mem s b \<noteq> None)" by (auto simp: takes_report_def)
  qed
  from words_ok[OF report_words(1) this] obtain m where
    m: "stores (may_write s) (mem s) (words_at info ?l) = Some m" "\<forall>(q, v)\<in>set ?l. read32 m (entry info q) = Some v" by blast
  from m(1) obtain m1 where m1: "store (may_write s) (mem s) info (of_nat n) = Some m1"
    "stores (may_write s) m1 (words_at info (concat (map (item_words orig cur) [0..<n]))) = Some m"
    by (auto simp: words_at_def bind_eq_Some_conv)
  have "m1 b = mem s b" if "b \<notin> report_area info n" for b
    using store_other[OF m1(1)] area_field[OF nz, of 0 n] that by auto
  note out = this
  have "\<forall>i<n. cell (entry base i) \<inter> report_area info n = {}" using assms(1) by (simp add: takes_report_def)
  from table_loop_reports[where i = 0 and k = n and m = m1 and wr = "may_write s" and again = again and orig = orig, OF nz assms(3) this cur _ out]
  have "table_loop (may_write s) again n 0 tab orig False info m1 = Some m" using m1(2) by simp
  then have p: "table_pass again n tab orig False info s = Some (s\<lparr>mem := m\<rparr>)"
    using m1(1) nz by (simp add: table_pass_def may_write_def[abs_def])
  moreover have "read32 m (entry info (1 + 3 * i)) = Some (of_nat i) \<and> read32 m (entry info (2 + 3 * i)) = Some (orig i) \<and>
      read32 m (entry info (3 + 3 * i)) = read32 (mem s) (entry base i)" if "i < n" for i
  proof -
    have "set (item_words orig cur i) \<subseteq> set ?l" using that by auto
    with m(2) have "\<forall>(q, v)\<in>set (item_words orig cur i). read32 m (entry info q) = Some v" by blast
    with cur that show ?thesis by (simp add: item_words_def)
  qed
  moreover have "read32 m info = Some (of_nat n)" using m(2) by simp
  moreover have "m b = mem s b" if "b \<notin> report_area info n" for b using table_pass_effect[OF p] that by simp
  ultimately show ?thesis by blast
qed

lemma located_mem: "mem s = mem t \<Longrightarrow> located os table s base n raw img = located os table t base n raw img"
  by (simp add: located_def)

lemma EnumSSDT_report_state:
  assumes "located os table s base n raw img" "readable os" "entries_mapped (mem s) base n" "takes_report info base n s"
  shows "\<exists>s'. EnumSSDT os table False info s = Some (read_status os, s') \<and> read32 (mem s') info = Some (of_nat n) \<and>
    (\<forall>i<n. read32 (mem s') (entry info (1 + 3 * i)) = Some (of_nat i) \<and>
       read32 (mem s') (entry info (2 + 3 * i)) = Some (original os raw img i) \<and>
       read32 (mem s') (entry info (3 + 3 * i)) = read32 (mem s) (entry base i)) \<and>
    (\<forall>b. b \<notin> report_area info n \<longrightarrow> mem s' b = mem s b) \<and> cr0 s' = cr0 s \<and> interrupts s' = interrupts s \<and> read_only s' = read_only s"
proof -
  have "takes_report info base n (opened_file os s)" using assms(4) by (simp add: takes_report_def)
  from table_pass_reports[OF this, of "\<lambda>_. Some base" False "original os raw img"] assms(3) obtain m where
    "table_pass False n (\<lambda>_. Some base) (original os raw img) False info (opened_file os s) = Some ((opened_file os s)\<lparr>mem := m\<rparr>)"
    "read32 m info = Some (of_nat n)"
    "\<forall>i<n. read32 m (entry info (1 + 3 * i)) = Some (of_nat i) \<and> read32 m (entry info (2 + 3 * i)) = Some (original os raw img i) \<and>
       read32 m (entry info (3 + 3 * i)) = read32 (mem s) (entry base i)"
    "\<forall>b. b \<notin> report_area info n \<longrightarrow> m b = mem s b" by auto
  then show ?thesis unfolding EnumSSDT_located[OF assms(1,2)] by simp
qed

text \<open>
  C28. Reporting the service table: \<^verbatim>\<open>EnumSSDT(FALSE)\<close> returns with the number of entries and one item per entry in the
  caller's buffer, 12 bytes each behind the first four: its index, its original address (that of the file, moved to the
  actual base) and its current address. No other byte of memory has changed, and no control register.
\<close>

theorem EnumSSDT_reports:
  assumes "located os table s base n raw img" "readable os" "entries_mapped (mem s) base n" "takes_report info base n s"
  shows "\<exists>s'. EnumSSDT os table False info s = Some (read_status os, s') \<and> read32 (mem s') info = Some (of_nat n) \<and>
    (\<forall>i<n. let item = info + 4 + of_nat (12 * i) in
       read32 (mem s') item = Some (of_nat i) \<and>
       read32 (mem s') (item + 4) = Some (file_word os raw i - img + fst (LocateNtKrnlBase os)) \<and>
       read32 (mem s') (item + 8) = read32 (mem s) (base + of_nat (4 * i))) \<and>
    (\<forall>b. b \<notin> report_area info n \<longrightarrow> mem s' b = mem s b) \<and> cr0 s' = cr0 s \<and> interrupts s' = interrupts s"
  unfolding Let_def item_addresses using EnumSSDT_report_state[OF assms] unfolding original_def by blast

text \<open>
  A small machine: an image at 0x80000400 with one section, the service descriptor at 0x80000300 and the
  service table with two entries at 0x80000580, which is protected; the file names 0x11 and 0x22 as their addresses.
\<close>

definition small_mem :: memory where
  "small_mem = (\<lambda>_. Some 0)(0x80000300 \<mapsto> 0x80, 0x80000301 \<mapsto> 0x05, 0x80000303 \<mapsto> 0x80, 0x80000308 \<mapsto> 2,
     0x80000400 \<mapsto> 0x4D, 0x80000401 \<mapsto> 0x5A, 0x8000043C \<mapsto> 0x40,
     0x80000446 \<mapsto> 1, 0x80000465 \<mapsto> 1, 0x80000469 \<mapsto> 1, 0x8000046C \<mapsto> 0x10, 0x80000580 \<mapsto> 0x77)"

definition small_machine :: kstate where
  "small_machine = \<lparr>mem = small_mem, read_only = cell 0x80000580, cr0 = 0x10000, interrupts = True, pool = {}, handles = {},
     KeServiceDescriptorTableShadow = 0, pWin32kBase = 0\<rparr>"

definition small_os :: services where
  "small_os = \<lparr>query_status = (\<lambda>_. STATUS_INFO_LENGTH_MISMATCH), module_base = 0x80000400, image_name = ''ntoskrnl.exe'', name_offset = 0,
     block = 0x9000, open_status = 0, file_handle = 4, stack_handle = 8, read_status = 0,
     file_word = (\<lambda>_ i. if i = 0 then 0x11 else 0x22), ProbeForWrite = (\<lambda>a n _. 0x10000 \<le> unat a \<and> unat a + n \<le> 0x7FFF0000)\<rparr>"

lemma small_reads:
  "read32 small_mem 0x80000300 = Some 0x80000580" "read32 small_mem 0x80000308 = Some 2" "read16 small_mem 0x80000400 = Some 0x5A4D"
  "read32 small_mem 0x8000043C = Some 0x40" "read16 small_mem 0x80000446 = Some 1" "read16 small_mem 0x80000454 = Some 0"
  "read32 small_mem 0x80000464 = Some 0x100" "read32 small_mem 0x80000468 = Some 0x100" "read32 small_mem 0x8000046C = Some 0x10"
  "read32 small_mem 0x80000474 = Some 0" "read32 small_mem 0x80000580 = Some 0x77" "read32 small_mem 0x80000584 = Some 0"
  by (simp_all add: read32_def read16_def small_mem_def)

lemma small_located: "located small_os 0x80000300 small_machine 0x80000580 2 0x90 0"
  by (simp add: located_def small_machine_def small_os_def LocateNtKrnlBase_def RVAToRaw_def small_reads)

lemma small_readable: "readable small_os"
  by (simp add: readable_def small_os_def NT_SUCCESS_def)

lemma small_mapped: "entries_mapped (mem small_machine) 0x80000580 2"
  by (simp add: entries_mapped_def small_machine_def small_reads less_2_cases_iff)

lemma small_everywhere: "mem small_machine b \<noteq> None"
  by (simp add: small_machine_def small_mem_def)

lemma small_takes: "takes_report 0x10000 0x80000580 2 small_machine"
proof -
  have "{..<1 + 3 * 2} = {0, 1, 2, 3, 4, 5, 6 :: nat}" by auto
  moreover have nz: "(0x10000 :: addr) \<noteq> 0" by simp
  ultimately have "report_area 0x10000 2 = (\<Union>q\<in>{0, 1, 2, 3, 4, 5, 6}. cell (entry 0x10000 q))"
    unfolding report_area_def by (simp only: if_False)
  then have "report_area 0x10000 2 \<inter> (cell 0x80000580 \<union> cell 0x80000584) = {}" by (auto simp: cell_def)
  then have "cell (entry 0x80000580 i) \<inter> report_area 0x10000 2 = {}" if "i < 2" for i using that by (auto simp: less_2_cases_iff)
  moreover have "may_write small_machine b" if "b \<in> report_area 0x10000 2" for b
    using that \<open>report_area 0x10000 2 \<inter> _ = {}\<close> by (auto simp: may_write_def small_machine_def)
  ultimately show ?thesis using nz small_everywhere by (simp add: takes_report_def)
qed

lemma small_original: "original small_os 0x90 0 0 = 0x80000411" "original small_os 0x90 0 (Suc 0) = 0x80000422" "read_status small_os = 0"
  by (simp_all add: original_def LocateNtKrnlBase_def small_os_def)

theorem EnumSSDT_restores_witness:
  "\<exists>s'. EnumSSDT small_os 0x80000300 True 0 small_machine = Some (0, s') \<and>
    read32 (mem s') 0x80000580 = Some 0x80000411 \<and> read32 (mem s') 0x80000584 = Some 0x80000422"
proof -
  have "count_writable 0 small_machine" by (simp add: count_writable_def)
  from EnumSSDT_restores[OF small_located small_readable small_mapped this] obtain s' where
    "EnumSSDT small_os 0x80000300 True 0 small_machine = Some (read_status small_os, s')"
    "\<forall>i<2. read32 (mem s') (0x80000580 + of_nat (4 * i)) = Some (file_word small_os 0x90 i - 0 + fst (LocateNtKrnlBase small_os))" by blast
  then show ?thesis by (auto simp: less_2_cases_iff small_os_def LocateNtKrnlBase_def)
qed

theorem EnumSSDT_reports_witness:
  "\<exists>s'. EnumSSDT small_os 0x80000300 False 0x10000 small_machine = Some (0, s') \<and> read32 (mem s') 0x10000 = Some 2 \<and>
    read32 (mem s') 0x10008 = Some 0x80000411 \<and> read32 (mem s') 0x1000C = Some 0x77 \<and> read32 (mem s') 0x10010 = Some 1"
proof -
  from EnumSSDT_reports[OF small_located small_readable small_mapped small_takes] obtain s' where
    s': "EnumSSDT small_os 0x80000300 False 0x10000 small_machine = Some (read_status small_os, s')" "read32 (mem s') 0x10000 = Some (of_nat 2)"
    "\<forall>i<2. let item = 0x10000 + 4 + of_nat (12 * i) in
       read32 (mem s') item = Some (of_nat i) \<and>
       read32 (mem s') (item + 4) = Some (file_word small_os 0x90 i - 0 + fst (LocateNtKrnlBase small_os)) \<and>
       read32 (mem s') (item + 8) = read32 (mem small_machine) (0x80000580 + of_nat (4 * i))" by blast
  from s'(3)[rule_format, of 0] s'(3)[rule_format, of 1] s'(1,2) show ?thesis
    by (auto simp: Let_def small_os_def LocateNtKrnlBase_def small_machine_def small_reads)
qed

text \<open>
  Restoring works: a report after a successful restore, made in a state where the image is
  still located in the same way, shows the original address as the current one for every entry.
\<close>

theorem EnumSSDT_restore_then_report:
  assumes "located os table s base n raw img" "readable os" "entries_mapped (mem s) base n"
    "EnumSSDT os table True 0 s = Some (status, s')" "located os table s' base n raw img" "takes_report info base n s'"
  shows "\<exists>s''. EnumSSDT os table False info s' = Some (status, s'') \<and> read32 (mem s'') info = Some (of_nat n) \<and>
    (\<forall>i<n. let item = info + 4 + of_nat (12 * i) in
       read32 (mem s'') (item + 8) \<noteq> None \<and> read32 (mem s'') (item + 8) = read32 (mem s'') (item + 4))"
proof -
  have "count_writable 0 s" by (simp add: count_writable_def)
  from EnumSSDT_restore_state[OF assms(1-3) this] assms(4) have st: "status = read_status os"
    and ok: "\<forall>i<n. read32 (mem s') (entry base i) = Some (original os raw img i)" by auto
  then have "entries_mapped (mem s') base n" using assms(3) by (simp add: entries_mapped_def)
  from EnumSSDT_report_state[OF assms(5,2) this assms(6)] ok st show ?thesis
    unfolding Let_def item_addresses by fastforce
qed

lemma small_separate:
  assumes "\<And>b. b \<ge> 0x80000000 \<Longrightarrow> b \<notin> cell 0x80000580 \<Longrightarrow> b \<notin> cell 0x80000584 \<Longrightarrow> mem s' b = small_mem b"
  shows "located small_os 0x80000300 s' 0x80000580 2 0x90 0"
proof -
  have "read32 (mem s') a = read32 small_mem a" if "\<forall>b\<in>cell a. b \<ge> 0x80000000" "cell a \<inter> cell 0x80000580 = {}" "cell a \<inter> cell 0x80000584 = {}" for a
    using that by (intro read32_cong assms) auto
  then have "read32 (mem s') 0x80000300 = Some 0x80000580" "read32 (mem s') 0x80000308 = Some 2" "read32 (mem s') 0x8000043C = Some 0x40"
    "read32 (mem s') 0x80000464 = Some 0x100" "read32 (mem s') 0x80000468 = Some 0x100" "read32 (mem s') 0x8000046C = Some 0x10"
    "read32 (mem s') 0x80000474 = Some 0"
    by (simp_all add: small_reads cell_def)
  moreover have "read16 (mem s') 0x80000400 = Some 0x5A4D" "read16 (mem s') 0x80000446 = Some 1" "read16 (mem s') 0x80000454 = Some 0"
    using small_reads(3,5,6) by (simp_all add: read16_def assms cell_def)
  ultimately show ?thesis
    by (simp add: located_def small_os_def LocateNtKrnlBase_def RVAToRaw_def)
qed

theorem EnumSSDT_restore_then_report_witness:
  "\<exists>s' s''. EnumSSDT small_os 0x80000300 True 0 small_machine = Some (0, s') \<and>
    EnumSSDT small_os 0x80000300 False 0x10000 s' = Some (0, s'') \<and> read32 (mem s'') 0x1000C = read32 (mem s'') 0x10008"
proof -
  have "count_writable 0 small_machine" by (simp add: count_writable_def)
  from EnumSSDT_restore_state[OF small_located small_readable small_mapped this] obtain s' where
    s': "EnumSSDT small_os 0x80000300 True 0 small_machine = Some (0, s')" "read_only s' = cell 0x80000580"
    "\<forall>i<2. read32 (mem s') (entry 0x80000580 i) = Some (original small_os 0x90 0 i)"
    "\<forall>b. (\<forall>i<2. b \<notin> cell (entry 0x80000580 i)) \<longrightarrow> mem s' b = small_mem b"
    by (auto simp: small_original small_machine_def)
  have l: "located small_os 0x80000300 s' 0x80000580 2 0x90 0"
    using s'(4) by (intro small_separate) (auto simp: less_2_cases_iff)
  have "mem s' b = mem small_machine b" if "b \<in> report_area 0x10000 2" for b
    using small_takes that s'(4) by (auto simp: takes_report_def small_machine_def)
  then have "takes_report 0x10000 0x80000580 2 s'"
    using small_takes s'(2) unfolding takes_report_def by (auto simp: may_write_def small_machine_def)
  from EnumSSDT_restore_then_report[OF small_located small_readable small_mapped s'(1) l this] s'(1) show ?thesis
    by (fastforce simp: Let_def)
qed

section \<open>Every path\<close>

lemma shadow_exit_fields [simp]:
  "pool (shadow_exit os h s) = pool s - {block os}" "mem (shadow_exit os h s) = mem s"
  "cr0 (shadow_exit os h s) = cr0 s" "interrupts (shadow_exit os h s) = interrupts s"
  by (simp_all add: shadow_exit_def Let_def)

text \<open>The number of entries of the shadow table, and of a table in general.\<close>

definition entry_count :: "memory \<Rightarrow> addr \<Rightarrow> nat" where
  "entry_count m table = (case read32 m (table + 8) of None \<Rightarrow> 0 | Some ulCount \<Rightarrow> unat ulCount)"

text \<open>
  C23. Whatever the Windows services return, \<^verbatim>\<open>EnumSSDTShadow\<close> frees the block it allocates. On a failing path
  nothing of the machine has changed but the handles; a successful restore leaves write protection and interrupts on;
  a successful report changes nothing but the report, at the address it was given, if it was given one.
\<close>

theorem EnumSSDTShadow_paths:
  assumes "EnumSSDTShadow os restore info s = Some (status, s')"
  shows "pool s' \<subseteq> pool s \<and>
    (if \<not> NT_SUCCESS status then mem s' = mem s \<and> cr0 s' = cr0 s \<and> interrupts s' = interrupts s
     else if restore then cr0 s' = cr0 s OR 0x10000 \<and> interrupts s'
     else cr0 s' = cr0 s \<and> interrupts s' = interrupts s \<and>
       (\<forall>b. b \<notin> report_area info (entry_count (mem s) (KeServiceDescriptorTableShadow s + 16)) \<longrightarrow> mem s' b = mem s b))"
proof -
  have unsuccessful: "\<not> NT_SUCCESS 0xC0000001"
    by (simp add: NT_SUCCESS_def)
  show ?thesis
    using assms unfolding EnumSSDTShadow_def Let_def
    by (auto simp: unsuccessful bind_eq_Some_conv entry_count_def dest!: table_pass_effect split: if_splits)
qed

theorem EnumSSDTShadow_paths_witness:
  "\<exists>s'. EnumSSDTShadow small_os False 0 (small_machine\<lparr>pWin32kBase := 0x80000400, KeServiceDescriptorTableShadow := 0x800002F0\<rparr>) =
    Some (0, s') \<and> pool s' = {} \<and> mem s' = small_mem"
proof -
  let ?s = "small_machine\<lparr>pWin32kBase := 0x80000400, KeServiceDescriptorTableShadow := 0x800002F0\<rparr>"
  have "table_loop wr True 2 0 (\<lambda>m. read32 m 0x80000300) f False 0 small_mem = Some small_mem" for f wr
    by (simp add: numeral_2_eq_2 small_reads)
  then have "\<exists>s'. EnumSSDTShadow small_os False 0 ?s = Some (0, s')"
    by (simp add: EnumSSDTShadow_def small_machine_def small_os_def small_reads NT_SUCCESS_def table_pass_def Let_def)
  then obtain s' where "EnumSSDTShadow small_os False 0 ?s = Some (0, s')" by blast
  with EnumSSDTShadow_paths[OF this] show ?thesis by (auto simp: small_machine_def NT_SUCCESS_def report_area_def)
qed

text \<open>
  \<^verbatim>\<open>EnumSSDT\<close> never frees the block for the original addresses: after a complete run it is still
  allocated.
\<close>

lemma EnumSSDT_leaks:
  assumes "located os table s base n raw img" "readable os" "EnumSSDT os table restore info s = Some (status, s')"
  shows "block os \<in> pool s'"
proof -
  obtain s1 where "table_pass False n (\<lambda>_. Some base) (original os raw img) restore info (opened_file os s) = Some s1" "pool s' = pool s1"
    using assms(3) unfolding EnumSSDT_located[OF assms(1,2)] by (auto split: Option.bind_splits)
  with table_pass_effect[OF this(1)] show ?thesis by (simp add: opened_file_def)
qed

text \<open>If \<^verbatim>\<open>win32k.sys\<close> cannot be opened \<^verbatim>\<open>EnumSSDTShadow\<close> closes whatever its uninitialised handle variable names.\<close>

lemma EnumSSDTShadow_closes_garbage:
  assumes "pWin32kBase s \<noteq> 0" "KeServiceDescriptorTableShadow s \<noteq> 0" "block os \<noteq> 0" "\<not> NT_SUCCESS (open_status os)"
    "stack_handle os \<noteq> 0" "EnumSSDTShadow os restore info s = Some (status, s')"
  shows "handles s' = handles s - {stack_handle os}"
  using assms by (auto simp: EnumSSDTShadow_def shadow_exit_def Let_def split: Option.bind_splits)

section \<open>Translating addresses\<close>

text \<open>The translation that is meant: the first of the given section headers that contains the address.\<close>

fun find_section :: "memory \<Rightarrow> addr list \<Rightarrow> 32 word \<Rightarrow> 32 word option" where
  "find_section m [] a = Some 0"
| "find_section m (h # hs) a =
     do {
       va \<leftarrow> read32 m (h + 12);
       inside \<leftarrow> (if a > va then do { size \<leftarrow> read32 m (h + 16); Some (a < va + size) } else Some False);
       if inside then do { raw \<leftarrow> read32 m (h + 20); Some (a - va + raw) } else find_section m hs a
     }"

definition triangle :: "nat \<Rightarrow> nat" where
  "triangle i = i * (i + 1) div 2"

lemma triangle_Suc: "triangle (Suc i) = triangle i + Suc i"
  by (simp add: triangle_def algebra_simps)

lemma triangle_ge: "i \<le> triangle i"
proof (induction i)
  case 0
  show ?case by (simp add: triangle_def)
qed (simp add: triangle_Suc)

lemma section_loop_triangle:
  "section_loop m k i (p + of_nat (40 * (triangle i - i))) a =
   find_section m (map (\<lambda>j. p + of_nat (40 * triangle j)) [i..<i + k]) a"
proof (induction k arbitrary: i)
  case (Suc k)
  note le = triangle_ge[of i]
  have p: "p + of_nat (40 * (triangle i - i)) + of_nat (40 * i) = p + of_nat (40 * triangle i)"
    using le by (simp add: add.assoc flip: of_nat_add distrib_left)
  have q: "p + of_nat (40 * triangle i) = p + of_nat (40 * (triangle (Suc i) - Suc i))"
    by (simp add: triangle_Suc)
  have "[i..<i + Suc k] = i # [Suc i..<Suc i + k]" by (simp add: upt_conv_Cons)
  with Suc.IH[of "Suc i"] show ?case
    unfolding section_loop.simps Let_def p q[symmetric] by (simp only: list.map find_section.simps q)
qed simp

text \<open>
  The loop adds the offset of header \<open>i\<close> to a pointer that it has already moved: header 2 is looked for at
  120 instead of 80 bytes behind the first one, header 3 at 240.
\<close>

lemma RVAToRaw_skips_headers:
  assumes "read16 m pBase = Some 0x5A4D" "read32 m (pBase + 0x3C) = Some l"
    "read16 m (pBase + l + 6) = Some n" "read16 m (pBase + l + 20) = Some opt"
  shows "RVAToRaw m pBase a =
    find_section m (map (\<lambda>j. pBase + l + 24 + ucast opt + of_nat (40 * (j * (j + 1) div 2))) [0..<unat n]) (a - pBase)"
  using assms section_loop_triangle[of m "unat n" 0 "pBase + l + 24 + ucast opt" "a - pBase"]
  by (simp add: RVAToRaw_def add.assoc triangle_def)

text \<open>
  \<^verbatim>\<open>RVAToRaw\<close> on an image with at most two sections is the translation by the section table: the
  section that contains the address (its first byte excluded) gives the file offset, and 0 is returned
  if there is none.
\<close>

theorem RVAToRaw_two_sections:
  assumes "read16 m pBase = Some 0x5A4D" "read32 m (pBase + 0x3C) = Some l"
    "read16 m (pBase + l + 6) = Some n" "read16 m (pBase + l + 20) = Some opt" "unat n \<le> 2"
  shows "RVAToRaw m pBase a =
    find_section m (map (\<lambda>j. pBase + l + 24 + ucast opt + of_nat (40 * j)) [0..<unat n]) (a - pBase)"
proof -
  have "map (\<lambda>j. p + of_nat (40 * (j * (j + 1) div 2))) [0..<unat n] = map (\<lambda>j. p + of_nat (40 * j)) [0..<unat n]" for p :: addr
  proof (rule map_cong[OF refl])
    fix j assume "j \<in> set [0..<unat n]"
    with assms(5) have "j = 0 \<or> j = 1" by auto
    then show "p + of_nat (40 * (j * (j + 1) div 2)) = p + of_nat (40 * j)" by auto
  qed
  note tri = this
  show ?thesis
    unfolding RVAToRaw_skips_headers[OF assms(1-4)] by (simp only: tri)
qed

theorem RVAToRaw_two_sections_witness:
  "RVAToRaw small_mem 0x80000400 0x80000580 = find_section small_mem [0x80000458] 0x180 \<and> find_section small_mem [0x80000458] 0x180 = Some 0x90"
proof -
  have "unat (1 :: 16 word) \<le> 2" by simp
  from RVAToRaw_two_sections[where m = small_mem and pBase = "0x80000400" and l = "0x40" and n = 1 and opt = 0 and a = "0x80000580", OF _ _ _ _ this] show ?thesis
    by (simp add: small_reads)
qed

section \<open>Finding the tables\<close>

text \<open>The instructions from offset \<open>n\<close> on have the given lengths, and none of them starts with 8D 88.\<close>

fun passes :: "(addr \<Rightarrow> bool) \<Rightarrow> memory \<Rightarrow> addr \<Rightarrow> nat \<Rightarrow> nat list \<Rightarrow> bool" where
  "passes valid m fn n [] = True"
| "passes valid m fn n (l # ls) \<longleftrightarrow>
     l \<noteq> 0 \<and> n < 4096 \<and> map_option fst (SizeOfCode valid m (fn + of_nat n)) = Some l \<and>
     (\<exists>w. read16 m (fn + of_nat n) = Some w \<and> w \<noteq> 0x888D) \<and> passes valid m fn (n + l) ls"

lemma shadow_loop_passes:
  "passes valid m fn n ls \<Longrightarrow> shadow_loop valid m fn n = shadow_loop valid m fn (n + sum_list ls)"
proof (induction ls arbitrary: n)
  case (Cons l ls)
  then obtain p w where "SizeOfCode valid m (fn + of_nat n) = Some (l, p)" "l \<noteq> 0" "n < 4096"
    "read16 m (fn + of_nat n) = Some w" "w \<noteq> 0x888D" by auto
  with Cons show ?case
    by (simp add: shadow_loop.simps[of valid m fn n] add.assoc)
qed simp

text \<open>
  C24. \<^verbatim>\<open>LocateSSDTShadowBase\<close> walks the instructions of \<^verbatim>\<open>KeAddSystemServiceTable\<close> and stops at the first
  \<^verbatim>\<open>lea ecx, [eax+disp32]\<close> (8D 88) within the first page: its displacement becomes the address of the shadow
  table. If an instruction cannot be measured before that, or the page ends, nothing is changed.
\<close>

theorem LocateSSDTShadowBase_finds:
  assumes "passes valid (mem s) fn 0 ls" "n = sum_list ls"
  shows "(n < 4096 \<and> SizeOfCode valid (mem s) (fn + of_nat n) = Some (l, Some 0) \<and> l \<noteq> 0 \<and>
      read16 (mem s) (fn + of_nat n) = Some 0x888D \<and> read32 (mem s) (fn + of_nat n + 2) = Some v \<longrightarrow>
        LocateSSDTShadowBase valid fn s = Some (s\<lparr>KeServiceDescriptorTableShadow := v\<rparr>)) \<and>
    (n < 4096 \<and> SizeOfCode valid (mem s) (fn + of_nat n) = Some (0, p) \<or> n \<ge> 4096 \<longrightarrow>
        LocateSSDTShadowBase valid fn s = Some s)"
  using shadow_loop_passes[OF assms(1)] assms(2)
  by (auto simp: LocateSSDTShadowBase_def shadow_loop.simps[of valid "mem s" fn "sum_list ls"])

theorem LocateSSDTShadowBase_finds_witness:
  "LocateSSDTShadowBase (\<lambda>_. True) 0 (small_machine\<lparr>mem := memory_of [0x90, 0x8D, 0x88, 0x80, 0x05, 0, 0]\<rparr>) =
   Some (small_machine\<lparr>mem := memory_of [0x90, 0x8D, 0x88, 0x80, 0x05, 0, 0], KeServiceDescriptorTableShadow := 0x580\<rparr>)"
proof -
  let ?m = "memory_of [0x90, 0x8D, 0x88, 0x80, 0x05, 0, 0]"
  have t: "OpcodeFlags ! 0x90 = 0" "OpcodeFlags ! 0x8D = 1"
    by (simp_all add: OpcodeFlags_def OpcodeFlags_lo_def OpcodeFlags_hi_def nth_append)
  have sizes: "SizeOfCode (\<lambda>_. True) ?m 0 = Some (1, Some 0)" "SizeOfCode (\<lambda>_. True) ?m 1 = Some (6, Some 0)"
    by (simp_all add: SizeOfCode_def prefix_loop.simps fetch_def memory_of_def is_prefix_def opcode_part_def operand_part_def
        modrm_part_def offset_size_def has_def data_size_def t Let_def)
  have reads: "read16 ?m 0 = Some 0x8D90" "read16 ?m 1 = Some 0x888D" "read32 ?m 3 = Some 0x580"
    by (simp_all add: read32_def read16_def memory_of_def)
  show ?thesis
    using LocateSSDTShadowBase_finds[of "\<lambda>_. True" "small_machine\<lparr>mem := ?m\<rparr>" 0 "[1]" 1 6 "0x580" None] sizes reads
    by simp
qed

text \<open>The ring of loaded modules from \<open>p\<close> on, back to \<open>first\<close>.\<close>

fun ring :: "memory \<Rightarrow> addr \<Rightarrow> addr list \<Rightarrow> bool" where
  "ring m first [] = False"
| "ring m first [p] = (read32 m p = Some first)"
| "ring m first (p # q # ps) \<longleftrightarrow> read32 m p = Some q \<and> q \<noteq> first \<and> ring m first (q # ps)"

lemma win32k_loop_ring:
  assumes "ring m first (p # ps)" "\<forall>q\<in>set (p # ps). ldr_matches m q \<noteq> None"
  shows "win32k_loop m first p =
    (case find (\<lambda>q. ldr_matches m q = Some True) (p # ps) of
       None \<Rightarrow> Some None | Some q \<Rightarrow> map_option Some (read32 m (q + 0x18)))"
  using assms
proof (induction ps arbitrary: p)
  case Nil
  then show ?case
    by (subst win32k_loop.simps) (cases "read32 m (p + 0x18)"; auto)
next
  case (Cons q ps)
  show ?case
  proof (cases "ldr_matches m p = Some True")
    case True
    then show ?thesis by (subst win32k_loop.simps) (cases "read32 m (p + 0x18)"; simp)
  next
    case False
    with Cons.prems have "ldr_matches m p = Some False" by auto
    with Cons show ?thesis by (subst win32k_loop.simps) simp
  qed
qed

text \<open>
  \<^verbatim>\<open>LocateWin32kBase\<close> on an intact ring of loaded modules returns: it sets \<^verbatim>\<open>pWin32kBase\<close> to the base of the first
  module whose full name is that of \<^verbatim>\<open>win32k.sys\<close>, in any case of letters, and leaves it alone if there is none.
\<close>

theorem LocateWin32kBase_finds:
  assumes "read32 (mem s) DriverSection = Some first" "ring (mem s) first (first # ps)"
    "\<forall>q\<in>set (first # ps). ldr_matches (mem s) q \<noteq> None \<and> read32 (mem s) (q + 0x18) \<noteq> None"
  shows "LocateWin32kBase DriverSection s = Some
    (case find (\<lambda>q. ldr_matches (mem s) q = Some True) (first # ps) of
       None \<Rightarrow> s | Some q \<Rightarrow> s\<lparr>pWin32kBase := the (read32 (mem s) (q + 0x18))\<rparr>)"
proof -
  have "win32k_loop (mem s) first first =
    (case find (\<lambda>q. ldr_matches (mem s) q = Some True) (first # ps) of
       None \<Rightarrow> Some None | Some q \<Rightarrow> map_option Some (read32 (mem s) (q + 0x18)))"
    using assms by (intro win32k_loop_ring) auto
  moreover have "q \<in> set (first # ps)" if "find (\<lambda>q. ldr_matches (mem s) q = Some True) (first # ps) = Some q" for q
    using that by (metis find_Some_iff nth_mem)
  ultimately show ?thesis
    using assms(1,3) by (auto simp: LocateWin32kBase_def split: option.splits simp del: find.simps)
qed

theorem LocateWin32kBase_finds_witness:
  "LocateWin32kBase 0x300 (small_machine\<lparr>mem := (\<lambda>_. Some 0)(0x300 \<mapsto> 0x20, 0x20 \<mapsto> 0x80, 0x80 \<mapsto> 0x20)\<rparr>) =
   Some (small_machine\<lparr>mem := (\<lambda>_. Some 0)(0x300 \<mapsto> 0x20, 0x20 \<mapsto> 0x80, 0x80 \<mapsto> 0x20)\<rparr>)"
proof -
  let ?m = "(\<lambda>_. Some 0)(0x300 \<mapsto> 0x20, 0x20 \<mapsto> 0x80, 0x80 \<mapsto> 0x20) :: memory"
  have reads: "read32 ?m 0x300 = Some 0x20" "read32 ?m 0x20 = Some 0x80" "read32 ?m 0x80 = Some 0x20"
    "read32 ?m 0x3C = Some 0" "read32 ?m 0x9C = Some 0" "read32 ?m 0x38 = Some 0" "read32 ?m 0x98 = Some 0"
    by (simp_all add: read32_def read16_def)
  then have "ldr_matches ?m 0x20 = Some False" "ldr_matches ?m 0x80 = Some False"
    by (simp_all add: ldr_matches_def)
  moreover have "Ex Not" by (rule exI[of _ False]) simp
  ultimately show ?thesis
    using reads LocateWin32kBase_finds[of "small_machine\<lparr>mem := ?m\<rparr>" "0x300" "0x20" "[0x80]"] by simp
qed

end
