(* ===== verification/Zax_RT.thy ===== *)
theory Zax_RT
  imports Zik_SSDT "HOL-Library.Multiset"
begin

unbundle bit_operations_syntax

text \<open>
  \<^verbatim>\<open>ZaxInspector/ZaxRT.c\<close>: number conversion, export of text, and the wrappers of Windows services. A
  buffer of characters is the list of its cells; a write outside it has no result (\<open>None\<close>). A string
  ends at its first zero, or with the list.
\<close>

section \<open>Definitions\<close>

type_synonym tchar = "16 word"

abbreviation (input) INVALID_HANDLE_VALUE :: addr where "INVALID_HANDLE_VALUE \<equiv> 0xFFFFFFFF"
abbreviation (input) MAX_PATH :: nat where "MAX_PATH \<equiv> 260"

text \<open>
  \<^verbatim>\<open>rt_check_verion\<close>: what \<^verbatim>\<open>IsWow64Process\<close> says, if it is there and called, and product type and build number as
  \<^verbatim>\<open>GetVersionEx\<close> gives them.
\<close>

definition rt_check_verion :: "bool option \<Rightarrow> (8 word \<times> 32 word) option \<Rightarrow> bool" where
  "rt_check_verion wow64 version =
     (if wow64 = Some True then False
      else case version of
        None \<Rightarrow> False
      | Some (wProductType, dwBuildNumber) \<Rightarrow>
          if wProductType = 3 then False else dwBuildNumber = 2600 \<or> dwBuildNumber = 7601)"

text \<open>\<^verbatim>\<open>rt_dwtos\<close>: \<^verbatim>\<open>szTemp[i++] = c\<close> on the array of 16 cells, of which the first \<open>i\<close> have been written\<close>

definition push_temp :: "tchar list \<Rightarrow> tchar \<Rightarrow> tchar list option" where
  "push_temp szTemp c = (if length szTemp < 16 then Some (szTemp @ [c]) else None)"

definition store :: "tchar list \<Rightarrow> nat \<Rightarrow> tchar \<Rightarrow> tchar list option" where
  "store szText i c = (if i < length szText then Some (szText[i := c]) else None)"

definition digit_char :: "32 word \<Rightarrow> tchar" where
  "digit_char nDigit = ucast nDigit + (if nDigit \<ge> 10 then 65 - 10 else 48)"

function dwtos_digits :: "32 word \<Rightarrow> 32 word \<Rightarrow> tchar list \<Rightarrow> tchar list option" where
  "dwtos_digits dwNumber nRadix szTemp =
     (if dwNumber > 0 then
        (case push_temp szTemp (digit_char (dwNumber mod nRadix)) of
           None \<Rightarrow> None
         | Some szTemp' \<Rightarrow> dwtos_digits (dwNumber div nRadix) nRadix szTemp')
      else Some szTemp)"
  by pat_completeness auto
termination
  by (relation "measure (\<lambda>(_, _, t). 16 - length t)") (auto simp: push_temp_def split: if_splits)

function dwtos_fill :: "int \<Rightarrow> tchar list \<Rightarrow> tchar list option" where
  "dwtos_fill nFillZero szTemp =
     (if int (length szTemp) < nFillZero then
        (case push_temp szTemp 48 of None \<Rightarrow> None | Some szTemp' \<Rightarrow> dwtos_fill nFillZero szTemp')
      else Some szTemp)"
  by pat_completeness auto
termination
  by (relation "measure (\<lambda>(_, t). 16 - length t)") (auto simp: push_temp_def split: if_splits)

fun dwtos_copy :: "nat \<Rightarrow> tchar list \<Rightarrow> nat \<Rightarrow> tchar list \<Rightarrow> tchar list option" where
  "dwtos_copy 0 szTemp nLength szOutText = Some szOutText"
| "dwtos_copy (Suc i) szTemp nLength szOutText =
     do { t \<leftarrow> store szOutText nLength (szTemp ! i); dwtos_copy i szTemp (Suc nLength) t }"

definition rt_dwtos :: "32 word \<Rightarrow> int \<Rightarrow> int \<Rightarrow> tchar list \<Rightarrow> int \<Rightarrow> (nat \<times> tchar list) option" where
  "rt_dwtos dwNumber nRadix nFillZero szOutText nOutLength =
     (if nRadix < 10 \<or> nRadix > 16 \<or> nFillZero \<ge> nOutLength then Some (0, szOutText)
      else do {
        t \<leftarrow> (if dwNumber = 0 then push_temp [] 48 else Some []);
        t \<leftarrow> dwtos_digits dwNumber (of_int nRadix) t;
        t \<leftarrow> dwtos_fill nFillZero t;
        if nOutLength > int (length t) then do {
          szOutText \<leftarrow> dwtos_copy (length t) t 0 szOutText;
          szOutText \<leftarrow> store szOutText (length t) 0;
          Some (length t, szOutText)
        } else Some (0, szOutText)
      })"

text \<open>\<^verbatim>\<open>rt_btos\<close>\<close>

fun btos_loop :: "byte list \<Rightarrow> nat \<Rightarrow> 32 word \<Rightarrow> 32 word \<Rightarrow> tchar list \<Rightarrow> (32 word \<times> tchar list) option" where
  "btos_loop [] i nLength dwLength szText = Some (nLength, szText)"
| "btos_loop (b # bs) i nLength dwLength szText =
     (if nLength \<ge> dwLength then Some (dwLength - 1, szText)
      else do {
        (nLength, szText) \<leftarrow>
          (if i \<noteq> 0 then do { t \<leftarrow> store szText (unat nLength) 32; Some (nLength + 1, t) } else Some (nLength, szText));
        (_, rest) \<leftarrow> rt_dwtos (ucast b) 16 2 (drop (unat nLength) szText) (sint (dwLength - nLength));
        btos_loop bs (Suc i) (nLength + 2) dwLength (take (unat nLength) szText @ rest)
      })"

definition rt_btos :: "byte list \<Rightarrow> tchar list \<Rightarrow> 32 word \<Rightarrow> (32 word \<times> tchar list) option" where
  "rt_btos pBytes szText dwLength =
     do {
       (nLength, szText) \<leftarrow> btos_loop pBytes 0 0 dwLength szText;
       szText \<leftarrow> store szText (unat nLength) 0;
       Some (nLength, szText)
     }"

text \<open>\<^verbatim>\<open>rt_stodw\<close>: the loop over the rest of the string; \<^verbatim>\<open>dwTemp\<close> is multiplied before the character is tested.\<close>

fun stodw_loop :: "bool \<Rightarrow> 32 word \<Rightarrow> tchar list \<Rightarrow> nat \<Rightarrow> nat \<times> 32 word" where
  "stodw_loop bIsHex dwTemp [] nLength = (nLength, dwTemp)"
| "stodw_loop bIsHex dwTemp (c # cs) nLength =
     (if c = 0 then (nLength, dwTemp)
      else
        let dwTemp = dwTemp * (if bIsHex then 16 else 10) in
        if c \<ge> 48 \<and> c \<le> 57 then stodw_loop bIsHex (dwTemp + ucast (c - 48)) cs (Suc nLength)
        else if bIsHex then
          if c \<ge> 65 \<and> c \<le> 90 then stodw_loop bIsHex (dwTemp + ucast (c - 65)) cs (Suc nLength)
          else if c \<ge> 97 \<and> c \<le> 122 then stodw_loop bIsHex (dwTemp + ucast (c - 97)) cs (Suc nLength)
          else (nLength, dwTemp)
        else (nLength, dwTemp))"

definition rt_stodw :: "tchar list \<Rightarrow> 32 word \<Rightarrow> nat \<times> 32 word" where
  \<comment> \<open>the second argument is the value of \<^verbatim>\<open>*pdwOut\<close> before the call\<close>
  "rt_stodw szNumber out =
     (let bIsHex = (take 2 szNumber = [48, 120]);
          (nLength, dwTemp) =
            (if bIsHex then stodw_loop True 0 (drop 2 szNumber) 2 else stodw_loop False 0 szNumber 0)
      in (nLength, if nLength > 0 then dwTemp else out))"

text \<open>The resources of the process that the wrappers acquire and release, and what has been written to files.\<close>

record process =
  open_handles :: "addr multiset"
  sids :: "addr multiset"
  regions :: "addr multiset"
  files :: "addr \<Rightarrow> byte list"

definition rt_valloc :: "32 word \<Rightarrow> addr \<Rightarrow> 'a process_scheme \<Rightarrow> addr \<times> 'a process_scheme" where
  \<comment> \<open>status and base address as \<^verbatim>\<open>NtAllocateVirtualMemory\<close> gives them\<close>
  "rt_valloc ntStatus pBase p =
     (if NT_SUCCESS ntStatus then (pBase, p\<lparr>regions := regions p + {#pBase#}\<rparr>) else (0, p))"

definition rt_vfree :: "addr \<Rightarrow> 'a process_scheme \<Rightarrow> 'a process_scheme" where
  "rt_vfree pBase p = p\<lparr>regions := regions p - {#pBase#}\<rparr>"

definition rt_enable_privilege :: "32 word \<Rightarrow> addr \<Rightarrow> 32 word \<Rightarrow> 'a process_scheme \<Rightarrow> bool \<times> 'a process_scheme" where
  \<comment> \<open>status and token of \<^verbatim>\<open>NtOpenProcessToken\<close>, status of \<^verbatim>\<open>NtAdjustPrivilegesToken\<close>\<close>
  "rt_enable_privilege opened hToken adjusted p =
     (if NT_SUCCESS opened then
        let p = p\<lparr>open_handles := open_handles p + {#hToken#}\<rparr>;
            p = p\<lparr>open_handles := open_handles p - {#hToken#}\<rparr>
        in (NT_SUCCESS adjusted, p)
      else (NT_SUCCESS opened, p))"

definition rt_is_administrator :: "addr option \<Rightarrow> bool option \<Rightarrow> 'a process_scheme \<Rightarrow> bool \<times> 'a process_scheme" where
  \<comment> \<open>the identifier of \<^verbatim>\<open>AllocateAndInitializeSid\<close>, the answer of \<^verbatim>\<open>CheckTokenMembership\<close>\<close>
  "rt_is_administrator sid member p =
     (case sid of
        None \<Rightarrow> (False, p)
      | Some adminsGroup \<Rightarrow>
          let p = p\<lparr>sids := sids p + {#adminsGroup#}\<rparr>;
              bIsAdministrator = (case member of None \<Rightarrow> False | Some b \<Rightarrow> b);
              p = p\<lparr>sids := sids p - {#adminsGroup#}\<rparr>
          in (bIsAdministrator, p))"

definition rt_save_dialog :: "tchar list option \<Rightarrow> tchar list \<Rightarrow> bool \<times> tchar list" where
  \<comment> \<open>what the user chooses in \<^verbatim>\<open>GetSaveFileName\<close>; the buffer keeps its contents if the dialog is cancelled\<close>
  "rt_save_dialog choice szFile = (case choice of None \<Rightarrow> (False, szFile) | Some f \<Rightarrow> (True, f))"

text \<open>
  \<^verbatim>\<open>rt_write\<close> in the \<^verbatim>\<open>UNICODE\<close> build. \<open>acp\<close> is the conversion of \<^verbatim>\<open>WideCharToMultiByte\<close>, which fails when the bytes
  do not fit the buffer; \<open>l\<close> counts wide characters.
\<close>

definition lstrlen :: "tchar list \<Rightarrow> nat" where
  "lstrlen s = length (takeWhile (\<lambda>c. c \<noteq> 0) s)"

definition WriteFile :: "addr \<Rightarrow> byte list \<Rightarrow> 'a process_scheme \<Rightarrow> 'a process_scheme" where
  "WriteFile hFile bs p = p\<lparr>files := (files p)(hFile := files p hFile @ bs)\<rparr>"

fun write_loop_rt :: "(tchar list \<Rightarrow> byte list) \<Rightarrow> addr \<Rightarrow> tchar list list \<Rightarrow> byte list \<Rightarrow> 'a process_scheme \<Rightarrow> 'a process_scheme option" where
  "write_loop_rt acp hFile [] szBuffer p = Some p"
| "write_loop_rt acp hFile (t # ts) szBuffer p =
     (let l = lstrlen t;
          bs = acp (take l t);
          szBuffer = (if length bs \<le> MAX_PATH then bs @ drop (length bs) szBuffer else szBuffer)
      in if l < MAX_PATH then
           let szBuffer = szBuffer[l := 0];
               p = WriteFile hFile (take l szBuffer) p;
               p = WriteFile hFile [9] p
           in write_loop_rt acp hFile ts szBuffer p
         else None)"

definition rt_write :: "(tchar list \<Rightarrow> byte list) \<Rightarrow> byte list \<Rightarrow> addr \<Rightarrow> tchar list list \<Rightarrow> 'a process_scheme \<Rightarrow> 'a process_scheme option" where
  \<comment> \<open>the second argument is what the uninitialised \<^verbatim>\<open>szBuffer\<close> contains\<close>
  "rt_write acp szBuffer hFile szTexts p =
     (if hFile \<noteq> INVALID_HANDLE_VALUE then
        map_option (WriteFile hFile [13, 10]) (write_loop_rt acp hFile szTexts szBuffer p)
      else Some p)"

definition rt_initialize :: bool where "rt_initialize = True"

declare dwtos_digits.simps [simp del] dwtos_fill.simps [simp del]

section \<open>Numbers as text\<close>

text \<open>Reference: the digits of a number, least significant first, and the text of a number.\<close>

fun digs :: "nat \<Rightarrow> nat \<Rightarrow> nat list" where
  "digs r n = (if n = 0 \<or> r < 2 then [] else (n mod r) # digs r (n div r))"

declare digs.simps [simp del]

definition dchar :: "nat \<Rightarrow> tchar" where
  "dchar d = (if d < 10 then of_nat (48 + d) else of_nat (55 + d))"

definition dw_text :: "32 word \<Rightarrow> nat \<Rightarrow> nat \<Rightarrow> tchar list" where
  "dw_text n r fill =
     (let ds = (if n = 0 then [dchar 0] else map dchar (rev (digs r (unat n)))) in replicate (fill - length ds) (dchar 0) @ ds)"

lemma digs_0 [simp]: "digs r 0 = []"
  by (simp add: digs.simps)

lemma digs_step: "n > 0 \<Longrightarrow> r \<ge> 2 \<Longrightarrow> digs r n = (n mod r) # digs r (n div r)"
  by (simp add: digs.simps[of r n])

lemma length_digs: "n < 10 ^ k \<Longrightarrow> r \<ge> 10 \<Longrightarrow> length (digs r n) \<le> k"
proof (induction k arbitrary: n)
  case (Suc k)
  show ?case
  proof (cases "n = 0")
    case False
    have "n div r \<le> n div 10" using Suc.prems by (simp add: div_le_mono2)
    also have "\<dots> < 10 ^ k" using Suc.prems by (simp add: div_less_iff_less_mult)
    finally show ?thesis using Suc.IH Suc.prems False by (simp add: digs_step)
  qed simp
qed simp

lemma length_digs_word: "r \<ge> 10 \<Longrightarrow> length (digs r (unat (n :: 32 word))) \<le> 10"
  using unsigned_less[of n, where 'a = nat] by (intro length_digs) auto

lemma digit_char_eq: "unat d < 16 \<Longrightarrow> digit_char d = dchar (unat d)"
proof -
  assume "unat d < 16"
  then have "d = of_nat (unat d)" "unat d \<in> set [0..<16]" by auto
  then obtain k where d: "d = of_nat k" "k \<in> set [0..<16]" by metis
  then have "\<forall>k \<in> set [0..<16]. digit_char (of_nat k) = dchar (unat (of_nat k :: 32 word))" by code_simp
  with d show ?thesis by blast
qed

lemma dwtos_digits_eq:
  assumes "10 \<le> r" "r \<le> 16"
  shows "dwtos_digits n (of_nat r) t =
    (let ds = map dchar (digs r (unat n)) in if length t + length ds \<le> 16 \<or> n = 0 then Some (t @ ds) else None)"
proof (induction "unat n" arbitrary: n t rule: less_induct)
  case less
  have r: "unat (of_nat r :: 32 word) = r" using assms by (simp add: unat_of_nat)
  show ?case
  proof (cases "n = 0")
    case True
    then show ?thesis by (simp add: dwtos_digits.simps)
  next
    case False
    then have n: "0 < unat n" by (simp add: unat_gt_0)
    have m: "unat (n mod of_nat r) = unat n mod r" "unat (n div of_nat r) = unat n div r"
      by (simp_all add: unat_mod unat_div r)
    have "unat n div r < unat n" using n assms by simp
    note IH = less[of "n div of_nat r", unfolded m, OF this]
    have c: "digit_char (n mod of_nat r) = dchar (unat n mod r)"
      using assms mod_less_divisor[of r "unat n"] by (subst digit_char_eq) (simp_all add: m del: mod_less_divisor)
    have z: "n div of_nat r = 0 \<Longrightarrow> digs r (unat n div r) = []" using m(2) by (metis digs_0 unat_0)
    from n assms False IH c z show ?thesis
      by (subst dwtos_digits.simps) (auto simp: push_temp_def digs_step Let_def word_neq_0_conv[symmetric] split: option.splits)
  qed
qed

lemma dwtos_fill_eq:
  "dwtos_fill f t =
    (if length t < nat f then if nat f \<le> 16 then Some (t @ replicate (nat f - length t) 48) else None else Some t)"
proof (induction f t rule: dwtos_fill.induct)
  case (1 f t)
  show ?case
  proof (cases "length t < 16")
    case True
    moreover have "replicate (nat f - length t) (48 :: tchar) = [48]" if "nat f \<le> Suc (length t)" "length t < nat f"
    proof -
      from that have "nat f = Suc (length t)" by simp
      then show ?thesis by simp
    qed
    ultimately show ?thesis using 1[of "t @ [48]"]
      by (subst dwtos_fill.simps) (auto simp: push_temp_def nat_less_iff Suc_diff_Suc replicate_append_same not_less
        replicate_Suc[symmetric] simp del: replicate_Suc)
  next
    case False
    then show ?thesis by (subst dwtos_fill.simps) (auto simp: push_temp_def)
  qed
qed

lemma dwtos_copy_eq:
  "i \<le> length t \<Longrightarrow> dwtos_copy i t n out =
    (if n + i \<le> length out \<or> i = 0 then Some (take n out @ rev (take i t) @ drop (n + i) out) else None)"
proof (induction i arbitrary: n out)
  case (Suc i)
  have "take (Suc n) (out[n := t ! i]) = take n out @ [t ! i]" if "n < length out"
    using that by (simp add: take_Suc_conv_app_nth)
  with Suc show ?case
    by (auto simp: store_def take_Suc_conv_app_nth[of i])
qed simp


lemma list_update_end: "length xs < length out \<Longrightarrow> (xs @ drop (length xs) out)[length xs := c] = xs @ c # drop (Suc (length xs)) out"
  by (simp add: list_update_append Cons_nth_drop_Suc[symmetric])

lemma dw_text_not_Nil [simp]: "dw_text n r f \<noteq> []" if "r \<ge> 2"
  using that by (auto simp: dw_text_def Let_def digs_step unat_gt_0)

lemma rt_dwtos_eq:
  assumes "10 \<le> r" "r \<le> 16" "f < k"
  shows "rt_dwtos n (int r) f out k =
    (let t = dw_text n r (nat f) in
     if 16 < length t then None
     else if int (length t) < k then
       if length t < length out then Some (length t, t @ 0 # drop (Suc (length t)) out) else None
     else Some (0, out))"
proof -
  let ?ds = "if n = 0 then [dchar 0] else map dchar (digs r (unat n))"
  have l: "length ?ds \<le> 10" using length_digs_word[of r n] assms by simp
  obtain t0 where t0: "(if n = 0 then push_temp [] 48 else Some []) = Some t0" "dwtos_digits n (of_nat r) t0 = Some ?ds"
    using l dwtos_digits_eq[OF assms(1,2), of n] by (auto simp: push_temp_def dchar_def Let_def split: if_splits)
  have f: "dwtos_fill f ?ds = (if 16 < length (dw_text n r (nat f)) then None else Some (rev (dw_text n r (nat f))))"
    using l by (auto simp: dwtos_fill_eq dw_text_def rev_map dchar_def Let_def)
  show ?thesis
    using assms unfolding rt_dwtos_def t0(1)
    by (simp only: bind.bind_lunit of_int_of_nat_eq t0(2) f) (simp add: dwtos_copy_eq store_def Let_def list_update_end)
qed


text \<open>What a text of digits denotes: the inverse of \<open>dchar\<close>, most significant digit first.\<close>

definition digit_value :: "tchar \<Rightarrow> nat" where
  "digit_value c = (if c \<ge> 65 then unat c - 55 else unat c - 48)"

definition text_value :: "nat \<Rightarrow> tchar list \<Rightarrow> nat" where
  "text_value r t = foldl (\<lambda>a c. a * r + digit_value c) 0 t"

lemma digit_value_dchar: "d < 16 \<Longrightarrow> digit_value (dchar d) = d"
proof -
  have "\<forall>d \<in> set [0..<16]. digit_value (dchar d) = d" by code_simp
  then show "d < 16 \<Longrightarrow> digit_value (dchar d) = d" by simp
qed

lemma dchar_eq_0_iff: "d < 16 \<Longrightarrow> dchar d = dchar 0 \<longleftrightarrow> d = 0"
  using digit_value_dchar[of d] digit_value_dchar[of 0] by auto

lemma digs_less: "r \<ge> 2 \<Longrightarrow> d \<in> set (digs r n) \<Longrightarrow> d < r"
proof (induction n rule: less_induct)
  case (less n)
  show ?case
  proof (cases "n = 0")
    case False
    with less.prems have "d = n mod r \<or> d \<in> set (digs r (n div r))" by (simp add: digs_step)
    moreover have "n div r < n" using False less.prems by simp
    ultimately show ?thesis using less by auto
  qed (use less.prems in simp)
qed

lemma last_digs: "r \<ge> 2 \<Longrightarrow> n > 0 \<Longrightarrow> last (digs r n) \<noteq> 0"
proof (induction n rule: less_induct)
  case (less n)
  show ?case
  proof (cases "n div r = 0")
    case True
    with less.prems have "n mod r = n" by (metis add.right_neutral div_mult_mod_eq mult_zero_left add_0)
    with True less.prems show ?thesis by (simp add: digs_step)
  next
    case False
    then have "digs r (n div r) \<noteq> []" using less.prems by (simp add: digs_step)
    with False less.IH[of "n div r"] less.prems show ?thesis by (simp add: digs_step[of n])
  qed
qed

lemma text_value_snoc: "text_value r (t @ [c]) = text_value r t * r + digit_value c"
  by (simp add: text_value_def)

lemma text_value_digs: "2 \<le> r \<Longrightarrow> r \<le> 16 \<Longrightarrow> text_value r (map dchar (rev (digs r n))) = n"
proof (induction n rule: less_induct)
  case (less n)
  show ?case
  proof (cases "n = 0")
    case False
    have "n mod r < 16" using less.prems mod_less_divisor[of r n] by linarith
    with less False show ?thesis by (simp add: digs_step text_value_snoc digit_value_dchar)
  qed (simp add: text_value_def)
qed

lemma text_value_zeros: "text_value r (replicate k (dchar 0) @ t) = text_value r t"
  by (induction k) (simp_all add: text_value_def digit_value_dchar)

lemma dw_text_value: "2 \<le> r \<Longrightarrow> r \<le> 16 \<Longrightarrow> text_value r (dw_text n r f) = unat n"
  using text_value_digs[of r "unat n"] digit_value_dchar[of 0]
  by (simp add: dw_text_def text_value_zeros Let_def) (simp add: text_value_def)

lemma dw_text_digits: "2 \<le> r \<Longrightarrow> r \<le> 16 \<Longrightarrow> c \<in> set (dw_text n r f) \<Longrightarrow> \<exists>d<r. c = dchar d"
  using digs_less[of r _ "unat n"] exI[of "\<lambda>d. d < r \<and> dchar 0 = dchar d" 0]
  by (auto simp: dw_text_def Let_def split: if_splits)

lemma dw_text_length: "length (dw_text n r f) = max f (if n = 0 then 1 else length (digs r (unat n)))"
  by (auto simp: dw_text_def Let_def)

lemma dw_text_no_padding:
  assumes "2 \<le> r" "r \<le> 16"
  shows "length (dw_text n r f) = f \<or> dw_text n r f = [dchar 0] \<or> hd (dw_text n r f) \<noteq> dchar 0"
proof (cases "f \<le> (if n = 0 then 1 else length (digs r (unat n)))")
  case True
  have "digs r (unat n) \<noteq> []" "last (digs r (unat n)) \<noteq> 0" "last (digs r (unat n)) < 16" if "n \<noteq> 0"
  proof -
    from that have n: "0 < unat n" by (simp add: unat_gt_0)
    then show d: "digs r (unat n) \<noteq> []" using assms by (simp add: digs_step)
    show "last (digs r (unat n)) \<noteq> 0" by (rule last_digs) (use n assms in auto)
    show "last (digs r (unat n)) < 16" using digs_less[of r _ "unat n"] assms last_in_set[OF d] by fastforce
  qed
  with True show ?thesis
    by (auto simp: dw_text_def Let_def hd_map hd_rev dchar_eq_0_iff split: if_splits)
qed (auto simp: dw_text_length)

text \<open>
  C30. \<^verbatim>\<open>rt_dwtos\<close> is total and right: for every number, radix 10 to 16, at most 16 digits of padding and a buffer that
  is as long as the caller says, it writes a text of digits of that radix whose value is the number,
  of the padded length and without further leading zeros, and a terminator, and changes nothing behind it; if the text does
  not fit, the buffer is left alone and the result is 0.
\<close>

theorem rt_dwtos_correct:
  assumes "10 \<le> r" "r \<le> 16" "nFillZero \<le> 16" "nFillZero < nOutLength" "nOutLength \<le> int (length out)"
  shows "\<exists>text. rt_dwtos n (int r) nFillZero out nOutLength =
      Some (if int (length text) < nOutLength then (length text, text @ 0 # drop (Suc (length text)) out) else (0, out)) \<and>
    text_value r text = unat n \<and> (\<forall>c\<in>set text. \<exists>d<r. c = dchar d) \<and>
    nFillZero \<le> int (length text) \<and> (int (length text) = nFillZero \<or> text = [dchar 0] \<or> hd text \<noteq> dchar 0)"
proof -
  let ?t = "dw_text n r (nat nFillZero)"
  have "length ?t \<le> 16" using length_digs_word[of r n] assms by (simp add: dw_text_length nat_le_iff)
  moreover have "length ?t = nat nFillZero \<Longrightarrow> int (length ?t) = nFillZero"
    using dw_text_not_Nil[of r n "nat nFillZero"] assms by (cases "0 \<le> nFillZero") auto
  ultimately show ?thesis
    using rt_dwtos_eq[of r nFillZero nOutLength n out] dw_text_value[of r n "nat nFillZero"] assms
      dw_text_digits[of r _ n "nat nFillZero"] dw_text_no_padding[of r n "nat nFillZero"]
    by (intro exI[of _ ?t]) (auto simp: Let_def dw_text_length)
qed

theorem rt_dwtos_correct_witness:
  "\<exists>text. rt_dwtos 0xBEEF (int 16) 8 (replicate 20 7) 20 =
      Some (if int (length text) < 20 then (length text, text @ 0 # drop (Suc (length text)) (replicate 20 7)) else (0, replicate 20 7)) \<and>
    text_value 16 text = 0xBEEF \<and> 8 \<le> int (length text)"
  by (rule ex_forward[OF rt_dwtos_correct[of 16 8 20 "replicate 20 7" "0xBEEF"]]) auto

section \<open>Reading numbers\<close>

lemma dchar_decimal:
  "d < 10 \<Longrightarrow> dchar d \<noteq> 0 \<and> dchar d \<ge> 48 \<and> dchar d \<le> 57 \<and> dchar d \<noteq> 120 \<and> ucast (dchar d - 48) = (of_nat d :: 32 word)"
proof -
  have "\<forall>d \<in> set [0..<10]. dchar d \<noteq> 0 \<and> dchar d \<ge> 48 \<and> dchar d \<le> 57 \<and> dchar d \<noteq> 120 \<and>
    ucast (dchar d - 48) = (of_nat d :: 32 word)" by code_simp
  then show "d < 10 \<Longrightarrow> ?thesis" by simp
qed

lemma of_nat_foldl_cong:
  "(of_nat a :: 32 word) = of_nat b \<Longrightarrow>
   (of_nat (foldl (\<lambda>a c. a * 10 + digit_value c) a t) :: 32 word) = of_nat (foldl (\<lambda>a c. a * 10 + digit_value c) b t)"
  by (induction t arbitrary: a b) simp_all

lemma stodw_loop_text:
  "\<forall>c\<in>set t. \<exists>d<10. c = dchar d \<Longrightarrow>
   stodw_loop False a (t @ 0 # rest) k =
     (k + length t, of_nat (foldl (\<lambda>a c. a * 10 + digit_value c) (unat a) t))"
proof (induction t arbitrary: a k)
  case (Cons c t)
  then obtain d where d: "c = dchar d" "d < 10" by auto
  have "stodw_loop False a ((c # t) @ 0 # rest) k = stodw_loop False (a * 10 + of_nat d) (t @ 0 # rest) (Suc k)"
    using d dchar_decimal[of d] by (simp add: Let_def)
  moreover have "(of_nat (foldl (\<lambda>a c. a * 10 + digit_value c) (unat (a * 10 + of_nat d)) t) :: 32 word) =
      of_nat (foldl (\<lambda>a c. a * 10 + digit_value c) (unat a * 10 + d) t)"
    by (rule of_nat_foldl_cong) simp
  ultimately show ?case using Cons d by (simp add: digit_value_dchar)
qed simp

text \<open>
  Round trip: whatever decimal text \<^verbatim>\<open>rt_dwtos\<close> has written, with any padding, \<^verbatim>\<open>rt_stodw\<close> reads back as the same
  number, and consumes all of it.
\<close>

theorem rt_stodw_dwtos:
  assumes "rt_dwtos n 10 nFillZero out nOutLength = Some (len, out')" "len > 0"
  shows "rt_stodw out' old = (len, n)"
proof -
  from assms have "nFillZero < nOutLength" by (auto simp: rt_dwtos_def split: if_splits)
  from rt_dwtos_eq[of 10, OF _ _ this, of n out] assms
  obtain t rest where t: "t = dw_text n 10 (nat nFillZero)" "out' = t @ 0 # rest" "len = length t"
    by (auto simp: Let_def split: if_splits)
  have d: "\<forall>c\<in>set t. \<exists>d<10. c = dchar d" using dw_text_digits[of 10] by (auto simp: t)
  then have "stodw_loop False 0 out' 0 = (len, n)"
    using stodw_loop_text[OF d, of 0 rest 0] dw_text_value[of 10 n "nat nFillZero"] by (simp add: t text_value_def)
  moreover have "take 2 out' \<noteq> [48, 120]"
  proof
    assume "take 2 out' = [48, 120]"
    moreover have "take 2 out' = take 2 t \<or> (\<exists>c. take 2 out' = [c, 0])"
      using assms(2) t(3) by (cases t; cases "tl t") (auto simp: t(2) take_Cons')
    ultimately have "[48, 120] = take 2 t" by auto
    from arg_cong[OF this, of set] have "120 \<in> set t" using set_take_subset[of 2 t] by auto
    with d dchar_decimal show False by metis
  qed
  ultimately show ?thesis using assms(2) by (simp add: rt_stodw_def)
qed

theorem rt_stodw_dwtos_witness: "rt_stodw (wide ''00042'' @ [0]) 7 = (5, 42)"
proof -
  have "rt_dwtos 42 10 5 (replicate 6 0) 6 = Some (5, wide ''00042'' @ [0])" by code_simp
  from rt_stodw_dwtos[OF this] show ?thesis by simp
qed

text \<open>
  Hexadecimal letters count from 0 instead of 10, and a bad character still multiplies the value: \<^verbatim>\<open>0x1A\<close> is read as
  \<open>0x10\<close>, and \<^verbatim>\<open>12;\<close> as \<open>120\<close>.
\<close>

lemma rt_stodw_wrong:
  "rt_stodw (wide ''0x1A'') 0 = (4, 0x10)"
  "rt_stodw (wide ''12;'') 0 = (2, 120)"
  by code_simp+

section \<open>Bytes as text\<close>

abbreviation hex_byte :: "byte \<Rightarrow> tchar list" where
  "hex_byte b \<equiv> dw_text (ucast b) 16 2"

lemma length_hex_byte: "length (hex_byte b) = 2"
proof -
  have "length (digs 16 n) \<le> 2" if "n < 256" for n :: nat
  proof -
    have "n div 16 div 16 = 0" using that by (simp add: div_mult2_eq[symmetric])
    then show ?thesis by (cases "n = 0"; cases "n div 16 = 0") (simp_all add: digs_step[of n] digs_step[of "n div 16"])
  qed
  moreover have "unat (ucast b :: 32 word) < 256" using unsigned_less[of b, where 'a = nat]
    by (simp add: unsigned_ucast_eq take_bit_nat_eq_self)
  ultimately have "length (digs 16 (unat (ucast b :: 32 word))) \<le> 2" by blast
  then show ?thesis by (simp add: dw_text_length max_def)
qed

lemma rt_dwtos_byte:
  assumes "2 < k" "2 < length out"
  shows "rt_dwtos (ucast b) 16 2 out k = Some (2, hex_byte b @ 0 # drop 3 out)"
  using rt_dwtos_eq[of 16 2 k "ucast b" out] assms length_hex_byte[of b] by (simp add: Let_def)

lemma sint_greater:
  assumes "unat (w :: 32 word) < 2 ^ 31" "k < unat w"
  shows "int k < sint w"
proof -
  have u: "uint w = int (unat w)" by simp
  from assms(1) have "unat w < 2147483648" by simp
  with u have b: "0 \<le> uint w" "uint w < 2147483648" by linarith+
  have "sint w = uint w" unfolding sint_uint
    by (rule signed_take_bit_int_eq_self) (use b in \<open>auto intro: order.trans[of _ 0]\<close>)
  with assms(2) u show ?thesis by linarith
qed

lemma unat_of_nat_less: "k < 2 ^ 32 \<Longrightarrow> unat (of_nat k :: 32 word) = k"
  by (simp add: unat_of_nat)

lemma btos_step:
  assumes "unat n = length pre" "unat n + 3 < unat L" "unat L < 2 ^ 31" "length rest > 3"
  shows "btos_loop (b # bs) (Suc i) n L (pre @ rest) = btos_loop bs (Suc (Suc i)) (n + 3) L ((pre @ 32 # hex_byte b) @ 0 # drop 4 rest)"
proof -
  have n1: "unat (n + 1) = unat n + 1" using assms by (simp add: unat_word_ariths)
  have "n + 1 \<le> L" using assms n1 by (simp add: word_le_nat_alt)
  then have d: "unat (L - (n + 1)) = unat L - (unat n + 1)" using n1 by (metis unat_sub)
  have "rt_dwtos (ucast b) 16 2 (tl rest) (sint (L - (n + 1))) = Some (2, hex_byte b @ 0 # drop 3 (tl rest))"
    using assms d sint_greater[of "L - (n + 1)" 2] by (intro rt_dwtos_byte) (cases rest; simp)+
  moreover have "\<not> L \<le> n" using assms by (simp add: word_le_nat_alt)
  ultimately show ?thesis
    using assms n1 by (cases rest) (simp_all add: store_def list_update_append add.assoc)
qed

lemma btos_loop_eq:
  assumes "unat n = length pre" "unat n + 3 * length bs < unat L" "unat L < 2 ^ 31" "unat L \<le> length pre + length rest"
    "rest \<noteq> []"
  shows "\<exists>c. btos_loop bs (Suc i) n L (pre @ rest) =
    Some (n + of_nat (3 * length bs), pre @ concat (map (\<lambda>b. 32 # hex_byte b) bs) @ c # drop (Suc (3 * length bs)) rest)"
  using assms
proof (induction bs arbitrary: n pre rest i)
  case Nil
  then show ?case by (intro exI[of _ "hd rest"]) (cases rest; simp)
next
  case (Cons b bs)
  have n3: "unat (n + 3) = unat n + 3" using Cons.prems by (simp add: unat_word_ariths)
  have "\<exists>c. btos_loop bs (Suc (Suc i)) (n + 3) L ((pre @ 32 # hex_byte b) @ 0 # drop 4 rest) =
    Some (n + 3 + of_nat (3 * length bs), (pre @ 32 # hex_byte b) @ concat (map (\<lambda>b. 32 # hex_byte b) bs) @ c #
      drop (Suc (3 * length bs)) (0 # drop 4 rest))"
    using Cons.prems n3 by (intro Cons.IH) (simp_all add: length_hex_byte)
  moreover have "btos_loop (b # bs) (Suc i) n L (pre @ rest) =
    btos_loop bs (Suc (Suc i)) (n + 3) L ((pre @ 32 # hex_byte b) @ 0 # drop 4 rest)"
    by (rule btos_step) (use Cons.prems in auto)
  ultimately show ?case by (auto simp: algebra_simps)
qed

definition bytes_text :: "byte list \<Rightarrow> tchar list" where
  "bytes_text bs = tl (concat (map (\<lambda>b. 32 # hex_byte b) bs))"

lemma length_bytes_text: "length (bytes_text bs) = 3 * length bs - 1"
proof -
  have "length (concat (map (\<lambda>b. 32 # hex_byte b) bs)) = 3 * length bs" by (induction bs) (simp_all add: length_hex_byte)
  then show ?thesis by (simp add: bytes_text_def)
qed

text \<open>
  \<^verbatim>\<open>rt_btos\<close> with three cells per byte: the buffer gets the bytes as two hexadecimal digits each, separated by
  blanks and terminated; nothing behind the terminator changes and the result is the length of the text.
\<close>

theorem rt_btos_correct:
  assumes "bs \<noteq> []" "3 * length bs \<le> unat L" "unat L < 2 ^ 31" "unat L \<le> length out"
  shows "rt_btos bs out L =
    Some (of_nat (3 * length bs - 1), bytes_text bs @ 0 # drop (3 * length bs) out)"
proof -
  obtain b cs where bs: "bs = b # cs" using assms(1) by (cases bs) auto
  have L: "3 \<le> unat L" using assms(2) bs by simp
  have "rt_dwtos (ucast b) 16 2 out (sint L) = Some (2, hex_byte b @ 0 # drop 3 out)"
    using assms L sint_greater[of L 2] by (intro rt_dwtos_byte) simp_all
  then have "btos_loop bs 0 0 L out = btos_loop cs (Suc 0) 2 L (hex_byte b @ 0 # drop 3 out)"
    using L by (simp add: bs word_le_nat_alt)
  moreover have "\<exists>c. btos_loop cs (Suc 0) 2 L (hex_byte b @ 0 # drop 3 out) =
    Some (2 + of_nat (3 * length cs), hex_byte b @ concat (map (\<lambda>b. 32 # hex_byte b) cs) @ c # drop (Suc (3 * length cs)) (0 # drop 3 out))"
    using assms(2-4) bs L by (intro btos_loop_eq) (simp_all add: length_hex_byte)
  moreover have "hex_byte b @ concat (map (\<lambda>b. 32 # hex_byte b) cs) = bytes_text bs" by (simp add: bytes_text_def bs)
  moreover have "drop (Suc (3 * length cs)) (0 # drop 3 out) = drop (3 * length bs) out" by (simp add: bs add.commute)
  moreover have "2 + of_nat (3 * length cs) = (of_nat (3 * length bs - 1) :: 32 word)" by (simp add: bs)
  ultimately obtain c where
    l: "btos_loop bs 0 0 L out = Some (of_nat (3 * length bs - 1), bytes_text bs @ c # drop (3 * length bs) out)"
    by (metis append.assoc)
  have "3 * length bs - 1 < 2 ^ 32" using assms(2,3) by simp
  from unat_of_nat_less[OF this] show ?thesis
    unfolding rt_btos_def l by (simp add: store_def list_update_append length_bytes_text del: of_nat_diff of_nat_mult)
qed

theorem rt_btos_correct_witness:
  "rt_btos [0x8B, 0xFF] (replicate 9 7) 8 = Some (5, bytes_text [0x8B, 0xFF] @ 0 # replicate 3 7)"
  using rt_btos_correct[of "[0x8B, 0xFF]" 8 "replicate 9 7"] by simp

text \<open>With too little room the digits are skipped but counted, and the terminator lands behind the buffer.\<close>

lemma rt_btos_overruns: "rt_btos [0x8B] (replicate 2 7) 2 = None"
  by code_simp

section \<open>Export\<close>

lemma WriteFile_append: "WriteFile h ys (WriteFile h xs p) = WriteFile h (xs @ ys) p"
  by (simp add: WriteFile_def)

lemma write_loop_rt_lines:
  assumes "\<forall>t\<in>set ts. lstrlen t < MAX_PATH \<and> length (acp (take (lstrlen t) t)) = lstrlen t" "length buf = MAX_PATH"
  shows "write_loop_rt acp h ts buf (WriteFile h xs p) =
    Some (WriteFile h (xs @ concat (map (\<lambda>t. acp (take (lstrlen t) t) @ [9]) ts)) p)"
  using assms by (induction ts arbitrary: buf xs) (simp_all add: Let_def WriteFile_append)

text \<open>
  Export writes a line: with a code page of one byte per character and texts shorter than \<^verbatim>\<open>MAX_PATH\<close>, \<^verbatim>\<open>rt_write\<close> appends
  to the file every converted text, each followed by a tabulator, and the end of line, and changes nothing else.
\<close>

theorem rt_write_line:
  assumes "\<forall>t\<in>set ts. lstrlen t < MAX_PATH \<and> length (acp (take (lstrlen t) t)) = lstrlen t"
    "length buf = MAX_PATH" "h \<noteq> INVALID_HANDLE_VALUE"
  shows "rt_write acp buf h ts p =
    Some (p\<lparr>files := (files p)(h := files p h @ concat (map (\<lambda>t. acp (take (lstrlen t) t) @ [9]) ts) @ [13, 10])\<rparr>)"
  using write_loop_rt_lines[OF assms(1,2), of h "[]" p] assms(3) by (simp add: rt_write_def WriteFile_def)

theorem rt_write_line_witness:
  "rt_write (map ucast) (replicate 260 0) 4 [wide ''ab'' @ [0], wide ''-''] \<lparr>open_handles = {#}, sids = {#}, regions = {#}, files = (\<lambda>_. [])\<rparr> =
    Some \<lparr>open_handles = {#}, sids = {#}, regions = {#}, files = (\<lambda>_. [])(4 := [97, 98, 9, 45, 9, 13, 10])\<rparr>"
  using rt_write_line[of "[wide ''ab'' @ [0], wide ''-'']" "map ucast" "replicate 260 0" 4
      "\<lparr>open_handles = {#}, sids = {#}, regions = {#}, files = (\<lambda>_. [])\<rparr>"]
  by (simp add: lstrlen_def wide_def)

text \<open>
  The number of characters is used as the number of bytes: where the code page needs two bytes for a character, the
  text is cut.
\<close>

lemma rt_write_cuts:
  assumes "length buf = MAX_PATH"
  shows "rt_write (\<lambda>t. concat (map (\<lambda>c. [ucast (drop_bit 8 c), ucast c]) t)) buf 4 [[0x4E2D, 0x6587]] p =
    Some (WriteFile 4 [0x4E, 0x2D, 9, 13, 10] p)"
proof -
  have "(0x4E2D :: byte) = 0x2D" by simp
  then have "WriteFile 4 [0x4E, 0x4E2D, 9, 13, 10] p = WriteFile 4 [0x4E, 0x2D, 9, 13, 10] p" by metis
  with assms show ?thesis by (simp add: rt_write_def lstrlen_def Let_def WriteFile_append)
qed

text \<open>A privilege that the account does not hold counts as enabled: \<^verbatim>\<open>STATUS_NOT_ALL_ASSIGNED\<close> is a success code.\<close>

lemma rt_enable_privilege_not_assigned: "rt_enable_privilege 0 h 0x106 p = (True, p)"
  by (simp add: rt_enable_privilege_def NT_SUCCESS_def)

lemma wrappers_release:
  "snd (rt_enable_privilege opened h adjusted p) = p"
  "snd (rt_is_administrator sid member p) = p"
  "rt_valloc status base p = (a, p') \<Longrightarrow> a \<noteq> 0 \<Longrightarrow> rt_vfree a p' = p"
  by (auto simp: rt_enable_privilege_def rt_is_administrator_def rt_valloc_def rt_vfree_def split: option.splits if_splits)

end
