(* ===== verification/Zik_Driver.thy ===== *)
theory Zik_Driver
  imports Zik_SSDT
begin

unbundle bit_operations_syntax

text \<open>
  The rest of the driver: control codes (\<^verbatim>\<open>ZaxIoCode.h\<close>), \<^verbatim>\<open>EnumIDT\<close> (\<^verbatim>\<open>idt.c\<close>), \<^verbatim>\<open>EnumKernel\<close> (\<^verbatim>\<open>kernel.c\<close>),
  and loading, unloading and the dispatch routine (\<^verbatim>\<open>zik.c\<close>).
\<close>

section \<open>Definitions\<close>

text \<open>\<^verbatim>\<open>ZaxIoCode.h\<close>\<close>

definition CTL_CODE :: "32 word \<Rightarrow> 32 word \<Rightarrow> 32 word \<Rightarrow> 32 word \<Rightarrow> 32 word" where
  "CTL_CODE DeviceType Function Method Access =
     push_bit 16 DeviceType OR push_bit 14 Access OR push_bit 2 Function OR Method"

definition IOCTL_CODE :: "32 word \<Rightarrow> 32 word" where
  \<comment> \<open>\<^verbatim>\<open>FILE_DEVICE_UNKNOWN\<close>, \<^verbatim>\<open>IOCTL_BASE\<close>, \<^verbatim>\<open>METHOD_NEITHER\<close>, \<^verbatim>\<open>FILE_ANY_ACCESS\<close>\<close>
  "IOCTL_CODE func = CTL_CODE 0x22 (0x800 + func) 3 0"

definition ZIK_IO_DRV_INIT :: "32 word" where "ZIK_IO_DRV_INIT = IOCTL_CODE 0x02"
definition ZIK_IO_DRV_UNLOAD :: "32 word" where "ZIK_IO_DRV_UNLOAD = IOCTL_CODE 0x03"
definition ZIK_IO_SSDT_R :: "32 word" where "ZIK_IO_SSDT_R = IOCTL_CODE 0x04"
definition ZIK_IO_SSDT_W :: "32 word" where "ZIK_IO_SSDT_W = IOCTL_CODE 0x05"
definition ZIK_IO_SSDTS_R :: "32 word" where "ZIK_IO_SSDTS_R = IOCTL_CODE 0x06"
definition ZIK_IO_SSDTS_W :: "32 word" where "ZIK_IO_SSDTS_W = IOCTL_CODE 0x07"
definition ZIK_IO_IDT_R :: "32 word" where "ZIK_IO_IDT_R = IOCTL_CODE 0x08"
definition ZIK_IO_KERNEL_R :: "32 word" where "ZIK_IO_KERNEL_R = IOCTL_CODE 0x09"
definition ZIK_IO_KERNEL_W :: "32 word" where "ZIK_IO_KERNEL_W = IOCTL_CODE 0x0A"

text \<open>\<^verbatim>\<open>idt.c\<close>: both halves are taken as signed, and a signed low half is or-ed in.\<close>

definition MAKELONG :: "16 word \<Rightarrow> 16 word \<Rightarrow> 32 word" where
  "MAKELONG l h = scast l OR push_bit 16 (scast h)"

text \<open>
  The loop from gate \<open>i\<close> on: the gates lie 8 bytes apart from \<open>pEntry\<close> on, with the bit fields at offset 5, the records of
  the caller 16 bytes apart from \<open>pIDTInfo\<close> on.
\<close>

fun idt_loop :: "(addr \<Rightarrow> bool) \<Rightarrow> nat \<Rightarrow> nat \<Rightarrow> addr \<Rightarrow> addr \<Rightarrow> memory \<Rightarrow> memory option" where
  "idt_loop wr 0 i pEntry pIDTInfo m = Some m"
| "idt_loop wr (Suc k) i pEntry pIDTInfo m =
     (let p = pEntry + of_nat (8 * i); q = pIDTInfo + of_nat (16 * i) in
      do {
        b \<leftarrow> m (p + 5);
        m \<leftarrow> store wr m (q + 12) (ucast (drop_bit 5 b AND 3));
        lo \<leftarrow> read16 m p;
        hi \<leftarrow> read16 m (p + 6);
        m \<leftarrow> store wr m (q + 8) (MAKELONG lo hi);
        sel \<leftarrow> read16 m (p + 2);
        m \<leftarrow> store wr m (q + 4) (ucast sel);
        b \<leftarrow> m (p + 5);
        m \<leftarrow> store wr m q (ucast (b AND 0x0F));
        idt_loop wr k (Suc i) pEntry pIDTInfo m
      })"

text \<open>\<open>base\<close> is what \<^verbatim>\<open>load_idt\<close> stores in \<^verbatim>\<open>idtr.IDTBase\<close>.\<close>

definition EnumIDT :: "services \<Rightarrow> addr \<Rightarrow> addr \<Rightarrow> kstate \<Rightarrow> (32 word \<times> kstate) option" where
  "EnumIDT os base pBuffer s =
     (if \<not> ProbeForWrite os pBuffer 0x20000 4 then Some (STATUS_UNSUCCESSFUL, s)
      else do { m \<leftarrow> idt_loop (may_write s) 0x7FF 0 base pBuffer (mem s); Some (STATUS_SUCCESS, s\<lparr>mem := m\<rparr>) })"

text \<open>\<^verbatim>\<open>kernel.c\<close>\<close>

fun read_bytes :: "memory \<Rightarrow> addr \<Rightarrow> nat \<Rightarrow> byte list option" where
  "read_bytes m a 0 = Some []"
| "read_bytes m a (Suc n) = do { b \<leftarrow> m a; bs \<leftarrow> read_bytes m (a + 1) n; Some (b # bs) }"

definition OrigData :: "byte list" where
  "OrigData = [0x8B, 0xFF, 0x55, 0x8B, 0xEC]"

fun kernel_loop :: "nat \<Rightarrow> nat \<Rightarrow> addr \<Rightarrow> memory \<Rightarrow> kernel_info option \<Rightarrow> kernel_info option option" where
  "kernel_loop 0 i base m info = Some info"
| "kernel_loop (Suc k) i base m info =
     do {
       a \<leftarrow> read32 m (base + of_nat (4 * i));
       CurData \<leftarrow> read_bytes m a 5;
       kernel_loop k (Suc i) base m
         (if CurData \<noteq> OrigData then
            map_option (\<lambda>x. x\<lparr>KItem := KItem x @ [(i, \<lparr>Address = a, ByteCount = 5, CurBytes = CurData, OrigBytes = OrigData\<rparr>)],
                              KCount := KCount x + 1\<rparr>) info
          else info)
     }"

definition EnumKernel :: "services \<Rightarrow> addr \<Rightarrow> bool \<Rightarrow> bool \<Rightarrow> kstate \<Rightarrow> (32 word \<times> kernel_info option \<times> kstate) option" where
  "EnumKernel os table uRestoreAll info s =
     do {
       let status = STATUS_UNSUCCESSFUL;
       let pBase = fst (LocateNtKrnlBase os);
       pSSDTBase \<leftarrow> read32 (mem s) table;
       ulCount \<leftarrow> read32 (mem s) (table + 8);
       if NT_SUCCESS status then do {
         let s = (if uRestoreAll then wp_off s else s);
         r \<leftarrow> kernel_loop (unat ulCount) 0 pSSDTBase (mem s) (if info then Some \<lparr>KCount = 0, KItem = []\<rparr> else None);
         Some (status, r, if uRestoreAll then wp_on s else s)
       } else Some (status, None, s)
     }"

text \<open>
  \<^verbatim>\<open>zik.c\<close>. A request: its major function, control code, input length and the address of the caller's buffer.
  All requests are \<^verbatim>\<open>METHOD_NEITHER\<close>: the address is what the caller gave, and the answer is written there.
\<close>

abbreviation (input) IRP_MJ_DEVICE_CONTROL :: nat where "IRP_MJ_DEVICE_CONTROL \<equiv> 14"
abbreviation (input) STATUS_INVALID_DEVICE_REQUEST :: "32 word" where "STATUS_INVALID_DEVICE_REQUEST \<equiv> 0xC0000010"

record request =
  MajorFunction :: nat
  IoControlCode :: "32 word"
  InputBufferLength :: "32 word"
  UserBuffer :: addr

definition dispatch_code :: "services \<Rightarrow> addr \<Rightarrow> addr \<Rightarrow> request \<Rightarrow> kstate \<Rightarrow> (32 word \<times> kstate) option" where
  \<comment> \<open>the \<^verbatim>\<open>switch\<close>; the arguments before the request are \<^verbatim>\<open>KeServiceDescriptorTable\<close> and the base of the IDT\<close>
  "dispatch_code os table idt r s =
     (let code = IoControlCode r in
      if code = ZIK_IO_DRV_INIT then Some (STATUS_SUCCESS, s)
      else if code = ZIK_IO_DRV_UNLOAD then Some (STATUS_SUCCESS, s)
      else if code = ZIK_IO_SSDT_R then do { (_, s) \<leftarrow> EnumSSDT os table False (UserBuffer r) s; Some (STATUS_SUCCESS, s) }
      else if code = ZIK_IO_SSDT_W then do { (_, s) \<leftarrow> EnumSSDT os table True 0 s; Some (STATUS_SUCCESS, s) }
      else if code = ZIK_IO_SSDTS_R then EnumSSDTShadow os False (UserBuffer r) s
      else if code = ZIK_IO_SSDTS_W then EnumSSDTShadow os True 0 s
      else if code = ZIK_IO_IDT_R then EnumIDT os idt (UserBuffer r) s
      else if code = ZIK_IO_KERNEL_R then map_option (\<lambda>(status, _, s). (status, s)) (EnumKernel os table False False s)
      else if code = ZIK_IO_KERNEL_W then map_option (\<lambda>(status, _, s). (status, s)) (EnumKernel os table True False s)
      else Some (STATUS_INVALID_DEVICE_REQUEST, s))"

record completion =
  Status :: "32 word"
  Information :: "32 word"

definition DeviceDispatch :: "services \<Rightarrow> addr \<Rightarrow> addr \<Rightarrow> request \<Rightarrow> kstate \<Rightarrow> (completion \<times> kstate) option" where
  "DeviceDispatch os table idt r s =
     (if MajorFunction r = IRP_MJ_DEVICE_CONTROL then do {
        (status, s) \<leftarrow> dispatch_code os table idt r s;
        Some (\<lparr>Status = status, Information = InputBufferLength r\<rparr>, s)
      } else Some (\<lparr>Status = STATUS_SUCCESS, Information = 0\<rparr>, s))"

text \<open>The driver object: its device, the symbolic link, the routines that are set.\<close>

record driver =
  DeviceObject :: "addr option"
  link :: bool
  routines :: bool \<comment> \<open>\<^verbatim>\<open>MajorFunction\<close> of create, close and device control, and \<^verbatim>\<open>DriverUnload\<close>\<close>

definition DriverUnload :: "driver \<Rightarrow> driver" where
  "DriverUnload d =
     (let d = d\<lparr>link := False\<rparr> in
      case DeviceObject d of None \<Rightarrow> d | Some _ \<Rightarrow> d\<lparr>DeviceObject := None\<rparr>)"

definition DriverEntry :: "(addr \<Rightarrow> bool) \<Rightarrow> addr \<Rightarrow> addr \<Rightarrow> 32 word \<Rightarrow> addr \<Rightarrow> 32 word \<Rightarrow> driver \<Rightarrow> kstate \<Rightarrow> (32 word \<times> driver \<times> kstate) option" where
  \<comment> \<open>parameters: \<^verbatim>\<open>MmIsAddressValid\<close>, \<^verbatim>\<open>KeAddSystemServiceTable\<close>, \<^verbatim>\<open>DriverSection\<close>, and the results of
      \<^verbatim>\<open>IoCreateDevice\<close> and \<^verbatim>\<open>IoCreateSymbolicLink\<close>\<close>
  "DriverEntry valid fn DriverSection dev_status dev link_status d s =
     (if NT_SUCCESS dev_status then
        let d = d\<lparr>DeviceObject := Some dev, routines := True\<rparr> in
        if NT_SUCCESS link_status then do {
          let d = d\<lparr>link := True\<rparr>;
          s \<leftarrow> LocateSSDTShadowBase valid fn s;
          s \<leftarrow> LocateWin32kBase DriverSection s;
          Some (link_status, d, s)
        } else Some (link_status, d\<lparr>DeviceObject := None\<rparr>, s)
      else Some (dev_status, d, s))"

section \<open>Requests\<close>

lemmas io_codes = ZIK_IO_DRV_INIT_def ZIK_IO_DRV_UNLOAD_def ZIK_IO_SSDT_R_def ZIK_IO_SSDT_W_def ZIK_IO_SSDTS_R_def
  ZIK_IO_SSDTS_W_def ZIK_IO_IDT_R_def ZIK_IO_KERNEL_R_def ZIK_IO_KERNEL_W_def IOCTL_CODE_def CTL_CODE_def

lemma io_code_values:
  "ZIK_IO_DRV_INIT = 0x22200B" "ZIK_IO_DRV_UNLOAD = 0x22200F" "ZIK_IO_SSDT_R = 0x222013" "ZIK_IO_SSDT_W = 0x222017"
  "ZIK_IO_SSDTS_R = 0x22201B" "ZIK_IO_SSDTS_W = 0x22201F" "ZIK_IO_IDT_R = 0x222023" "ZIK_IO_KERNEL_R = 0x222027"
  "ZIK_IO_KERNEL_W = 0x22202B"
  by (simp_all add: io_codes)

lemma idt_addresses:
  "p + of_nat (16 * i) = entry p (4 * i)" "entry p (4 * i) + 4 = entry p (4 * i + 1)" "entry p (4 * i) + 8 = entry p (4 * i + 2)"
  "entry p (4 * i) + 12 = entry p (4 * i + 3)"
  by (simp_all add: algebra_simps)

text \<open>The bytes of the records of \<open>n\<close> gates.\<close>

definition idt_area :: "addr \<Rightarrow> nat \<Rightarrow> addr set" where
  "idt_area p n = (\<Union>q\<in>{..<4 * n}. cell (entry p q))"

lemma idt_field: "q < 4 * n \<Longrightarrow> cell (entry p q) \<subseteq> idt_area p n"
  by (auto simp: idt_area_def)

lemma idt_loop_area:
  "idt_loop wr k i pEntry p m = Some m' \<Longrightarrow> i + k \<le> n \<Longrightarrow> b \<notin> idt_area p n \<Longrightarrow> m' b = m b"
proof (induction k arbitrary: i m)
  case (Suc k)
  have out: "b \<notin> cell (entry p q)" if "q < 4 * n" for q using idt_field[OF that] Suc.prems(3) by blast
  from Suc.prems(1) obtain m1 m2 m3 m4 v1 v2 v3 v4 where
    "store wr m (entry p (4 * i + 3)) v1 = Some m1" "store wr m1 (entry p (4 * i + 2)) v2 = Some m2"
    "store wr m2 (entry p (4 * i + 1)) v3 = Some m3" "store wr m3 (entry p (4 * i)) v4 = Some m4"
    and rest: "idt_loop wr k (Suc i) pEntry p m4 = Some m'"
    unfolding idt_loop.simps Let_def idt_addresses by (auto simp: bind_eq_Some_conv simp del: of_nat_mult of_nat_add)
  from this(1-4)[THEN store_other, OF out] Suc.prems(2) have "m4 b = m b" by simp
  with Suc.IH[OF rest] Suc.prems(2,3) show ?case by simp
qed simp


definition unchanged_but :: "addr set \<Rightarrow> kstate \<Rightarrow> kstate \<Rightarrow> bool" where
  "unchanged_but A s s' \<longleftrightarrow> (\<forall>b. b \<notin> A \<longrightarrow> mem s' b = mem s b) \<and> cr0 s' = cr0 s \<and> interrupts s' = interrupts s"

lemma unchanged_same [simp]: "unchanged_but A s s"
  by (simp add: unchanged_but_def)



lemma EnumIDT_writes:
  assumes "EnumIDT os base p s = Some (status, s')"
  shows "unchanged_but (if ProbeForWrite os p 0x20000 4 then idt_area p 0x7FF else {}) s s'"
proof (cases "ProbeForWrite os p 0x20000 4")
  case True
  with assms obtain m where "idt_loop (may_write s) 0x7FF 0 base p (mem s) = Some m" "s' = s\<lparr>mem := m\<rparr>"
    by (auto simp: EnumIDT_def bind_eq_Some_conv)
  with idt_loop_area[of "may_write s" "0x7FF" 0 base p "mem s" m "0x7FF"] True show ?thesis by (simp add: unchanged_but_def)
qed (use assms in \<open>simp add: EnumIDT_def\<close>)





text \<open>
  \<^verbatim>\<open>EnumKernel\<close> never does anything: its status variable is \<^verbatim>\<open>STATUS_UNSUCCESSFUL\<close> when it is tested.
\<close>

lemma EnumKernel_dead:
  assumes "read32 (mem s) table = Some b" "read32 (mem s) (table + 8) = Some n"
  shows "EnumKernel os table restore info s = Some (STATUS_UNSUCCESSFUL, None, s)"
  using assms by (simp add: EnumKernel_def NT_SUCCESS_def)

text \<open>The status of \<^verbatim>\<open>EnumSSDT\<close> is dropped: the request succeeds although nothing was read.\<close>

lemma dispatch_drops_status:
  assumes "EnumSSDT os table False (UserBuffer r) s = Some (STATUS_UNSUCCESSFUL, s)" "IoControlCode r = ZIK_IO_SSDT_R"
    "MajorFunction r = IRP_MJ_DEVICE_CONTROL"
  shows "\<exists>c. DeviceDispatch os table idt r s = Some (c, s) \<and> Status c = STATUS_SUCCESS"
  using assms by (simp add: DeviceDispatch_def dispatch_code_def io_code_values)

section \<open>Loading and unloading\<close>

text \<open>
  C27. Loading is all or nothing, and unloading undoes it: if \<^verbatim>\<open>DriverEntry\<close> returns success, the device and the
  link exist and \<^verbatim>\<open>DriverUnload\<close> removes both; if it returns an error, neither is left.
\<close>

theorem DriverEntry_unload:
  assumes "DriverEntry valid fn section dev_status dev link_status d s = Some (status, d', s')"
    "DeviceObject d = None" "\<not> link d"
  shows "if NT_SUCCESS status then DeviceObject d' = Some dev \<and> link d' \<and> routines d' \<and>
      DeviceObject (DriverUnload d') = None \<and> \<not> link (DriverUnload d')
    else DeviceObject d' = None \<and> \<not> link d' \<and> s' = s"
  using assms unfolding DriverEntry_def Let_def
  by (auto simp: DriverUnload_def bind_eq_Some_conv split: if_splits)

theorem DriverEntry_unload_witness:
  "\<exists>d' s'. DriverEntry (\<lambda>_. True) 0 0 0 5 0xC0000001 \<lparr>DeviceObject = None, link = False, routines = False\<rparr> small_machine =
      Some (0xC0000001, d', s') \<and> DeviceObject d' = None"
proof -
  let ?d = "\<lparr>DeviceObject = None, link = False, routines = False\<rparr>"
  have "\<exists>d' s'. DriverEntry (\<lambda>_. True) 0 0 0 5 0xC0000001 ?d small_machine = Some (0xC0000001, d', s')"
    by (simp add: DriverEntry_def NT_SUCCESS_def)
  then obtain d' s' where e: "DriverEntry (\<lambda>_. True) 0 0 0 5 0xC0000001 ?d small_machine = Some (0xC0000001, d', s')" by blast
  have "\<not> NT_SUCCESS 0xC0000001" by (simp add: NT_SUCCESS_def)
  with DriverEntry_unload[OF e] e show ?thesis by auto
qed

section \<open>Interrupt gates\<close>

lemma bit_MAKELONG: "bit (MAKELONG l h) n \<longleftrightarrow> n < 32 \<and> (if n < 16 then bit l n else bit l 15 \<or> bit h (n - 16))"
proof (cases "n = 15 \<or> n = 31")
  case False
  then show ?thesis by (auto simp: MAKELONG_def bit_simps min_def)
next
  case True
  then show ?thesis by (auto simp: MAKELONG_def bit_simps min_def)
qed

lemma bit16_less: "bit (w :: 16 word) n \<Longrightarrow> n < 16"
  using bit_imp_le_length[of w n] by simp

lemma MAKELONG_join:
  "\<not> bit l 15 \<Longrightarrow> MAKELONG l h = ucast l OR push_bit 16 (ucast h)"
  "bit l 15 \<Longrightarrow> MAKELONG l h = ucast l OR push_bit 16 (mask 16)"
  by (rule bit_word_eqI; auto simp: bit_MAKELONG bit_simps dest: bit16_less)+

text \<open>The four words of gate \<open>j\<close>'s record, by their index, in the order of the stores.\<close>

definition gate_words :: "memory \<Rightarrow> addr \<Rightarrow> nat \<Rightarrow> (nat \<times> 32 word) list" where
  "gate_words m base j =
     (let p = base + of_nat (8 * j) in
      [(4 * j + 3, ucast (drop_bit 5 (the (m (p + 5))) AND 3)), (4 * j + 2, MAKELONG (the (read16 m p)) (the (read16 m (p + 6)))),
       (4 * j + 1, ucast (the (read16 m (p + 2)))), (4 * j, ucast (the (m (p + 5)) AND 0x0F))])"

definition gate_cells :: "addr \<Rightarrow> nat \<Rightarrow> addr set" where
  "gate_cells base j = (\<lambda>k. base + of_nat (8 * j) + of_nat k) ` {..<8}"

lemma gate_reads:
  assumes "\<forall>b\<in>gate_cells base j. m b = mb b \<and> mb b \<noteq> None"
  defines "p \<equiv> base + of_nat (8 * j)"
  shows "m (p + 5) = Some (the (mb (p + 5)))" "read16 m p = Some (the (read16 mb p))" "read16 m (p + 2) = Some (the (read16 mb (p + 2)))"
    "read16 m (p + 6) = Some (the (read16 mb (p + 6)))"
proof -
  have "m (p + of_nat k) = mb (p + of_nat k) \<and> mb (p + of_nat k) \<noteq> None" if "k < 8" for k
    using assms(1) that unfolding gate_cells_def p_def by blast
  from this[of 0] this[of 1] this[of 2] this[of 3] this[of 5] this[of 6] this[of 7]
  show "m (p + 5) = Some (the (mb (p + 5)))" "read16 m p = Some (the (read16 mb p))" "read16 m (p + 2) = Some (the (read16 mb (p + 2)))"
    "read16 m (p + 6) = Some (the (read16 mb (p + 6)))"
    by (auto simp: read16_def add.assoc)
qed

lemma idt_loop_words:
  assumes "\<forall>j<n. \<forall>b\<in>gate_cells base j. mb b \<noteq> None \<and> b \<notin> idt_area q n"
  shows "i + k \<le> n \<Longrightarrow> (\<And>b. b \<notin> idt_area q n \<Longrightarrow> m b = mb b) \<Longrightarrow>
    idt_loop wr k i base q m = stores wr m (words_at q (concat (map (gate_words mb base) [i..<i + k])))"
proof (induction k arbitrary: i m)
  case (Suc k)
  have i: "i < n" using Suc.prems(1) by simp
  have reads: "\<forall>b\<in>gate_cells base i. m' b = mb b \<and> mb b \<noteq> None" if "\<And>b. b \<notin> idt_area q n \<Longrightarrow> m' b = mb b" for m'
    using assms i that by blast
  note read = gate_reads[OF reads]
  have keep: "m2 b = mb b" if "store wr m1 (entry q z) v = Some m2" "\<And>b. b \<notin> idt_area q n \<Longrightarrow> m1 b = mb b" "z < 4 * n" "b \<notin> idt_area q n"
    for m1 m2 z v b
  proof -
    have "b \<notin> cell (entry q z)" using idt_field[OF that(3)] that(4) by blast
    with store_other[OF that(1)] that(2,4) show ?thesis by simp
  qed
  let ?p = "base + of_nat (8 * i)" and ?W = "words_at q (concat (map (gate_words mb base) [Suc i..<Suc i + k]))"
  define v3 :: "32 word" where "v3 = ucast (drop_bit 5 (the (mb (?p + 5))) AND 3)"
  define v2 :: "32 word" where "v2 = MAKELONG (the (read16 mb ?p)) (the (read16 mb (?p + 6)))"
  define v1 :: "32 word" where "v1 = ucast (the (read16 mb (?p + 2)))"
  define v0 :: "32 word" where "v0 = ucast (the (mb (?p + 5)) AND 0x0F)"
  have s0: "do { b \<leftarrow> m (?p + 5); m \<leftarrow> store wr m (entry q (4 * i)) (ucast (b AND 0x0F)); idt_loop wr k (Suc i) base q m } =
      stores wr m ((entry q (4 * i), v0) # ?W)" if "\<And>b. b \<notin> idt_area q n \<Longrightarrow> m b = mb b" for m
  proof (cases "store wr m (entry q (4 * i)) v0")
    case (Some m1)
    from Suc.IH[of "Suc i" m1] keep[OF Some that] Suc.prems(1) i have "idt_loop wr k (Suc i) base q m1 = stores wr m1 ?W" by simp
    with Some show ?thesis by (simp add: read[OF that] v0_def del: of_nat_mult)
  qed (simp add: read[OF that] v0_def del: of_nat_mult)
  have s1: "do { sel \<leftarrow> read16 m (?p + 2); m \<leftarrow> store wr m (entry q (4 * i + 1)) (ucast sel); b \<leftarrow> m (?p + 5);
        m \<leftarrow> store wr m (entry q (4 * i)) (ucast (b AND 0x0F)); idt_loop wr k (Suc i) base q m } =
      stores wr m ((entry q (4 * i + 1), v1) # (entry q (4 * i), v0) # ?W)" if "\<And>b. b \<notin> idt_area q n \<Longrightarrow> m b = mb b" for m
  proof (cases "store wr m (entry q (4 * i + 1)) v1")
    case (Some m1)
    with s0[OF keep[OF Some that]] i show ?thesis by (simp add: read[OF that] v1_def del: of_nat_mult of_nat_add)
  qed (simp add: read[OF that] v1_def del: of_nat_mult of_nat_add)
  have s2: "do { lo \<leftarrow> read16 m ?p; hi \<leftarrow> read16 m (?p + 6); m \<leftarrow> store wr m (entry q (4 * i + 2)) (MAKELONG lo hi);
        sel \<leftarrow> read16 m (?p + 2); m \<leftarrow> store wr m (entry q (4 * i + 1)) (ucast sel); b \<leftarrow> m (?p + 5);
        m \<leftarrow> store wr m (entry q (4 * i)) (ucast (b AND 0x0F)); idt_loop wr k (Suc i) base q m } =
      stores wr m ((entry q (4 * i + 2), v2) # (entry q (4 * i + 1), v1) # (entry q (4 * i), v0) # ?W)"
    if "\<And>b. b \<notin> idt_area q n \<Longrightarrow> m b = mb b" for m
  proof (cases "store wr m (entry q (4 * i + 2)) v2")
    case (Some m1)
    with s1[OF keep[OF Some that]] i show ?thesis by (simp add: read[OF that] v2_def del: of_nat_mult of_nat_add)
  qed (simp add: read[OF that] v2_def del: of_nat_mult of_nat_add)
  have s3: "idt_loop wr (Suc k) i base q m =
      stores wr m ((entry q (4 * i + 3), v3) # (entry q (4 * i + 2), v2) # (entry q (4 * i + 1), v1) # (entry q (4 * i), v0) # ?W)"
  proof (cases "store wr m (entry q (4 * i + 3)) v3")
    case (Some m1)
    with s2[OF keep[OF Some Suc.prems(2)]] i show ?thesis
      unfolding idt_loop.simps Let_def idt_addresses by (simp add: read[OF Suc.prems(2)] v3_def del: of_nat_mult of_nat_add)
  next
    case None
    then show ?thesis
      unfolding idt_loop.simps Let_def idt_addresses by (simp add: read[OF Suc.prems(2)] v3_def del: of_nat_mult of_nat_add)
  qed
  have up: "[i..<i + Suc k] = i # [Suc i..<Suc i + k]" by (simp add: upt_conv_Cons)
  show ?case unfolding s3 up
    by (simp add: words_at_def gate_words_def[of mb base i] Let_def v0_def v1_def v2_def v3_def del: of_nat_mult of_nat_add upt_Suc)
qed (simp add: words_at_def)

lemma gate_words_index:
  "distinct (map fst (concat (map (gate_words m base) [0..<n])))" "fst ` set (concat (map (gate_words m base) [0..<n])) \<subseteq> {..<4 * n}"
proof -
  show s: "fst ` set (concat (map (gate_words m base) [0..<n])) \<subseteq> {..<4 * n}" for n
    by (auto simp: gate_words_def Let_def)
  define L where "L n = concat (map (gate_words m base) [0..<n])" for n
  have no: "q \<notin> fst ` set (L n)" if "4 * n \<le> q" for q n
    using s[of n] that unfolding L_def[symmetric] by fastforce
  have "distinct (map fst (L n))" for n
  proof (induction n)
    case (Suc n)
    have "L (Suc n) = L n @ gate_words m base n" by (simp add: L_def)
    with Suc no[of n "4 * n"] no[of n "4 * n + 1"] no[of n "4 * n + 2"] no[of n "4 * n + 3"] show ?case
      by (auto simp: gate_words_def Let_def)
  qed (simp add: L_def)
  then show "distinct (map fst (concat (map (gate_words m base) [0..<n])))" by (simp add: L_def del: set_concat)
qed

text \<open>
  C26. Every gate is reported: when the caller's buffer is accepted and can be written, and the \<open>0x7FF\<close> gates the loop reads
  are mapped and outside of it, \<^verbatim>\<open>EnumIDT\<close> succeeds and record \<open>i\<close> of the buffer has selector, type and privilege level of
  gate \<open>i\<close>. Its offset is the gate's handler address exactly as long as bit 15 of the low half is clear; else the sign of the
  low half overwrites the whole high half with ones. Nothing else of memory has changed.
\<close>

theorem EnumIDT_decodes:
  assumes "ProbeForWrite os p 0x20000 4" "\<forall>b\<in>idt_area p 0x7FF. mem s b \<noteq> None \<and> may_write s b"
    "\<forall>i<0x7FF. \<forall>b\<in>gate_cells base i. mem s b \<noteq> None \<and> b \<notin> idt_area p 0x7FF"
  shows "\<exists>s'. EnumIDT os base p s = Some (STATUS_SUCCESS, s') \<and>
    (\<forall>i<0x7FF. \<forall>lo sel b hi. let g = base + of_nat (8 * i); x = p + of_nat (16 * i) in
       read16 (mem s) g = Some lo \<and> read16 (mem s) (g + 2) = Some sel \<and> mem s (g + 5) = Some b \<and> read16 (mem s) (g + 6) = Some hi \<longrightarrow>
       read32 (mem s') x = Some (ucast (b AND 0x0F)) \<and> read32 (mem s') (x + 4) = Some (ucast sel) \<and>
       read32 (mem s') (x + 8) = Some (if bit lo 15 then ucast lo OR 0xFFFF0000 else ucast lo OR push_bit 16 (ucast hi)) \<and>
       read32 (mem s') (x + 12) = Some (ucast (drop_bit 5 b AND 3))) \<and>
    (\<forall>b. b \<notin> idt_area p 0x7FF \<longrightarrow> mem s' b = mem s b)"
proof -
  let ?l = "concat (map (gate_words (mem s) base) [0..<0x7FF])"
  have "\<forall>q\<in>fst ` set ?l. 4 * q + 4 \<le> 2 ^ 32 \<and> (\<forall>b\<in>cell (entry p q). may_write s b \<and> mem s b \<noteq> None)"
  proof
    fix q assume "q \<in> fst ` set ?l"
    then have "q < 4 * 0x7FF" using gate_words_index(2)[of "mem s" base "0x7FF"] by blast
    with idt_field[of q "0x7FF" p] assms(2) show "4 * q + 4 \<le> 2 ^ 32 \<and> (\<forall>b\<in>cell (entry p q). may_write s b \<and> mem s b \<noteq> None)" by auto
  qed
  from words_ok[OF gate_words_index(1) this] obtain m where
    m: "stores (may_write s) (mem s) (words_at p ?l) = Some m" "\<forall>(q, v)\<in>set ?l. read32 m (entry p q) = Some v" by blast
  have "idt_loop (may_write s) 0x7FF 0 base p (mem s) = Some m"
    using idt_loop_words[OF assms(3), of 0 "0x7FF" "mem s" "may_write s"] m(1) by simp
  then have e: "EnumIDT os base p s = Some (STATUS_SUCCESS, s\<lparr>mem := m\<rparr>)" using assms(1) by (simp add: EnumIDT_def)
  have "\<forall>lo sel b hi. let g = base + of_nat (8 * i); x = p + of_nat (16 * i) in
       read16 (mem s) g = Some lo \<and> read16 (mem s) (g + 2) = Some sel \<and> mem s (g + 5) = Some b \<and> read16 (mem s) (g + 6) = Some hi \<longrightarrow>
       read32 m x = Some (ucast (b AND 0x0F)) \<and> read32 m (x + 4) = Some (ucast sel) \<and>
       read32 m (x + 8) = Some (if bit lo 15 then ucast lo OR 0xFFFF0000 else ucast lo OR push_bit 16 (ucast hi)) \<and>
       read32 m (x + 12) = Some (ucast (drop_bit 5 b AND 3))" if "i < 0x7FF" for i
  proof -
    have "set (gate_words (mem s) base i) \<subseteq> set ?l" using that by auto
    with m(2) have "\<forall>(q, v)\<in>set (gate_words (mem s) base i). read32 m (entry p q) = Some v" by blast
    then show ?thesis unfolding Let_def idt_addresses
      by (auto simp: gate_words_def Let_def MAKELONG_join mask_eq_exp_minus_1 simp del: of_nat_mult of_nat_add)
  qed
  moreover have "m b = mem s b" if "b \<notin> idt_area p 0x7FF" for b
    using EnumIDT_writes[OF e] assms(1) that by (simp add: unchanged_but_def)
  ultimately show ?thesis using e by simp
qed

lemma idt_area_range: "b \<in> idt_area p n \<Longrightarrow> unat p + 16 * n \<le> 2 ^ 32 \<Longrightarrow> unat p \<le> unat b \<and> unat b < unat p + 16 * n"
  unfolding idt_area_def using cell_range[of b p _ "16 * n"] by fastforce

lemma gate_range:
  assumes "b \<in> gate_cells base i" "i < n" "unat base + 8 * n \<le> 2 ^ 32"
  shows "unat base \<le> unat b"
proof -
  obtain k where "k < 8" "b = base + of_nat (8 * i) + of_nat k" using assms(1) by (auto simp: gate_cells_def)
  then have b: "b = base + of_nat (8 * i + k)" and "8 * i + k < 8 * n" using assms(2) by simp_all
  from offset_unat[OF assms(3) this(2)] show ?thesis unfolding b by (simp only: le_add1)
qed

theorem EnumIDT_decodes_witness:
  "\<exists>s'. EnumIDT small_os 0x80001000 0x10000 (small_machine\<lparr>mem := \<lambda>_. Some 0xA1\<rparr>) = Some (STATUS_SUCCESS, s') \<and>
    read32 (mem s') 0x1003C = Some 1 \<and> read32 (mem s') 0x10038 = Some 0xFFFFA1A1"
proof -
  let ?s = "small_machine\<lparr>mem := \<lambda>_. Some 0xA1\<rparr>"
  have area: "unat b < 0x80000000" if "b \<in> idt_area 0x10000 0x7FF" for b using idt_area_range[OF that] by simp
  have gates: "0x80001000 \<le> unat b" if "b \<in> gate_cells 0x80001000 i" "i < 0x7FF" for b i using gate_range[OF that] by simp
  have "\<forall>b\<in>idt_area 0x10000 0x7FF. mem ?s b \<noteq> None \<and> may_write ?s b"
    using area by (fastforce simp: may_write_def small_machine_def cell_def)
  moreover have "\<forall>i<0x7FF. \<forall>b\<in>gate_cells 0x80001000 i. mem ?s b \<noteq> None \<and> b \<notin> idt_area 0x10000 0x7FF"
    using area gates by fastforce
  moreover have "ProbeForWrite small_os 0x10000 0x20000 4" by (simp add: small_os_def)
  ultimately obtain s' where e: "EnumIDT small_os 0x80001000 0x10000 ?s = Some (STATUS_SUCCESS, s')"
    and f: "\<forall>i<0x7FF. \<forall>lo sel b hi. let g = 0x80001000 + of_nat (8 * i); x = 0x10000 + of_nat (16 * i) in
       read16 (mem ?s) g = Some lo \<and> read16 (mem ?s) (g + 2) = Some sel \<and> mem ?s (g + 5) = Some b \<and> read16 (mem ?s) (g + 6) = Some hi \<longrightarrow>
       read32 (mem s') x = Some (ucast (b AND 0x0F)) \<and> read32 (mem s') (x + 4) = Some (ucast sel) \<and>
       read32 (mem s') (x + 8) = Some (if bit lo 15 then ucast lo OR 0xFFFF0000 else ucast lo OR push_bit 16 (ucast hi)) \<and>
       read32 (mem s') (x + 12) = Some (ucast (drop_bit 5 b AND 3))"
    using EnumIDT_decodes[of small_os "0x10000" ?s "0x80001000"] by blast
  have "read16 (mem ?s) p = Some 0xA1A1" for p by (simp add: read16_def)
  with f[rule_format, of 3 "0xA1A1" "0xA1A1" "0xA1" "0xA1A1"] e show ?thesis by (auto simp: bit_simps Let_def)
qed

end
