(* ===== verification/Zax_Driver.thy ===== *)
theory Zax_Driver
  imports Zax_RT Zik_Driver
begin

unbundle bit_operations_syntax

text \<open>
  \<^verbatim>\<open>ZaxInspector/ZaxDriver.c\<close>: the application installs, starts, stops and calls the driver. The Windows services are
  a record of parameters; what the service manager answers may depend on all calls made so far.
\<close>

section \<open>Definitions\<close>

datatype sc_call =
    Start "tchar list"
  | Control "tchar list" "32 word"
  | Delete "tchar list"
  | Create "tchar list" "tchar list option"

text \<open>The globals of \<^verbatim>\<open>ZaxDriver.c\<close>, the calls that reached the service manager, and the kernel behind the device.\<close>

record 'k drvstate = process +
  g_hDevice :: addr
  g_hSCManager :: addr
  sc_calls :: "sc_call list"
  kernel :: 'k

record windows =
  OpenSCManager :: addr
  OpenService :: "sc_call list \<Rightarrow> addr \<Rightarrow> tchar list \<Rightarrow> addr"
  StartService :: "sc_call list \<Rightarrow> bool"
  ControlService :: "sc_call list \<Rightarrow> bool"
  CreateService :: "sc_call list \<Rightarrow> addr"
  OpenDevice :: "sc_call list \<Rightarrow> tchar list \<Rightarrow> addr" \<comment> \<open>\<^verbatim>\<open>CreateFile\<close>\<close>
  GetModuleFileName :: "tchar list"

definition DEVICE_NAME :: "tchar list" where
  "DEVICE_NAME = wide (CHR 0x5C # CHR 0x5C # CHR 0x2E # CHR 0x5C # ''zik'')"

definition SERVICE_NAME :: "tchar list" where "SERVICE_NAME = wide ''zik''"

definition DRIVER_FILE :: "tchar list" where "DRIVER_FILE = wide ''zik.sys''"

abbreviation (input) SERVICE_CONTROL_STOP :: "32 word" where "SERVICE_CONTROL_STOP \<equiv> 1"

text \<open>A service that gives a handle, and \<^verbatim>\<open>CloseServiceHandle\<close> or \<^verbatim>\<open>CloseHandle\<close>, which fails for \<^verbatim>\<open>NULL\<close>.\<close>

definition opened :: "addr \<Rightarrow> 'a process_scheme \<Rightarrow> 'a process_scheme" where
  "opened h p = (if h \<noteq> 0 \<and> h \<noteq> INVALID_HANDLE_VALUE then p\<lparr>open_handles := open_handles p + {#h#}\<rparr> else p)"

definition closed :: "addr \<Rightarrow> 'a process_scheme \<Rightarrow> 'a process_scheme" where
  "closed h p = (if h \<noteq> 0 \<and> h \<noteq> INVALID_HANDLE_VALUE then p\<lparr>open_handles := open_handles p - {#h#}\<rparr> else p)"

definition sc :: "sc_call \<Rightarrow> ('k, 'a) drvstate_scheme \<Rightarrow> ('k, 'a) drvstate_scheme" where
  "sc c s = s\<lparr>sc_calls := sc_calls s @ [c]\<rparr>"

definition drv_link :: "windows \<Rightarrow> tchar list option \<Rightarrow> ('k, 'a) drvstate_scheme \<Rightarrow> addr \<times> ('k, 'a) drvstate_scheme" where
  "drv_link w szDevice s =
     (case szDevice of
        None \<Rightarrow> (INVALID_HANDLE_VALUE, s)
      | Some name \<Rightarrow> let hDevice = OpenDevice w (sc_calls s) name in (hDevice, opened hDevice s))"

definition drv_start :: "windows \<Rightarrow> tchar list \<Rightarrow> ('k, 'a) drvstate_scheme \<Rightarrow> bool \<times> ('k, 'a) drvstate_scheme" where
  "drv_start w szName s =
     (let hService = OpenService w (sc_calls s) (g_hSCManager s) szName;
          s = opened hService s;
          (bSuccess, s) = (if hService \<noteq> 0 then (StartService w (sc_calls s), sc (Start szName) s) else (False, s))
      in (bSuccess, closed hService s))"

definition drv_control :: "windows \<Rightarrow> tchar list \<Rightarrow> 32 word \<Rightarrow> ('k, 'a) drvstate_scheme \<Rightarrow> bool \<times> ('k, 'a) drvstate_scheme" where
  "drv_control w szName dwControl s =
     (let hService = OpenService w (sc_calls s) (g_hSCManager s) szName;
          s = opened hService s;
          (bSuccess, s) = (if hService \<noteq> 0 then (ControlService w (sc_calls s), sc (Control szName dwControl) s) else (False, s))
      in (bSuccess, closed hService s))"

definition create_part :: "windows \<Rightarrow> tchar list option \<Rightarrow> tchar list \<Rightarrow> ('k, 'a) drvstate_scheme \<Rightarrow> bool \<times> ('k, 'a) drvstate_scheme" where
  \<comment> \<open>the second half of \<^verbatim>\<open>drv_install\<close>\<close>
  "create_part w szPath szName s =
     (let hService = CreateService w (sc_calls s);
          s = opened hService (sc (Create szName szPath) s)
      in if hService \<noteq> 0 then (True, closed hService s) else (False, s))"

definition drv_install :: "windows \<Rightarrow> tchar list option \<Rightarrow> tchar list \<Rightarrow> bool \<Rightarrow> ('k, 'a) drvstate_scheme \<Rightarrow> bool \<times> ('k, 'a) drvstate_scheme" where
  "drv_install w szPath szName bDeleteOnly s =
     (let hService = OpenService w (sc_calls s) (g_hSCManager s) szName;
          s = opened hService s
      in if hService \<noteq> 0 then
           let s = snd (drv_control w SERVICE_NAME SERVICE_CONTROL_STOP s);
               s = closed hService (sc (Delete szName) s)
           in if bDeleteOnly then (True, s) else create_part w szPath szName s
         else create_part w szPath szName s)"

text \<open>What the buffer of a request contains when the request is done, by the structure the pages read it as.\<close>

datatype reply = No_data | Ssdt "ssdt_info option" | Idt "idt_info list" | Kernel "kernel_info option"

text \<open>
  \<open>ioctl code buffer size\<close> is what \<^verbatim>\<open>DeviceIoControl\<close> does with the kernel: whether it succeeds and what it leaves in the
  buffer; no result when the machine stops.
\<close>

type_synonym 'k ioctl = "32 word \<Rightarrow> addr \<Rightarrow> nat \<Rightarrow> 'k \<Rightarrow> (bool \<times> reply \<times> 'k) option"

definition drv_callkernel :: "'k ioctl \<Rightarrow> 32 word \<Rightarrow> addr \<Rightarrow> nat \<Rightarrow> ('k, 'a) drvstate_scheme \<Rightarrow> (bool \<times> reply \<times> ('k, 'a) drvstate_scheme) option" where
  "drv_callkernel ioctl dwIoCode lpBuffer dwBufferSize s =
     (if g_hDevice s = 0 \<or> g_hDevice s = INVALID_HANDLE_VALUE then Some (False, No_data, s)
      else do {
        (ok, r, k) \<leftarrow> ioctl dwIoCode lpBuffer dwBufferSize (kernel s);
        Some (ok, r, s\<lparr>kernel := k\<rparr>)
      })"

text \<open>\<^verbatim>\<open>drv_initialize\<close>: the loop that cuts the path behind its last backslash, from the end, and \<^verbatim>\<open>StringCchCat\<close>\<close>

fun cut_path :: "nat \<Rightarrow> tchar list \<Rightarrow> tchar list" where
  "cut_path 0 szPath = szPath"
| "cut_path (Suc n) szPath = (if szPath ! n = 0x5C then take (Suc n) szPath else cut_path n szPath)"

definition StringCchCat :: "tchar list \<Rightarrow> nat \<Rightarrow> tchar list \<Rightarrow> tchar list" where
  "StringCchCat dest cch src = dest @ take (cch - 1 - length dest) src"

definition driver_path :: "windows \<Rightarrow> tchar list" where
  "driver_path w = StringCchCat (cut_path (length (GetModuleFileName w)) (GetModuleFileName w)) MAX_PATH DRIVER_FILE"

definition drv_initialize :: "windows \<Rightarrow> ('k, 'a) drvstate_scheme \<Rightarrow> bool \<times> ('k, 'a) drvstate_scheme" where
  "drv_initialize w s =
     (let s = opened (OpenSCManager w) (s\<lparr>g_hSCManager := OpenSCManager w\<rparr>);
          s = snd (drv_install w (Some (driver_path w)) SERVICE_NAME False s);
          s = snd (drv_start w SERVICE_NAME s);
          (h, s) = drv_link w (Some DEVICE_NAME) s
      in (True, s\<lparr>g_hDevice := h\<rparr>))"

definition drv_deinitialize :: "windows \<Rightarrow> bool \<Rightarrow> ('k, 'a) drvstate_scheme \<Rightarrow> ('k, 'a) drvstate_scheme" where
  "drv_deinitialize w bUninstall s =
     (let s = snd (drv_control w SERVICE_NAME SERVICE_CONTROL_STOP s);
          s = (if bUninstall then snd (drv_install w None SERVICE_NAME True s) else s);
          s = (if g_hSCManager s \<noteq> 0 then (closed (g_hSCManager s) s)\<lparr>g_hSCManager := 0\<rparr> else s)
      in if g_hDevice s \<noteq> 0 \<and> g_hDevice s \<noteq> INVALID_HANDLE_VALUE then (closed (g_hDevice s) s)\<lparr>g_hDevice := 0\<rparr> else s)"

section \<open>Handles\<close>

lemma opened_fields [simp]:
  "g_hDevice (opened h s) = g_hDevice s" "g_hSCManager (opened h s) = g_hSCManager s" "sc_calls (opened h s) = sc_calls s"
  "g_hDevice (closed h s) = g_hDevice s" "g_hSCManager (closed h s) = g_hSCManager s" "sc_calls (closed h s) = sc_calls s"
  "kernel (opened h s) = kernel s" "kernel (closed h s) = kernel s"
  by (simp_all add: opened_def closed_def)

lemma sc_fields [simp]:
  "g_hDevice (sc c s) = g_hDevice s" "g_hSCManager (sc c s) = g_hSCManager s" "sc_calls (sc c s) = sc_calls s @ [c]"
  "open_handles (sc c s) = open_handles s" "kernel (sc c s) = kernel s"
  by (simp_all add: sc_def)

lemma closed_opened [simp]: "open_handles (closed h (sc c (opened h s))) = open_handles s"
  "open_handles (closed h (opened h s)) = open_handles s" "open_handles (closed h (opened h (sc c s))) = open_handles s"
  by (simp_all add: opened_def closed_def sc_def)

lemma opened_0 [simp]: "opened 0 s = s" "closed 0 s = s"
  by (simp_all add: opened_def closed_def)

lemma closed_cong: "open_handles s = open_handles t \<Longrightarrow> open_handles (closed h s) = open_handles (closed h t)"
  by (simp add: closed_def)

text \<open>Starting, controlling and installing a service keep the globals and leave no handle open.\<close>

definition drv_keeps :: "('k, 'a) drvstate_scheme \<Rightarrow> ('k, 'a) drvstate_scheme \<Rightarrow> bool" where
  "drv_keeps s s' \<longleftrightarrow> open_handles s' = open_handles s \<and> g_hDevice s' = g_hDevice s \<and> g_hSCManager s' = g_hSCManager s \<and>
     kernel s' = kernel s"

lemma drv_keeps_trans: "drv_keeps s t \<Longrightarrow> drv_keeps t u \<Longrightarrow> drv_keeps s u"
  by (simp add: drv_keeps_def)

lemma drv_start_keeps: "drv_keeps s (snd (drv_start w szName s))"
  by (simp add: drv_start_def drv_keeps_def Let_def)

lemma drv_control_keeps: "drv_keeps s (snd (drv_control w szName c s))"
  by (simp add: drv_control_def drv_keeps_def Let_def)

lemma create_part_keeps: "drv_keeps s (snd (create_part w szPath szName s))"
  by (simp add: create_part_def drv_keeps_def Let_def)

lemma drv_install_keeps: "drv_keeps s (snd (drv_install w szPath szName bDeleteOnly s))"
proof -
  let ?h = "OpenService w (sc_calls s) (g_hSCManager s) szName"
  let ?t = "closed ?h (sc (Delete szName) (snd (drv_control w SERVICE_NAME SERVICE_CONTROL_STOP (opened ?h s))))"
  have "drv_keeps (opened ?h s) (snd (drv_control w SERVICE_NAME SERVICE_CONTROL_STOP (opened ?h s)))"
    by (rule drv_control_keeps)
  then have "drv_keeps s ?t"
    using closed_cong[of "sc (Delete szName) (snd (drv_control w SERVICE_NAME SERVICE_CONTROL_STOP (opened ?h s)))" "opened ?h s" ?h]
    by (simp add: drv_keeps_def)
  then have "drv_keeps s (snd (create_part w szPath szName ?t))" by (rule drv_keeps_trans[OF _ create_part_keeps])
  with \<open>drv_keeps s ?t\<close> create_part_keeps[of s w szPath szName] show ?thesis
    unfolding drv_install_def Let_def by auto
qed

text \<open>
  The invariant of the component: the process owns exactly the handles that the two globals hold (next to those of
  others).
\<close>

definition owned :: "addr multiset \<Rightarrow> ('k, 'a) drvstate_scheme \<Rightarrow> bool" where
  "owned others s \<longleftrightarrow> open_handles s = others +
     (if g_hSCManager s \<noteq> 0 \<and> g_hSCManager s \<noteq> INVALID_HANDLE_VALUE then {#g_hSCManager s#} else {#}) +
     (if g_hDevice s \<noteq> 0 \<and> g_hDevice s \<noteq> INVALID_HANDLE_VALUE then {#g_hDevice s#} else {#})"

lemma owned_drv_keeps: "drv_keeps s s' \<Longrightarrow> owned others s \<Longrightarrow> owned others s'"
  by (simp add: drv_keeps_def owned_def)

lemma drv_initialize_owned:
  assumes "owned others s" "g_hDevice s = 0" "g_hSCManager s = 0"
  shows "owned others (snd (drv_initialize w s))"
proof -
  let ?a = "opened (OpenSCManager w) (s\<lparr>g_hSCManager := OpenSCManager w\<rparr>)"
  let ?b = "snd (drv_start w SERVICE_NAME (snd (drv_install w (Some (driver_path w)) SERVICE_NAME False ?a)))"
  have a: "owned others ?a" "g_hDevice ?a = 0" using assms by (auto simp: owned_def opened_def)
  have "drv_keeps ?a ?b" by (rule drv_keeps_trans[OF drv_install_keeps drv_start_keeps])
  then have "owned others ?b" "g_hDevice ?b = 0" using a owned_drv_keeps[of ?a ?b] by (simp_all add: drv_keeps_def)
  then show ?thesis
    by (auto simp: drv_initialize_def drv_link_def Let_def owned_def opened_def)
qed

lemma drv_deinitialize_owned:
  assumes "owned others s" "g_hSCManager s \<noteq> INVALID_HANDLE_VALUE"
  shows "open_handles (drv_deinitialize w u s) = others \<and> g_hSCManager (drv_deinitialize w u s) = 0 \<and>
    g_hDevice (drv_deinitialize w u s) \<in> {0, INVALID_HANDLE_VALUE}"
proof -
  let ?t = "snd (drv_control w SERVICE_NAME SERVICE_CONTROL_STOP s)"
  let ?u = "if u then snd (drv_install w None SERVICE_NAME True ?t) else ?t"
  have "drv_keeps s ?t" by (rule drv_control_keeps)
  then have "drv_keeps s ?u" using drv_keeps_trans[OF _ drv_install_keeps] by auto
  then have "owned others ?u" "g_hSCManager ?u \<noteq> INVALID_HANDLE_VALUE" using assms owned_drv_keeps[of s ?u] by (simp_all add: drv_keeps_def)
  then show ?thesis
    unfolding drv_deinitialize_def Let_def owned_def closed_def by (auto split: if_splits)
qed

fun calls :: "'k ioctl \<Rightarrow> (32 word \<times> addr \<times> nat) list \<Rightarrow> ('k, 'a) drvstate_scheme \<Rightarrow> ('k, 'a) drvstate_scheme option" where
  "calls ioctl [] s = Some s"
| "calls ioctl ((code, buffer, n) # cs) s = do { (ok, r, s) \<leftarrow> drv_callkernel ioctl code buffer n s; calls ioctl cs s }"

lemma drv_callkernel_globals:
  assumes "drv_callkernel ioctl code buffer n s = Some (ok, r, s')"
  shows "open_handles s' = open_handles s" "g_hDevice s' = g_hDevice s" "g_hSCManager s' = g_hSCManager s"
  using assms by (auto simp: drv_callkernel_def bind_eq_Some_conv split: if_splits)

lemma calls_globals:
  "calls ioctl cs s = Some t \<Longrightarrow> open_handles t = open_handles s \<and> g_hDevice t = g_hDevice s \<and> g_hSCManager t = g_hSCManager s"
  by (induction ioctl cs s rule: calls.induct) (auto simp: bind_eq_Some_conv dest: drv_callkernel_globals)

lemma drv_initialize_manager: "g_hSCManager (snd (drv_initialize w s)) = OpenSCManager w"
proof -
  let ?a = "opened (OpenSCManager w) (s\<lparr>g_hSCManager := OpenSCManager w\<rparr>)"
  have "drv_keeps ?a (snd (drv_start w SERVICE_NAME (snd (drv_install w (Some (driver_path w)) SERVICE_NAME False ?a))))"
    by (rule drv_keeps_trans[OF drv_install_keeps drv_start_keeps])
  then show ?thesis by (simp add: drv_initialize_def drv_link_def Let_def drv_keeps_def)
qed

text \<open>
  C29. The life of the driver connection: whatever the service manager answers, and however many kernel calls are made in
  between, opening the connection and closing it again closes every handle that was opened, and nothing
  else, and leaves no device behind that a later call could reach.
\<close>

theorem drv_lifecycle:
  assumes "g_hDevice s = 0" "g_hSCManager s = 0" "OpenSCManager w \<noteq> INVALID_HANDLE_VALUE"
    "calls ioctl cs (snd (drv_initialize w s)) = Some t"
  shows "open_handles (drv_deinitialize w bUninstall t) = open_handles s \<and>
    drv_callkernel ioctl' code buffer n (drv_deinitialize w bUninstall t) = Some (False, No_data, drv_deinitialize w bUninstall t)"
proof -
  have "owned (open_handles s) s" using assms(1,2) by (simp add: owned_def)
  then have "owned (open_handles s) (snd (drv_initialize w s))" by (rule drv_initialize_owned) (use assms in auto)
  with calls_globals[OF assms(4)] have "owned (open_handles s) t" by (simp add: owned_def)
  moreover have "g_hSCManager t \<noteq> INVALID_HANDLE_VALUE"
    using calls_globals[OF assms(4)] drv_initialize_manager[of w s] assms(3) by simp
  ultimately show ?thesis
    using drv_deinitialize_owned[of "open_handles s" t w bUninstall] by (auto simp: drv_callkernel_def)
qed

definition small_windows :: windows where
  "small_windows = \<lparr>OpenSCManager = 8, OpenService = (\<lambda>_ _ _. 12), StartService = (\<lambda>_. True), ControlService = (\<lambda>_. True),
     CreateService = (\<lambda>_. 16), OpenDevice = (\<lambda>_ _. 20), GetModuleFileName = wide (''C:'' @ CHR 0x5C # ''zax.exe'')\<rparr>"

definition small_state :: "nat drvstate" where
  "small_state = \<lparr>open_handles = {#4#}, sids = {#}, regions = {#}, files = (\<lambda>_. []), g_hDevice = 0, g_hSCManager = 0,
     sc_calls = [], kernel = 0\<rparr>"

theorem drv_lifecycle_witness:
  "\<exists>t. calls (\<lambda>_ _ _ k. Some (True, No_data, k + 1)) [(ZIK_IO_DRV_INIT, 0, 0)] (snd (drv_initialize small_windows small_state)) = Some t \<and>
    open_handles (drv_deinitialize small_windows True t) = {#4#}"
proof -
  let ?io = "\<lambda>_ _ _ k. Some (True, No_data, k + 1 :: nat)"
  have "\<exists>t. calls ?io [(ZIK_IO_DRV_INIT, 0, 0)] (snd (drv_initialize small_windows small_state)) = Some t"
    by (simp add: drv_callkernel_def)
  then obtain t where t: "calls ?io [(ZIK_IO_DRV_INIT, 0, 0)] (snd (drv_initialize small_windows small_state)) = Some t" ..
  have "g_hDevice small_state = 0" "g_hSCManager small_state = 0" "OpenSCManager small_windows \<noteq> INVALID_HANDLE_VALUE"
    by (simp_all add: small_state_def small_windows_def)
  from drv_lifecycle[OF this t] t show ?thesis by (simp add: small_state_def)
qed

section \<open>The path of the driver\<close>

lemma cut_path_dir:
  "dir = [] \<or> last dir = 0x5C \<Longrightarrow> 0x5C \<notin> set name \<Longrightarrow> k \<le> length name \<Longrightarrow>
   cut_path (length dir + k) (dir @ name) = (if dir = [] then name else dir)"
proof (induction k)
  case 0
  then show ?case
    by (cases dir rule: rev_cases) (auto simp: nth_append)
next
  case (Suc k)
  then have "(dir @ name) ! (length dir + k) \<noteq> 0x5C" by (auto simp: nth_append in_set_conv_nth)
  with Suc show ?case by simp
qed

text \<open>
  The driver is looked for beside the program: for a path that ends in a file name, the installed path is the directory
  with \<^verbatim>\<open>zik.sys\<close>, if that is short enough.
\<close>

lemma driver_path_beside:
  assumes "GetModuleFileName w = dir @ name" "dir \<noteq> []" "last dir = 0x5C" "0x5C \<notin> set name" "length dir + 7 < MAX_PATH"
  shows "driver_path w = dir @ DRIVER_FILE"
  using assms cut_path_dir[of dir name "length name"] by (simp add: driver_path_def StringCchCat_def DRIVER_FILE_def wide_def)

text \<open>
  Uninstalling a service that is not there tries to create it, without a path: the \<^verbatim>\<open>bDeleteOnly\<close> test is inside the branch
  for a service that was found.
\<close>

lemma delete_only_creates:
  assumes "OpenService w (sc_calls s) (g_hSCManager s) szName = 0"
  shows "sc_calls (snd (drv_install w None szName True s)) = sc_calls s @ [Create szName None]"
  using assms by (simp add: drv_install_def create_part_def Let_def)

end
