(* ===== verification/Zax_Page.thy ===== *)
theory Zax_Page
  imports Zax_Driver
begin

unbundle bit_operations_syntax

text \<open>
  The pages of the application (\<^verbatim>\<open>ZaxInspector/ZaxPage.c\<close>) with the columns of \<^verbatim>\<open>ZaxDialog.h\<close> and the list-view
  functions of \<^verbatim>\<open>ZaxGUI.c\<close> they call. The list view is the list of its rows, each a list of texts.
\<close>

section \<open>Definitions\<close>

record 'k app = "'k drvstate" +
  rows :: "tchar list list list"
  columns :: "(tchar list \<times> int) list"
  boxes :: "(tchar list \<times> tchar list) list" \<comment> \<open>text and title of the message boxes\<close>

text \<open>
  What the pages need of Windows, next to the services of the driver connection: whether the list view takes another row,
  memory, the chosen file name and its handle, the code page, and what uninitialised locals contain.
\<close>

record ui_windows = windows +
  InsertItem :: "nat \<Rightarrow> bool"
  AllocateMemory :: "nat \<Rightarrow> 32 word \<times> addr"
  GetSaveFileName :: "tchar list option"
  CreateFile :: "tchar list \<Rightarrow> addr"
  acp :: "tchar list \<Rightarrow> byte list"
  junk :: "nat \<Rightarrow> tchar"
  junk_bytes :: "nat \<Rightarrow> byte"

definition local_text :: "('w) ui_windows_scheme \<Rightarrow> nat \<Rightarrow> tchar list" where
  "local_text w n = map (junk w) [0..<n]"

text \<open>\<^verbatim>\<open>ZaxGUI.c\<close>: the list view\<close>

definition ui_lv_insert_columns :: "(tchar list \<times> int) list \<Rightarrow> nat \<Rightarrow> ('k, 'a) app_scheme \<Rightarrow> ('k, 'a) app_scheme" where
  "ui_lv_insert_columns LvColProp nCount s =
     fold (\<lambda>i s. s\<lparr>columns := take i (columns s) @ LvColProp ! i # drop i (columns s)\<rparr>) [0..<nCount] s"

definition cstr :: "tchar list \<Rightarrow> tchar list" where
  "cstr t = takeWhile (\<lambda>c. c \<noteq> 0) t"

definition ui_lv_insert_item :: "('w) ui_windows_scheme \<Rightarrow> nat \<Rightarrow> tchar list list \<Rightarrow> ('k, 'a) app_scheme \<Rightarrow> ('k, 'a) app_scheme" where
  "ui_lv_insert_item w nIndex szTexts s =
     (if InsertItem w (length (rows s)) then
        s\<lparr>rows := take nIndex (rows s) @ map cstr szTexts # drop nIndex (rows s)\<rparr>
      else s)"

definition ui_lv_clear_item :: "('k, 'a) app_scheme \<Rightarrow> ('k, 'a) app_scheme" where
  "ui_lv_clear_item s = s\<lparr>rows := []\<rparr>"

fun delete_columns :: "nat \<Rightarrow> ('k, 'a) app_scheme \<Rightarrow> ('k, 'a) app_scheme" where
  "delete_columns 0 s = s"
| "delete_columns (Suc nColumnCount) s = delete_columns nColumnCount (s\<lparr>columns := drop 1 (columns s)\<rparr>)"

definition ui_lv_clear_column :: "('k, 'a) app_scheme \<Rightarrow> ('k, 'a) app_scheme" where
  "ui_lv_clear_column s = delete_columns (length (columns s)) s"

text \<open>\<^verbatim>\<open>ZaxDialog.h\<close> and \<^verbatim>\<open>ZaxText.h\<close>: the columns\<close>

definition ColumnSSDT :: "(tchar list \<times> int) list" where
  "ColumnSSDT = [(wide ''Index'', 80), (wide ''Hook'', 60), (wide ''Orignal Address'', 180), (wide ''Current Address'', 180)]"

definition ColumnSSDTS :: "(tchar list \<times> int) list" where
  "ColumnSSDTS = [(wide ''Index'', 80), (wide ''Hook'', 60), (wide ''Orignal Address'', 180), (wide ''Current Address'', 180)]"

definition ColumnIDT :: "(tchar list \<times> int) list" where
  "ColumnIDT = [(wide ''Index'', 80), (wide ''Type'', 150), (wide ''Offset'', 150), (wide ''DPL'', 60)]"

definition ColumnKernel :: "(tchar list \<times> int) list" where
  "ColumnKernel = [(wide ''Address'', 100), (wide ''Length'', 80), (wide ''Current Data'', 180), (wide ''Orignal Data'', 180)]"

text \<open>
  The loops over the buffer that the driver has filled. Fresh memory is zero, so what the driver does not write reads as
  zero; the local text buffers keep their contents from one round to the next.
\<close>

definition show_row :: "('w) ui_windows_scheme \<Rightarrow> addr \<Rightarrow> nat \<Rightarrow> tchar list list \<Rightarrow> ('k, 'a) app_scheme \<Rightarrow> ('k, 'a) app_scheme option" where
  \<comment> \<open>\<^verbatim>\<open>ui_lv_insert_item\<close> and, for an export, \<^verbatim>\<open>rt_write\<close>\<close>
  "show_row w hFile i szItems s =
     (let s = ui_lv_insert_item w i szItems s in
      if hFile \<noteq> INVALID_HANDLE_VALUE then rt_write (acp w) (map (junk_bytes w) [0..<MAX_PATH]) hFile szItems s else Some s)"

definition table_buffer :: "reply \<Rightarrow> ssdt_info" where
  "table_buffer r = (case r of Ssdt (Some x) \<Rightarrow> x | _ \<Rightarrow> \<lparr>Count = 0, Item = []\<rparr>)"

definition item_at :: "ssdt_info \<Rightarrow> nat \<Rightarrow> ssdt_item" where
  "item_at x i = (if i < length (Item x) then Item x ! i else \<lparr>Index = 0, OrigAddr = 0, CurAddr = 0\<rparr>)"

fun table_rows :: "('w) ui_windows_scheme \<Rightarrow> addr \<Rightarrow> nat \<Rightarrow> nat \<Rightarrow> ssdt_info \<Rightarrow> tchar list \<Rightarrow> tchar list \<Rightarrow> tchar list \<Rightarrow>
    ('k, 'a) app_scheme \<Rightarrow> ('k, 'a) app_scheme option" where
  "table_rows w hFile 0 i info szI1 szI3 szI4 s = Some s"
| "table_rows w hFile (Suc k) i info szI1 szI3 szI4 s =
     do {
       let x = item_at info i;
       (_, szI1) \<leftarrow> rt_dwtos (Index x) 10 0 szI1 15;
       (_, szI3) \<leftarrow> rt_dwtos (OrigAddr x) 16 8 szI3 15;
       (_, szI4) \<leftarrow> rt_dwtos (CurAddr x) 16 8 szI4 15;
       s \<leftarrow> show_row w hFile i [szI1, if OrigAddr x \<noteq> CurAddr x then wide ''Hook'' else wide ''-'', szI3, szI4] s;
       table_rows w hFile k (Suc i) info szI1 szI3 szI4 s
     }"

definition table_page :: "'k ioctl \<Rightarrow> ('w) ui_windows_scheme \<Rightarrow> 32 word \<Rightarrow> addr \<Rightarrow> ('k, 'a) app_scheme \<Rightarrow> ('k, 'a) app_scheme option" where
  \<comment> \<open>the text that \<^verbatim>\<open>page_ssdt\<close> and \<^verbatim>\<open>page_ssdts\<close> share\<close>
  "table_page ioctl w code hFile s =
     (let (status, base) = AllocateMemory w 0x4000;
          (p, s) = rt_valloc status base s
      in do {
        (ok, r, s) \<leftarrow> drv_callkernel ioctl code p 0x4000 s;
        s \<leftarrow> (if ok then
                if p = 0 then None
                else table_rows w hFile (unat (Count (table_buffer r))) 0 (table_buffer r)
                       (local_text w 16) (local_text w 16) (local_text w 16) s
              else Some s);
        Some (rt_vfree p s)
      })"

definition page_ssdt :: "'k ioctl \<Rightarrow> ('w) ui_windows_scheme \<Rightarrow> addr \<Rightarrow> ('k, 'a) app_scheme \<Rightarrow> ('k, 'a) app_scheme option" where
  "page_ssdt ioctl w hFile s = table_page ioctl w ZIK_IO_SSDT_R hFile s"

definition page_ssdt_restoreall :: "'k ioctl \<Rightarrow> ('w) ui_windows_scheme \<Rightarrow> ('k, 'a) app_scheme \<Rightarrow> ('k, 'a) app_scheme option" where
  "page_ssdt_restoreall ioctl w s =
     do {
       (_, _, s) \<leftarrow> drv_callkernel ioctl ZIK_IO_SSDT_W 0 0 s;
       page_ssdt ioctl w INVALID_HANDLE_VALUE s
     }"

definition page_ssdts :: "'k ioctl \<Rightarrow> ('w) ui_windows_scheme \<Rightarrow> addr \<Rightarrow> ('k, 'a) app_scheme \<Rightarrow> ('k, 'a) app_scheme option" where
  "page_ssdts ioctl w hFile s = table_page ioctl w ZIK_IO_SSDTS_R hFile s"

definition page_ssdts_restoreall :: "'k ioctl \<Rightarrow> ('w) ui_windows_scheme \<Rightarrow> ('k, 'a) app_scheme \<Rightarrow> ('k, 'a) app_scheme option" where
  "page_ssdts_restoreall ioctl w s =
     do {
       (_, _, s) \<leftarrow> drv_callkernel ioctl ZIK_IO_SSDTS_W 0 0 s;
       page_ssdts ioctl w INVALID_HANDLE_VALUE s
     }"

definition gate_name :: "32 word \<Rightarrow> tchar list option" where
  "gate_name ty =
     (if ty = 0 then Some (wide ''-'')
      else if ty = 4 then Some (wide ''i286 CALLGATE'')
      else if ty = 5 then Some (wide ''i286/i486 TASKGATE'')
      else if ty = 6 then Some (wide ''i286 INTGATE'')
      else if ty = 7 then Some (wide ''i286 TRAPGATE'')
      else if ty = 12 then Some (wide ''i486 CALLGATE'')
      else if ty = 14 then Some (wide ''i486 INTGATE'')
      else if ty = 15 then Some (wide ''i486 TRAPGATE'')
      else None)"

definition gate_at :: "reply \<Rightarrow> nat \<Rightarrow> idt_info" where
  "gate_at r i =
     (case r of
        Idt xs \<Rightarrow> if i < length xs then xs ! i else \<lparr>Type = 0, Selector = 0, Offset = 0, DPL = 0\<rparr>
      | _ \<Rightarrow> \<lparr>Type = 0, Selector = 0, Offset = 0, DPL = 0\<rparr>)"

fun idt_rows :: "('w) ui_windows_scheme \<Rightarrow> addr \<Rightarrow> nat \<Rightarrow> nat \<Rightarrow> reply \<Rightarrow> tchar list \<Rightarrow> tchar list \<Rightarrow> tchar list \<Rightarrow> tchar list \<Rightarrow>
    ('k, 'a) app_scheme \<Rightarrow> ('k, 'a) app_scheme option" where
  "idt_rows w hFile 0 i r szI1 szI2 szI3 szI4 s = Some s"
| "idt_rows w hFile (Suc k) i r szI1 szI2 szI3 szI4 s =
     do {
       let x = gate_at r i;
       (_, szI1) \<leftarrow> rt_dwtos (of_nat i) 16 0 szI1 15;
       (_, szI3) \<leftarrow> rt_dwtos (Offset x) 16 8 szI3 15;
       (_, szI4) \<leftarrow> rt_dwtos (DPL x) 16 0 szI4 15;
       (szItem, szI2) \<leftarrow>
         (case gate_name (Type x) of
            Some t \<Rightarrow> Some (t, szI2)
          | None \<Rightarrow> do { (_, t) \<leftarrow> rt_dwtos (Type x) 10 0 szI2 15; Some (t, t) });
       s \<leftarrow> show_row w hFile i [szI1, szItem, szI3, szI4] s;
       idt_rows w hFile k (Suc i) r szI1 szI2 szI3 szI4 s
     }"

definition page_idt :: "'k ioctl \<Rightarrow> ('w) ui_windows_scheme \<Rightarrow> addr \<Rightarrow> ('k, 'a) app_scheme \<Rightarrow> ('k, 'a) app_scheme option" where
  "page_idt ioctl w hFile s =
     (let (status, base) = AllocateMemory w 0x20000;
          (p, s) = rt_valloc status base s
      in do {
        (ok, r, s) \<leftarrow> drv_callkernel ioctl ZIK_IO_IDT_R p 0x20000 s;
        s \<leftarrow> (if ok then
                if p = 0 then None
                else idt_rows w hFile 0x7FF 0 r (local_text w 16) (local_text w 16) (local_text w 16) (local_text w 16) s
              else Some s);
        Some (rt_vfree p s)
      })"

definition kernel_buffer :: "reply \<Rightarrow> kernel_info" where
  "kernel_buffer r = (case r of Kernel (Some x) \<Rightarrow> x | _ \<Rightarrow> \<lparr>KCount = 0, KItem = []\<rparr>)"

definition kernel_item_at :: "kernel_info \<Rightarrow> nat \<Rightarrow> kernel_item" where
  "kernel_item_at x i =
     (case map_of (KItem x) i of
        Some k \<Rightarrow> k
      | None \<Rightarrow> \<lparr>Address = 0, ByteCount = 0, CurBytes = replicate 5 0, OrigBytes = replicate 5 0\<rparr>)"

fun kernel_rows :: "('w) ui_windows_scheme \<Rightarrow> addr \<Rightarrow> nat \<Rightarrow> nat \<Rightarrow> kernel_info \<Rightarrow> tchar list \<Rightarrow> tchar list \<Rightarrow> tchar list \<Rightarrow> tchar list \<Rightarrow>
    ('k, 'a) app_scheme \<Rightarrow> ('k, 'a) app_scheme option" where
  "kernel_rows w hFile 0 i info szI1 szI2 szI3 szI4 s = Some s"
| "kernel_rows w hFile (Suc k) i info szI1 szI2 szI3 szI4 s =
     do {
       let x = kernel_item_at info i;
       (_, szI1) \<leftarrow> rt_dwtos (Address x) 16 8 szI1 15;
       (_, szI2) \<leftarrow> rt_dwtos (ByteCount x) 10 0 szI2 15;
       (_, szI3) \<leftarrow> (if unat (ByteCount x) \<le> 5 then rt_btos (take (unat (ByteCount x)) (CurBytes x)) szI3 59 else None);
       (_, szI4) \<leftarrow> rt_btos (take (unat (ByteCount x)) (OrigBytes x)) szI4 59;
       s \<leftarrow> show_row w hFile 0 [szI1, szI2, szI3, szI4] s;
       kernel_rows w hFile k (Suc i) info szI1 szI2 szI3 szI4 s
     }"

definition page_kernel :: "'k ioctl \<Rightarrow> ('w) ui_windows_scheme \<Rightarrow> addr \<Rightarrow> ('k, 'a) app_scheme \<Rightarrow> ('k, 'a) app_scheme option" where
  "page_kernel ioctl w hFile s =
     (let (status, base) = AllocateMemory w 0x4000;
          (p, s) = rt_valloc status base s
      in do {
        (ok, r, s) \<leftarrow> drv_callkernel ioctl ZIK_IO_KERNEL_R p 0x4000 s;
        s \<leftarrow> (if ok then
                if p = 0 then None
                else kernel_rows w hFile (unat (KCount (kernel_buffer r))) 0 (kernel_buffer r)
                       (local_text w 16) (local_text w 16) (local_text w 60) (local_text w 60) s
              else Some s);
        Some (rt_vfree p s)
      })"

definition page_kernel_restoreall :: "'k ioctl \<Rightarrow> ('w) ui_windows_scheme \<Rightarrow> ('k, 'a) app_scheme \<Rightarrow> ('k, 'a) app_scheme option" where
  "page_kernel_restoreall ioctl w s =
     do {
       (_, _, s) \<leftarrow> drv_callkernel ioctl ZIK_IO_KERNEL_W 0 0 s;
       page_kernel ioctl w INVALID_HANDLE_VALUE s
     }"

text \<open>\<^verbatim>\<open>ZaxPage.h\<close>: the page numbers\<close>

abbreviation (input) PAGE_SSDT :: int where "PAGE_SSDT \<equiv> 0"
abbreviation (input) PAGE_SSDTS :: int where "PAGE_SSDTS \<equiv> 1"
abbreviation (input) PAGE_IDT :: int where "PAGE_IDT \<equiv> 2"
abbreviation (input) PAGE_KERNEL :: int where "PAGE_KERNEL \<equiv> 3"

definition page_refresh :: "'k ioctl \<Rightarrow> ('w) ui_windows_scheme \<Rightarrow> int \<Rightarrow> addr \<Rightarrow> ('k, 'a) app_scheme \<Rightarrow> ('k, 'a) app_scheme option" where
  "page_refresh ioctl w nPageIndex hFile s =
     (let s = ui_lv_clear_item s in
      if nPageIndex = PAGE_SSDT then page_ssdt ioctl w hFile s
      else if nPageIndex = PAGE_SSDTS then page_ssdts ioctl w hFile s
      else if nPageIndex = PAGE_IDT then page_idt ioctl w hFile s
      else if nPageIndex = PAGE_KERNEL then page_kernel ioctl w hFile s
      else Some s)"

definition message_box :: "string \<Rightarrow> string \<Rightarrow> ('k, 'a) app_scheme \<Rightarrow> ('k, 'a) app_scheme" where
  "message_box text title s = s\<lparr>boxes := boxes s @ [(wide text, wide title)]\<rparr>"

definition page_export :: "'k ioctl \<Rightarrow> ('w) ui_windows_scheme \<Rightarrow> int \<Rightarrow> ('k, 'a) app_scheme \<Rightarrow> ('k, 'a) app_scheme option" where
  \<comment> \<open>\<^verbatim>\<open>CREATE_ALWAYS\<close> empties the file\<close>
  "page_export ioctl w nPageIndex s =
     (let szFileName = snd (rt_save_dialog (GetSaveFileName w) [0]);
          hFile = CreateFile w (cstr szFileName)
      in if hFile = INVALID_HANDLE_VALUE then Some (message_box ''failed to Export'' ''Error'' s)
         else do {
           let s = opened hFile (s\<lparr>files := (files s)(hFile := [])\<rparr>);
           s \<leftarrow> page_refresh ioctl w nPageIndex hFile s;
           Some (message_box ''Export completed'' ''Information'' (closed hFile s))
         })"

definition page_chage :: "'k ioctl \<Rightarrow> ('w) ui_windows_scheme \<Rightarrow> int \<Rightarrow> ('k, 'a) app_scheme \<Rightarrow> ('k, 'a) app_scheme option" where
  "page_chage ioctl w nPageIndex s =
     (let s = ui_lv_clear_column s;
          s = (if nPageIndex = PAGE_SSDT then ui_lv_insert_columns ColumnSSDT 4 s
               else if nPageIndex = PAGE_SSDTS then ui_lv_insert_columns ColumnSSDTS 4 s
               else if nPageIndex = PAGE_IDT then ui_lv_insert_columns ColumnIDT 4 s
               else if nPageIndex = PAGE_KERNEL then ui_lv_insert_columns ColumnKernel 4 s
               else s)
      in page_refresh ioctl w nPageIndex INVALID_HANDLE_VALUE s)"

section \<open>The rows of a page\<close>

lemma dchar_nonzero: "d < 16 \<Longrightarrow> dchar d \<noteq> 0"
proof -
  have "\<forall>d \<in> set [0..<16]. dchar d \<noteq> 0" by code_simp
  then show "d < 16 \<Longrightarrow> dchar d \<noteq> 0" by simp
qed

lemma dw_text_nonzero: "2 \<le> r \<Longrightarrow> r \<le> 16 \<Longrightarrow> 0 \<notin> set (dw_text n r f)"
  using dw_text_digits[of r 0 n f] dchar_nonzero by force

lemma cstr_dw_text: "2 \<le> r \<Longrightarrow> r \<le> 16 \<Longrightarrow> cstr (dw_text n r f @ 0 # xs) = dw_text n r f"
  using dw_text_nonzero[of r n f] by (auto simp: cstr_def takeWhile_append)

lemma length_dw_text_le: "10 \<le> r \<Longrightarrow> f \<le> 10 \<Longrightarrow> length (dw_text n r f) \<le> 10"
  using length_digs_word[of r n] by (simp add: dw_text_length)

text \<open>A call of \<^verbatim>\<open>rt_dwtos\<close> as the pages make it: 16 cells, of which 15 may be used.\<close>

definition written :: "tchar list \<Rightarrow> tchar list \<Rightarrow> tchar list" where
  "written t buf = t @ 0 # drop (Suc (length t)) buf"

lemma rt_dwtos_page:
  assumes "10 \<le> r" "r \<le> 16" "f \<le> 10" "length buf = 16"
  shows "rt_dwtos n (int r) (int f) buf 15 = Some (length (dw_text n r f), written (dw_text n r f) buf)"
    "length (written (dw_text n r f) buf) = 16" "cstr (written (dw_text n r f) buf) = dw_text n r f"
proof -
  have l: "length (dw_text n r f) \<le> 10" using assms by (intro length_dw_text_le)
  show "rt_dwtos n (int r) (int f) buf 15 = Some (length (dw_text n r f), written (dw_text n r f) buf)"
    using rt_dwtos_eq[of r "int f" 15 n buf] assms l by (simp add: Let_def written_def)
  show "length (written (dw_text n r f) buf) = 16" using l assms by (simp add: written_def)
  show "cstr (written (dw_text n r f) buf) = dw_text n r f" using assms by (simp add: written_def cstr_dw_text)
qed

lemmas rt_dwtos_pages =
  rt_dwtos_page[of 10 0, simplified] rt_dwtos_page[of 16 0, simplified] rt_dwtos_page[of 16 8, simplified]

text \<open>Windows behaves: the list view takes rows, and the code page has one byte per character.\<close>

definition ui_ok :: "('w) ui_windows_scheme \<Rightarrow> bool" where
  "ui_ok w \<longleftrightarrow> (\<forall>n. InsertItem w n) \<and> (\<forall>t. length (acp w t) = length t)"

definition line :: "('w) ui_windows_scheme \<Rightarrow> tchar list list \<Rightarrow> byte list" where
  "line w row = concat (map (\<lambda>t. acp w t @ [9]) row) @ [13, 10]"

definition add_rows :: "('w) ui_windows_scheme \<Rightarrow> addr \<Rightarrow> nat \<Rightarrow> tchar list list list \<Rightarrow> ('k, 'a) app_scheme \<Rightarrow> ('k, 'a) app_scheme" where
  "add_rows w h i rs s = s\<lparr>rows := take i (rows s) @ rs @ drop i (rows s),
     files := (if h = INVALID_HANDLE_VALUE then files s else (files s)(h := files s h @ concat (map (line w) rs)))\<rparr>"

lemma add_rows_Nil: "add_rows w h i [] s = s"
  by (simp add: add_rows_def)

lemma add_rows_Cons: "i \<le> length (rows s) \<Longrightarrow> add_rows w h (Suc i) rs (add_rows w h i [r] s) = add_rows w h i (r # rs) s"
  by (simp add: add_rows_def)

lemma add_rows_rows [simp]: "rows (add_rows w h i rs s) = take i (rows s) @ rs @ drop i (rows s)"
  by (simp add: add_rows_def)

lemma show_row_adds:
  assumes "ui_ok w" "\<forall>t\<in>set items. length (cstr t) < MAX_PATH"
  shows "show_row w h i items s = Some (add_rows w h i [map cstr items] s)"
proof -
  have c: "take (length (cstr t)) t = cstr t" "lstrlen t = length (cstr t)" for t :: "tchar list"
    by (simp_all add: lstrlen_def cstr_def flip: takeWhile_eq_take)
  show ?thesis
  proof (cases "h = INVALID_HANDLE_VALUE")
    case False
    then show ?thesis
      using rt_write_line[of items "acp w" "map (junk_bytes w) [0..<MAX_PATH]" h
          "s\<lparr>rows := take i (rows s) @ map cstr items # drop i (rows s)\<rparr>"] assms
      by (simp add: show_row_def ui_lv_insert_item_def ui_ok_def add_rows_def line_def c comp_def)
  qed (use assms in \<open>simp add: show_row_def ui_lv_insert_item_def ui_ok_def add_rows_def\<close>)
qed

definition table_row :: "ssdt_item \<Rightarrow> tchar list list" where
  "table_row x = [dw_text (Index x) 10 0, if OrigAddr x \<noteq> CurAddr x then wide ''Hook'' else wide ''-'',
     dw_text (OrigAddr x) 16 8, dw_text (CurAddr x) 16 8]"

lemma table_rows_adds:
  assumes "ui_ok w" "length b1 = 16" "length b3 = 16" "length b4 = 16" "i \<le> length (rows s)"
  shows "table_rows w h k i info b1 b3 b4 s = Some (add_rows w h i (map (\<lambda>j. table_row (item_at info j)) [i..<i + k]) s)"
  using assms(2-5)
proof (induction k arbitrary: i b1 b3 b4 s)
  case (Suc k)
  let ?x = "item_at info i"
  have l: "length (dw_text n 10 0) < MAX_PATH" "length (dw_text n 16 8) < MAX_PATH" for n
    using length_dw_text_le[of 10 0 n] length_dw_text_le[of 16 8 n] by simp_all
  have row: "show_row w h i [written (dw_text (Index ?x) 10 0) b1, if OrigAddr ?x \<noteq> CurAddr ?x then wide ''Hook'' else wide ''-'',
      written (dw_text (OrigAddr ?x) 16 8) b3, written (dw_text (CurAddr ?x) 16 8) b4] s = Some (add_rows w h i [table_row ?x] s)"
    using Suc.prems assms(1) l
    by (subst show_row_adds) (auto simp: rt_dwtos_pages table_row_def wide_def cstr_def[of "wide _"] cstr_def[of "[_]"] cstr_def[of "_ # _"])
  have "[i..<i + Suc k] = i # [Suc i..<Suc i + k]" by (simp add: upt_rec)
  with Suc row show ?case
    by (simp add: rt_dwtos_pages add_rows_Cons del: upt_Suc)
qed (simp add: add_rows_Nil)


text \<open>
  The page of a service table: memory is returned, and one row per entry is put before the rows that are there; for an
  export one line per row is appended to the file.
\<close>

definition page_ready :: "('w) ui_windows_scheme \<Rightarrow> nat \<Rightarrow> ('k, 'a) app_scheme \<Rightarrow> bool" where
  "page_ready w n s \<longleftrightarrow> ui_ok w \<and> NT_SUCCESS (fst (AllocateMemory w n)) \<and> snd (AllocateMemory w n) \<noteq> 0 \<and>
     g_hDevice s \<noteq> 0 \<and> g_hDevice s \<noteq> INVALID_HANDLE_VALUE"

lemma length_local_text [simp]: "length (local_text w n) = n"
  by (simp add: local_text_def)

lemma map_item_at: "length (Item info) = n \<Longrightarrow> map (\<lambda>j. f (item_at info j)) [0..<n] = map f (Item info)"
  by (auto simp: item_at_def intro: nth_equalityI)

lemma vfree_add_rows: "rt_vfree a (add_rows w h i rs (s\<lparr>regions := add_mset a (regions s), kernel := k\<rparr>)) = add_rows w h i rs (s\<lparr>kernel := k\<rparr>)"
  by (simp add: rt_vfree_def add_rows_def)

lemma table_page_adds:
  assumes "page_ready w 0x4000 s"
    "ioctl code (snd (AllocateMemory w 0x4000)) 0x4000 (kernel s) = Some (True, Ssdt (Some info), k')"
    "length (Item info) = unat (Count info)"
  shows "table_page ioctl w code h s = Some (add_rows w h 0 (map table_row (Item info)) (s\<lparr>kernel := k'\<rparr>))"
proof -
  obtain st a where a: "AllocateMemory w 0x4000 = (st, a)" by fastforce
  have "drv_callkernel ioctl code a 0x4000 (s\<lparr>regions := regions s + {#a#}\<rparr>) =
      Some (True, Ssdt (Some info), s\<lparr>regions := regions s + {#a#}, kernel := k'\<rparr>)"
    using assms(1,2) by (simp add: drv_callkernel_def page_ready_def a)
  moreover have "table_rows w h (unat (Count info)) 0 info (local_text w 16) (local_text w 16) (local_text w 16)
      (s\<lparr>regions := regions s + {#a#}, kernel := k'\<rparr>) =
    Some (add_rows w h 0 (map table_row (Item info)) (s\<lparr>regions := regions s + {#a#}, kernel := k'\<rparr>))"
    using assms(1,3) table_rows_adds[of w "local_text w 16" "local_text w 16" "local_text w 16" 0 _ h "unat (Count info)" info]
    by (simp add: page_ready_def map_item_at)
  ultimately show ?thesis
    using assms(1) unfolding table_page_def a Let_def rt_valloc_def page_ready_def
    by (simp add: table_buffer_def vfree_add_rows)
qed

text \<open>Without a device, or when the request fails, a page shows nothing and keeps nothing.\<close>

lemma table_page_fails:
  assumes "g_hDevice s = 0 \<or> g_hDevice s = INVALID_HANDLE_VALUE" "NT_SUCCESS (fst (AllocateMemory w 0x4000))"
  shows "table_page ioctl w code h s = Some s"
  using assms
  by (cases "AllocateMemory w 0x4000") (auto simp: table_page_def rt_valloc_def rt_vfree_def drv_callkernel_def Let_def)

text \<open>
  C32. Export writes what is shown: with a page of a service table selected, \<^verbatim>\<open>page_export\<close> leaves in the new file
  exactly one line per row of the list view, which has exactly one row per entry that the driver reports, in order; the
  file is closed, the memory is returned, and the user is told.
\<close>

theorem page_export_writes_shown:
  assumes "page_ready w 0x4000 s" "GetSaveFileName w = Some name" "CreateFile w (cstr name) = h" "h \<noteq> INVALID_HANDLE_VALUE"
    "nPageIndex = PAGE_SSDT \<and> code = ZIK_IO_SSDT_R \<or> nPageIndex = PAGE_SSDTS \<and> code = ZIK_IO_SSDTS_R"
    "ioctl code (snd (AllocateMemory w 0x4000)) 0x4000 (kernel s) = Some (True, Ssdt (Some info), k')"
    "length (Item info) = unat (Count info)"
  shows "\<exists>s'. page_export ioctl w nPageIndex s = Some s' \<and> rows s' = map table_row (Item info) \<and>
    files s' h = concat (map (line w) (rows s')) \<and> (\<forall>g. g \<noteq> h \<longrightarrow> files s' g = files s g) \<and>
    open_handles s' = open_handles s \<and> regions s' = regions s \<and>
    boxes s' = boxes s @ [(wide ''Export completed'', wide ''Information'')]"
proof -
  let ?t = "ui_lv_clear_item (opened h (s\<lparr>files := (files s)(h := [])\<rparr>))"
  have t: "page_ready w 0x4000 ?t" "kernel ?t = kernel s" "rows ?t = []"
    using assms(1) by (simp_all add: page_ready_def ui_lv_clear_item_def opened_def)
  have "page_refresh ioctl w nPageIndex h (opened h (s\<lparr>files := (files s)(h := [])\<rparr>)) =
      Some (add_rows w h 0 (map table_row (Item info)) (?t\<lparr>kernel := k'\<rparr>))"
    using assms(5) table_page_adds[OF t(1) _ assms(7), of ioctl code k' h] assms(6)
    by (auto simp: page_refresh_def page_ssdt_def page_ssdts_def t(2))
  then show ?thesis
    using assms(2-4)
    by (simp add: page_export_def rt_save_dialog_def Let_def add_rows_def message_box_def closed_def opened_def ui_lv_clear_item_def)
qed


definition small_ui :: ui_windows where
  "small_ui = \<lparr>OpenSCManager = 8, OpenService = (\<lambda>_ _ _. 12), StartService = (\<lambda>_. True), ControlService = (\<lambda>_. True),
     CreateService = (\<lambda>_. 16), OpenDevice = (\<lambda>_ _. 20), GetModuleFileName = wide (''C:'' @ CHR 0x5C # ''zax.exe''),
     InsertItem = (\<lambda>_. True), AllocateMemory = (\<lambda>_. (0, 0x10000)), GetSaveFileName = Some (wide ''out.txt''),
     CreateFile = (\<lambda>_. 24), acp = map ucast, junk = (\<lambda>_. 7), junk_bytes = (\<lambda>_. 7)\<rparr>"

definition small_app :: "'k \<Rightarrow> 'k app" where
  "small_app k = \<lparr>open_handles = {#20#}, sids = {#}, regions = {#}, files = (\<lambda>_. []), g_hDevice = 20, g_hSCManager = 0,
     sc_calls = [], kernel = k, rows = [[wide ''old'']], columns = [], boxes = []\<rparr>"

lemma small_page_ready: "page_ready small_ui 0x4000 (small_app k)"
  by (simp add: page_ready_def ui_ok_def small_ui_def small_app_def NT_SUCCESS_def)

theorem page_export_writes_shown_witness:
  "\<exists>s'. page_export (\<lambda>_ _ _ k. Some (True, Ssdt (Some \<lparr>Count = 1, Item = [\<lparr>Index = 0, OrigAddr = 1, CurAddr = 2\<rparr>]\<rparr>), k)) small_ui PAGE_SSDT
      (small_app ()) = Some s' \<and> rows s' = [table_row \<lparr>Index = 0, OrigAddr = 1, CurAddr = 2\<rparr>] \<and>
    files s' 24 = line small_ui (table_row \<lparr>Index = 0, OrigAddr = 1, CurAddr = 2\<rparr>) \<and> open_handles s' = {#20#}"
proof -
  let ?i = "\<lparr>Count = 1, Item = [\<lparr>Index = 0, OrigAddr = 1, CurAddr = 2\<rparr>]\<rparr>"
  let ?io = "\<lambda>_ _ _ k :: unit. Some (True, Ssdt (Some ?i), k)"
  have "GetSaveFileName small_ui = Some (wide ''out.txt'')" "CreateFile small_ui (cstr (wide ''out.txt'')) = 24"
    by (simp_all add: small_ui_def)
  from page_export_writes_shown[OF small_page_ready this, of PAGE_SSDT ZIK_IO_SSDT_R ?io "()" ?i "()"]
  show ?thesis by (auto simp: small_app_def)
qed

section \<open>Restoring all hooks\<close>

text \<open>
  What the page of the service table relies on: in a good state of the kernel a restore makes the table clean, a
  report into a block of the application gives one item for each of the \<open>n\<close> entries, and in a clean table every current
  address is the original one.
\<close>

definition user_block :: "addr \<Rightarrow> nat \<Rightarrow> bool" where
  \<comment> \<open>memory of the application, which lies below \<^verbatim>\<open>0x7FFF0000\<close>\<close>
  "user_block a n \<longleftrightarrow> a \<noteq> 0 \<and> unat a + n \<le> 0x7FFF0000"

locale service_table_device =
  fixes ioctl :: "'k ioctl" and n :: nat and good clean :: "'k \<Rightarrow> bool"
  assumes restore_cleans: "good k \<Longrightarrow> \<exists>r k'. ioctl ZIK_IO_SSDT_W 0 0 k = Some (True, r, k') \<and> good k' \<and> clean k'"
    and report_items: "good k \<Longrightarrow> user_block a 0x4000 \<Longrightarrow>
      \<exists>info k'. ioctl ZIK_IO_SSDT_R a 0x4000 k = Some (True, Ssdt (Some info), k') \<and> good k' \<and> (clean k \<longrightarrow> clean k') \<and>
        length (Item info) = n \<and> unat (Count info) = n \<and> (clean k \<longrightarrow> (\<forall>x\<in>set (Item info). CurAddr x = OrigAddr x))"
begin

lemma page_reports:
  assumes "page_ready w 0x4000 s" "user_block (snd (AllocateMemory w 0x4000)) 0x4000" "good (kernel s)"
  shows "\<exists>s' xs. page_ssdt ioctl w INVALID_HANDLE_VALUE s = Some s' \<and> rows s' = map table_row xs @ rows s \<and> length xs = n \<and>
    good (kernel s') \<and> (clean (kernel s) \<longrightarrow> clean (kernel s') \<and> (\<forall>x\<in>set xs. CurAddr x = OrigAddr x))"
proof -
  let ?a = "snd (AllocateMemory w 0x4000)"
  from report_items[OF assms(3,2)] obtain info k' where
    i: "ioctl ZIK_IO_SSDT_R ?a 0x4000 (kernel s) = Some (True, Ssdt (Some info), k')" "length (Item info) = unat (Count info)"
    and k: "length (Item info) = n" "good k'" "clean (kernel s) \<longrightarrow> clean k'" "clean (kernel s) \<longrightarrow> (\<forall>x\<in>set (Item info). CurAddr x = OrigAddr x)"
    by auto
  show ?thesis
    using table_page_adds[of w s ioctl ZIK_IO_SSDT_R info k', OF assms(1) i] k
    by (intro exI[of _ "add_rows w INVALID_HANDLE_VALUE 0 (map table_row (Item info)) (s\<lparr>kernel := k'\<rparr>)"] exI[of _ "Item info"])
      (simp add: page_ssdt_def add_rows_def)
qed

lemma restoreall_shows_clean:
  assumes "page_ready w 0x4000 s" "user_block (snd (AllocateMemory w 0x4000)) 0x4000" "good (kernel s)"
  shows "\<exists>s' xs. page_ssdt_restoreall ioctl w s = Some s' \<and> rows s' = map table_row xs @ rows s \<and> length xs = n \<and>
    (\<forall>x\<in>set xs. table_row x ! 1 = wide ''-'') \<and> good (kernel s') \<and> clean (kernel s')"
proof -
  obtain r k' where k': "ioctl ZIK_IO_SSDT_W 0 0 (kernel s) = Some (True, r, k')" "good k'" "clean k'"
    using restore_cleans[OF assms(3)] by blast
  then have "drv_callkernel ioctl ZIK_IO_SSDT_W 0 0 s = Some (True, r, s\<lparr>kernel := k'\<rparr>)"
    using assms(1) by (simp add: drv_callkernel_def page_ready_def)
  moreover have "page_ready w 0x4000 (s\<lparr>kernel := k'\<rparr>)" using assms(1) by (simp add: page_ready_def)
  then obtain s' xs where "page_ssdt ioctl w INVALID_HANDLE_VALUE (s\<lparr>kernel := k'\<rparr>) = Some s'" "rows s' = map table_row xs @ rows s"
    "length xs = n" "good (kernel s')" "clean (kernel s')" "\<forall>x\<in>set xs. CurAddr x = OrigAddr x"
    using page_reports[of w "s\<lparr>kernel := k'\<rparr>"] assms(2) k' by auto
  ultimately show ?thesis
    by (intro exI[of _ s'] exI[of _ xs]) (simp add: page_ssdt_restoreall_def table_row_def)
qed

end

text \<open>Memory that could not be allocated is not noticed: the page reads the count through \<^verbatim>\<open>NULL\<close>.\<close>

lemma table_page_null:
  assumes "\<not> NT_SUCCESS (fst (AllocateMemory w 0x4000))" "g_hDevice s \<noteq> 0" "g_hDevice s \<noteq> INVALID_HANDLE_VALUE"
    "ioctl code 0 0x4000 (kernel s) = Some (True, r, k')"
  shows "table_page ioctl w code h s = None"
  using assms by (cases "AllocateMemory w 0x4000") (simp add: table_page_def rt_valloc_def drv_callkernel_def)

text \<open>The columns of a page replace those of the page before.\<close>

lemma delete_columns_all: "delete_columns (length (columns s)) s = s\<lparr>columns := []\<rparr>"
proof -
  have "delete_columns n s = s\<lparr>columns := drop n (columns s)\<rparr>" for n
    by (induction n arbitrary: s) simp_all
  then show ?thesis by simp
qed

lemma insert_columns_empty: "columns s = [] \<Longrightarrow> length cs = n \<Longrightarrow> ui_lv_insert_columns cs n s = s\<lparr>columns := cs\<rparr>"
proof -
  assume c: "columns s = []" "length cs = n"
  have "k \<le> n \<Longrightarrow> fold (\<lambda>i s. s\<lparr>columns := take i (columns s) @ cs ! i # drop i (columns s)\<rparr>) [0..<k] s = s\<lparr>columns := take k cs\<rparr>" for k
    using c by (induction k) (simp_all add: take_Suc_conv_app_nth)
  from this[of n] c show ?thesis by (simp add: ui_lv_insert_columns_def)
qed

lemma page_chage_columns:
  "page_chage ioctl w PAGE_IDT s = page_refresh ioctl w PAGE_IDT INVALID_HANDLE_VALUE (s\<lparr>columns := ColumnIDT\<rparr>)"
  "page_chage ioctl w PAGE_SSDT s = page_refresh ioctl w PAGE_SSDT INVALID_HANDLE_VALUE (s\<lparr>columns := ColumnSSDT\<rparr>)"
  "page_chage ioctl w PAGE_SSDTS s = page_refresh ioctl w PAGE_SSDTS INVALID_HANDLE_VALUE (s\<lparr>columns := ColumnSSDTS\<rparr>)"
  "page_chage ioctl w PAGE_KERNEL s = page_refresh ioctl w PAGE_KERNEL INVALID_HANDLE_VALUE (s\<lparr>columns := ColumnKernel\<rparr>)"
  by (simp_all add: page_chage_def Let_def ui_lv_clear_column_def delete_columns_all insert_columns_empty
    ColumnIDT_def ColumnSSDT_def ColumnSSDTS_def ColumnKernel_def)

end
