(* ===== verification/Zax_System.thy ===== *)
theory Zax_System
  imports Zax_Page
begin

text \<open>
  The application on top of the driver: \<^verbatim>\<open>DeviceIoControl\<close> of the application ends in \<^verbatim>\<open>DeviceDispatch\<close> of the driver, and
  the page functions act on the kernel's service table.
\<close>

section \<open>Requests\<close>

text \<open>
  The I/O manager between them: with \<^verbatim>\<open>METHOD_NEITHER\<close> the driver gets the address of the buffer and writes to it. The
  buffer is fresh memory of the application, zero and writable, and is in the address space while the request lasts. The
  pages read it as the structure that belongs to the request; reading behind its end stops the application.
\<close>

definition in_block :: "addr \<Rightarrow> nat \<Rightarrow> addr \<Rightarrow> bool" where
  "in_block a n b \<longleftrightarrow> a \<noteq> 0 \<and> unat (b - a) < n"

definition read_item :: "memory \<Rightarrow> addr \<Rightarrow> ssdt_item option" where
  "read_item m p =
     do { i \<leftarrow> read32 m p; orig \<leftarrow> read32 m (p + 4); cur \<leftarrow> read32 m (p + 8); Some \<lparr>Index = i, OrigAddr = orig, CurAddr = cur\<rparr> }"

definition read_table :: "memory \<Rightarrow> addr \<Rightarrow> ssdt_info option" where
  "read_table m p =
     do {
       n \<leftarrow> read32 m p;
       xs \<leftarrow> those (map (\<lambda>i. read_item m (p + 4 + of_nat (12 * i))) [0..<unat n]);
       Some \<lparr>Count = n, Item = xs\<rparr>
     }"

definition read_gate :: "memory \<Rightarrow> addr \<Rightarrow> idt_info option" where
  "read_gate m p =
     do {
       ty \<leftarrow> read32 m p; sel \<leftarrow> read32 m (p + 4); off \<leftarrow> read32 m (p + 8); dpl \<leftarrow> read32 m (p + 12);
       Some \<lparr>Type = ty, Selector = sel, Offset = off, DPL = dpl\<rparr>
     }"

definition reply_of :: "32 word \<Rightarrow> memory \<Rightarrow> addr \<Rightarrow> reply option" where
  "reply_of code m p =
     (if p = 0 then Some No_data
      else if code = ZIK_IO_SSDT_R \<or> code = ZIK_IO_SSDTS_R then map_option (\<lambda>x. Ssdt (Some x)) (read_table m p)
      else if code = ZIK_IO_IDT_R then map_option Idt (those (map (\<lambda>i. read_gate m (p + of_nat (16 * i))) [0..<0x7FF]))
      else Some No_data)"

definition zik_ioctl :: "services \<Rightarrow> addr \<Rightarrow> addr \<Rightarrow> kstate ioctl" where
  "zik_ioctl os table idt code buffer room k =
     do {
       (c, k') \<leftarrow> DeviceDispatch os table idt
         \<lparr>MajorFunction = 14, IoControlCode = code, InputBufferLength = 0, UserBuffer = buffer\<rparr>
         (k\<lparr>mem := \<lambda>b. if in_block buffer room b then Some 0 else mem k b\<rparr>);
       r \<leftarrow> (if NT_SUCCESS (Status c) then reply_of code (\<lambda>b. if in_block buffer room b then mem k' b else None) buffer
             else Some No_data);
       Some (NT_SUCCESS (Status c), r, k'\<lparr>mem := \<lambda>b. if in_block buffer room b then mem k b else mem k' b\<rparr>)
     }"

section \<open>The service table as the application sees it\<close>

text \<open>
  The driver can find, read and write the table of \<open>n\<close> entries at \<open>base\<close>, it fits the buffer of the page, and writing to it
  or to memory of the application does not move it. The table and what is protected lie in the upper half, the kernel's.
\<close>

definition table_ready :: "services \<Rightarrow> addr \<Rightarrow> kstate \<Rightarrow> addr \<Rightarrow> nat \<Rightarrow> 32 word \<Rightarrow> 32 word \<Rightarrow> bool" where
  "table_ready os table k base n raw img \<longleftrightarrow>
     readable os \<and> entries_mapped (mem k) base n \<and> 4 + 12 * n \<le> 0x4000 \<and>
     (\<forall>i<n. \<forall>b\<in>cell (entry base i). 0x80000000 \<le> b) \<and> (\<forall>b\<in>read_only k. 0x80000000 \<le> b) \<and>
     (\<forall>k'. (\<forall>b. 0x80000000 \<le> b \<and> (\<forall>i<n. b \<notin> cell (entry base i)) \<longrightarrow> mem k' b = mem k b) \<longrightarrow> located os table k' base n raw img)"

definition table_clean :: "services \<Rightarrow> kstate \<Rightarrow> addr \<Rightarrow> nat \<Rightarrow> 32 word \<Rightarrow> 32 word \<Rightarrow> bool" where
  "table_clean os k base n raw img \<longleftrightarrow> (\<forall>i<n. read32 (mem k) (entry base i) = Some (original os raw img i))"

lemma table_ready_located: "table_ready os table k base n raw img \<Longrightarrow> located os table k base n raw img"
  by (simp add: table_ready_def)

lemma table_ready_mem:
  assumes "table_ready os table k base n raw img" "\<forall>b. (\<forall>i<n. b \<notin> cell (entry base i)) \<longrightarrow> mem k' b = mem k b"
    "entries_mapped (mem k') base n" "read_only k' = read_only k"
  shows "table_ready os table k' base n raw img"
  using assms unfolding table_ready_def by metis

lemma zik_restore:
  assumes "table_ready os table k base n raw img"
  shows "\<exists>r k'. zik_ioctl os table idt ZIK_IO_SSDT_W 0 0 k = Some (True, r, k') \<and> table_ready os table k' base n raw img \<and>
    table_clean os k' base n raw img"
proof -
  have r: "readable os" "entries_mapped (mem k) base n" using assms by (simp_all add: table_ready_def)
  have "count_writable 0 k" by (simp add: count_writable_def)
  from EnumSSDT_restore_state[OF table_ready_located[OF assms] r this] obtain k' where
    e: "EnumSSDT os table True 0 k = Some (read_status os, k')"
    and c: "\<forall>i<n. read32 (mem k') (entry base i) = Some (original os raw img i)"
    and m: "\<forall>b. (\<forall>i<n. b \<notin> cell (entry base i)) \<longrightarrow> mem k' b = mem k b" "read_only k' = read_only k" by auto
  have "zik_ioctl os table idt ZIK_IO_SSDT_W 0 0 k = Some (True, No_data, k')"
    using e by (simp add: zik_ioctl_def DeviceDispatch_def dispatch_code_def io_code_values reply_of_def in_block_def NT_SUCCESS_def)
  moreover have "entries_mapped (mem k') base n" using r(2) c by (simp add: entries_mapped_def)
  ultimately show ?thesis using table_ready_mem[OF assms m(1) _ m(2)] c by (auto simp: table_clean_def)
qed

lemma those_map: "\<forall>x\<in>set xs. f x = Some (g x) \<Longrightarrow> those (map f xs) = Some (map g xs)"
  by (induction xs) auto

lemma block_range: "in_block a n b \<longleftrightarrow> a \<noteq> 0 \<and> unat a \<le> unat b \<and> unat b < unat a + n" if "unat a + n \<le> 2 ^ 32"
proof (cases "a \<le> b")
  case True
  then show ?thesis by (auto simp: in_block_def unat_sub word_le_nat_alt)
next
  case False
  then have "unat b < unat a" by (simp add: word_le_nat_alt)
  moreover have "unat (b - a) \<ge> n"
  proof (rule ccontr)
    assume "\<not> n \<le> unat (b - a)"
    with offset_unat[OF that, of "unat (b - a)"] \<open>unat b < unat a\<close> show False by simp
  qed
  ultimately show ?thesis by (simp add: in_block_def)
qed

lemma area_in_block:
  assumes "b \<in> report_area a n" "4 + 12 * n \<le> l" "unat a + l \<le> 2 ^ 32"
  shows "in_block a l b"
proof -
  from assms(1) obtain q where q: "a \<noteq> 0" "q < 1 + 3 * n" "b \<in> cell (entry a q)" by (auto simp: report_area_def split: if_splits)
  with cell_range[OF q(3) _ assms(3)] assms(2) show ?thesis unfolding block_range[OF assms(3)] by simp
qed

text \<open>A page finds in its buffer what the driver has reported.\<close>

lemma table_read:
  assumes "read32 m a = Some (of_nat n)" "n < 2 ^ 32"
    "\<forall>i<n. read32 m (entry a (1 + 3 * i)) = Some (of_nat i) \<and> read32 m (entry a (2 + 3 * i)) = Some (orig i) \<and>
       read32 m (entry a (3 + 3 * i)) = Some (cur i)"
  shows "read_table m a = Some \<lparr>Count = of_nat n, Item = map (\<lambda>i. \<lparr>Index = of_nat i, OrigAddr = orig i, CurAddr = cur i\<rparr>) [0..<n]\<rparr>"
proof -
  have "read_item m (entry a (1 + 3 * i)) = Some \<lparr>Index = of_nat i, OrigAddr = orig i, CurAddr = cur i\<rparr>" if "i < n" for i
    unfolding read_item_def item_addresses using assms(3)[rule_format, OF that] by (simp del: of_nat_mult of_nat_add)
  then have "those (map (\<lambda>i. read_item m (a + 4 + of_nat (12 * i))) [0..<n]) =
      Some (map (\<lambda>i. \<lparr>Index = of_nat i, OrigAddr = orig i, CurAddr = cur i\<rparr>) [0..<n])"
    unfolding item_addresses by (intro those_map) (simp del: of_nat_mult of_nat_add)
  with assms(1,2) show ?thesis by (simp add: read_table_def unat_of_nat_less)
qed

lemma zik_report:
  assumes "table_ready os table k base n raw img" "user_block a 0x4000"
  shows "\<exists>info k'. zik_ioctl os table idt ZIK_IO_SSDT_R a 0x4000 k = Some (True, Ssdt (Some info), k') \<and>
    table_ready os table k' base n raw img \<and> (table_clean os k base n raw img \<longrightarrow> table_clean os k' base n raw img) \<and>
    length (Item info) = n \<and> unat (Count info) = n \<and>
    (table_clean os k base n raw img \<longrightarrow> (\<forall>x\<in>set (Item info). CurAddr x = OrigAddr x))"
proof -
  let ?k = "k\<lparr>mem := \<lambda>b. if in_block a 0x4000 b then Some 0 else mem k b\<rparr>"
  have r: "readable os" "entries_mapped (mem k) base n" "4 + 12 * n \<le> 0x4000" using assms by (simp_all add: table_ready_def)
  have a: "a \<noteq> 0" "unat a + 0x4000 \<le> 0x7FFF0000" using assms(2) by (simp_all add: user_block_def)
  then have a32: "unat a + 0x4000 \<le> 2 ^ 32" by simp
  have low: "\<not> 0x80000000 \<le> b" if "in_block a 0x4000 b" for b
    using that a unfolding block_range[OF a32] by (simp add: word_le_nat_alt)
  have area: "in_block a 0x4000 b" if "b \<in> report_area a n" for b using area_in_block[OF that r(3) a32] .
  have "mem ?k b = mem k b" if "0x80000000 \<le> b" for b using low[of b] that by auto
  then have l: "located os table ?k base n raw img" and same: "\<forall>i<n. read32 (mem ?k) (entry base i) = read32 (mem k) (entry base i)"
    using assms(1) unfolding table_ready_def by (blast, auto intro!: read32_cong)
  then have mapped: "entries_mapped (mem ?k) base n" using r(2) by (simp add: entries_mapped_def)
  have "takes_report a base n ?k"
  proof -
    have "mem ?k b \<noteq> None \<and> may_write ?k b" if "b \<in> report_area a n" for b
      using area[OF that] low[of b] assms(1) by (auto simp: table_ready_def may_write_def)
    moreover have "cell (entry base i) \<inter> report_area a n = {}" if "i < n" for i
      using area low assms(1) that unfolding table_ready_def by blast
    ultimately show ?thesis using a(1) r(3) by (simp add: takes_report_def)
  qed
  from EnumSSDT_report_state[OF l r(1) mapped this] obtain k2 where
    e: "EnumSSDT os table False a ?k = Some (read_status os, k2)" and c: "read32 (mem k2) a = Some (of_nat n)"
    and items: "\<forall>i<n. read32 (mem k2) (entry a (1 + 3 * i)) = Some (of_nat i) \<and> read32 (mem k2) (entry a (2 + 3 * i)) = Some (original os raw img i) \<and>
       read32 (mem k2) (entry a (3 + 3 * i)) = read32 (mem ?k) (entry base i)"
    and out: "\<forall>b. b \<notin> report_area a n \<longrightarrow> mem k2 b = mem ?k b" and ro: "read_only k2 = read_only ?k" by blast
  define m where "m b = (if in_block a 0x4000 b then mem k2 b else None)" for b
  define cur where "cur i = the (read32 (mem k) (entry base i))" for i
  define info where "info = \<lparr>Count = of_nat n, Item = map (\<lambda>i. \<lparr>Index = of_nat i, OrigAddr = original os raw img i, CurAddr = cur i\<rparr>) [0..<n]\<rparr>"
  have field: "read32 m (entry a q) = read32 (mem k2) (entry a q)" if "q < 1 + 3 * n" for q
    by (rule read32_cong) (use area area_field[OF a(1) that] in \<open>auto simp: m_def\<close>)
  have "read32 (mem ?k) (entry base i) = Some (cur i)" if "i < n" for i
    using same that r(2) by (simp add: entries_mapped_def cur_def)
  then have "read32 m (entry a (1 + 3 * i)) = Some (of_nat i) \<and> read32 m (entry a (2 + 3 * i)) = Some (original os raw img i) \<and>
      read32 m (entry a (3 + 3 * i)) = Some (cur i)" if "i < n" for i
    using items[rule_format, OF that] field[of "1 + 3 * i"] field[of "2 + 3 * i"] field[of "3 + 3 * i"] that
    by (simp del: of_nat_mult of_nat_add)
  moreover have "read32 m a = Some (of_nat n)" using c field[of 0] by simp
  ultimately have "read_table m a = Some info"
    unfolding info_def by (intro table_read) (use r(3) in auto)
  then have "zik_ioctl os table idt ZIK_IO_SSDT_R a 0x4000 k =
      Some (True, Ssdt (Some info), k2\<lparr>mem := \<lambda>b. if in_block a 0x4000 b then mem k b else mem k2 b\<rparr>)" (is "_ = Some (True, _, ?k3)")
    using e a(1) by (simp add: zik_ioctl_def DeviceDispatch_def dispatch_code_def io_code_values reply_of_def NT_SUCCESS_def m_def[abs_def])
  moreover have "mem ?k3 = mem k"
  proof
    fix b show "mem ?k3 b = mem k b" using out[rule_format, of b] area[of b] by (cases "in_block a 0x4000 b") auto
  qed
  then have "table_ready os table ?k3 base n raw img" "table_clean os k base n raw img \<longrightarrow> table_clean os ?k3 base n raw img"
    using table_ready_mem[OF assms(1), of ?k3] r(2) ro by (simp_all add: table_clean_def)
  moreover have "unat (of_nat n :: 32 word) = n" using r(3) by (intro unat_of_nat_less) simp
  then have "length (Item info) = n \<and> unat (Count info) = n \<and>
    (table_clean os k base n raw img \<longrightarrow> (\<forall>x\<in>set (Item info). CurAddr x = OrigAddr x))"
    by (auto simp: info_def cur_def table_clean_def)
  ultimately show ?thesis by blast
qed

interpretation zik: service_table_device "zik_ioctl os table idt" n
    "\<lambda>k. table_ready os table k base n raw img" "\<lambda>k. table_clean os k base n raw img" for os table idt n base raw img
  by unfold_locales (rule zik_restore, assumption, rule zik_report)

text \<open>
  C31. Restoring works from the button to the table: when the driver can reach the table, \<^verbatim>\<open>page_ssdt_restoreall\<close> returns, every
  entry of the kernel's table then is the address from the file, and the page shows one new row per entry, none of them
  marked as a hook. The rows that were there stay behind them as they were, with the marks they had.
\<close>

theorem restoreall_repairs:
  assumes "page_ready w 0x4000 s" "user_block (snd (AllocateMemory w 0x4000)) 0x4000" "table_ready os table (kernel s) base n raw img"
  shows "\<exists>s' xs. page_ssdt_restoreall (zik_ioctl os table idt) w s = Some s' \<and> rows s' = map table_row xs @ rows s \<and>
    length xs = n \<and> (\<forall>x\<in>set xs. table_row x ! 1 = wide ''-'') \<and>
    (\<forall>i<n. read32 (mem (kernel s')) (base + of_nat (4 * i)) = Some (file_word os raw i - img + fst (LocateNtKrnlBase os)))"
  using zik.restoreall_shows_clean[OF assms, of idt] by (auto simp: table_clean_def original_def)

lemma small_table_ready: "table_ready small_os 0x80000300 small_machine 0x80000580 2 0x90 0"
proof -
  have "\<forall>i<2. \<forall>b\<in>cell (entry 0x80000580 i). 0x80000000 \<le> b" by (auto simp: less_2_cases_iff cell_def)
  moreover have "\<forall>b\<in>read_only small_machine. 0x80000000 \<le> b" by (auto simp: small_machine_def cell_def)
  ultimately show ?thesis
    using small_mapped unfolding table_ready_def
    by (auto simp: small_readable less_2_cases_iff small_machine_def intro!: small_separate)
qed

theorem restoreall_repairs_witness:
  "\<exists>s' xs. page_ssdt_restoreall (zik_ioctl small_os 0x80000300 0) small_ui (small_app small_machine) = Some s' \<and>
    rows s' = map table_row xs @ [[wide ''old'']] \<and> length xs = 2 \<and> (\<forall>x\<in>set xs. table_row x ! 1 = wide ''-'')"
proof -
  have "table_ready small_os 0x80000300 (kernel (small_app small_machine)) 0x80000580 2 0x90 0"
    using small_table_ready by (simp add: small_app_def)
  moreover have "user_block (snd (AllocateMemory small_ui 0x4000)) 0x4000" by (simp add: user_block_def small_ui_def)
  ultimately show ?thesis using restoreall_repairs[OF small_page_ready, of small_os "0x80000300" small_machine "0x80000580" 2 "0x90" 0 0]
    by (auto simp: small_app_def)
qed

end
