(* ===== verification/Zax_GUI.thy ===== *)
theory Zax_GUI
  imports Zax_Page
begin

text \<open>
  The window of the application (\<^verbatim>\<open>ZaxInspector/ZaxGUI.c\<close>) with its menus (\<^verbatim>\<open>ZaxDialog.h\<close>, \<^verbatim>\<open>ZaxDialogId.h\<close>,
  \<^verbatim>\<open>ZaxText.h\<close>): creation, the message handlers and the message loop.
\<close>

section \<open>Definitions\<close>

text \<open>\<^verbatim>\<open>ZaxDialogId.h\<close>\<close>

definition ZAX_ID :: "32 word \<Rightarrow> 32 word" where "ZAX_ID i = 1000 + i"

definition IDC_TABCTRL :: "32 word" where "IDC_TABCTRL = ZAX_ID 1"
definition IDC_LISTVIEW :: "32 word" where "IDC_LISTVIEW = ZAX_ID 2"
definition IDM_SYSABOUT :: "32 word" where "IDM_SYSABOUT = ZAX_ID 3"
definition IDM_SSDT_REFRESH :: "32 word" where "IDM_SSDT_REFRESH = ZAX_ID 10"
definition IDM_SSDT_EXPORT :: "32 word" where "IDM_SSDT_EXPORT = ZAX_ID 11"
definition IDM_SSDT_RESTOREALL :: "32 word" where "IDM_SSDT_RESTOREALL = ZAX_ID 12"
definition IDM_SSDTS_REFRESH :: "32 word" where "IDM_SSDTS_REFRESH = ZAX_ID 20"
definition IDM_SSDTS_EXPORT :: "32 word" where "IDM_SSDTS_EXPORT = ZAX_ID 21"
definition IDM_SSDTS_RESTOREALL :: "32 word" where "IDM_SSDTS_RESTOREALL = ZAX_ID 22"
definition IDM_IDT_REFRESH :: "32 word" where "IDM_IDT_REFRESH = ZAX_ID 30"
definition IDM_IDT_EXPORT :: "32 word" where "IDM_IDT_EXPORT = ZAX_ID 31"
definition IDM_KERNEL_REFRESH :: "32 word" where "IDM_KERNEL_REFRESH = ZAX_ID 40"
definition IDM_KERNEL_EXPORT :: "32 word" where "IDM_KERNEL_EXPORT = ZAX_ID 41"
definition IDM_KERNEL_RESTOREALL :: "32 word" where "IDM_KERNEL_RESTOREALL = ZAX_ID 42"

text \<open>\<^verbatim>\<open>ZaxDialog.h\<close>: tabs and menus\<close>

record menuprop =
  uFlag :: "32 word"
  uItemId :: "32 word"
  lpItem :: "tchar list option"

abbreviation (input) MF_STRING :: "32 word" where "MF_STRING \<equiv> 0"
abbreviation (input) MF_SEPARATOR :: "32 word" where "MF_SEPARATOR \<equiv> 0x800"

definition menu_text :: "32 word \<Rightarrow> string \<Rightarrow> menuprop" where
  "menu_text i t = \<lparr>uFlag = MF_STRING, uItemId = i, lpItem = Some (wide t)\<rparr>"

definition separator :: menuprop where
  "separator = \<lparr>uFlag = MF_SEPARATOR, uItemId = 0, lpItem = None\<rparr>"

definition TabCtrlText :: "tchar list list" where
  "TabCtrlText = [wide ''SSDT'', wide ''SSDT Shadow'', wide ''IDT'', wide ''Kernel'']"

definition SysMenuProp :: "menuprop list" where
  "SysMenuProp = [separator, menu_text IDM_SYSABOUT ''About Zax...'']"

definition SSDTMenuProp :: "menuprop list" where
  "SSDTMenuProp = [menu_text IDM_SSDT_REFRESH ''Refresh'', separator, menu_text IDM_SSDT_EXPORT ''Export'', separator,
     menu_text IDM_SSDT_RESTOREALL ''Restore all'']"

definition SSDTSMenuProp :: "menuprop list" where
  "SSDTSMenuProp = [menu_text IDM_SSDTS_REFRESH ''Refresh'', separator, menu_text IDM_SSDTS_EXPORT ''Export'', separator,
     menu_text IDM_SSDTS_RESTOREALL ''Restore all'']"

definition IDTMenuProp :: "menuprop list" where
  "IDTMenuProp = [menu_text IDM_IDT_REFRESH ''Refresh'', separator, menu_text IDM_IDT_EXPORT ''Export'']"

definition KernelMenuProp :: "menuprop list" where
  "KernelMenuProp = [menu_text IDM_KERNEL_REFRESH ''Refresh'', separator, menu_text IDM_KERNEL_EXPORT ''Export'', separator,
     menu_text IDM_KERNEL_RESTOREALL ''Restore all'']"

text \<open>
  The window: the current page, the popup menus while they exist, the menus that were shown, tabs, system menu,
  where the controls are, whether the window exists, and whether the loop was told to end.
\<close>

record 'k gui = "'k app" +
  g_nCurrentPage :: int
  g_hPopupMenu :: "nat \<Rightarrow> menuprop list option"
  shown :: "menuprop list option list"
  tabs :: "tchar list list"
  sysmenu :: "menuprop list"
  places :: "(int \<times> int \<times> int \<times> int) list"
  window :: bool
  quit :: bool

text \<open>What creation asks of Windows; \<open>adjust\<close> is \<^verbatim>\<open>TabCtrl_AdjustRect\<close> on (left, top, right, bottom).\<close>

record gui_windows = ui_windows +
  wow64 :: "bool option"
  version :: "(8 word \<times> 32 word) option"
  admin_sid :: "addr option"
  admin_member :: "bool option"
  token_status :: "32 word"
  token :: addr
  adjust_status :: "32 word"
  RegisterClassEx :: bool
  CreateMain :: bool
  GetClientRect :: bool
  CreateTab :: bool
  CreateListView :: bool
  GetCurSel :: int
  ShowWindow :: bool
  adjust :: "int \<times> int \<times> int \<times> int \<Rightarrow> int \<times> int \<times> int \<times> int"

definition ui_on_close :: "('w) gui_windows_scheme \<Rightarrow> 'k gui \<Rightarrow> 'k gui" where
  "ui_on_close w s =
     fold (\<lambda>i s. s\<lparr>g_hPopupMenu := (g_hPopupMenu s)(i := None)\<rparr>) [0..<4] (drv_deinitialize (windows.truncate w) False s)"

definition ui_on_tabctrl_change :: "'k ioctl \<Rightarrow> ('w) gui_windows_scheme \<Rightarrow> int \<Rightarrow> 'k gui \<Rightarrow> 'k gui option" where
  "ui_on_tabctrl_change ioctl w nCurrentPage s = page_chage ioctl w nCurrentPage (s\<lparr>g_nCurrentPage := nCurrentPage\<rparr>)"

definition ui_on_resize :: "('w) gui_windows_scheme \<Rightarrow> int \<Rightarrow> int \<Rightarrow> 'k gui \<Rightarrow> 'k gui" where
  "ui_on_resize w nWidth nHeigth s =
     (let (l, t, r, b) = adjust w (0, 0, nWidth, nHeigth) in
      s\<lparr>places := [(0, 0, nWidth, nHeigth), (l + 2, t + 2, r - l - 4, b - t - 4)]\<rparr>)"

definition ui_on_lv_rightclick :: "int \<Rightarrow> 'k gui \<Rightarrow> 'k gui option" where
  \<comment> \<open>reading \<^verbatim>\<open>g_hPopupMenu\<close> outside its four elements has no result\<close>
  "ui_on_lv_rightclick iItem s =
     (if iItem < 0 then Some s
      else if 0 \<le> g_nCurrentPage s \<and> g_nCurrentPage s < 4 then
        Some (s\<lparr>shown := shown s @ [g_hPopupMenu s (nat (g_nCurrentPage s))]\<rparr>)
      else None)"

definition ui_on_command :: "'k ioctl \<Rightarrow> ('w) gui_windows_scheme \<Rightarrow> 32 word \<Rightarrow> 'k gui \<Rightarrow> 'k gui option" where
  "ui_on_command ioctl w dwControlId s =
     (let p = g_nCurrentPage s;
          refresh = page_refresh ioctl w p INVALID_HANDLE_VALUE;
          export = page_export ioctl w p
      in
      if dwControlId < ZAX_ID 10 \<or> dwControlId > ZAX_ID 50 then Some s
      else if dwControlId < ZAX_ID 20 then
        if dwControlId = IDM_SSDT_REFRESH then refresh s
        else if dwControlId = IDM_SSDT_EXPORT then export s
        else if dwControlId = IDM_SSDT_RESTOREALL then page_ssdt_restoreall ioctl w s
        else Some s
      else if dwControlId < ZAX_ID 30 then
        if dwControlId = IDM_SSDTS_REFRESH then refresh s
        else if dwControlId = IDM_SSDTS_EXPORT then export s
        else if dwControlId = IDM_SSDTS_RESTOREALL then page_ssdts_restoreall ioctl w s
        else Some s
      else if dwControlId < ZAX_ID 40 then
        if dwControlId = IDM_IDT_REFRESH then refresh s
        else if dwControlId = IDM_IDT_EXPORT then export s
        else Some s
      else if dwControlId < ZAX_ID 50 then
        if dwControlId = IDM_KERNEL_REFRESH then refresh s
        else if dwControlId = IDM_KERNEL_EXPORT then export s
        else if dwControlId = IDM_KERNEL_RESTOREALL then page_kernel_restoreall ioctl w s
        else Some s
      else Some s)"

text \<open>
  Messages with what the handlers read of them; a notification of the tab control comes with the selected tab
  (\<^verbatim>\<open>TabCtrl_GetCurSel\<close>).
\<close>

datatype notification = NM_RCLICK int | TCN_SELCHANGE int | Other_code

datatype message =
    WM_NOTIFY "32 word" notification
  | WM_COMMAND "32 word"
  | WM_SIZE int int
  | WM_CLOSE
  | WM_DESTROY
  | WM_SYSCOMMAND "16 word"
  | WM_other

text \<open>
  The result says whether \<^verbatim>\<open>DefWindowProc\<close> was called. \<^verbatim>\<open>DestroyWindow\<close> sends \<^verbatim>\<open>WM_DESTROY\<close>, whose handler posts the
  quit message.
\<close>

definition ui_wndproc :: "'k ioctl \<Rightarrow> ('w) gui_windows_scheme \<Rightarrow> message \<Rightarrow> 'k gui \<Rightarrow> (bool \<times> 'k gui) option" where
  "ui_wndproc ioctl w msg s =
     (case msg of
        WM_NOTIFY wParam code \<Rightarrow>
          (case code of
             NM_RCLICK iItem \<Rightarrow>
               if wParam = IDC_LISTVIEW then map_option (Pair False) (ui_on_lv_rightclick iItem s) else Some (True, s)
           | TCN_SELCHANGE sel \<Rightarrow>
               if wParam = IDC_TABCTRL then map_option (Pair False) (ui_on_tabctrl_change ioctl w sel s) else Some (True, s)
           | Other_code \<Rightarrow> Some (True, s))
      | WM_COMMAND wParam \<Rightarrow> map_option (Pair False) (ui_on_command ioctl w wParam s)
      | WM_SIZE nWidth nHeigth \<Rightarrow> Some (False, ui_on_resize w nWidth nHeigth s)
      | WM_CLOSE \<Rightarrow> Some (False, (ui_on_close w s)\<lparr>window := False, quit := True\<rparr>)
      | WM_DESTROY \<Rightarrow> Some (False, s\<lparr>quit := True\<rparr>)
      | WM_SYSCOMMAND c \<Rightarrow>
          Some (True, if ucast c = IDM_SYSABOUT then
              message_box (''Zax Inspector(build 2013)'' @ CHR 0x0A # CHR 0x09 # CHR 0x09 # ''by vizee'') ''About Zax Inspector'' s
            else s)
      | WM_other \<Rightarrow> Some (True, s))"

definition ui_append_menus :: "menuprop list \<Rightarrow> menuprop list \<Rightarrow> menuprop list" where
  "ui_append_menus hMenu pMenus = fold (\<lambda>m menu. menu @ [m]) pMenus hMenu"

definition ui_on_before_create :: "('w) gui_windows_scheme \<Rightarrow> 'k gui \<Rightarrow> bool \<times> 'k gui" where
  "ui_on_before_create w s =
     (let bSuccess = rt_check_verion (wow64 w) (version w);
          (bSuccess, s) = (if bSuccess then rt_is_administrator (admin_sid w) (admin_member w) s else (bSuccess, s));
          (bSuccess, s) = (if bSuccess then rt_enable_privilege (token_status w) (token w) (adjust_status w) s else (bSuccess, s));
          (bSuccess, s) = (if bSuccess then drv_initialize (windows.truncate w) s else (bSuccess, s));
          s = (if \<not> bSuccess then message_box ''Failed to initialize'' ''Error'' s else s)
      in (bSuccess, s))"

definition ui_on_after_create :: "'k ioctl \<Rightarrow> ('w) gui_windows_scheme \<Rightarrow> 'k gui \<Rightarrow> 'k gui option" where
  "ui_on_after_create ioctl w s =
     (let s = s\<lparr>sysmenu := ui_append_menus (sysmenu s) SysMenuProp\<rparr>;
          s = fold (\<lambda>i s. s\<lparr>g_hPopupMenu := (g_hPopupMenu s)(i := Some [])\<rparr>) [0..<4] s;
          append = (\<lambda>i ms s. s\<lparr>g_hPopupMenu := (g_hPopupMenu s)(i := map_option (\<lambda>m. ui_append_menus m ms) (g_hPopupMenu s i))\<rparr>);
          s = append 0 SSDTMenuProp s;
          s = append 1 SSDTSMenuProp s;
          s = append 2 IDTMenuProp s;
          s = append 3 KernelMenuProp s;
          s = fold (\<lambda>i s. s\<lparr>tabs := take i (tabs s) @ TabCtrlText ! i # drop i (tabs s)\<rparr>) [0..<4] s
      in page_chage ioctl w (GetCurSel w) s)"

definition ui_create :: "'k ioctl \<Rightarrow> ('w) gui_windows_scheme \<Rightarrow> 'k gui \<Rightarrow> (bool \<times> 'k gui) option" where
  "ui_create ioctl w s =
     (let (ok, s) = ui_on_before_create w s in
      if \<not> ok then Some (False, s)
      else if \<not> RegisterClassEx w then Some (False, s)
      else if \<not> CreateMain w then Some (False, s)
      else let s = s\<lparr>window := True\<rparr> in
        if \<not> GetClientRect w then Some (False, s)
        else if \<not> CreateTab w then Some (False, s)
        else if \<not> CreateListView w then Some (False, s)
        else map_option (Pair True) (ui_on_after_create ioctl w s))"

text \<open>The loop of \<^verbatim>\<open>ui_main\<close> on the messages that arrive; at the end of the list it waits.\<close>

fun message_loop :: "'k ioctl \<Rightarrow> ('w) gui_windows_scheme \<Rightarrow> message list \<Rightarrow> 'k gui \<Rightarrow> 'k gui option" where
  "message_loop ioctl w [] s = Some s"
| "message_loop ioctl w (m # ms) s =
     (if quit s then Some s else do { (_, s) \<leftarrow> ui_wndproc ioctl w m s; message_loop ioctl w ms s })"

definition ui_main :: "'k ioctl \<Rightarrow> ('w) gui_windows_scheme \<Rightarrow> message list \<Rightarrow> 'k gui \<Rightarrow> 'k gui option" where
  "ui_main ioctl w msgs s =
     do {
       (ok, s) \<leftarrow> ui_create ioctl w s;
       if \<not> ok then Some s else if ShowWindow w then Some s else message_loop ioctl w msgs s
     }"

section \<open>Menus\<close>

lemmas zax_ids = ZAX_ID_def IDC_TABCTRL_def IDC_LISTVIEW_def IDM_SYSABOUT_def IDM_SSDT_REFRESH_def IDM_SSDT_EXPORT_def
  IDM_SSDT_RESTOREALL_def IDM_SSDTS_REFRESH_def IDM_SSDTS_EXPORT_def IDM_SSDTS_RESTOREALL_def IDM_IDT_REFRESH_def
  IDM_IDT_EXPORT_def IDM_KERNEL_REFRESH_def IDM_KERNEL_EXPORT_def IDM_KERNEL_RESTOREALL_def

definition popup_menu :: "int \<Rightarrow> menuprop list" where
  "popup_menu p = (if p = PAGE_SSDT then SSDTMenuProp else if p = PAGE_SSDTS then SSDTSMenuProp
     else if p = PAGE_IDT then IDTMenuProp else if p = PAGE_KERNEL then KernelMenuProp else [])"

text \<open>What the label of a menu item promises on a page.\<close>

definition menu_action :: "'k ioctl \<Rightarrow> ('w) gui_windows_scheme \<Rightarrow> int \<Rightarrow> tchar list \<Rightarrow> 'k gui \<Rightarrow> 'k gui option" where
  "menu_action ioctl w p t s =
     (if t = wide ''Refresh'' then page_refresh ioctl w p INVALID_HANDLE_VALUE s
      else if t = wide ''Export'' then page_export ioctl w p s
      else if t = wide ''Restore all'' then
        if p = PAGE_SSDT then page_ssdt_restoreall ioctl w s
        else if p = PAGE_SSDTS then page_ssdts_restoreall ioctl w s
        else page_kernel_restoreall ioctl w s
      else Some s)"

lemma append_menus: "ui_append_menus m ms = m @ ms"
  unfolding ui_append_menus_def by (induction ms arbitrary: m) simp_all

lemma menu_labels:
  "wide ''Export'' \<noteq> wide ''Refresh''" "wide ''Restore all'' \<noteq> wide ''Refresh''" "wide ''Restore all'' \<noteq> wide ''Export''"
  by (simp_all add: wide_def)

text \<open>
  C34. Every menu item does what it says: for the page that is current, the command of each item of that page's popup
  menu runs the refresh, the export or the restore of that page.
\<close>

theorem menu_items_act:
  assumes "m \<in> set (popup_menu (g_nCurrentPage s))" "lpItem m = Some t"
  shows "ui_on_command ioctl w (uItemId m) s = menu_action ioctl w (g_nCurrentPage s) t s"
proof -
  have "g_nCurrentPage s \<in> {0, 1, 2, 3}" using assms(1) by (auto simp: popup_menu_def split: if_splits)
  then consider "g_nCurrentPage s = 0" | "g_nCurrentPage s = 1" | "g_nCurrentPage s = 2" | "g_nCurrentPage s = 3" by auto
  then show ?thesis
  proof cases
    case 1
    with assms have "(uItemId m, t) \<in> {(1010, wide ''Refresh''), (1011, wide ''Export''), (1012, wide ''Restore all'')}"
      by (auto simp: popup_menu_def SSDTMenuProp_def menu_text_def separator_def zax_ids)
    with 1 menu_labels show ?thesis by (elim insertE) (simp_all add: ui_on_command_def menu_action_def zax_ids Let_def)
  next
    case 2
    with assms have "(uItemId m, t) \<in> {(1020, wide ''Refresh''), (1021, wide ''Export''), (1022, wide ''Restore all'')}"
      by (auto simp: popup_menu_def SSDTSMenuProp_def menu_text_def separator_def zax_ids)
    with 2 menu_labels show ?thesis by (elim insertE) (simp_all add: ui_on_command_def menu_action_def zax_ids Let_def)
  next
    case 3
    with assms have "(uItemId m, t) \<in> {(1030, wide ''Refresh''), (1031, wide ''Export'')}"
      by (auto simp: popup_menu_def IDTMenuProp_def menu_text_def separator_def zax_ids)
    with 3 menu_labels show ?thesis by (elim insertE) (simp_all add: ui_on_command_def menu_action_def zax_ids Let_def)
  next
    case 4
    with assms have "(uItemId m, t) \<in> {(1040, wide ''Refresh''), (1041, wide ''Export''), (1042, wide ''Restore all'')}"
      by (auto simp: popup_menu_def KernelMenuProp_def menu_text_def separator_def zax_ids)
    with 4 menu_labels show ?thesis by (elim insertE) (simp_all add: ui_on_command_def menu_action_def zax_ids Let_def)
  qed
qed

section \<open>Resources\<close>

text \<open>
  Two states with the same resources: handles, memory, identifiers, the connection to the driver and the fields of
  the window.
\<close>

definition same_resources :: "('k, 'a) app_scheme \<Rightarrow> ('k, 'a) app_scheme \<Rightarrow> bool" where
  "same_resources s t \<longleftrightarrow> open_handles t = open_handles s \<and> regions t = regions s \<and> sids t = sids s \<and>
     g_hDevice t = g_hDevice s \<and> g_hSCManager t = g_hSCManager s \<and> app.more t = app.more s"

lemma same_refl [simp]: "same_resources s s"
  by (simp add: same_resources_def)

lemma same_trans [trans]: "same_resources s t \<Longrightarrow> same_resources t u \<Longrightarrow> same_resources s u"
  by (simp add: same_resources_def)

lemma same_updates [simp]:
  "same_resources s (s\<lparr>rows := x\<rparr>)" "same_resources s (s\<lparr>columns := c\<rparr>)" "same_resources s (s\<lparr>boxes := b\<rparr>)"
  "same_resources s (s\<lparr>files := f\<rparr>)" "same_resources s (s\<lparr>kernel := k\<rparr>)"
  by (simp_all add: same_resources_def)

lemma WriteFile_same: "same_resources s (WriteFile h bs s)"
  by (simp add: WriteFile_def)

lemma write_loop_rt_same: "write_loop_rt cp h ts buf s = Some (s' :: ('k, 'a) app_scheme) \<Longrightarrow> same_resources s s'"
proof (induction ts arbitrary: buf s)
  case (Cons t ts)
  then have "same_resources (WriteFile h [9] (WriteFile h bs s)) s'" if "bs = take (lstrlen t) ((if length (cp (take (lstrlen t) t)) \<le> MAX_PATH
      then cp (take (lstrlen t) t) @ drop (length (cp (take (lstrlen t) t))) buf else buf)[lstrlen t := 0])" for bs
    using that by (simp add: Let_def split: if_splits)
  then show ?case using same_trans[OF same_trans[OF WriteFile_same WriteFile_same]] by blast
qed simp

lemma rt_write_same: "rt_write cp buf h ts s = Some (s' :: ('k, 'a) app_scheme) \<Longrightarrow> same_resources s s'"
  by (auto simp: rt_write_def WriteFile_def split: if_splits dest!: write_loop_rt_same intro: same_trans)

lemma show_row_same: "show_row w h i ts s = Some s' \<Longrightarrow> same_resources s s'"
proof -
  have "same_resources s (ui_lv_insert_item w i ts s)" by (simp add: ui_lv_insert_item_def)
  then show "show_row w h i ts s = Some s' \<Longrightarrow> same_resources s s'"
    by (auto simp: show_row_def Let_def split: if_splits dest!: rt_write_same intro: same_trans)
qed

lemma table_rows_same: "table_rows w h k i info a b c s = Some s' \<Longrightarrow> same_resources s s'"
proof (induction k arbitrary: i a b c s)
  case (Suc k)
  then show ?case by (auto simp: bind_eq_Some_conv Let_def dest!: show_row_same intro: same_trans)
qed simp

lemma idt_rows_same: "idt_rows w h k i r a b c d s = Some s' \<Longrightarrow> same_resources s s'"
proof (induction k arbitrary: i a b c d s)
  case (Suc k)
  then show ?case by (auto simp: bind_eq_Some_conv Let_def dest!: show_row_same intro: same_trans)
qed simp

lemma kernel_rows_same: "kernel_rows w h k i info a b c d s = Some s' \<Longrightarrow> same_resources s s'"
proof (induction k arbitrary: i a b c d s)
  case (Suc k)
  then show ?case by (auto simp: bind_eq_Some_conv Let_def split: if_splits dest!: show_row_same intro: same_trans)
qed simp

lemma drv_callkernel_same: "drv_callkernel ioctl code a n s = Some (ok, r, s' :: ('k, 'a) app_scheme) \<Longrightarrow> same_resources s s'"
  by (auto simp: drv_callkernel_def bind_eq_Some_conv split: if_splits)

lemma valloc_vfree_same:
  assumes "rt_valloc st base s = (p, s1)" "same_resources s1 (s2 :: ('k, 'a) app_scheme)" "0 \<notin># regions s"
  shows "same_resources s (rt_vfree p s2)"
  using assms by (auto simp: rt_valloc_def rt_vfree_def same_resources_def diff_single_trivial split: if_splits)

text \<open>The frame of a page: allocate, call, show, free.\<close>

lemma page_frame_same:
  assumes "rt_valloc st base s = (p, s1)" "drv_callkernel ioctl code p n s1 = Some (ok, r, s2)"
    "(if ok then if p = 0 then None else f s2 else Some s2) = Some (s3 :: ('k, 'a) app_scheme)"
    "\<And>t. f s2 = Some t \<Longrightarrow> same_resources s2 t" "0 \<notin># regions s"
  shows "same_resources s (rt_vfree p s3)"
proof -
  have "same_resources s1 s2" using assms(2) by (rule drv_callkernel_same)
  moreover have "same_resources s2 s3" using assms(3,4) by (auto split: if_splits)
  ultimately show ?thesis using valloc_vfree_same[OF assms(1) _ assms(5)] same_trans by blast
qed

lemma table_page_same:
  assumes "table_page ioctl w code h s = Some s'" "0 \<notin># regions s"
  shows "same_resources s s'"
  using assms unfolding table_page_def
  by (auto simp: Let_def bind_eq_Some_conv split: prod.splits intro!: page_frame_same[OF _ _ _ table_rows_same])

lemma page_idt_same:
  assumes "page_idt ioctl w h s = Some s'" "0 \<notin># regions s"
  shows "same_resources s s'"
  using assms unfolding page_idt_def
  by (auto simp: Let_def bind_eq_Some_conv split: prod.splits intro!: page_frame_same[OF _ _ _ idt_rows_same])

lemma page_kernel_same:
  assumes "page_kernel ioctl w h s = Some s'" "0 \<notin># regions s"
  shows "same_resources s s'"
  using assms unfolding page_kernel_def
  by (auto simp: Let_def bind_eq_Some_conv split: prod.splits intro!: page_frame_same[OF _ _ _ kernel_rows_same])

lemma page_refresh_same:
  assumes "page_refresh ioctl w p h s = Some s'" "0 \<notin># regions s"
  shows "same_resources s s'"
proof -
  have "same_resources s (ui_lv_clear_item s)" "0 \<notin># regions (ui_lv_clear_item s)" using assms(2) by (simp_all add: ui_lv_clear_item_def)
  with assms(1) show ?thesis
    unfolding page_refresh_def Let_def page_ssdt_def page_ssdts_def
    by (auto split: if_splits intro: same_trans table_page_same page_idt_same page_kernel_same)
qed

lemma insert_columns_same: "same_resources s (ui_lv_insert_columns cs n s)"
  unfolding ui_lv_insert_columns_def by (induction n arbitrary: s) (simp_all add: same_resources_def)

lemma page_chage_same:
  assumes "page_chage ioctl w p s = Some s'" "0 \<notin># regions s"
  shows "same_resources s s'"
proof -
  have j: "same_resources s (ui_lv_insert_columns cs n (s\<lparr>columns := []\<rparr>))" for cs n
    by (rule same_trans[OF same_updates(2) insert_columns_same])
  let ?t = "if p = 0 then ui_lv_insert_columns ColumnSSDT 4 (s\<lparr>columns := []\<rparr>)
    else if p = 1 then ui_lv_insert_columns ColumnSSDTS 4 (s\<lparr>columns := []\<rparr>)
    else if p = 2 then ui_lv_insert_columns ColumnIDT 4 (s\<lparr>columns := []\<rparr>)
    else if p = 3 then ui_lv_insert_columns ColumnKernel 4 (s\<lparr>columns := []\<rparr>) else s\<lparr>columns := []\<rparr>"
  have t: "page_refresh ioctl w p INVALID_HANDLE_VALUE ?t = Some s'" "same_resources s ?t"
    using assms(1) j by (simp_all add: page_chage_def Let_def ui_lv_clear_column_def delete_columns_all)
  moreover have "0 \<notin># regions ?t" using t(2) assms(2) unfolding same_resources_def by metis
  ultimately show ?thesis using page_refresh_same same_trans by blast
qed

lemma restoreall_same:
  assumes "drv_callkernel ioctl c 0 0 s = Some (ok, r, s1)" "0 \<notin># regions s"
    "table_page ioctl w c' h s1 = Some s' \<or> page_kernel ioctl w h s1 = Some s'"
  shows "same_resources s s'"
proof -
  have s1: "same_resources s s1" using assms(1) by (rule drv_callkernel_same)
  then have "0 \<notin># regions s1" using assms(2) by (simp add: same_resources_def)
  with assms(3) have "same_resources s1 s'" using table_page_same page_kernel_same by blast
  with s1 show ?thesis by (rule same_trans)
qed

lemma page_export_same:
  assumes "page_export ioctl w p s = Some s'" "0 \<notin># regions s"
  shows "same_resources s s'"
proof -
  let ?h = "CreateFile w (cstr (snd (rt_save_dialog (GetSaveFileName w) [0])))"
  let ?t = "opened ?h (s\<lparr>files := (files s)(?h := [])\<rparr>)"
  show ?thesis
  proof (cases "?h = INVALID_HANDLE_VALUE")
    case False
    then obtain u where u: "page_refresh ioctl w p ?h ?t = Some u" "s' = message_box ''Export completed'' ''Information'' (closed ?h u)"
      using assms(1) by (auto simp: page_export_def Let_def bind_eq_Some_conv)
    have "same_resources ?t u" using page_refresh_same[OF u(1)] assms(2) by (simp add: opened_def)
    then show ?thesis unfolding u(2) by (simp add: same_resources_def message_box_def closed_def opened_def)
  qed (use assms(1) in \<open>auto simp: page_export_def Let_def message_box_def\<close>)
qed

lemma if_mem: "x \<in> A \<Longrightarrow> y \<in> A \<Longrightarrow> (if b then x else y) \<in> A"
  by simp

lemma ui_on_command_cases:
  "ui_on_command ioctl w c s \<in> {Some s, page_refresh ioctl w (g_nCurrentPage s) INVALID_HANDLE_VALUE s,
     page_export ioctl w (g_nCurrentPage s) s, page_ssdt_restoreall ioctl w s, page_ssdts_restoreall ioctl w s,
     page_kernel_restoreall ioctl w s}"
  unfolding ui_on_command_def Let_def by (intro if_mem) simp_all

lemma ui_on_command_same:
  assumes "ui_on_command ioctl w c s = Some s'" "0 \<notin># regions s"
  shows "same_resources s s'"
proof -
  have "page_ssdt_restoreall ioctl w s = Some s' \<Longrightarrow> same_resources s s'" "page_ssdts_restoreall ioctl w s = Some s' \<Longrightarrow> same_resources s s'"
    "page_kernel_restoreall ioctl w s = Some s' \<Longrightarrow> same_resources s s'"
    using assms(2)
    by (auto simp: page_ssdt_restoreall_def page_ssdts_restoreall_def page_kernel_restoreall_def page_ssdt_def page_ssdts_def
        bind_eq_Some_conv intro: restoreall_same)
  moreover have "page_refresh ioctl w (g_nCurrentPage s) INVALID_HANDLE_VALUE s = Some s' \<Longrightarrow> same_resources s s'"
    "page_export ioctl w (g_nCurrentPage s) s = Some s' \<Longrightarrow> same_resources s s'"
    using assms(2) by (auto intro: page_refresh_same page_export_same)
  ultimately show ?thesis using assms(1) ui_on_command_cases[of ioctl w c s] by fastforce
qed


section \<open>A session\<close>

text \<open>The driver connection touches neither memory nor identifiers, nor the fields of the pages and the window.\<close>

definition drv_frame :: "('k, 'a) drvstate_scheme \<Rightarrow> ('k, 'a) drvstate_scheme \<Rightarrow> bool" where
  "drv_frame s t \<longleftrightarrow> regions t = regions s \<and> sids t = sids s \<and> drvstate.more t = drvstate.more s"

lemma drv_frame_trans: "drv_frame s t \<Longrightarrow> drv_frame t u \<Longrightarrow> drv_frame s u"
  by (simp add: drv_frame_def)

lemma drv_frame_opened [simp]: "drv_frame s (opened h s)" "drv_frame s (closed h s)" "drv_frame s (sc c s)" "drv_frame s s"
  by (simp_all add: drv_frame_def opened_def closed_def sc_def)

lemma drv_start_frame: "drv_frame s (snd (drv_start w n s))"
  by (simp add: drv_start_def drv_frame_def Let_def opened_def closed_def sc_def)

lemma drv_control_frame: "drv_frame s (snd (drv_control w n c s))"
  by (simp add: drv_control_def drv_frame_def Let_def opened_def closed_def sc_def)

lemma create_part_frame: "drv_frame s (snd (create_part w p n s))"
  by (simp add: create_part_def drv_frame_def Let_def opened_def closed_def sc_def)

lemma drv_install_frame: "drv_frame s (snd (drv_install w p n d s))"
proof -
  let ?h = "OpenService w (sc_calls s) (g_hSCManager s) n"
  let ?t = "closed ?h (sc (Delete n) (snd (drv_control w SERVICE_NAME SERVICE_CONTROL_STOP (opened ?h s))))"
  have "drv_frame s ?t"
    by (rule drv_frame_trans[OF drv_frame_opened(1) drv_frame_trans[OF drv_control_frame
        drv_frame_trans[OF drv_frame_opened(3) drv_frame_opened(2)]]])
  then have "drv_frame s (snd (create_part w p n ?t))" by (rule drv_frame_trans[OF _ create_part_frame])
  with \<open>drv_frame s ?t\<close> create_part_frame[of s w p n] show ?thesis
    unfolding drv_install_def Let_def by auto
qed

lemma drv_initialize_frame: "drv_frame s (snd (drv_initialize w s))"
proof -
  let ?a = "opened (OpenSCManager w) (s\<lparr>g_hSCManager := OpenSCManager w\<rparr>)"
  have "drv_frame s ?a" by (simp add: drv_frame_def opened_def)
  then have "drv_frame s (snd (drv_start w SERVICE_NAME (snd (drv_install w (Some (driver_path w)) SERVICE_NAME False ?a))))"
    by (rule drv_frame_trans[OF drv_frame_trans[OF _ drv_install_frame] drv_start_frame])
  then show ?thesis by (simp add: drv_initialize_def drv_link_def Let_def drv_frame_def opened_def)
qed

lemma drv_deinitialize_frame: "drv_frame s (drv_deinitialize w u s)"
proof -
  let ?t = "snd (drv_control w SERVICE_NAME SERVICE_CONTROL_STOP s)"
  let ?u = "if u then snd (drv_install w None SERVICE_NAME True ?t) else ?t"
  have "drv_frame s ?t" by (rule drv_control_frame)
  then have "drv_frame s ?u" using drv_frame_trans[OF _ drv_install_frame] by auto
  then show ?thesis unfolding drv_deinitialize_def Let_def closed_def drv_frame_def by (auto split: if_splits)
qed

text \<open>The invariant of a running session and what holds after it.\<close>

definition session :: "addr multiset \<Rightarrow> addr multiset \<Rightarrow> addr multiset \<Rightarrow> 'k gui \<Rightarrow> bool" where
  "session hs reg ids s \<longleftrightarrow> owned hs s \<and> regions s = reg \<and> sids s = ids \<and> g_hSCManager s \<noteq> INVALID_HANDLE_VALUE \<and> 0 \<notin># reg"

definition released :: "addr multiset \<Rightarrow> addr multiset \<Rightarrow> addr multiset \<Rightarrow> 'k gui \<Rightarrow> bool" where
  "released hs reg ids s \<longleftrightarrow> open_handles s = hs \<and> regions s = reg \<and> sids s = ids \<and>
     (\<forall>i<4. g_hPopupMenu s i = None) \<and> \<not> window s"

lemma gui_more: "app.more s = app.more t \<Longrightarrow> quit s = quit t"
  by (cases s; cases t) simp

lemma session_same: "same_resources s t \<Longrightarrow> session hs reg ids s \<Longrightarrow> session hs reg ids t"
  by (simp add: same_resources_def session_def owned_def)

lemma session_gui_update:
  "session hs reg ids (s\<lparr>window := b\<rparr>) = session hs reg ids s" "session hs reg ids (s\<lparr>sysmenu := m\<rparr>) = session hs reg ids s"
  "session hs reg ids (s\<lparr>g_hPopupMenu := q\<rparr>) = session hs reg ids s" "session hs reg ids (s\<lparr>tabs := t\<rparr>) = session hs reg ids s"
  "session hs reg ids (s\<lparr>shown := x\<rparr>) = session hs reg ids s" "session hs reg ids (s\<lparr>places := y\<rparr>) = session hs reg ids s"
  "session hs reg ids (s\<lparr>g_nCurrentPage := z\<rparr>) = session hs reg ids s"
  by (simp_all add: session_def owned_def)

lemma close_releases:
  assumes "session hs reg ids s"
  shows "released hs reg ids ((ui_on_close w s)\<lparr>window := False, quit := True\<rparr>)"
proof -
  let ?t = "drv_deinitialize (windows.truncate w) False s"
  have "open_handles ?t = hs" using drv_deinitialize_owned[of hs s "windows.truncate w" False] assms by (simp add: session_def)
  moreover have "regions ?t = reg" "sids ?t = ids"
    using drv_deinitialize_frame[of s "windows.truncate w" False] assms by (simp_all add: drv_frame_def session_def)
  ultimately show ?thesis
    by (auto simp: ui_on_close_def released_def upt_rec)
qed

lemma wndproc_session:
  assumes "ui_wndproc ioctl w m s = Some (b, s')" "session hs reg ids s" "\<not> quit s" "m \<noteq> WM_DESTROY"
  shows "if quit s' then released hs reg ids s' else session hs reg ids s'"
proof (cases "m = WM_CLOSE")
  case True
  then show ?thesis using assms(1) close_releases[OF assms(2), of w] by (auto simp: ui_wndproc_def)
next
  case False
  have r: "0 \<notin># regions s" using assms(2) by (auto simp: session_def)
  have k: "quit t = quit s \<and> session hs reg ids t" if "same_resources s t" for t
    using that session_same[OF that assms(2)] gui_more[of t s] by (auto simp: same_resources_def)
  have tab: "quit t = quit s \<and> session hs reg ids t" if "page_chage ioctl w n (s\<lparr>g_nCurrentPage := n\<rparr>) = Some t" for n t
  proof -
    have "same_resources (s\<lparr>g_nCurrentPage := n\<rparr>) t" using page_chage_same[OF that] r by simp
    moreover have "session hs reg ids (s\<lparr>g_nCurrentPage := n\<rparr>)" using assms(2) by (simp add: session_gui_update)
    ultimately have "session hs reg ids t" by (rule session_same)
    moreover have "quit t = quit s" using \<open>same_resources (s\<lparr>g_nCurrentPage := n\<rparr>) t\<close> gui_more[of t "s\<lparr>g_nCurrentPage := n\<rparr>"]
      by (simp add: same_resources_def)
    ultimately show ?thesis by simp
  qed
  have "quit s' = quit s \<and> session hs reg ids s'"
  proof (cases m)
    case (WM_NOTIFY i c)
    then show ?thesis
    proof (cases c)
      case (NM_RCLICK x)
      then show ?thesis using WM_NOTIFY assms(1,2)
        by (auto simp: ui_wndproc_def ui_on_lv_rightclick_def session_gui_update split: if_splits)
    next
      case (TCN_SELCHANGE x)
      with WM_NOTIFY assms(1) have "s' = s \<or> page_chage ioctl w x (s\<lparr>g_nCurrentPage := x\<rparr>) = Some s'"
        by (auto simp: ui_wndproc_def ui_on_tabctrl_change_def split: if_splits)
      then show ?thesis using tab assms(2) by blast
    qed (use assms in \<open>auto simp: ui_wndproc_def\<close>)
  next
    case (WM_COMMAND c)
    with assms(1) have "ui_on_command ioctl w c s = Some s'" by (auto simp: ui_wndproc_def)
    then show ?thesis by (rule k[OF ui_on_command_same[OF _ r]])
  next
    case (WM_SIZE a b)
    then show ?thesis using assms(1,2) by (auto simp: ui_wndproc_def ui_on_resize_def session_gui_update split: prod.splits)
  next
    case (WM_SYSCOMMAND c)
    then show ?thesis using assms(1) k[of "message_box _ _ s"] assms(2)
      by (auto simp: ui_wndproc_def message_box_def split: if_splits)
  qed (use assms False in \<open>auto simp: ui_wndproc_def\<close>)
  with assms(3) show ?thesis by simp
qed

lemma message_loop_session:
  "message_loop ioctl w msgs s = Some t \<Longrightarrow> session hs reg ids s \<Longrightarrow> \<not> quit s \<Longrightarrow> WM_DESTROY \<notin> set msgs \<Longrightarrow>
   if quit t then released hs reg ids t else session hs reg ids t"
proof (induction msgs arbitrary: s)
  case (Cons m ms)
  then obtain b s1 where s1: "ui_wndproc ioctl w m s = Some (b, s1)" "message_loop ioctl w ms s1 = Some t"
    by (auto simp: bind_eq_Some_conv)
  show ?case
  proof (cases "quit s1")
    case True
    then have "s1 = t" using s1(2) by (cases ms) auto
    with True show ?thesis using wndproc_session[OF s1(1) Cons.prems(2,3)] Cons.prems(4) by auto
  next
    case False
    then have "session hs reg ids s1" using wndproc_session[OF s1(1) Cons.prems(2,3)] Cons.prems(4) by auto
    then show ?thesis using Cons.IH[OF s1(2) _ False] Cons.prems(4) by auto
  qed
qed simp

lemma before_create_session:
  assumes "ui_on_before_create w s = (True, s1)" "g_hDevice s = 0" "g_hSCManager s = 0" "0 \<notin># regions s"
    "OpenSCManager w \<noteq> INVALID_HANDLE_VALUE"
  shows "session (open_handles s) (regions s) (sids s) s1 \<and> quit s1 = quit s"
proof -
  obtain b1 s2 where a: "rt_is_administrator (admin_sid w) (admin_member w) s = (b1, s2)" "s2 = s"
    using wrappers_release(2) by (metis prod.collapse)
  obtain b2 s3 where b: "rt_enable_privilege (token_status w) (token w) (adjust_status w) s = (b2, s3)" "s3 = s"
    using wrappers_release(1) by (metis prod.collapse)
  have s1: "s1 = snd (drv_initialize (windows.truncate w) s)"
    using assms(1) a b by (auto simp: ui_on_before_create_def Let_def split: if_splits prod.splits)
  have f: "drv_frame s s1" unfolding s1 by (rule drv_initialize_frame)
  have "owned (open_handles s) s" using assms(2,3) by (simp add: owned_def)
  then have "owned (open_handles s) s1" unfolding s1 by (rule drv_initialize_owned) (use assms in auto)
  moreover have "g_hSCManager s1 \<noteq> INVALID_HANDLE_VALUE"
    unfolding s1 drv_initialize_manager using assms(5) by (cases w) (simp add: windows.truncate_def)
  moreover have "quit s1 = quit s" using f by (cases s; cases s1) (simp add: drv_frame_def)
  ultimately show ?thesis using f assms(4) by (simp add: session_def drv_frame_def)
qed

lemma after_create_session:
  assumes "ui_on_after_create ioctl w s = Some s1" "session hs reg ids s"
  shows "session hs reg ids s1 \<and> quit s1 = quit s"
proof -
  obtain t where t: "page_chage ioctl w (GetCurSel w) t = Some s1" "session hs reg ids t" "quit t = quit s"
    using assms by (auto simp: ui_on_after_create_def Let_def upt_rec session_gui_update)
  then have "same_resources t s1" by (auto intro: page_chage_same simp: session_def)
  with t session_same show ?thesis using gui_more[of s1 t] by (auto simp: same_resources_def session_def owned_def)
qed

text \<open>
  C33. A session gives everything back: if the window was created and the user closes it, whatever was clicked and
  whatever the driver answered in between, the process then has the handles, the memory and the identifiers that it had
  before, and the menus and the window are gone.
\<close>

theorem session_releases:
  assumes "g_hDevice s = 0" "g_hSCManager s = 0" "0 \<notin># regions s" "\<not> quit s" "OpenSCManager w \<noteq> INVALID_HANDLE_VALUE"
    "ui_create ioctl w s = Some (True, s1)" "message_loop ioctl w msgs s1 = Some t" "WM_DESTROY \<notin> set msgs" "quit t"
  shows "open_handles t = open_handles s \<and> regions t = regions s \<and> sids t = sids s \<and>
    (\<forall>i<4. g_hPopupMenu t i = None) \<and> \<not> window t"
proof -
  obtain s0 where s0: "ui_on_before_create w s = (True, s0)" "ui_on_after_create ioctl w (s0\<lparr>window := True\<rparr>) = Some s1"
    using assms(6) by (auto simp: ui_create_def Let_def split: prod.splits if_splits)
  from before_create_session[OF s0(1) assms(1-3,5)]
  have "session (open_handles s) (regions s) (sids s) (s0\<lparr>window := True\<rparr>)" "quit (s0\<lparr>window := True\<rparr>) = quit s"
    by (simp_all add: session_gui_update)
  with after_create_session[OF s0(2)] assms(4) have "session (open_handles s) (regions s) (sids s) s1" "\<not> quit s1" by auto
  from message_loop_session[OF assms(7) this assms(8)] assms(9) show ?thesis by (simp add: released_def)
qed

text \<open>With a driver that refuses every request the pages still return.\<close>

abbreviation refuse :: "'k ioctl" where
  "refuse \<equiv> \<lambda>_ _ _ k. Some (False, No_data, k)"

lemma refuse_callkernel: "drv_callkernel refuse code a n s = Some (False, No_data, s)"
  by (cases s) (simp add: drv_callkernel_def)

lemma refuse_pages:
  "\<exists>s'. table_page refuse w code h s = Some s'" "\<exists>s'. page_idt refuse w h s = Some s'" "\<exists>s'. page_kernel refuse w h s = Some s'"
  by (simp_all add: table_page_def page_idt_def page_kernel_def refuse_callkernel split_def Let_def)

lemma refuse_refresh: "\<exists>s'. page_refresh refuse w p h s = Some s'"
  by (simp add: page_refresh_def page_ssdt_def page_ssdts_def Let_def refuse_pages)

definition small_gui_windows :: gui_windows where
  "small_gui_windows = \<lparr>OpenSCManager = 8, OpenService = (\<lambda>_ _ _. 12), StartService = (\<lambda>_. True), ControlService = (\<lambda>_. True),
     CreateService = (\<lambda>_. 16), OpenDevice = (\<lambda>_ _. 20), GetModuleFileName = wide (''C:'' @ CHR 0x5C # ''zax.exe''),
     InsertItem = (\<lambda>_. True), AllocateMemory = (\<lambda>_. (0, 0x10000)), GetSaveFileName = Some (wide ''out.txt''),
     CreateFile = (\<lambda>_. 24), acp = map ucast, junk = (\<lambda>_. 7), junk_bytes = (\<lambda>_. 7),
     wow64 = None, version = Some (1, 2600), admin_sid = Some 40, admin_member = Some True, token_status = 0, token = 44,
     adjust_status = 0, RegisterClassEx = True, CreateMain = True, GetClientRect = True, CreateTab = True, CreateListView = True,
     GetCurSel = 0, ShowWindow = False, adjust = (\<lambda>r. r)\<rparr>"

definition small_gui :: "unit gui" where
  "small_gui = \<lparr>open_handles = {#4#}, sids = {#}, regions = {#}, files = (\<lambda>_. []), g_hDevice = 0, g_hSCManager = 0,
     sc_calls = [], kernel = (), rows = [], columns = [], boxes = [], g_nCurrentPage = 0, g_hPopupMenu = (\<lambda>_. None),
     shown = [], tabs = [], sysmenu = [], places = [], window = False, quit = False\<rparr>"


lemma refuse_chage: "\<exists>s'. page_chage refuse w p s = Some s'"
  by (simp add: page_chage_def Let_def refuse_refresh)

lemma small_created: "\<exists>s1. ui_create refuse small_gui_windows small_gui = Some (True, s1)"
proof -
  have "fst (ui_on_before_create small_gui_windows s) = True" for s :: "unit gui"
    by (simp add: ui_on_before_create_def small_gui_windows_def rt_check_verion_def rt_is_administrator_def rt_enable_privilege_def
      NT_SUCCESS_def Let_def split_def drv_initialize_def)
  then obtain s0 where "ui_on_before_create small_gui_windows small_gui = (True, s0)" by (metis prod.collapse)
  moreover have "\<exists>s1. ui_on_after_create refuse small_gui_windows s = Some s1" for s :: "unit gui"
    unfolding ui_on_after_create_def Let_def by (rule refuse_chage)
  ultimately show ?thesis
    by (simp add: ui_create_def small_gui_windows_def)
qed

theorem session_releases_witness:
  "\<exists>s1 t. ui_create refuse small_gui_windows small_gui = Some (True, s1) \<and>
    message_loop refuse small_gui_windows [WM_COMMAND IDM_SSDT_REFRESH, WM_CLOSE] s1 = Some t \<and> open_handles t = {#4#} \<and> \<not> window t"
proof -
  obtain s1 where s1: "ui_create refuse small_gui_windows small_gui = Some (True, s1)" using small_created by blast
  obtain s2 where s2: "ui_on_command refuse small_gui_windows IDM_SSDT_REFRESH s1 = Some s2"
    using refuse_refresh[of small_gui_windows "g_nCurrentPage s1" INVALID_HANDLE_VALUE s1] by (auto simp: ui_on_command_def zax_ids)
  obtain t where t: "message_loop refuse small_gui_windows [WM_COMMAND IDM_SSDT_REFRESH, WM_CLOSE] s1 = Some t" "quit t"
    using s2 by (cases "quit s1"; cases "quit s2") (auto simp: ui_wndproc_def)
  have "open_handles t = open_handles small_gui \<and> regions t = regions small_gui \<and> sids t = sids small_gui \<and>
    (\<forall>i<4. g_hPopupMenu t i = None) \<and> \<not> window t"
    by (rule session_releases[OF _ _ _ _ _ s1 t(1) _ t(2)]) (simp_all add: small_gui_def small_gui_windows_def)
  with s1 t show ?thesis by (auto simp: small_gui_def)
qed

theorem menu_items_act_witness:
  "ui_on_command refuse small_gui_windows IDM_SSDT_EXPORT small_gui = page_export refuse small_gui_windows PAGE_SSDT small_gui"
proof -
  have "menu_text IDM_SSDT_EXPORT ''Export'' \<in> set (popup_menu (g_nCurrentPage small_gui))"
    "lpItem (menu_text IDM_SSDT_EXPORT ''Export'') = Some (wide ''Export'')"
    by (simp_all add: popup_menu_def small_gui_def SSDTMenuProp_def menu_text_def)
  from menu_items_act[OF this, of refuse small_gui_windows] show ?thesis
    using menu_labels(1) by (simp add: menu_text_def menu_action_def small_gui_def)
qed

text \<open>The menus are those of the four pages once the window exists.\<close>

lemma popups_created:
  assumes "ui_on_after_create ioctl w s = Some s'" "0 \<notin># regions s" "p < 4"
  shows "g_hPopupMenu s' p = Some (popup_menu (int p))"
proof -
  obtain t where t: "page_chage ioctl w (GetCurSel w) t = Some s'" "regions t = regions s"
    and m: "g_hPopupMenu t p = Some (popup_menu (int p))"
    using assms(1,3)
    by (auto simp: ui_on_after_create_def Let_def upt_rec append_menus popup_menu_def less_Suc_eq numeral_eq_Suc)
  have "same_resources t s'" using page_chage_same[OF t(1)] assms(2) t(2) by simp
  then have "g_hPopupMenu s' = g_hPopupMenu t" by (cases s'; cases t) (simp add: same_resources_def)
  with m show ?thesis by simp
qed

text \<open>
  When the window cannot be created, the driver stays started and its connection open: only \<^verbatim>\<open>ui_on_close\<close> undoes
  \<^verbatim>\<open>drv_initialize\<close>.
\<close>

lemma failed_creation_leaks:
  assumes "ui_on_before_create w s = (True, s0)" "\<not> RegisterClassEx w"
  shows "ui_main ioctl w msgs s = Some s0"
  using assms by (simp add: ui_main_def ui_create_def)

end
