(* ===== verification/Spec2Isabelle.thy ===== *)
theory Spec2Isabelle
  imports Dotjson_Roundtrip Dotjson_Heap EnvExt LDasm Md5 Thrpool_Life Tcp_Echo Wohn_Session Zax_System Zax_GUI
begin

text \<open>
  Verification of the C and C++ programs of the repository. They are independent of each other: \<^verbatim>\<open>dotjson\<close> (a JSON
  library), \<^verbatim>\<open>thrpool\<close> (a thread pool), \<^verbatim>\<open>tcp_echo\<close> (an epoll echo server), \<^verbatim>\<open>zax-inspector\<close> (a Windows application
  with its kernel driver \<^verbatim>\<open>zik\<close>, which shows and repairs hooked service tables), \<^verbatim>\<open>md5\<close> (the hash), \<^verbatim>\<open>wohn\<close> (a
  dialog that runs a wireless hosted network and shares a connection with it) and \<^verbatim>\<open>envext\<close> (an editor plugin that sets
  environment variables).

  \<^bold>\<open>Conventions.\<close> A function of the source is a function of the same name; a part of a long function (a loop, a branch)
  has a name of its own and stands before it. State is passed explicitly as a record of the globals. \<open>None\<close> is a fault:
  an access outside a buffer or to unmapped memory, \<^verbatim>\<open>NULL\<close>, a reference that is not owned. The loops that may
  not end (\<^verbatim>\<open>SizeOfProc\<close>, \<^verbatim>\<open>LocateWin32kBase\<close>, \<^verbatim>\<open>GetSum\<close>) are partial functions for which \<open>None\<close> also stands for running forever, and that
  they return is proved; all others are total. Machine integers are words of their width.
  What lies outside the repository (Windows and Linux services, the allocator, memory contents, the scheduler, the user)
  is a parameter: a record of functions that may answer by the history of calls, or a sequence of results or steps. What the
  code relies on is stated as hypotheses on these parameters, and each property that has them has a witness on a
  concrete machine. \<open>Prelude\<close> holds the shared vocabulary and lemmas.

  \<^bold>\<open>dotjson\<close> (\<^verbatim>\<open>c/dotjson/dotjson.c\<close>). \<open>Dotjson_Text\<close>: white space and comments, hash, UTF-8, string literals (locale
  \<open>skipper\<close>, the contract of skipping functions, interpreted by \<open>IGNORE_CHARS\<close>). \<open>Dotjson_Table\<close>: the hash table with
  growth and the array (locale \<open>lookup_table\<close>, interpreted by the table). \<open>Dotjson_Decode\<close> and \<open>Dotjson_Encode\<close>: all
  functions of decoder, destructor and encoder, over a counting heap and explicit buffers. \<open>Dotjson_Parse\<close>: a grammar of
  the accepted texts, equivalence of the decoder with it, total correctness, independence of the bytes behind the terminator,
  lookup in decoded objects. \<open>Dotjson_Roundtrip\<close>: decoding what was encoded. \<open>Dotjson_Heap\<close>: what the destructor frees
  and what it leaks. The nesting depth of the decoder is bounded by fuel, and \<^verbatim>\<open>dotjson_decode\<close> takes the length of the text,
  which \<open>dotjson_decode_correct\<close> shows to be always enough; every other loop is a total function.

  \<^bold>\<open>thrpool\<close> (\<^verbatim>\<open>c/thrpool/thrpool.c\<close>). \<open>Thrpool\<close>: a step relation of interleaved threads, one position per place where
  a thread can be suspended, with mutexes and condition variables (spurious wake-ups included); locale \<open>fifo_queue\<close>,
  interpreted by the linked list. \<open>Thrpool_Tasks\<close>: ownership of tasks, order of service, no use of a freed task.
  \<open>Thrpool_Life\<close>: sleeping workers are woken, destruction waits for the workers, and the interleavings in which the code
  deadlocks or uses a freed pool.

  \<^bold>\<open>tcp_echo\<close> (\<^verbatim>\<open>c/tcp_echo/main.c\<close>). \<open>Tcp_Echo\<close>: from \<^verbatim>\<open>main\<close> to the handler of a client, over sockets whose results
  are given; the server echoes exactly what it read, never faults, and one client does not disturb another. A loop runs over the list of
  results that the system calls give it; a list that is used up is an outcome of its own, \<open>Starved\<close>.

  \<^bold>\<open>zik\<close> (\<^verbatim>\<open>c/zax-inspector/zik\<close>). \<open>LDasm\<close>: the opcode tables and the length disassembler. \<open>Zik_Mem\<close>: layouts of the
  declared structures and little-endian memory. \<open>Zik_SSDT\<close>: finding, reporting and restoring the service tables.
  \<open>Zik_Driver\<close>: control codes, interrupt table, dispatch, loading and unloading. The memory is the whole address space:
  reports are stored at the address the caller gives, and a store to a protected page needs the write-protect bit off.
  So the properties say which bytes a request writes, and that a report can overwrite the kernel. The driver's globals and
  its block with the original addresses are kept apart from this memory. The loops over tables count down their entries.

  \<^bold>\<open>zax-inspector\<close> (\<^verbatim>\<open>c/zax-inspector/ZaxInspector\<close>). \<open>Zax_RT\<close>: conversions and wrappers. \<open>Zax_Driver\<close>: the
  connection to the driver. \<open>Zax_Page\<close>: the pages over a list view, with the locale \<open>service_table_device\<close>: what a page
  needs of a device, and what refreshing and restoring then show. \<open>Zax_System\<close> interprets it with \<open>DeviceDispatch\<close> of
  the driver, which writes into the block of the page, and reads the block back, so that a click in the application is followed down to the kernel table. \<open>Zax_GUI\<close>: window, menus,
  handlers and message loop, and the balance of handles and memory of a whole session.

  \<^bold>\<open>md5\<close> (\<^verbatim>\<open>cpp/md5\<close>). \<open>Md5\<close>: the class as written, its 64 unrolled lines included, and equality with the algorithm of
  RFC 1321 in its own words, for every length below the one at which the loop counter wraps around.

  \<^bold>\<open>wohn\<close> (\<^verbatim>\<open>cpp/wohn\<close>). \<open>Wohn_Core\<close>: all of \<^verbatim>\<open>WohnCore.cpp\<close> over the globals and the multisets of handles, memory blocks
  and object references the program owns. Three functions walk over the connections of the machine with the same frame;
  \<open>Wohn_Sharing\<close> has the locale \<open>connection_visitor\<close>, the contract of what such a walk does with one connection, proves for it that a walk
  gives back what it took, and interprets it with the three bodies (finding shared connections, sharing, listing). \<open>Wohn_Life\<close>: the invariant of the
  initialised core, kept by every operation; a session faults exactly when it sets a key that overruns its buffer, and else
  ends with everything released; sharing is all or
  nothing; the network name is read back; what is leaked, overrun or lost. \<open>Wohn_UI\<close>: \<^verbatim>\<open>WohnUI.cpp\<close> as an extension of
  the core's record by the controls of the dialog: every handler keeps the invariant, and the dialog shows the state of the
  network. \<open>Wohn_Session\<close>: the threads of the WLAN service beside the thread of the dialog, in every interleaving; what is
  released at the end, and exactly when closing calls a removed callback or hangs.

  \<^bold>\<open>envext\<close> (\<^verbatim>\<open>cpp/envext\<close>). \<open>EnvExt\<close>: the editor plugin, from its path to its configuration file, the loops over the
  section in memory, the commands and entry points; loading it applies the lines of the section in order.

  \<^bold>\<open>What goes wrong\<close> is stated too: theorems give the inputs or interleavings on which the code does not do
  what it means to (leaks, lost wake-ups, wrong conversions, a password that becomes the network's name).

  \<^bold>\<open>Not modelled.\<close> \<^verbatim>\<open>cpp/collision\<close> computes with \<^verbatim>\<open>float\<close>, for which there is no model here; over the reals the
  definitions would not be the code. \<^verbatim>\<open>ntdll.h\<close> is a third-party header of declarations, and so are the editor's headers
  beside \<^verbatim>\<open>envext\<close>. Three list-view functions of \<^verbatim>\<open>ZaxGUI.c\<close> are never called, and
  fonts, window classes and icons have no behaviour. The tests only print. The programs in Go, Rust, C#,
  Java, Swift and shell are separate programs in other languages.
\<close>

end
